(* ===== verification/Prelude.thy ===== *)
theory Prelude
  imports Main "HOL-Library.Word" "HOL-Library.Multiset"
begin

unbundle bit_operations_syntax

text \<open>
  Shared vocabulary of the development: the C types the components use, C strings
  (a \<open>string\<close> is the text before the terminating NUL), the outcomes of \<open>malloc\<close> and
  \<open>strdup\<close>, the character tests of \<open>ctype.h\<close> in the C locale, lists reached through
  \<open>next\<close> pointers (a pointer is the suffix of the list that starts at the node, \<open>NULL\<close>
  is the empty list), and a locale for transition systems whose invariants are proved
  once and instantiated by the components.
\<close>

section \<open>Types and constants\<close>

type_synonym u32 = "32 word"
type_synonym u64 = "64 word"
type_synonym addr = nat
type_synonym time = int

text \<open>
  The outcomes of the allocations that a run still makes, in order; after the list is
  used up every allocation succeeds.
\<close>

type_synonym mem = "bool list"

named_theorems cstr_simps \<open>rewriting of C string operations\<close>
named_theorems inv_intros \<open>invariants kept by the operations of a component\<close>
named_theorems frame_simps \<open>fields that an operation leaves alone\<close>

section \<open>Memory allocation\<close>

fun malloc :: "mem \<Rightarrow> bool \<times> mem" where
  "malloc [] = (True, [])"
| "malloc (b # bs) = (b, bs)"

abbreviation malloc_ok :: "mem \<Rightarrow> bool" where
  "malloc_ok m \<equiv> fst (malloc m)"

abbreviation malloc_rest :: "mem \<Rightarrow> mem" where
  "malloc_rest m \<equiv> snd (malloc m)"

text \<open>No allocation of the run fails.\<close>

definition mem_ample :: "mem \<Rightarrow> bool" where
  "mem_ample m \<longleftrightarrow> (\<forall>b \<in> set m. b)"

lemma mem_ample_Nil [simp]: "mem_ample []"
  by (simp add: mem_ample_def)

lemma mem_ample_malloc [simp]:
  assumes "mem_ample m"
  shows "malloc_ok m" "mem_ample (malloc_rest m)"
  using assms by (cases m; simp add: mem_ample_def)+

lemma mem_ampleE:
  assumes "mem_ample m"
  obtains m' where "malloc m = (True, m')" "mem_ample m'"
  using mem_ample_malloc [OF assms] by (cases "malloc m") auto

section \<open>C strings\<close>

definition NUL :: char where
  "NUL = CHR 0x00"

text \<open>\<open>s[i]\<close>: \<open>None\<close> beyond the terminator, where C reads outside the string.\<close>

definition cstr_at :: "string \<Rightarrow> nat \<Rightarrow> char option" where
  "cstr_at s i = (if i < length s then Some (s ! i) else if i = length s then Some NUL else None)"

text \<open>\<open>*s\<close>, always inside a C string.\<close>

definition cstr_hd :: "string \<Rightarrow> char" where
  "cstr_hd s = (case s of [] \<Rightarrow> NUL | c # _ \<Rightarrow> c)"

text \<open>\<open>strncmp(a, b, n) == 0\<close> on NUL-free strings.\<close>

definition strncmp_eq :: "string \<Rightarrow> string \<Rightarrow> nat \<Rightarrow> bool" where
  "strncmp_eq a b n \<longleftrightarrow> take n a = take n b"

text \<open>\<open>strchr(s, c)\<close>: the suffix that starts at the first \<open>c\<close>, for \<open>c\<close> other than NUL.\<close>

fun strchr :: "string \<Rightarrow> char \<Rightarrow> string option" where
  "strchr [] c = None"
| "strchr (x # xs) c = (if x = c then Some (x # xs) else strchr xs c)"

text \<open>A C string holds no NUL.\<close>

definition cstring :: "string \<Rightarrow> bool" where
  "cstring s \<longleftrightarrow> NUL \<notin> set s"

lemma cstr_at_0 [cstr_simps]: "cstr_at s 0 = Some (cstr_hd s)"
  by (cases s) (auto simp: cstr_at_def cstr_hd_def)

lemma cstr_hd_simps [simp]: "cstr_hd [] = NUL" "cstr_hd (c # s) = c"
  by (simp_all add: cstr_hd_def)

lemma cstr_at_in [cstr_simps]: "i < length s \<Longrightarrow> cstr_at s i = Some (s ! i)"
  by (simp add: cstr_at_def)

lemma cstr_at_len [cstr_simps]: "cstr_at s (length s) = Some NUL"
  by (simp add: cstr_at_def)

lemma strncmp_eq_prefix:
  "length p \<le> n \<Longrightarrow> strncmp_eq p s (length p) \<longleftrightarrow> take (length p) s = p"
  by (auto simp: strncmp_eq_def)

lemma strchr_Some_decomp:
  "strchr s c = Some t \<Longrightarrow> \<exists>pre post. s = pre @ c # post \<and> t = c # post \<and> c \<notin> set pre"
proof (induction s)
  case (Cons x xs)
  show ?case
  proof (cases "x = c")
    case True
    with Cons.prems have "x # xs = [] @ c # xs \<and> t = c # xs \<and> c \<notin> set []" by simp
    then show ?thesis by blast
  next
    case False
    with Cons.prems have "strchr xs c = Some t" by simp
    with Cons.IH obtain pre post where "xs = pre @ c # post" "t = c # post" "c \<notin> set pre" by blast
    with False have "x # xs = (x # pre) @ c # post \<and> t = c # post \<and> c \<notin> set (x # pre)" by simp
    then show ?thesis by blast
  qed
qed simp

lemma strchr_None_iff: "strchr s c = None \<longleftrightarrow> c \<notin> set s"
  by (induction s) auto

lemma strchr_append: "c \<notin> set pre \<Longrightarrow> strchr (pre @ c # post) c = Some (c # post)"
  by (induction pre) auto

text \<open>\<open>strstr(str, pat)\<close>, with what stands before the match.\<close>

fun strstr :: "string \<Rightarrow> string \<Rightarrow> (string \<times> string) option" where
  "strstr [] pat = (if pat = [] then Some ([], []) else None)"
| "strstr (c # cs) pat =
     (if strncmp_eq (c # cs) pat (length pat) then Some ([], c # cs)
      else map_option (\<lambda>(pre, p). (c # pre, p)) (strstr cs pat))"

lemma strstr_split: "strstr s pat = Some (pre, p) \<Longrightarrow> s = pre @ p \<and> take (length pat) p = pat"
  by (induction s pat arbitrary: pre rule: strstr.induct) (auto simp: strncmp_eq_def split: if_splits)

section \<open>Characters\<close>

definition BS :: char where "BS = CHR 0x08"
definition TAB :: char where "TAB = CHR 0x09"
definition LF :: char where "LF = CHR 0x0A"
definition VT :: char where "VT = CHR 0x0B"
definition FF :: char where "FF = CHR 0x0C"
definition CR :: char where "CR = CHR 0x0D"
definition DQUOTE :: char where "DQUOTE = CHR 0x22"
definition SQUOTE :: char where "SQUOTE = CHR 0x27"
definition BSLASH :: char where "BSLASH = CHR 0x5C"

lemmas char_consts = BS_def TAB_def LF_def VT_def FF_def CR_def DQUOTE_def SQUOTE_def BSLASH_def NUL_def

text \<open>The value of a \<open>char\<close>, which is signed.\<close>

definition schar :: "char \<Rightarrow> int" where
  "schar c = (let n = of_char c in if n < 128 then n else n - 256)"

definition isspace :: "char \<Rightarrow> bool" where
  "isspace c \<longleftrightarrow> c = CHR '' '' \<or> (9 \<le> (of_char c :: nat) \<and> (of_char c :: nat) \<le> 13)"

definition isblank :: "char \<Rightarrow> bool" where
  "isblank c \<longleftrightarrow> c = CHR '' '' \<or> c = CHR 0x09"

definition isdigit :: "char \<Rightarrow> bool" where
  "isdigit c \<longleftrightarrow> 48 \<le> (of_char c :: nat) \<and> (of_char c :: nat) \<le> 57"

definition isalpha :: "char \<Rightarrow> bool" where
  "isalpha c \<longleftrightarrow> (65 \<le> (of_char c :: nat) \<and> (of_char c :: nat) \<le> 90)
     \<or> (97 \<le> (of_char c :: nat) \<and> (of_char c :: nat) \<le> 122)"

definition isalnum :: "char \<Rightarrow> bool" where
  "isalnum c \<longleftrightarrow> isalpha c \<or> isdigit c"

lemma not_isspace_NUL [simp]: "\<not> isspace NUL"
  by (simp add: isspace_def NUL_def)

lemma not_isalnum_NUL [simp]: "\<not> isalnum NUL"
  by (simp add: isalnum_def isalpha_def isdigit_def NUL_def)

section \<open>Lists reached through next pointers\<close>

text \<open>
  The pointer to the first node satisfying \<open>P\<close> in a chain, \<open>NULL\<close> (the empty list) when
  there is none: what a loop \<open>for (p = head; p; p = p->next)\<close> with a return finds.
\<close>

definition chain_find :: "('a \<Rightarrow> bool) \<Rightarrow> 'a list \<Rightarrow> 'a list" where
  "chain_find P xs = dropWhile (\<lambda>x. \<not> P x) xs"

lemma chain_find_simps [simp]:
  "chain_find P [] = []"
  "chain_find P (x # xs) = (if P x then x # xs else chain_find P xs)"
  by (simp_all add: chain_find_def)

lemma chain_find_Nil_iff: "chain_find P xs = [] \<longleftrightarrow> (\<forall>x \<in> set xs. \<not> P x)"
  by (auto simp: chain_find_def dropWhile_eq_Nil_conv)

lemma chain_find_append:
  "chain_find P (xs @ ys) = (if chain_find P xs = [] then chain_find P ys else chain_find P xs @ ys)"
  by (induction xs) auto

lemma chain_find_hd: "chain_find P xs = y # ys \<Longrightarrow> P y"
  by (induction xs) (auto split: if_splits)

lemma chain_find_decomp:
  "chain_find P xs = y # ys \<Longrightarrow> \<exists>pre. xs = pre @ y # ys \<and> (\<forall>x \<in> set pre. \<not> P x) \<and> P y"
proof (induction xs)
  case (Cons x xs)
  show ?case
  proof (cases "P x")
    case True
    with Cons.prems show ?thesis by (intro exI [of _ "[]"]) simp
  next
    case False
    with Cons.prems have "chain_find P xs = y # ys" by simp
    with Cons.IH obtain pre where "xs = pre @ y # ys" "\<forall>z \<in> set pre. \<not> P z" "P y" by blast
    with False show ?thesis by (intro exI [of _ "x # pre"]) simp
  qed
qed simp

lemma chain_find_set: "chain_find P xs = y # ys \<Longrightarrow> y \<in> set xs"
  by (auto dest: chain_find_decomp)

lemma chain_find_map:
  "(\<And>x. P (f x) = P x) \<Longrightarrow> chain_find P (map f xs) = map f (chain_find P xs)"
  by (induction xs) auto

lemma chain_find_filter:
  "(\<And>x. P x \<Longrightarrow> Q x) \<Longrightarrow> chain_find P (filter Q xs) = filter Q (chain_find P xs)"
  by (induction xs) auto

section \<open>Tables of chains\<close>

lemma mset_concat_update:
  "i < length xs \<Longrightarrow> mset (concat (xs[i := c])) + mset (xs ! i) = mset (concat xs) + mset c"
proof (induction xs arbitrary: i)
  case (Cons x xs)
  then show ?case by (cases i) (auto simp: algebra_simps)
qed simp

lemma set_concat_update:
  assumes "i < length xs"
  shows "set (concat (xs[i := c])) \<subseteq> set (concat xs) \<union> set c"
  using set_update_subset_insert [of xs i c] by auto

lemma distinct_map_mset:
  "mset xs = mset ys \<Longrightarrow> distinct (map f xs) \<longleftrightarrow> distinct (map f ys)"
  by (metis mset_eq_imp_distinct_iff mset_map)

lemma distinct_map_submset:
  "distinct (map f ys) \<Longrightarrow> mset xs \<subseteq># mset ys \<Longrightarrow> distinct (map f xs)"
  by (metis distinct_append distinct_map_mset map_append mset_append mset_subset_eq_exists_conv
      ex_mset)

lemma all_nth_update:
  "i < length xs \<Longrightarrow> (\<forall>j < length (xs[i := c]). P j (xs[i := c] ! j)) \<longleftrightarrow>
     P i c \<and> (\<forall>j < length xs. j \<noteq> i \<longrightarrow> P j (xs ! j))"
  by (auto simp: nth_list_update)

section \<open>Transition systems\<close>

text \<open>The states reached from an initial state by steps, each labelled with an event.\<close>

inductive reach :: "('s \<Rightarrow> bool) \<Rightarrow> ('s \<Rightarrow> 'e \<Rightarrow> 's \<Rightarrow> bool) \<Rightarrow> 's \<Rightarrow> bool"
  for init :: "'s \<Rightarrow> bool" and step :: "'s \<Rightarrow> 'e \<Rightarrow> 's \<Rightarrow> bool" where
  reach_init: "init s \<Longrightarrow> reach init step s"
| reach_step: "reach init step s \<Longrightarrow> step s e t \<Longrightarrow> reach init step t"

inductive steps :: "('s \<Rightarrow> 'e \<Rightarrow> 's \<Rightarrow> bool) \<Rightarrow> 's \<Rightarrow> 'e list \<Rightarrow> 's \<Rightarrow> bool"
  for step :: "'s \<Rightarrow> 'e \<Rightarrow> 's \<Rightarrow> bool" where
  steps_Nil: "steps step s [] s"
| steps_Cons: "step s e t \<Longrightarrow> steps step t es u \<Longrightarrow> steps step s (e # es) u"

locale transition_system =
  fixes init :: "'s \<Rightarrow> bool"
    and step :: "'s \<Rightarrow> 'e \<Rightarrow> 's \<Rightarrow> bool"
    and invar :: "'s \<Rightarrow> bool"
  assumes invar_init: "init s \<Longrightarrow> invar s"
    and invar_step: "invar s \<Longrightarrow> step s e t \<Longrightarrow> invar t"
begin

lemma invar_reach: "reach init step s \<Longrightarrow> invar s"
  by (induction rule: reach.induct) (auto intro: invar_init invar_step)

lemma invar_steps: "steps step s es t \<Longrightarrow> invar s \<Longrightarrow> invar t"
  by (induction rule: steps.induct) (auto intro: invar_step)

end

end
