(* ===== verification/Hash.thy ===== *)
theory Hash
  imports Prelude
begin

unbundle bit_operations_syntax

text \<open>
  The hash functions of \<^verbatim>\<open>include/hash.h\<close> and the index arithmetic of
  \<^verbatim>\<open>include/hashtable.h\<close>, on 32- and 64-bit words. The bucket index that each of them
  yields is inside the table it is used for.
\<close>

section \<open>The string hash\<close>

definition hash_step :: "u32 \<Rightarrow> char \<Rightarrow> u32" where
  "hash_step hashval c =
     (let h1 = hashval + of_nat (of_char c);
          h2 = h1 + push_bit 10 h1
      in h2 XOR drop_bit 6 h2)"

definition hash :: "string \<Rightarrow> u32 \<Rightarrow> u32" where
  "hash key sz =
     (let h = foldl hash_step 0 key;
          h1 = h + push_bit 3 h;
          h2 = h1 XOR drop_bit 11 h1;
          h3 = h2 + push_bit 15 h2
      in h3 mod sz)"

lemma hash_less: "sz \<noteq> 0 \<Longrightarrow> hash key sz < sz"
  by (simp add: hash_def Let_def word_mod_less_divisor word_gt_0)

lemma unat_hash_less: "sz \<noteq> 0 \<Longrightarrow> unat (hash key sz) < unat sz"
  using hash_less by (simp add: word_less_nat_alt)

section \<open>Multiplicative hashes of integers\<close>

definition GOLDEN_RATIO_32 :: u32 where
  "GOLDEN_RATIO_32 = 0x61C88647"

definition GOLDEN_RATIO_64 :: u64 where
  "GOLDEN_RATIO_64 = 0x61C8864680B583EB"

definition hash_32 :: "u32 \<Rightarrow> nat \<Rightarrow> u32" where
  "hash_32 v bits = drop_bit (32 - bits) (v * GOLDEN_RATIO_32)"

text \<open>The 64-bit build: the shifted product is truncated to the \<open>uint32_t\<close> result.\<close>

definition hash_64 :: "u64 \<Rightarrow> nat \<Rightarrow> u32" where
  "hash_64 v bits = ucast (drop_bit (64 - bits) (v * GOLDEN_RATIO_64))"

definition hash32_ptr :: "u64 \<Rightarrow> u32" where
  "hash32_ptr ptr = ucast (ptr XOR drop_bit 32 ptr)"

fun ilog2_loop :: "nat \<Rightarrow> u32 \<Rightarrow> u32" where
  "ilog2_loop v ret = (if v = 0 then ret else ilog2_loop (v div 2) (ret + 1))"

declare ilog2_loop.simps [simp del]

definition ilog2 :: "u64 \<Rightarrow> u32" where
  "ilog2 v = ilog2_loop (unat v) (- 1)"

lemma unat_drop_bit_less:
  fixes w :: "'a::len word"
  assumes "bits \<le> LENGTH('a)"
  shows "unat (drop_bit (LENGTH('a) - bits) w) < 2 ^ bits"
proof -
  have "unat w < 2 ^ (LENGTH('a) - bits + bits)" using assms by simp
  then have "unat w div 2 ^ (LENGTH('a) - bits) < 2 ^ bits"
    by (simp add: less_mult_imp_div_less power_add mult.commute)
  then have "drop_bit (LENGTH('a) - bits) (unat w) < 2 ^ bits" by (simp only: drop_bit_eq_div)
  then show ?thesis by (simp only: unat_drop_bit_eq)
qed

lemma unat_hash_32_less: "bits \<le> 32 \<Longrightarrow> unat (hash_32 v bits) < 2 ^ bits"
  using unat_drop_bit_less [where 'a = 32] by (simp add: hash_32_def)

lemma unat_hash_64_less: "bits \<le> 32 \<Longrightarrow> unat (hash_64 v bits) < 2 ^ bits"
proof -
  assume "bits \<le> 32"
  then have "unat (drop_bit (64 - bits) (v * GOLDEN_RATIO_64)) < 2 ^ bits"
    using unat_drop_bit_less [where 'a = 64, of bits] by simp
  then show ?thesis
    by (simp add: hash_64_def unsigned_ucast_eq take_bit_eq_mod)
qed

lemma ilog2_loop_power: "ilog2_loop (2 ^ k) r = r + of_nat (Suc k)"
proof (induction k arbitrary: r)
  case 0
  show ?case by (simp add: ilog2_loop.simps)
next
  case (Suc k)
  have "ilog2_loop (2 ^ Suc k) r = ilog2_loop (2 ^ k) (r + 1)"
    by (subst ilog2_loop.simps) simp
  with Suc show ?case by (simp add: algebra_simps)
qed

lemma ilog2_power: "k < 32 \<Longrightarrow> unat (ilog2 (2 ^ k)) = k"
proof -
  assume k: "k < 32"
  have "unat ((2::u64) ^ k) = 2 ^ k"
    using unat_of_nat [where 'a = 64, of "2 ^ k"] power_strict_increasing [of k 64 "2::nat"] k by simp
  then have "ilog2 (2 ^ k) = - 1 + of_nat (Suc k)"
    by (simp add: ilog2_def ilog2_loop_power)
  also have "\<dots> = of_nat k" by simp
  finally show ?thesis using k by (simp add: unat_of_nat)
qed

end
