(* ===== verification/Cache.thy ===== *)
theory Cache
  imports Hash "HOL-Library.Monad_Syntax"
begin

text \<open>
  The map entry cache of \<^verbatim>\<open>lib/cache.c\<close>: a hash table of chained map entries with a second
  index on device and inode numbers. A pointer to an entry is the suffix of its chain
  that starts at the entry, so \<open>me->next\<close> is the tail and \<open>NULL\<close> the empty list; the
  address of an entry is its \<open>me_id\<close>. Chain segments that an operation unlinks without
  freeing them stay in \<open>mc_lost\<close>: they are no longer found by key but the inode index may
  still refer to them. Loops that can run forever are \<^theory_text>\<open>partial_function (option)\<close>, with
  \<open>None\<close> for a call that does not return.
\<close>

section \<open>Data\<close>

datatype che = CHE_FAIL | CHE_OK | CHE_UPDATED | CHE_RMPATH | CHE_MISSING | CHE_COMPLETED
  | CHE_DUPLICATE | CHE_UNAVAIL

record stack =
  s_mapent :: "string option"
  s_age :: time

text \<open>
  \<open>me_mm_root\<close> and \<open>me_mm_parent\<close> are tree nodes embedded in map entries: they are
  given by the address of the entry that holds the node.
\<close>

record mapent =
  me_id :: addr
  me_source :: addr
  me_mm_root :: "addr option"
  me_mm_parent :: "addr option"
  me_key :: string
  me_len :: nat
  me_mapent :: "string option"
  me_stack :: "stack list"
  me_age :: time
  me_status :: time
  me_flags :: int
  me_ioctlfd :: int
  me_dev :: u64
  me_ino :: u64

type_synonym chain = "mapent list"

record mapent_cache =
  mc_size :: u32
  mc_hash :: "chain list"
  mc_ino_index :: "addr list list"
  mc_ap :: "addr option"
  mc_map :: "addr option"
  mc_lost :: "chain list"
  mc_brk :: addr
  mc_mem :: mem

definition IS_MM :: "mapent \<Rightarrow> bool" where
  "IS_MM me \<longleftrightarrow> me_mm_root me \<noteq> None"

definition IS_MM_ROOT :: "mapent \<Rightarrow> bool" where
  "IS_MM_ROOT me \<longleftrightarrow> me_mm_root me = Some (me_id me)"

text \<open>The guard shared by the loops that skip the offsets of a multi-mount.\<close>

definition primary :: "mapent \<Rightarrow> bool" where
  "primary me \<longleftrightarrow> \<not> (IS_MM me \<and> \<not> IS_MM_ROOT me)"

section \<open>Entries and chains\<close>

definition bucket :: "mapent_cache \<Rightarrow> string \<Rightarrow> chain" where
  "bucket mc key = mc_hash mc ! unat (hash key (mc_size mc))"

text \<open>Writing a field through a pointer: the entry at address \<open>a\<close> is replaced.\<close>

definition upd_chain :: "addr \<Rightarrow> (mapent \<Rightarrow> mapent) \<Rightarrow> chain \<Rightarrow> chain" where
  "upd_chain a f c = map (\<lambda>e. if me_id e = a then f e else e) c"

definition upd_entry :: "addr \<Rightarrow> (mapent \<Rightarrow> mapent) \<Rightarrow> mapent_cache \<Rightarrow> mapent_cache" where
  "upd_entry a f mc =
     mc\<lparr>mc_hash := map (upd_chain a f) (mc_hash mc), mc_lost := map (upd_chain a f) (mc_lost mc)\<rparr>"

text \<open>The pointer to the entry at address \<open>a\<close>.\<close>

fun deref_in :: "addr \<Rightarrow> chain list \<Rightarrow> chain" where
  "deref_in a [] = []"
| "deref_in a (c # cs) =
     (case chain_find (\<lambda>e. me_id e = a) c of [] \<Rightarrow> deref_in a cs | e # r \<Rightarrow> e # r)"

definition deref :: "mapent_cache \<Rightarrow> addr \<Rightarrow> chain" where
  "deref mc a = deref_in a (mc_hash mc @ mc_lost mc)"

section \<open>The stack of saved map entries\<close>

definition cache_push_mapent :: "mapent \<Rightarrow> string option \<Rightarrow> mem \<Rightarrow> che \<times> mapent \<times> mem" where
  "cache_push_mapent me mapent m =
     (if me_mapent me = None then (CHE_FAIL, me, m)
      else
        (let (ok, m1) = (case mapent of None \<Rightarrow> (True, m) | Some _ \<Rightarrow> malloc m)
         in if \<not> ok then (CHE_FAIL, me, m1)
            else let (ok2, m2) = malloc m1
                 in if \<not> ok2 then (CHE_FAIL, me, m2)
                    else (CHE_OK,
                          me\<lparr>me_mapent := mapent,
                             me_stack := \<lparr>s_mapent = me_mapent me, s_age = me_age me\<rparr> # me_stack me\<rparr>,
                          m2)))"

definition cache_pop_mapent :: "mapent \<Rightarrow> che \<times> mapent" where
  "cache_pop_mapent me =
     (case me_stack me of
        [] \<Rightarrow> (CHE_FAIL, me)
      | s # rest \<Rightarrow>
          (case s_mapent s of
             None \<Rightarrow> (CHE_FAIL, me)
           | Some saved \<Rightarrow>
               (if s_age s < me_age me then (CHE_OK, me\<lparr>me_stack := rest\<rparr>)
                else (CHE_OK, me\<lparr>me_stack := rest, me_mapent := Some saved\<rparr>))))"

section \<open>Creating and emptying a cache\<close>

definition empty_cache :: "u32 \<Rightarrow> addr option \<Rightarrow> addr option \<Rightarrow> mem \<Rightarrow> mapent_cache" where
  "empty_cache sz ap ms m =
     \<lparr>mc_size = sz, mc_hash = replicate (unat sz) [], mc_ino_index = replicate (unat sz) [],
      mc_ap = ap, mc_map = ms, mc_lost = [], mc_brk = 0, mc_mem = m\<rparr>"

text \<open>
  The three allocations of \<open>cache_init\<close>; \<open>sz\<close> is \<open>defaults_get_map_hash_table_size()\<close>.
  A cache that the map already has is released first, which leaves nothing of it.
\<close>

definition cache_alloc :: "u32 \<Rightarrow> addr option \<Rightarrow> addr option \<Rightarrow> mem \<Rightarrow> mapent_cache option \<times> mem" where
  "cache_alloc sz ap ms m =
     (let (ok1, m1) = malloc m in
      if \<not> ok1 then (None, m1) else
      let (ok2, m2) = malloc m1 in
      if \<not> ok2 then (None, m2) else
      let (ok3, m3) = malloc m2 in
      if \<not> ok3 then (None, m3) else (Some (empty_cache sz ap ms m3), m3))"

definition cache_init :: "u32 \<Rightarrow> addr \<Rightarrow> addr \<Rightarrow> mem \<Rightarrow> mapent_cache option \<times> mem" where
  "cache_init sz ap ms m = cache_alloc sz (Some ap) (Some ms) m"

definition NULL_MAP_HASHSIZE :: u32 where
  "NULL_MAP_HASHSIZE = 64"

definition cache_init_null_cache :: "mem \<Rightarrow> mapent_cache option \<times> mem" where
  "cache_init_null_cache m = cache_alloc NULL_MAP_HASHSIZE None None m"

definition cache_clean_null_cache :: "mapent_cache \<Rightarrow> mapent_cache" where
  "cache_clean_null_cache mc = mc\<lparr>mc_hash := map (\<lambda>_. []) (mc_hash mc)\<rparr>"

section \<open>The inode index\<close>

definition ino_hash :: "u64 \<Rightarrow> u64 \<Rightarrow> u32 \<Rightarrow> u32" where
  "ino_hash dev ino sz = ucast (dev + ino) mod sz"

definition ino_del :: "addr \<Rightarrow> addr list list \<Rightarrow> addr list list" where
  "ino_del a idx = map (filter (\<lambda>x. x \<noteq> a)) idx"

definition cache_set_ino_index :: "mapent_cache \<Rightarrow> mapent \<Rightarrow> mapent_cache" where
  "cache_set_ino_index mc me =
     (let i = unat (ino_hash (me_dev me) (me_ino me) (mc_size mc));
          idx = ino_del (me_id me) (mc_ino_index mc)
      in mc\<lparr>mc_ino_index := idx[i := me_id me # idx ! i]\<rparr>)"

fun lookup_ino_loop :: "mapent_cache \<Rightarrow> addr list \<Rightarrow> u64 \<Rightarrow> u64 \<Rightarrow> chain" where
  "lookup_ino_loop mc [] dev ino = []"
| "lookup_ino_loop mc (a # as) dev ino =
     (case deref mc a of
        [] \<Rightarrow> lookup_ino_loop mc as dev ino
      | me # r \<Rightarrow>
          if me_dev me \<noteq> dev \<or> me_ino me \<noteq> ino then lookup_ino_loop mc as dev ino else me # r)"

definition cache_lookup_ino :: "mapent_cache \<Rightarrow> u64 \<Rightarrow> u64 \<Rightarrow> chain" where
  "cache_lookup_ino mc dev ino =
     lookup_ino_loop mc (mc_ino_index mc ! unat (ino_hash dev ino (mc_size mc))) dev ino"

section \<open>Lookups\<close>

text \<open>The inner \<open>while (me)\<close> loop: skip the entries that are not primary.\<close>

definition skip_secondary :: "chain \<Rightarrow> chain" where
  "skip_secondary c = chain_find primary c"

fun first_primary :: "chain list \<Rightarrow> chain" where
  "first_primary [] = []"
| "first_primary (c # cs) = (case skip_secondary c of [] \<Rightarrow> first_primary cs | e # r \<Rightarrow> e # r)"

definition cache_lookup_first :: "mapent_cache \<Rightarrow> chain" where
  "cache_lookup_first mc = first_primary (mc_hash mc)"

definition cache_lookup_next :: "mapent_cache \<Rightarrow> chain \<Rightarrow> chain" where
  "cache_lookup_next mc me =
     (case me of
        [] \<Rightarrow> []
      | e # rest \<Rightarrow>
          (case skip_secondary rest of
             x # r \<Rightarrow> x # r
           | [] \<Rightarrow>
               (let hashval = hash (me_key e) (mc_size mc) + 1
                in if hashval < mc_size mc then first_primary (drop (unat hashval) (mc_hash mc))
                   else [])))"

text \<open>
  The loop of \<open>cache_lookup_key_next\<close>. Its \<open>continue\<close> for an offset of a multi-mount does
  not advance \<open>next\<close>.
\<close>

partial_function (option) key_next_loop :: "mapent \<Rightarrow> chain \<Rightarrow> chain option" where
  "key_next_loop me next =
     (case next of
        [] \<Rightarrow> Some []
      | n # ns \<Rightarrow>
          if IS_MM me \<and> \<not> IS_MM_ROOT me then key_next_loop me next
          else if me_key me = me_key n then Some (n # ns)
          else key_next_loop me ns)"

definition cache_lookup_key_next :: "chain \<Rightarrow> chain option" where
  "cache_lookup_key_next me = (case me of [] \<Rightarrow> Some [] | e # rest \<Rightarrow> key_next_loop e rest)"

abbreviation has_key :: "string \<Rightarrow> mapent \<Rightarrow> bool" where
  "has_key k \<equiv> (\<lambda>e. me_key e = k)"

definition cache_lookup_distinct :: "mapent_cache \<Rightarrow> string option \<Rightarrow> chain" where
  "cache_lookup_distinct mc key =
     (case key of None \<Rightarrow> [] | Some k \<Rightarrow> chain_find (has_key k) (bucket mc k))"

definition cache_lookup :: "mapent_cache \<Rightarrow> string option \<Rightarrow> chain" where
  "cache_lookup mc key =
     (case key of
        None \<Rightarrow> []
      | Some k \<Rightarrow>
          (case chain_find (has_key k) (bucket mc k) of
             e # r \<Rightarrow> e # r
           | [] \<Rightarrow>
               (case cache_lookup_first mc of
                  [] \<Rightarrow> []
                | f # _ \<Rightarrow>
                    if cstr_hd (me_key f) = CHR ''/'' then []
                    else chain_find (has_key ''*'') (bucket mc ''*''))))"

datatype lkp_match = LKP_NORMAL | LKP_WILD

definition partial_match_key :: "string \<Rightarrow> lkp_match \<Rightarrow> string \<Rightarrow> bool" where
  "partial_match_key prefix type k \<longleftrightarrow>
     length prefix < length k \<and> strncmp_eq prefix k (length prefix)
     \<and> cstr_at k (length prefix) = Some (CHR ''/'')
     \<and> (type = LKP_NORMAL
        \<or> type = LKP_WILD \<and> cstr_at k (length prefix) \<noteq> Some NUL
          \<and> cstr_at k (length prefix + 1) = Some (CHR ''*''))"

fun partial_match_loop :: "string \<Rightarrow> lkp_match \<Rightarrow> chain list \<Rightarrow> chain" where
  "partial_match_loop prefix type [] = []"
| "partial_match_loop prefix type (c # cs) =
     (case chain_find (\<lambda>e. partial_match_key prefix type (me_key e)) c of
        [] \<Rightarrow> partial_match_loop prefix type cs
      | e # r \<Rightarrow> e # r)"

definition cache_partial_match :: "mapent_cache \<Rightarrow> string \<Rightarrow> chain" where
  "cache_partial_match mc prefix = partial_match_loop prefix LKP_NORMAL (mc_hash mc)"

definition cache_partial_match_wild :: "mapent_cache \<Rightarrow> string \<Rightarrow> chain" where
  "cache_partial_match_wild mc prefix = partial_match_loop prefix LKP_WILD (mc_hash mc)"

definition cache_enumerate :: "mapent_cache \<Rightarrow> chain \<Rightarrow> chain" where
  "cache_enumerate mc me = (if me = [] then cache_lookup_first mc else cache_lookup_next mc me)"

section \<open>Adding, updating and deleting entries\<close>

definition new_mapent :: "addr \<Rightarrow> addr \<Rightarrow> string \<Rightarrow> string option \<Rightarrow> time \<Rightarrow> mapent" where
  "new_mapent a ms key mapent age =
     \<lparr>me_id = a, me_source = ms, me_mm_root = None, me_mm_parent = None, me_key = key,
      me_len = length key, me_mapent = mapent, me_stack = [], me_age = age, me_status = 0,
      me_flags = 0, me_ioctlfd = - 1, me_dev = - 1, me_ino = - 1\<rparr>"

text \<open>The \<open>while (1)\<close> loop of \<open>cache_add\<close>: the last entry with the key.\<close>

partial_function (option) last_same_key :: "chain \<Rightarrow> chain option" where
  "last_same_key existing =
     Option.bind (cache_lookup_key_next existing)
       (\<lambda>next. if next = [] then Some existing else last_same_key next)"

text \<open>
  \<open>existing->next = me\<close>, where \<open>me->next\<close> is \<open>NULL\<close>: the chain ends with \<open>me\<close> and what
  followed \<open>existing\<close> is unlinked.
\<close>

definition link_after :: "addr \<Rightarrow> mapent \<Rightarrow> chain \<Rightarrow> chain" where
  "link_after a me c =
     (case chain_find (\<lambda>e. me_id e = a) c of
        [] \<Rightarrow> c
      | e # rest \<Rightarrow> takeWhile (\<lambda>e. me_id e \<noteq> a) c @ [e, me])"

definition cache_link :: "mapent_cache \<Rightarrow> string \<Rightarrow> mapent \<Rightarrow> mapent_cache option" where
  "cache_link mc key me =
     (let i = unat (hash key (mc_size mc))
      in case cache_lookup_distinct mc (Some key) of
           [] \<Rightarrow> Some (mc\<lparr>mc_hash := (mc_hash mc)[i := me # mc_hash mc ! i]\<rparr>)
         | e # r \<Rightarrow>
             Option.bind (last_same_key (e # r))
               (\<lambda>last. case last of
                  [] \<Rightarrow> Some mc
                | l # rest \<Rightarrow>
                    Some (mc\<lparr>mc_hash := (mc_hash mc)[i := link_after (me_id l) me (mc_hash mc ! i)],
                             mc_lost := rest # mc_lost mc\<rparr>)))"

definition cache_add ::
  "mapent_cache \<Rightarrow> addr \<Rightarrow> string \<Rightarrow> string option \<Rightarrow> time \<Rightarrow> (che \<times> mapent_cache) option" where
  "cache_add mc ms key mapent age =
     (let (ok1, m1) = malloc (mc_mem mc) in
      if \<not> ok1 then Some (CHE_FAIL, mc\<lparr>mc_mem := m1\<rparr>) else
      let (ok2, m2) = malloc m1 in
      if \<not> ok2 then Some (CHE_FAIL, mc\<lparr>mc_mem := m2\<rparr>) else
      let (ok3, m3) = (case mapent of None \<Rightarrow> (True, m2) | Some _ \<Rightarrow> malloc m2) in
      if \<not> ok3 then Some (CHE_FAIL, mc\<lparr>mc_mem := m3\<rparr>) else
      map_option (\<lambda>mc'. (CHE_OK, mc'))
        (cache_link (mc\<lparr>mc_mem := m3, mc_brk := Suc (mc_brk mc)\<rparr>) key
           (new_mapent (mc_brk mc) ms key mapent age)))"

text \<open>\<open>while (me && me->source != ms) me = cache_lookup_key_next(me)\<close>\<close>

partial_function (option) find_source :: "addr \<Rightarrow> chain \<Rightarrow> chain option" where
  "find_source ms me =
     (case me of
        [] \<Rightarrow> Some []
      | e # r \<Rightarrow>
          if me_source e = ms then Some me
          else Option.bind (cache_lookup_key_next me) (\<lambda>next. find_source ms next))"

definition cache_update ::
  "mapent_cache \<Rightarrow> addr \<Rightarrow> string \<Rightarrow> string option \<Rightarrow> time \<Rightarrow> (che \<times> mapent_cache) option" where
  "cache_update mc ms key mapent age =
     Option.bind (find_source ms (cache_lookup mc (Some key)))
       (\<lambda>me. case me of
          [] \<Rightarrow>
            map_option (\<lambda>(ret, mc'). if ret = CHE_FAIL then (CHE_FAIL, mc') else (CHE_UPDATED, mc'))
              (cache_add mc ms key mapent age)
        | e # r \<Rightarrow>
            if me_key e = ''*'' \<and> key \<noteq> ''*'' then
              map_option (\<lambda>(ret, mc'). if ret = CHE_FAIL then (CHE_FAIL, mc') else (CHE_UPDATED, mc'))
                (cache_add mc ms key mapent age)
            else if me_age e = age then Some (CHE_OK, mc)
            else if mapent = None then
              Some (CHE_OK, upd_entry (me_id e) (\<lambda>x. x\<lparr>me_mapent := None, me_age := age\<rparr>) mc)
            else if me_mapent e = None \<or> me_mapent e \<noteq> mapent then
              (let (ok, m) = malloc (mc_mem mc)
               in if \<not> ok then Some (CHE_FAIL, mc\<lparr>mc_mem := m\<rparr>)
                  else Some (CHE_UPDATED,
                    upd_entry (me_id e) (\<lambda>x. x\<lparr>me_mapent := mapent, me_age := age\<rparr>) (mc\<lparr>mc_mem := m\<rparr>)))
            else Some (CHE_OK, upd_entry (me_id e) (\<lambda>x. x\<lparr>me_age := age\<rparr>) mc))"

definition cache_update_offset ::
  "mapent_cache \<Rightarrow> string \<Rightarrow> string \<Rightarrow> string \<Rightarrow> time \<Rightarrow> (che \<times> mapent_cache) option" where
  "cache_update_offset mc mkey key mapent age =
     (case cache_lookup_distinct mc (Some mkey) of
        [] \<Rightarrow> Some (CHE_FAIL, mc)
      | owner # _ \<Rightarrow>
          (case cache_lookup_distinct mc (Some key) of
             me # _ \<Rightarrow>
               if me_age me = age \<and> (me_id me = me_id owner \<or> me_key me = key) then
                 (let (ok, m) = malloc (mc_mem mc)
                  in Some (CHE_DUPLICATE,
                       if ok then upd_entry (me_id me) (\<lambda>x. x\<lparr>me_mapent := Some mapent\<rparr>) (mc\<lparr>mc_mem := m\<rparr>)
                       else mc\<lparr>mc_mem := m\<rparr>))
               else cache_update mc (me_source owner) key (Some mapent) age
           | [] \<Rightarrow> cache_update mc (me_source owner) key (Some mapent) age))"

text \<open>
  The two passes of \<open>cache_delete\<close> over the chain: the entries after the head, then the
  head. A pass stops at an entry of a multi-mount; the addresses of the freed entries are
  collected.
\<close>

fun delete_tail :: "string \<Rightarrow> chain \<Rightarrow> bool \<times> chain \<times> addr list" where
  "delete_tail key [] = (True, [], [])"
| "delete_tail key (me # ms) =
     (if me_key me = key then
        (if IS_MM me then (False, me # ms, [])
         else case delete_tail key ms of (ok, r, d) \<Rightarrow> (ok, r, me_id me # d))
      else case delete_tail key ms of (ok, r, d) \<Rightarrow> (ok, me # r, d))"

fun delete_chain :: "string \<Rightarrow> chain \<Rightarrow> bool \<times> chain \<times> addr list" where
  "delete_chain key [] = (True, [], [])"
| "delete_chain key (me # ms) =
     (case delete_tail key ms of (ok, r, d) \<Rightarrow>
        if \<not> ok then (False, me # r, d)
        else if me_key me = key then
          (if IS_MM me then (False, me # r, d) else (True, r, me_id me # d))
        else (True, me # r, d))"

definition cache_delete :: "mapent_cache \<Rightarrow> string \<Rightarrow> che \<times> mapent_cache" where
  "cache_delete mc key =
     (let i = unat (hash key (mc_size mc))
      in case delete_chain key (mc_hash mc ! i) of (ok, c, d) \<Rightarrow>
           (if ok then CHE_OK else CHE_FAIL,
            mc\<lparr>mc_hash := (mc_hash mc)[i := c], mc_ino_index := fold ino_del d (mc_ino_index mc)\<rparr>))"

section \<open>Negative entries\<close>

definition cache_lookup_negative :: "time \<Rightarrow> mapent_cache \<Rightarrow> mapent \<Rightarrow> string \<Rightarrow> che \<times> mapent_cache" where
  "cache_lookup_negative now mc me key =
     (if me_status me \<ge> now then (CHE_UNAVAIL, mc)
      else if me_mapent me \<noteq> None then (CHE_OK, mc)
      else
        (case cache_lookup_distinct mc (Some key) of
           [] \<Rightarrow> (CHE_OK, mc)
         | sme # _ \<Rightarrow>
             if me_mapent sme \<noteq> None then (CHE_OK, mc)
             else
               (case cache_pop_mapent sme of (ret, sme') \<Rightarrow>
                  (CHE_OK,
                   if ret = CHE_FAIL then snd (cache_delete mc key)
                   else upd_entry (me_id sme) (\<lambda>_. sme') mc))))"

definition cache_update_negative ::
  "time \<Rightarrow> mapent_cache \<Rightarrow> addr \<Rightarrow> string \<Rightarrow> time \<Rightarrow> mapent_cache option" where
  "cache_update_negative now mc ms key timeout =
     (if key = ''*'' then Some mc
      else
        Option.bind
          (case cache_lookup_distinct mc (Some key) of
             me # _ \<Rightarrow>
               (case cache_push_mapent me None (mc_mem mc) of (rv, me', m) \<Rightarrow>
                  Some (rv, upd_entry (me_id me) (\<lambda>_. me') (mc\<lparr>mc_mem := m\<rparr>)))
           | [] \<Rightarrow> cache_update mc ms key None now)
          (\<lambda>(rv, mc1).
             Some (if rv = CHE_FAIL then mc1
                   else
                     (case cache_lookup_distinct mc1 (Some key) of
                        [] \<Rightarrow> mc1
                      | me # _ \<Rightarrow> upd_entry (me_id me) (\<lambda>x. x\<lparr>me_status := now + timeout\<rparr>) mc1))))"

section \<open>The parent of an offset\<close>

text \<open>\<open>while (*tail != '/') tail--\<close>: \<open>None\<close> where the loop runs off the front of the buffer.\<close>

fun slash_before :: "string \<Rightarrow> nat \<Rightarrow> nat option" where
  "slash_before s t =
     (if t < length s \<and> s ! t = CHR ''/'' then Some t
      else case t of 0 \<Rightarrow> None | Suc t' \<Rightarrow> slash_before s t')"

declare slash_before.simps [simp del]

lemma slash_before_le: "slash_before s t = Some p \<Longrightarrow> p \<le> t"
  by (induction s t rule: slash_before.induct)
     (subst (asm) (2) slash_before.simps, auto split: if_splits nat.splits simp: le_SucI)

function offset_parent_loop :: "mapent_cache \<Rightarrow> string \<Rightarrow> nat \<Rightarrow> chain option" where
  "offset_parent_loop mc key tail =
     (case slash_before key tail of
        None \<Rightarrow> None
      | Some p \<Rightarrow>
          if p \<le> 1 then Some []
          else
            (case cache_lookup_distinct mc (Some (take p key)) of
               e # r \<Rightarrow> Some (e # r)
             | [] \<Rightarrow> offset_parent_loop mc key (p - 1)))"
  by pat_completeness auto
termination
  by (relation "measure (\<lambda>(mc, key, tail). tail)") (auto dest: slash_before_le)

declare offset_parent_loop.simps [simp del]

text \<open>\<open>None\<close> stands for an access outside the key.\<close>

definition cache_get_offset_parent :: "mapent_cache \<Rightarrow> string \<Rightarrow> chain option" where
  "cache_get_offset_parent mc key =
     (if key = [] then None
      else if last key = CHR ''/'' then Some []
      else offset_parent_loop mc key (length key - 1))"

end
