(* ===== verification/Cache_Lemmas.thy ===== *)
theory Cache_Lemmas
  imports Cache
begin

text \<open>
  Lemmas about the map entry cache: what its loops compute, the structural invariant that
  every operation keeps, and the functional behaviour of lookups after updates and
  deletions.
\<close>

section \<open>What the loops compute\<close>

lemma primary_simps: "\<not> (IS_MM me \<and> \<not> IS_MM_ROOT me) \<longleftrightarrow> primary me"
  by (simp add: primary_def)

lemma key_next_loop_primary:
  "primary me \<Longrightarrow> key_next_loop me next = Some (chain_find (has_key (me_key me)) next)"
proof (induction "next")
  case Nil
  show ?case by (subst key_next_loop.simps) simp
next
  case (Cons n ns)
  then show ?case by (subst key_next_loop.simps) (auto simp: primary_def)
qed

text \<open>An offset of a multi-mount with an entry behind it makes the loop run forever.\<close>

lemma key_next_loop_diverges:
  assumes "\<not> primary me" and "next \<noteq> []"
  shows "key_next_loop me next = None"
proof (rule ccontr)
  assume "key_next_loop me next \<noteq> None"
  then obtain r where r: "key_next_loop me next = Some r" by blast
  have "\<not> primary me \<longrightarrow> next \<noteq> [] \<longrightarrow> False"
  proof (rule key_next_loop.raw_induct [where P = "\<lambda>me next r. \<not> primary me \<longrightarrow> next \<noteq> [] \<longrightarrow> False", OF _ r])
    fix f me "next" r
    assume IH: "\<And>me next r. f me next = Some r \<Longrightarrow> \<not> primary me \<longrightarrow> next \<noteq> [] \<longrightarrow> False"
      and eq: "(case next of [] \<Rightarrow> Some []
        | n # ns \<Rightarrow> if IS_MM me \<and> \<not> IS_MM_ROOT me then f me next
             else if me_key me = me_key n then Some (n # ns) else f me ns) = Some r"
    show "\<not> primary me \<longrightarrow> next \<noteq> [] \<longrightarrow> False"
      using eq IH [of me "next" r] by (auto simp: primary_def split: list.splits if_splits)
  qed
  with assms show False by simp
qed

text \<open>When the loop returns it has found the next entry with the same key, or \<open>NULL\<close>.\<close>

lemma cache_lookup_key_next_Some:
  "cache_lookup_key_next (e # r) = Some s \<Longrightarrow> s = chain_find (has_key (me_key e)) r"
  by (cases "primary e"; cases r)
     (auto simp: cache_lookup_key_next_def key_next_loop_primary key_next_loop_diverges
       key_next_loop.simps [of e "[]"])

lemma cache_lookup_key_next_primary:
  "primary e \<Longrightarrow> cache_lookup_key_next (e # r) = Some (chain_find (has_key (me_key e)) r)"
  by (simp add: cache_lookup_key_next_def key_next_loop_primary)

text \<open>
  A pointer \<open>s\<close> into the chain \<open>c\<close>; \<open>last_of k c s\<close>: it points to the last entry with
  key \<open>k\<close>.
\<close>

definition last_of :: "string \<Rightarrow> chain \<Rightarrow> chain \<Rightarrow> bool" where
  "last_of k c s \<longleftrightarrow>
     (\<exists>pre l rest. c = pre @ l # rest \<and> s = l # rest \<and> me_key l = k \<and> (\<forall>x \<in> set rest. me_key x \<noteq> k))"

lemma last_of_prefix: "last_of k c s \<Longrightarrow> last_of k (pre @ c) s"
  unfolding last_of_def by (metis append_assoc)

lemma last_same_key_unfold:
  assumes "cache_lookup_key_next (e # r) = Some s"
  shows "last_same_key (e # r) =
     (if chain_find (has_key (me_key e)) r = [] then Some (e # r)
      else last_same_key (chain_find (has_key (me_key e)) r))"
  using cache_lookup_key_next_Some [OF assms] assms by (subst last_same_key.simps) simp

lemma last_same_key_Some:
  assumes "last_same_key (e # r) = Some s"
  shows "last_of (me_key e) (e # r) s"
  using assms
proof (induction "length r" arbitrary: e r rule: less_induct)
  case less
  from less.prems obtain t where t: "cache_lookup_key_next (e # r) = Some t"
    by (subst (asm) last_same_key.simps) (auto split: Option.bind_splits)
  note unf = last_same_key_unfold [OF t]
  show ?case
  proof (cases "chain_find (has_key (me_key e)) r")
    case Nil
    with unf less.prems show ?thesis by (force simp: last_of_def chain_find_Nil_iff)
  next
    case (Cons n ns)
    from chain_find_decomp [OF this] obtain p where r: "r = p @ n # ns" and n: "me_key n = me_key e"
      by auto
    have "last_of (me_key n) (n # ns) s"
      using less.hyps [of ns n] less.prems unf Cons r by simp
    with n r show ?thesis using last_of_prefix [of "me_key e" "n # ns" s "e # p"] by simp
  qed
qed

text \<open>The loop returns when all entries of the chain with key \<open>k\<close> are primary.\<close>

definition key_primary :: "string \<Rightarrow> chain \<Rightarrow> bool" where
  "key_primary k c \<longleftrightarrow> (\<forall>e \<in> set c. me_key e = k \<longrightarrow> primary e)"

lemma key_primary_suffix: "key_primary k (p @ c) \<Longrightarrow> key_primary k c"
  by (auto simp: key_primary_def)

lemma last_same_key_returns:
  assumes "key_primary (me_key e) (e # r)"
  shows "\<exists>s. last_same_key (e # r) = Some s"
  using assms
proof (induction "length r" arbitrary: e r rule: less_induct)
  case less
  then have t: "cache_lookup_key_next (e # r) = Some (chain_find (has_key (me_key e)) r)"
    by (intro cache_lookup_key_next_primary) (simp add: key_primary_def)
  note unf = last_same_key_unfold [OF t]
  show ?case
  proof (cases "chain_find (has_key (me_key e)) r")
    case Nil
    with unf show ?thesis by simp
  next
    case (Cons n ns)
    from chain_find_decomp [OF this] obtain p where r: "r = p @ n # ns" and n: "me_key n = me_key e"
      by auto
    have "key_primary (me_key n) (n # ns)"
      using less.prems r n key_primary_suffix [of "me_key n" "e # p" "n # ns"] by simp
    with less.hyps [of ns n] r unf Cons show ?thesis by simp
  qed
qed

text \<open>Searching the entries of a key for one of a given source.\<close>

lemma find_source_Nil [simp]: "find_source ms [] = Some []"
  by (subst find_source.simps) simp

lemma find_source_Some:
  assumes "find_source ms (e # r) = Some s"
  shows "s = [] \<or> (\<exists>pre x t. e # r = pre @ x # t \<and> s = x # t \<and> me_key x = me_key e \<and> me_source x = ms)"
  using assms
proof (induction "length r" arbitrary: e r rule: less_induct)
  case less
  show ?case
  proof (cases "me_source e = ms")
    case True
    with less.prems have "s = e # r" by (subst (asm) find_source.simps) simp
    with True show ?thesis by (metis append_Nil)
  next
    case False
    with less.prems obtain t where t: "cache_lookup_key_next (e # r) = Some t" and
      fs: "find_source ms t = Some s"
      by (subst (asm) find_source.simps) (auto split: Option.bind_splits)
    from cache_lookup_key_next_Some [OF t] have t': "t = chain_find (has_key (me_key e)) r" .
    show ?thesis
    proof (cases t)
      case Nil
      with fs show ?thesis by simp
    next
      case (Cons n ns)
      from chain_find_decomp [OF t' [symmetric, unfolded Cons]] obtain p where
        r: "r = p @ n # ns" and n: "me_key n = me_key e" by auto
      have "s = [] \<or> (\<exists>pre x t. n # ns = pre @ x # t \<and> s = x # t \<and> me_key x = me_key n \<and> me_source x = ms)"
        using less.hyps [of ns n] r fs Cons by simp
      with r n show ?thesis by (metis append_Cons append_assoc)
    qed
  qed
qed

lemma find_source_returns:
  assumes "key_primary (me_key e) (e # r)"
  shows "\<exists>s. find_source ms (e # r) = Some s"
  using assms
proof (induction "length r" arbitrary: e r rule: less_induct)
  case less
  then have t: "cache_lookup_key_next (e # r) = Some (chain_find (has_key (me_key e)) r)"
    by (intro cache_lookup_key_next_primary) (simp add: key_primary_def)
  show ?case
  proof (cases "me_source e = ms \<or> chain_find (has_key (me_key e)) r = []")
    case True
    with t show ?thesis by (subst find_source.simps) auto
  next
    case False
    then obtain n ns where n: "chain_find (has_key (me_key e)) r = n # ns" by (meson neq_Nil_conv)
    from chain_find_decomp [OF n] obtain p where r: "r = p @ n # ns" and k: "me_key n = me_key e"
      by auto
    have "key_primary (me_key n) (n # ns)"
      using less.prems r k key_primary_suffix [of "me_key n" "e # p" "n # ns"] by simp
    with less.hyps [of ns n] r obtain s where "find_source ms (n # ns) = Some s" by auto
    with False t n show ?thesis by (subst find_source.simps) simp
  qed
qed

lemma find_source_first:
  "me_source e = ms \<Longrightarrow> find_source ms (e # r) = Some (e # r)"
  by (subst find_source.simps) simp

section \<open>The structural invariant\<close>

text \<open>Every entry that has an address, linked in a chain or not.\<close>

definition entries :: "mapent_cache \<Rightarrow> mapent list" where
  "entries mc = concat (mc_hash mc) @ concat (mc_lost mc)"

definition bucket_ok :: "u32 \<Rightarrow> nat \<Rightarrow> chain \<Rightarrow> bool" where
  "bucket_ok sz i c \<longleftrightarrow> (\<forall>e \<in> set c. unat (hash (me_key e) sz) = i)"

text \<open>
  The table has \<open>size\<close> chains, every entry sits in the chain of its key's hash value,
  records the length of its key and has an address of its own; the inode index holds each
  address at most once and only addresses of entries that exist (no dangling pointer).
\<close>

definition cache_ok :: "mapent_cache \<Rightarrow> bool" where
  "cache_ok mc \<longleftrightarrow>
     mc_size mc \<noteq> 0
     \<and> length (mc_hash mc) = unat (mc_size mc)
     \<and> length (mc_ino_index mc) = unat (mc_size mc)
     \<and> (\<forall>i < length (mc_hash mc). bucket_ok (mc_size mc) i (mc_hash mc ! i))
     \<and> (\<forall>e \<in> set (entries mc). me_len e = length (me_key e) \<and> me_id e < mc_brk mc)
     \<and> distinct (map me_id (entries mc))
     \<and> distinct (concat (mc_ino_index mc))
     \<and> set (concat (mc_ino_index mc)) \<subseteq> me_id ` set (entries mc)"

lemma cache_ok_mem [simp]: "cache_ok (mc\<lparr>mc_mem := m\<rparr>) = cache_ok mc"
  by (simp add: cache_ok_def entries_def)

lemma entries_mem [simp]: "entries (mc\<lparr>mc_mem := m\<rparr>) = entries mc"
  by (simp add: entries_def)

lemma cache_ok_hash_index: "cache_ok mc \<Longrightarrow> unat (hash k (mc_size mc)) < length (mc_hash mc)"
  by (simp add: cache_ok_def unat_hash_less)

lemma cache_ok_ino_index: "cache_ok mc \<Longrightarrow> unat (ino_hash d i (mc_size mc)) < length (mc_ino_index mc)"
  by (simp add: cache_ok_def ino_hash_def word_gt_0 flip: word_less_nat_alt)
     (simp add: word_mod_less_divisor word_gt_0)

lemma cache_ok_bucket:
  "cache_ok mc \<Longrightarrow> e \<in> set (bucket mc k) \<Longrightarrow> unat (hash (me_key e) (mc_size mc)) = unat (hash k (mc_size mc))"
  using cache_ok_hash_index [of mc k] by (auto simp: cache_ok_def bucket_ok_def bucket_def)

lemma bucket_entries: "cache_ok mc \<Longrightarrow> set (bucket mc k) \<subseteq> set (entries mc)"
  using cache_ok_hash_index [of mc k] by (force simp: entries_def bucket_def)

lemma empty_cache_ok: "sz \<noteq> 0 \<Longrightarrow> cache_ok (empty_cache sz ap ms m)"
  by (auto simp: cache_ok_def empty_cache_def entries_def bucket_ok_def)

subsection \<open>Writing fields of an entry\<close>

lemma upd_chain_simps [simp]:
  "upd_chain a f [] = []"
  "upd_chain a f (e # c) = (if me_id e = a then f e else e) # upd_chain a f c"
  "upd_chain a f (c @ d) = upd_chain a f c @ upd_chain a f d"
  by (simp_all add: upd_chain_def)

lemma upd_chain_concat: "concat (map (upd_chain a f) cs) = upd_chain a f (concat cs)"
  by (induction cs) auto

lemma entries_upd_entry: "entries (upd_entry a f mc) = upd_chain a f (entries mc)"
  by (simp add: entries_def upd_entry_def upd_chain_concat)

lemma upd_entry_sel [frame_simps]:
  "mc_size (upd_entry a f mc) = mc_size mc"
  "mc_ino_index (upd_entry a f mc) = mc_ino_index mc"
  "mc_brk (upd_entry a f mc) = mc_brk mc"
  "mc_mem (upd_entry a f mc) = mc_mem mc"
  "mc_hash (upd_entry a f mc) = map (upd_chain a f) (mc_hash mc)"
  by (simp_all add: upd_entry_def)

lemma upd_entry_cong:
  assumes "\<And>e. e \<in> set (entries mc) \<Longrightarrow> me_id e = a \<Longrightarrow> f e = g e"
  shows "upd_entry a f mc = upd_entry a g mc"
proof -
  have "map (upd_chain a f) cs = map (upd_chain a g) cs" if "set (concat cs) \<subseteq> set (entries mc)" for cs
    using that assms by (auto simp: upd_chain_def)
  from this [of "mc_hash mc"] this [of "mc_lost mc"] show ?thesis
    by (simp add: upd_entry_def entries_def)
qed

text \<open>An update keeps the identity of an entry when it writes neither address nor key.\<close>

definition same_identity :: "mapent \<Rightarrow> mapent \<Rightarrow> bool" where
  "same_identity x y \<longleftrightarrow> me_id x = me_id y \<and> me_key x = me_key y \<and> me_len x = me_len y"

lemma upd_chain_proj:
  assumes "\<And>e. e \<in> set c \<Longrightarrow> me_id e = a \<Longrightarrow> g (f e) = g e"
  shows "map g (upd_chain a f c) = map g c"
  using assms by (induction c) auto

lemma upd_entry_ok [inv_intros]:
  assumes ok: "cache_ok mc"
    and f: "\<And>e. e \<in> set (entries mc) \<Longrightarrow> me_id e = a \<Longrightarrow> same_identity (f e) e"
  shows "cache_ok (upd_entry a f mc)"
proof -
  let ?mc = "upd_entry a f mc"
  have proj: "map me_id (entries ?mc) = map me_id (entries mc)"
    unfolding entries_upd_entry by (rule upd_chain_proj) (use f in \<open>auto simp: same_identity_def\<close>)
  have same: "\<And>e. e \<in> set (entries mc) \<Longrightarrow> same_identity (if me_id e = a then f e else e) e"
    using f by (simp add: same_identity_def)
  have "\<forall>i < length (mc_hash ?mc). bucket_ok (mc_size ?mc) i (mc_hash ?mc ! i)"
  proof (intro allI impI)
    fix i assume i: "i < length (mc_hash ?mc)"
    have sub: "set (mc_hash mc ! i) \<subseteq> set (entries mc)"
      using i by (force simp: frame_simps entries_def)
    have "bucket_ok (mc_size mc) i (mc_hash mc ! i)"
      using ok i by (simp add: cache_ok_def frame_simps)
    moreover have "me_key (f e) = me_key e" if "e \<in> set (mc_hash mc ! i)" "me_id e = a" for e
      using f [of e] sub that by (auto simp: same_identity_def)
    ultimately show "bucket_ok (mc_size ?mc) i (mc_hash ?mc ! i)"
      using i by (auto simp: bucket_ok_def frame_simps upd_chain_def)
  qed
  moreover have "\<forall>e \<in> set (entries ?mc). me_len e = length (me_key e) \<and> me_id e < mc_brk ?mc"
    using ok same by (force simp: cache_ok_def frame_simps entries_upd_entry upd_chain_def same_identity_def)
  moreover have "me_id ` set (entries ?mc) = me_id ` set (entries mc)"
    using arg_cong [OF proj, of set] by simp
  ultimately show ?thesis
    using ok proj by (simp add: cache_ok_def frame_simps)
qed


subsection \<open>Linking a new entry\<close>

lemma link_after_decomp:
  assumes "c = pre @ l # rest" and "\<forall>x \<in> set pre. me_id x \<noteq> me_id l"
  shows "link_after (me_id l) me c = pre @ [l, me]"
proof -
  have "chain_find (\<lambda>e. me_id e = me_id l) c = l # rest"
    using assms by (auto simp: chain_find_append chain_find_Nil_iff)
  then show ?thesis using assms by (auto simp: link_after_def takeWhile_append)
qed

text \<open>
  What linking does to the table: a key that is not yet cached goes to the head of its
  chain; otherwise the entry follows the last entry with the key, and every entry that
  followed that one is unlinked.
\<close>

lemma cache_link_new:
  assumes "cache_lookup_distinct mc (Some key) = []"
  shows "cache_link mc key me =
     Some (mc\<lparr>mc_hash := (mc_hash mc)[unat (hash key (mc_size mc)) := me # bucket mc key]\<rparr>)"
  using assms by (simp add: cache_link_def bucket_def Let_def)

lemma chain_ids_before:
  assumes "distinct (map me_id c)" and "c = pre @ l # rest"
  shows "\<forall>x \<in> set pre. me_id x \<noteq> me_id l"
  using assms by (auto simp: image_iff)

lemma distinct_bucket_ids: "cache_ok mc \<Longrightarrow> distinct (map me_id (bucket mc k))"
proof -
  assume ok: "cache_ok mc"
  let ?i = "unat (hash k (mc_size mc))"
  have "mset (mc_hash mc ! ?i) \<subseteq># mset (concat (mc_hash mc))"
    using cache_ok_hash_index [OF ok] mset_concat_update [of ?i "mc_hash mc" "[]"]
    by (metis add_0_right mset.simps(1) mset_subset_eq_add_right)
  then have "mset (bucket mc k) \<subseteq># mset (entries mc)"
    by (simp add: bucket_def entries_def subset_mset.add_increasing2)
  then show ?thesis using ok by (auto simp: cache_ok_def intro: distinct_map_submset)
qed

lemma cache_link_existing:
  assumes ok: "cache_ok mc"
    and ex: "cache_lookup_distinct mc (Some key) = e # r"
    and link: "cache_link mc key me = Some mc'"
  shows "\<exists>pre l rest. bucket mc key = pre @ l # rest \<and> me_key l = key
           \<and> (\<forall>x \<in> set rest. me_key x \<noteq> key)
           \<and> mc' = mc\<lparr>mc_hash := (mc_hash mc)[unat (hash key (mc_size mc)) := pre @ [l, me]],
                       mc_lost := rest # mc_lost mc\<rparr>"
proof -
  from ex have cf: "chain_find (has_key key) (bucket mc key) = e # r"
    by (simp add: cache_lookup_distinct_def)
  from chain_find_decomp [OF this] obtain p where b: "bucket mc key = p @ e # r" and k: "me_key e = key"
    by auto
  from link ex obtain s where s: "last_same_key (e # r) = Some s"
    by (auto simp: cache_link_def Let_def split: Option.bind_splits)
  from last_of_prefix [OF last_same_key_Some [OF this], of p] b k have "last_of key (bucket mc key) s"
    by simp
  then obtain pre l rest where q: "bucket mc key = pre @ l # rest" "s = l # rest" "me_key l = key"
    "\<forall>x \<in> set rest. me_key x \<noteq> key" by (auto simp: last_of_def)
  have "link_after (me_id l) me (bucket mc key) = pre @ [l, me]"
    by (rule link_after_decomp [OF q(1)])
       (rule chain_ids_before [OF distinct_bucket_ids [OF ok] q(1)])
  with link ex s q show ?thesis
    by (intro exI [of _ pre] exI [of _ l] exI [of _ rest]) (auto simp: cache_link_def Let_def bucket_def)
qed

lemma cache_link_returns:
  assumes "key_primary key (bucket mc key)"
  shows "\<exists>mc'. cache_link mc key me = Some mc'"
proof (cases "cache_lookup_distinct mc (Some key)")
  case Nil
  then show ?thesis by (simp add: cache_link_new)
next
  case (Cons e r)
  then have "chain_find (has_key key) (bucket mc key) = e # r"
    by (simp add: cache_lookup_distinct_def)
  from chain_find_decomp [OF this] obtain p where "bucket mc key = p @ e # r" "me_key e = key" by auto
  with assms key_primary_suffix have "key_primary (me_key e) (e # r)" by metis
  from last_same_key_returns [OF this] obtain s where "last_same_key (e # r) = Some s" ..
  with Cons show ?thesis by (auto simp: cache_link_def Let_def split: list.split)
qed

lemma mset_entries_update:
  assumes "i < length (mc_hash mc)"
  shows "mset (entries (mc\<lparr>mc_hash := (mc_hash mc)[i := c], mc_lost := ls\<rparr>)) + mset (mc_hash mc ! i)
           + mset (concat (mc_lost mc)) = mset (entries mc) + mset c + mset (concat ls)"
  using mset_concat_update [OF assms, of c] by (simp add: entries_def algebra_simps)

text \<open>Linking adds exactly the new entry to the entries with an address.\<close>

lemma cache_link_entries:
  assumes ok: "cache_ok mc" and link: "cache_link mc key me = Some mc'"
  shows "mset (entries mc') = add_mset me (mset (entries mc))"
proof (cases "cache_lookup_distinct mc (Some key)")
  case Nil
  with link have "mc' = mc\<lparr>mc_hash := (mc_hash mc)[unat (hash key (mc_size mc)) := me # bucket mc key]\<rparr>"
    by (simp add: cache_link_new)
  with mset_entries_update [OF cache_ok_hash_index [OF ok, of key], where c = "me # bucket mc key" and ls = "mc_lost mc"]
  show ?thesis by (simp add: bucket_def)
next
  case (Cons e r)
  from cache_link_existing [OF ok Cons link] obtain pre l rest where
    b: "bucket mc key = pre @ l # rest" and
    mc': "mc' = mc\<lparr>mc_hash := (mc_hash mc)[unat (hash key (mc_size mc)) := pre @ [l, me]],
                    mc_lost := rest # mc_lost mc\<rparr>" by blast
  from mset_entries_update [OF cache_ok_hash_index [OF ok, of key], where c = "pre @ [l, me]" and ls = "rest # mc_lost mc"]
  show ?thesis unfolding mc' using b by (simp add: bucket_def)
qed

lemma cache_link_frame:
  assumes ok: "cache_ok mc" and link: "cache_link mc key me = Some mc'"
  shows "mc_size mc' = mc_size mc" "mc_ino_index mc' = mc_ino_index mc" "mc_brk mc' = mc_brk mc"
    "mc_mem mc' = mc_mem mc"
    "\<exists>c. mc_hash mc' = (mc_hash mc)[unat (hash key (mc_size mc)) := c] \<and> set c \<subseteq> insert me (set (bucket mc key))"
proof -
  consider (new) "mc' = mc\<lparr>mc_hash := (mc_hash mc)[unat (hash key (mc_size mc)) := me # bucket mc key]\<rparr>"
    | (old) pre l rest where "bucket mc key = pre @ l # rest"
      "mc' = mc\<lparr>mc_hash := (mc_hash mc)[unat (hash key (mc_size mc)) := pre @ [l, me]],
                 mc_lost := rest # mc_lost mc\<rparr>"
    using link cache_link_existing [OF ok _ link] by (cases "cache_lookup_distinct mc (Some key)")
      (auto simp: cache_link_new)
  then show "mc_size mc' = mc_size mc" "mc_ino_index mc' = mc_ino_index mc" "mc_brk mc' = mc_brk mc"
    "mc_mem mc' = mc_mem mc"
    "\<exists>c. mc_hash mc' = (mc_hash mc)[unat (hash key (mc_size mc)) := c] \<and> set c \<subseteq> insert me (set (bucket mc key))"
    by (cases; force)+
qed

lemma cache_link_ok:
  assumes ok: "cache_ok mc" and link: "cache_link mc key me = Some mc'"
    and me: "me_key me = key" "me_len me = length key" "me_id me < mc_brk mc"
      "me_id me \<notin> me_id ` set (entries mc)"
  shows "cache_ok mc'"
proof -
  note fr = cache_link_frame [OF ok link] and ms = cache_link_entries [OF ok link]
  have set': "set (entries mc') = insert me (set (entries mc))"
    using arg_cong [OF ms, of set_mset] by simp
  have "mset (map me_id (entries mc')) = mset (me_id me # map me_id (entries mc))"
    using ms by simp
  moreover have "distinct (me_id me # map me_id (entries mc))"
    using ok me(4) by (simp add: cache_ok_def)
  ultimately have "distinct (map me_id (entries mc'))"
    by (metis mset_eq_imp_distinct_iff)
  moreover have "\<forall>i < length (mc_hash mc'). bucket_ok (mc_size mc') i (mc_hash mc' ! i)"
  proof -
    let ?i = "unat (hash key (mc_size mc))"
    from fr(5) obtain c where c: "mc_hash mc' = (mc_hash mc)[?i := c]" "set c \<subseteq> insert me (set (bucket mc key))"
      by blast
    have "bucket_ok (mc_size mc) ?i c"
      using c(2) me(1) cache_ok_bucket [OF ok] by (auto simp: bucket_ok_def)
    then show ?thesis
      using ok unfolding c(1) fr(1) all_nth_update [OF cache_ok_hash_index [OF ok]]
      by (simp add: cache_ok_def)
  qed
  moreover have "length (mc_hash mc') = length (mc_hash mc)" using fr(5) by force
  ultimately show ?thesis
    using ok me fr(1-3) set' by (auto simp: cache_ok_def)
qed

subsection \<open>The operations keep the invariant\<close>

lemma cache_add_cases:
  assumes "cache_add mc ms key mapent age = Some (ret, mc')"
  obtains (fail) m where "ret = CHE_FAIL" "mc' = mc\<lparr>mc_mem := m\<rparr>"
  | (ok) m where "ret = CHE_OK"
      "cache_link (mc\<lparr>mc_mem := m, mc_brk := Suc (mc_brk mc)\<rparr>) key
         (new_mapent (mc_brk mc) ms key mapent age) = Some mc'"
  using assms by (auto simp: cache_add_def Let_def split: if_splits prod.splits)

lemma entries_brk [simp]: "entries (mc\<lparr>mc_brk := b\<rparr>) = entries mc"
  by (simp add: entries_def)

lemma cache_ok_brk: "cache_ok mc \<Longrightarrow> cache_ok (mc\<lparr>mc_brk := Suc (mc_brk mc)\<rparr>)"
  by (auto simp: cache_ok_def less_SucI)

lemma new_mapent_sel [simp]:
  "me_id (new_mapent a ms key mapent age) = a"
  "me_key (new_mapent a ms key mapent age) = key"
  "me_len (new_mapent a ms key mapent age) = length key"
  "me_source (new_mapent a ms key mapent age) = ms"
  "me_mapent (new_mapent a ms key mapent age) = mapent"
  "me_age (new_mapent a ms key mapent age) = age"
  "me_mm_root (new_mapent a ms key mapent age) = None"
  by (simp_all add: new_mapent_def)

lemma cache_add_ok [inv_intros]:
  assumes ok: "cache_ok mc" and add: "cache_add mc ms key mapent age = Some (ret, mc')"
  shows "cache_ok mc'"
  using add
proof (cases rule: cache_add_cases)
  case (fail m)
  with ok show ?thesis by simp
next
  case (ok m)
  let ?mc = "mc\<lparr>mc_mem := m, mc_brk := Suc (mc_brk mc)\<rparr>"
  have "cache_ok ?mc" using cache_ok_brk [of "mc\<lparr>mc_mem := m\<rparr>"] assms(1) by simp
  moreover have "mc_brk mc \<notin> me_id ` set (entries mc)"
    using assms(1) by (auto simp: cache_ok_def)
  ultimately show ?thesis using cache_link_ok [OF _ ok(2)] by simp
qed

lemma cache_update_cases:
  assumes "cache_update mc ms key mapent age = Some (ret, mc')"
  obtains (add) r where "cache_add mc ms key mapent age = Some (r, mc')"
      "ret = (if r = CHE_FAIL then CHE_FAIL else CHE_UPDATED)"
  | (same) "mc' = mc" "ret = CHE_OK"
  | (nomem) m where "ret = CHE_FAIL" "mc' = mc\<lparr>mc_mem := m\<rparr>"
  | (upd) a v m where "ret \<in> {CHE_OK, CHE_UPDATED}"
      "mc' = upd_entry a (\<lambda>x. x\<lparr>me_mapent := v, me_age := age\<rparr>) (mc\<lparr>mc_mem := m\<rparr>)"
  | (touch) a where "ret = CHE_OK" "mc' = upd_entry a (\<lambda>x. x\<lparr>me_age := age\<rparr>) mc"
proof -
  have mem: "upd_entry a f mc = upd_entry a f (mc\<lparr>mc_mem := mc_mem mc\<rparr>)" for a f
    by simp
  show thesis
    using assms
    by (auto simp: cache_update_def Let_def split: Option.bind_splits list.splits if_splits prod.splits
        intro: add same nomem upd touch dest: sym)
      (metis mem add same nomem upd touch insert_iff)+
qed


lemma same_identity_upd [simp]:
  "same_identity (x\<lparr>me_mapent := v, me_age := t\<rparr>) x"
  "same_identity (x\<lparr>me_age := t\<rparr>) x"
  "same_identity (x\<lparr>me_mapent := v\<rparr>) x"
  "same_identity (x\<lparr>me_status := t\<rparr>) x"
  "same_identity (x\<lparr>me_dev := d, me_ino := i\<rparr>) x"
  "same_identity (x\<lparr>me_mm_root := r, me_mm_parent := p\<rparr>) x"
  "same_identity (x\<lparr>me_ioctlfd := f\<rparr>) x"
  "same_identity x x"
  by (simp_all add: same_identity_def)

lemma cache_update_ok [inv_intros]:
  assumes ok: "cache_ok mc" and upd: "cache_update mc ms key mapent age = Some (ret, mc')"
  shows "cache_ok mc'"
  using upd
proof (cases rule: cache_update_cases)
  case (add r)
  with ok cache_add_ok show ?thesis by blast
next
  case (upd a v m)
  with ok show ?thesis by (simp add: upd_entry_ok)
next
  case (touch a)
  with ok show ?thesis by (simp add: upd_entry_ok)
qed (use ok in simp_all)

lemma cache_update_offset_ok [inv_intros]:
  assumes ok: "cache_ok mc" and upd: "cache_update_offset mc mkey key mapent age = Some (ret, mc')"
  shows "cache_ok mc'"
  using upd cache_update_ok [OF ok] ok
  by (auto simp: cache_update_offset_def Let_def upd_entry_ok
      split: list.splits if_splits prod.splits)

text \<open>What a deletion takes out of a chain.\<close>

definition removes :: "string \<Rightarrow> chain \<Rightarrow> bool \<times> chain \<times> addr list \<Rightarrow> bool" where
  "removes key c res \<longleftrightarrow>
     (case res of (ok, r, d) \<Rightarrow>
        \<exists>gone. mset c = mset r + mset gone \<and> mset d = mset (map me_id gone)
          \<and> (\<forall>e \<in> set gone. me_key e = key \<and> \<not> IS_MM e)
          \<and> filter (\<lambda>e. me_key e \<noteq> key) r = filter (\<lambda>e. me_key e \<noteq> key) c
          \<and> (ok \<longleftrightarrow> (\<forall>e \<in> set r. me_key e \<noteq> key)))"

lemma removes_keep:
  "removes key c (ok, r, d) \<Longrightarrow> me_key e \<noteq> key \<Longrightarrow> removes key (e # c) (ok, e # r, d)"
  by (auto simp: removes_def)

lemma removes_drop:
  assumes "removes key c (ok, r, d)" and "me_key e = key" and "\<not> IS_MM e"
  shows "removes key (e # c) (ok, r, me_id e # d)"
proof -
  from assms(1) obtain gone where "mset c = mset r + mset gone" "mset d = mset (map me_id gone)"
    "\<forall>e \<in> set gone. me_key e = key \<and> \<not> IS_MM e"
    "filter (\<lambda>e. me_key e \<noteq> key) r = filter (\<lambda>e. me_key e \<noteq> key) c"
    "ok \<longleftrightarrow> (\<forall>e \<in> set r. me_key e \<noteq> key)" by (auto simp: removes_def)
  with assms(2,3) show ?thesis
    unfolding removes_def prod.case by (intro exI [of _ "e # gone"]) auto
qed

lemma delete_tail_removes: "removes key c (delete_tail key c)"
proof (induction c)
  case Nil
  show ?case by (simp add: removes_def)
next
  case (Cons e c)
  obtain ok r d where dt: "delete_tail key c = (ok, r, d)" by (cases "delete_tail key c")
  show ?case
  proof (cases "me_key e = key \<and> IS_MM e")
    case True
    then show ?thesis by (auto simp: removes_def intro: exI [of _ "[]"])
  next
    case False
    with Cons dt show ?thesis by (auto simp: removes_keep removes_drop)
  qed
qed

lemma delete_tail_fail:
  "delete_tail key c = (False, r, d) \<Longrightarrow> \<exists>e \<in> set r. me_key e = key"
  using delete_tail_removes [of key c] by (auto simp: removes_def)

lemma delete_chain_removes: "removes key c (delete_chain key c)"
proof (cases c)
  case Nil
  then show ?thesis by (simp add: removes_def)
next
  case (Cons e ms)
  obtain ok r d where dt: "delete_tail key ms = (ok, r, d)" by (cases "delete_tail key ms")
  have rem: "removes key ms (ok, r, d)" using delete_tail_removes [of key ms] dt by simp
  consider (fail) "\<not> ok \<or> me_key e = key \<and> IS_MM e" | (drop) "ok" "me_key e = key" "\<not> IS_MM e"
    | (keep) "ok" "me_key e \<noteq> key" by blast
  then show ?thesis
  proof cases
    case fail
    then have "delete_chain key c = (False, e # r, d)" using Cons dt by auto
    moreover have "removes key (e # ms) (False, e # r, d)"
      using fail rem by (auto simp: removes_def)
    ultimately show ?thesis using Cons by simp
  next
    case drop
    with Cons dt rem show ?thesis by (simp add: removes_drop)
  next
    case keep
    with Cons dt rem show ?thesis by (simp add: removes_keep)
  qed
qed

lemma ino_del_fold: "fold ino_del d idx = map (filter (\<lambda>x. x \<notin> set d)) idx"
  by (induction d arbitrary: idx) (simp_all add: ino_del_def comp_def map_idI)

lemma concat_map_filter: "concat (map (filter P) xs) = filter P (concat xs)"
  by (induction xs) auto

lemma cache_delete_ok [inv_intros]:
  assumes ok: "cache_ok mc"
  shows "cache_ok (snd (cache_delete mc key))"
proof -
  let ?i = "unat (hash key (mc_size mc))"
  obtain b r d where dc: "delete_chain key (mc_hash mc ! ?i) = (b, r, d)"
    by (cases "delete_chain key (mc_hash mc ! ?i)")
  let ?mc = "mc\<lparr>mc_hash := (mc_hash mc)[?i := r], mc_ino_index := fold ino_del d (mc_ino_index mc)\<rparr>"
  have mc': "snd (cache_delete mc key) = ?mc"
    by (simp add: cache_delete_def dc)
  from delete_chain_removes [of key "mc_hash mc ! ?i"] dc obtain gone where
    gone: "mset (mc_hash mc ! ?i) = mset r + mset gone" "mset d = mset (map me_id gone)"
    by (auto simp: removes_def)
  have i: "?i < length (mc_hash mc)" by (rule cache_ok_hash_index [OF ok])
  have "mset (entries ?mc) + mset (mc_hash mc ! ?i) = mset (entries mc) + mset r"
    using mset_concat_update [OF i, of r] by (simp add: entries_def algebra_simps)
  with gone(1) have ms: "mset (entries mc) = mset (entries ?mc) + mset gone" by simp
  then have ids: "mset (map me_id (entries mc)) = mset (map me_id (entries ?mc) @ d)"
    using gone(2) by simp
  have dist: "distinct (map me_id (entries ?mc) @ d)"
    using ok mset_eq_imp_distinct_iff [OF ids] by (simp add: cache_ok_def)
  have sub: "set (entries ?mc) \<subseteq> set (entries mc)"
    using arg_cong [OF ms, of set_mset] by auto
  have img: "me_id ` set (entries mc) = me_id ` set (entries ?mc) \<union> set d"
    using arg_cong [OF ids, of set_mset] by simp
  have "set r \<subseteq> set (mc_hash mc ! ?i)"
    using arg_cong [OF gone(1), of set_mset] by auto
  then have "\<forall>j < length (mc_hash ?mc). bucket_ok (mc_size ?mc) j (mc_hash ?mc ! j)"
    using ok i by (auto simp: all_nth_update cache_ok_def bucket_ok_def nth_list_update)
  moreover have "set (concat (mc_ino_index ?mc)) \<subseteq> me_id ` set (entries ?mc)"
    using ok img by (auto simp: cache_ok_def ino_del_fold)
  moreover have "distinct (concat (mc_ino_index ?mc))"
    using ok by (simp add: cache_ok_def ino_del_fold concat_map_filter)
  ultimately show ?thesis
    using ok dist sub unfolding mc' by (auto simp: cache_ok_def ino_del_fold)
qed


lemma cache_set_ino_index_ok [inv_intros]:
  assumes ok: "cache_ok mc" and me: "me_id me \<in> me_id ` set (entries mc)"
  shows "cache_ok (cache_set_ino_index mc me)"
proof -
  let ?i = "unat (ino_hash (me_dev me) (me_ino me) (mc_size mc))"
  let ?idx = "ino_del (me_id me) (mc_ino_index mc)"
  let ?new = "?idx[?i := me_id me # ?idx ! ?i]"
  have i: "?i < length ?idx"
    using cache_ok_ino_index [OF ok] by (simp add: ino_del_def)
  have old: "concat ?idx = filter (\<lambda>x. x \<noteq> me_id me) (concat (mc_ino_index mc))"
    by (simp add: ino_del_def concat_map_filter)
  have ms: "mset (concat ?new) = mset (me_id me # concat ?idx)"
    using mset_concat_update [OF i, of "me_id me # ?idx ! ?i"] by simp
  have "distinct (me_id me # concat ?idx)"
    using ok unfolding old by (simp add: cache_ok_def)
  then have "distinct (concat ?new)" using ms by (metis mset_eq_imp_distinct_iff)
  moreover have "set (concat ?new) = insert (me_id me) (set (concat ?idx))"
    using arg_cong [OF ms, of set_mset] by simp
  ultimately show ?thesis
    using ok me old by (auto simp: cache_ok_def cache_set_ino_index_def Let_def entries_def ino_del_def)
qed

lemma cache_push_identity: "cache_push_mapent me mapent m = (rv, me', m') \<Longrightarrow> same_identity me' me"
  by (auto simp: cache_push_mapent_def same_identity_def Let_def split: if_splits option.splits prod.splits)

lemma cache_pop_identity: "cache_pop_mapent me = (rv, me') \<Longrightarrow> same_identity me' me"
  by (auto simp: cache_pop_mapent_def same_identity_def split: if_splits option.splits list.splits)

text \<open>The entry found by key is the one at its address.\<close>

lemma cache_lookup_distinct_entry:
  assumes ok: "cache_ok mc" and "cache_lookup_distinct mc (Some k) = e # r"
  shows "e \<in> set (entries mc)" "me_key e = k" "e \<in> set (bucket mc k)"
proof -
  from assms(2) have cf: "chain_find (has_key k) (bucket mc k) = e # r"
    by (simp add: cache_lookup_distinct_def)
  show "me_key e = k" by (rule chain_find_hd [OF cf])
  show "e \<in> set (bucket mc k)" by (rule chain_find_set [OF cf])
  then show "e \<in> set (entries mc)" using bucket_entries [OF ok] by blast
qed

lemma entry_unique:
  "cache_ok mc \<Longrightarrow> x \<in> set (entries mc) \<Longrightarrow> y \<in> set (entries mc) \<Longrightarrow> me_id x = me_id y \<Longrightarrow> x = y"
  by (auto simp: cache_ok_def distinct_map inj_on_def)

lemma replace_entry_ok [inv_intros]:
  assumes "cache_ok mc" and "e \<in> set (entries mc)" and "same_identity e' e"
  shows "cache_ok (upd_entry (me_id e) (\<lambda>_. e') mc)"
  using assms entry_unique [OF assms(1)] by (intro upd_entry_ok) blast+

lemma cache_lookup_negative_ok [inv_intros]:
  assumes ok: "cache_ok mc"
  shows "cache_ok (snd (cache_lookup_negative now mc me key))"
proof (cases "cache_lookup_distinct mc (Some key)")
  case Nil
  with ok show ?thesis by (simp add: cache_lookup_negative_def)
next
  case (Cons e r)
  obtain rv e' where pop: "cache_pop_mapent e = (rv, e')" by (cases "cache_pop_mapent e")
  have "cache_ok (upd_entry (me_id e) (\<lambda>_. e') mc)"
    using replace_entry_ok [OF ok] cache_lookup_distinct_entry [OF ok Cons] cache_pop_identity [OF pop]
    by blast
  with Cons pop ok show ?thesis by (simp add: cache_lookup_negative_def cache_delete_ok)
qed

lemma cache_update_negative_ok [inv_intros]:
  assumes ok: "cache_ok mc" and upd: "cache_update_negative now mc ms key timeout = Some mc'"
  shows "cache_ok mc'"
proof -
  have status: "cache_ok (upd_entry a (\<lambda>x. x\<lparr>me_status := t\<rparr>) mc1)" if "cache_ok mc1" for a t mc1
    using that by (simp add: upd_entry_ok)
  show ?thesis
  proof (cases "cache_lookup_distinct mc (Some key)")
    case Nil
    with upd ok show ?thesis
      by (auto simp: cache_update_negative_def status cache_update_ok
          split: if_splits Option.bind_splits prod.splits list.splits)
  next
    case (Cons e r)
    obtain rv e' m where push: "cache_push_mapent e None (mc_mem mc) = (rv, e', m)"
      by (cases "cache_push_mapent e None (mc_mem mc)")
    have "cache_ok (upd_entry (me_id e) (\<lambda>_. e') (mc\<lparr>mc_mem := m\<rparr>))"
      using replace_entry_ok [of "mc\<lparr>mc_mem := m\<rparr>" e e'] ok cache_lookup_distinct_entry [OF ok Cons]
        cache_push_identity [OF push] by simp
    with Cons push upd ok status show ?thesis
      by (auto simp: cache_update_negative_def split: if_splits Option.bind_splits list.splits)
  qed
qed

section \<open>The cache as a transition system\<close>

text \<open>
  The operations that change a map's cache. The last three are the writes that other
  components make through a pointer to an entry: the device and inode numbers of a
  trigger, the file descriptor of its mount, and the multi-mount links.
\<close>

datatype cache_op =
    OpAdd addr string "string option" time
  | OpUpdate addr string "string option" time
  | OpUpdateOffset string string string time
  | OpDelete string
  | OpLookupNegative time addr string
  | OpUpdateNegative time addr string time
  | OpSetInoIndex addr
  | OpPush addr "string option"
  | OpPop addr
  | OpSetDevIno addr u64 u64
  | OpSetIoctlfd addr int
  | OpSetMM addr "addr option" "addr option"

text \<open>One operation; \<open>None\<close> when it does not return or is given a pointer to no entry.\<close>

fun cache_exec :: "mapent_cache \<Rightarrow> cache_op \<Rightarrow> mapent_cache option" where
  "cache_exec mc (OpAdd ms key ent age) = map_option snd (cache_add mc ms key ent age)"
| "cache_exec mc (OpUpdate ms key ent age) = map_option snd (cache_update mc ms key ent age)"
| "cache_exec mc (OpUpdateOffset mkey key ent age) =
     map_option snd (cache_update_offset mc mkey key ent age)"
| "cache_exec mc (OpDelete key) = Some (snd (cache_delete mc key))"
| "cache_exec mc (OpLookupNegative now a key) =
     (case deref mc a of [] \<Rightarrow> None | me # _ \<Rightarrow> Some (snd (cache_lookup_negative now mc me key)))"
| "cache_exec mc (OpUpdateNegative now ms key timeout) = cache_update_negative now mc ms key timeout"
| "cache_exec mc (OpSetInoIndex a) =
     (case deref mc a of [] \<Rightarrow> None | me # _ \<Rightarrow> Some (cache_set_ino_index mc me))"
| "cache_exec mc (OpPush a ent) =
     (case deref mc a of [] \<Rightarrow> None
      | me # _ \<Rightarrow> (case cache_push_mapent me ent (mc_mem mc) of (_, me', m) \<Rightarrow>
                     Some (upd_entry a (\<lambda>_. me') (mc\<lparr>mc_mem := m\<rparr>))))"
| "cache_exec mc (OpPop a) =
     (case deref mc a of [] \<Rightarrow> None
      | me # _ \<Rightarrow> Some (upd_entry a (\<lambda>_. snd (cache_pop_mapent me)) mc))"
| "cache_exec mc (OpSetDevIno a dev ino) = Some (upd_entry a (\<lambda>x. x\<lparr>me_dev := dev, me_ino := ino\<rparr>) mc)"
| "cache_exec mc (OpSetIoctlfd a fd) = Some (upd_entry a (\<lambda>x. x\<lparr>me_ioctlfd := fd\<rparr>) mc)"
| "cache_exec mc (OpSetMM a root par) =
     Some (upd_entry a (\<lambda>x. x\<lparr>me_mm_root := root, me_mm_parent := par\<rparr>) mc)"

lemma deref_in_Some:
  "deref_in a cs = e # r \<Longrightarrow> e \<in> set (concat cs) \<and> me_id e = a"
  by (induction cs) (auto split: list.splits dest: chain_find_set chain_find_hd)

lemma deref_entry: "deref mc a = e # r \<Longrightarrow> e \<in> set (entries mc) \<and> me_id e = a"
  using deref_in_Some [of a "mc_hash mc @ mc_lost mc" e r] by (simp add: deref_def entries_def)

lemma cache_exec_ok:
  assumes "cache_ok mc" and "cache_exec mc op = Some mc'"
  shows "cache_ok mc'"
proof (cases op)
  case (OpSetInoIndex a)
  with assms show ?thesis
    by (auto simp: cache_set_ino_index_ok split: list.splits dest: deref_entry)
next
  case (OpPush a ent)
  with assms show ?thesis
    by (auto split: list.splits prod.splits dest!: deref_entry cache_push_identity
        intro: replace_entry_ok)
next
  case (OpPop a)
  with assms show ?thesis
    using cache_pop_identity
    by (auto split: list.splits dest!: deref_entry
        intro!: replace_entry_ok) (metis prod.collapse)
next
  case (OpAdd ms key ent age)
  with assms show ?thesis by (auto intro: cache_add_ok)
next
  case (OpUpdate ms key ent age)
  with assms show ?thesis by (auto intro: cache_update_ok)
next
  case (OpUpdateOffset mkey key ent age)
  with assms show ?thesis by (auto intro: cache_update_offset_ok)
next
  case (OpLookupNegative now a key)
  with assms show ?thesis by (auto simp: cache_lookup_negative_ok split: list.splits)
next
  case (OpUpdateNegative now ms key timeout)
  with assms show ?thesis by (auto intro: cache_update_negative_ok)
qed (use assms in \<open>auto simp: upd_entry_ok cache_delete_ok\<close>)

end
