(* ===== verification/Interfaces.thy ===== *)
theory Interfaces
  imports Prelude
begin

text \<open>
  The contracts between the components, as locales: a store whose entries carry the time
  they were last read (the map entry cache, as the lookup modules fill it), and a table of
  named values (the macro tables, as the map parsers use them).
\<close>

section \<open>Stores filled by reading a map\<close>

text \<open>Storing the pairs of a map one after the other, each with the time of the read.\<close>

fun read_all :: "('s \<Rightarrow> 'k \<Rightarrow> 'v \<Rightarrow> time \<Rightarrow> 's option) \<Rightarrow> 's \<Rightarrow> ('k \<times> 'v) list \<Rightarrow> time \<Rightarrow> 's option" where
  "read_all upd s [] t = Some s"
| "read_all upd s ((k, v) # kvs) t = Option.bind (upd s k v t) (\<lambda>s'. read_all upd s' kvs t)"

text \<open>
  \<open>get\<close> is the value stored for a key and the time of the read that stored it. An update
  returns; it leaves an entry of the same read alone, replaces one of another read and adds
  a missing one; other keys are not affected.
\<close>

locale timed_store =
  fixes get :: "'s \<Rightarrow> 'k \<Rightarrow> ('v \<times> time) option"
    and upd :: "'s \<Rightarrow> 'k \<Rightarrow> 'v \<Rightarrow> time \<Rightarrow> 's option"
    and invar :: "'s \<Rightarrow> bool"
  assumes upd_returns: "invar s \<Longrightarrow> \<exists>s'. upd s k v t = Some s'"
    and upd_invar: "invar s \<Longrightarrow> upd s k v t = Some s' \<Longrightarrow> invar s'"
    and upd_same_read: "invar s \<Longrightarrow> upd s k v t = Some s' \<Longrightarrow> get s k = Some (v0, t) \<Longrightarrow> get s' k = Some (v0, t)"
    and upd_get: "invar s \<Longrightarrow> upd s k v t = Some s' \<Longrightarrow> (\<And>v0. get s k \<noteq> Some (v0, t)) \<Longrightarrow> get s' k = Some (v, t)"
    and upd_other: "invar s \<Longrightarrow> upd s k v t = Some s' \<Longrightarrow> k' \<noteq> k \<Longrightarrow> get s' k' = get s k'"
begin

lemma read_all_get:
  assumes "invar s"
  shows "\<exists>s'. read_all upd s kvs t = Some s' \<and> invar s' \<and>
    (\<forall>k. get s' k =
       (if \<exists>v0. get s k = Some (v0, t) then get s k
        else case map_of kvs k of Some v \<Rightarrow> Some (v, t) | None \<Rightarrow> get s k))"
  using assms
proof (induction kvs arbitrary: s)
  case Nil
  then show ?case by simp
next
  case (Cons kv kvs)
  obtain k v where kv: "kv = (k, v)" by (cases kv)
  from upd_returns [OF Cons.prems] obtain s1 where s1: "upd s k v t = Some s1" by blast
  note inv1 = upd_invar [OF Cons.prems s1]
  from Cons.IH [OF inv1] obtain s' where s': "read_all upd s1 kvs t = Some s'" "invar s'"
    and g: "\<And>x. get s' x = (if \<exists>v0. get s1 x = Some (v0, t) then get s1 x
        else case map_of kvs x of Some v \<Rightarrow> Some (v, t) | None \<Rightarrow> get s1 x)" by blast
  have "get s' x = (if \<exists>v0. get s x = Some (v0, t) then get s x
        else case map_of (kv # kvs) x of Some v \<Rightarrow> Some (v, t) | None \<Rightarrow> get s x)" for x
  proof (cases "x = k")
    case True
    show ?thesis
    proof (cases "\<exists>v0. get s k = Some (v0, t)")
      case True
      then obtain v0 where v0: "get s k = Some (v0, t)" ..
      with upd_same_read [OF Cons.prems s1 v0] g [of k] \<open>x = k\<close> show ?thesis by simp
    next
      case False
      with upd_get [OF Cons.prems s1] have "get s1 k = Some (v, t)" by blast
      with False g [of k] \<open>x = k\<close> kv show ?thesis by simp
    qed
  next
    case False
    with upd_other [OF Cons.prems s1 False] g [of x] kv show ?thesis by (simp split: option.split)
  qed
  with s1 s' kv show ?case by auto
qed

text \<open>
  A whole read, none of whose keys has been seen with the same time before: the first
  value of every key of the map is stored, every other key keeps what it had.
\<close>

lemma read_all_fresh:
  assumes "invar s" and "\<And>k v0. get s k \<noteq> Some (v0, t)"
  shows "\<exists>s'. read_all upd s kvs t = Some s' \<and> invar s' \<and>
    (\<forall>k. get s' k = (case map_of kvs k of Some v \<Rightarrow> Some (v, t) | None \<Rightarrow> get s k))"
  using read_all_get [OF assms(1), of kvs t] assms(2) by simp

end

section \<open>Tables of named values\<close>

text \<open>
  \<open>find\<close> looks a name up; \<open>add\<close> sets a value and never fails, \<open>remove\<close> takes a name out;
  \<open>valid\<close> are the names that may be added.
\<close>

locale named_table =
  fixes find :: "'t \<Rightarrow> string \<Rightarrow> string option"
    and add :: "'t \<Rightarrow> string \<Rightarrow> string \<Rightarrow> 't"
    and remove :: "'t \<Rightarrow> string \<Rightarrow> 't"
    and invar :: "'t \<Rightarrow> bool"
    and valid :: "string \<Rightarrow> bool"
  assumes add_find: "invar t \<Longrightarrow> find (add t n v) x = (if x = n then Some v else find t x)"
    and remove_find: "invar t \<Longrightarrow> find (remove t n) x = (if x = n then None else find t x)"
    and add_invar: "invar t \<Longrightarrow> valid n \<Longrightarrow> invar (add t n v)"
    and remove_invar: "invar t \<Longrightarrow> invar (remove t n)"
begin

text \<open>Setting several values: the last one set for a name is found.\<close>

lemma add_all_find:
  "invar t \<Longrightarrow> \<forall>n \<in> set (map fst nvs). valid n \<Longrightarrow> invar (fold (\<lambda>(n, v) t. add t n v) nvs t) \<and>
     find (fold (\<lambda>(n, v) t. add t n v) nvs t) x =
       (case map_of (rev nvs) x of Some v \<Rightarrow> Some v | None \<Rightarrow> find t x)"
proof (induction nvs arbitrary: t)
  case Nil
  then show ?case by simp
next
  case (Cons nv nvs)
  obtain n v where nv: "nv = (n, v)" by (cases nv)
  with Cons.prems have "valid n" "\<forall>n \<in> set (map fst nvs). valid n" by simp_all
  from Cons.IH [OF add_invar [OF Cons.prems(1) this(1), of v] this(2)] show ?case
    using nv add_find [OF Cons.prems(1), of n v x] by (auto simp: map_add_def split: option.split)
qed

text \<open>Removing the names again restores every name that was not defined before.\<close>

lemma remove_all_find:
  "invar t \<Longrightarrow> invar (fold (\<lambda>n t. remove t n) ns t) \<and>
     find (fold (\<lambda>n t. remove t n) ns t) x = (if x \<in> set ns then None else find t x)"
proof (induction ns arbitrary: t)
  case Nil
  then show ?case by simp
next
  case (Cons n ns)
  from Cons.IH [OF remove_invar [OF Cons.prems, of n]] show ?case
    using remove_find [OF Cons.prems, of n x] by auto
qed

lemma add_remove_all:
  assumes "invar t" and "\<forall>n \<in> set (map fst nvs). valid n"
    and "\<And>n. n \<in> set (map fst nvs) \<Longrightarrow> find t n = None"
  shows "find (fold (\<lambda>n t. remove t n) (map fst nvs) (fold (\<lambda>(n, v) t. add t n v) nvs t)) x = find t x"
proof -
  have "map_of (rev nvs) x = None" if "x \<notin> set (map fst nvs)"
    using that by (auto simp: map_of_eq_None_iff image_iff)
  with add_all_find [OF assms(1,2), of x] remove_all_find assms(3) show ?thesis by auto
qed

end

end
