(* ===== verification/Cache_Props.thy ===== *)
theory Cache_Props
  imports Cache_Lemmas Interfaces
begin

text \<open>
  The properties of the map entry cache that its callers rely on: enumeration visits every
  primary entry once, what lookups find after additions and deletions, the inode index,
  the parent of an offset, and the stack of saved entries behind negative caching.
\<close>

section \<open>Enumeration\<close>

lemma first_primary_Nil: "first_primary cs = [] \<longleftrightarrow> filter primary (concat cs) = []"
  by (induction cs) (auto simp: skip_secondary_def chain_find_Nil_iff filter_empty_conv split: list.split
      dest: chain_find_set chain_find_hd)

text \<open>A pointer \<open>s\<close> into the table with the primary entries still to come behind its head.\<close>

definition enum_at :: "chain list \<Rightarrow> chain \<Rightarrow> mapent list \<Rightarrow> bool" where
  "enum_at cs s todo \<longleftrightarrow>
     (\<exists>i pre. i < length cs \<and> s \<noteq> [] \<and> cs ! i = pre @ s
        \<and> todo = filter primary (tl s) @ filter primary (concat (drop (Suc i) cs)))"

lemma enum_at_shift: "enum_at cs s todo \<Longrightarrow> enum_at (c # cs) s todo"
  unfolding enum_at_def by (metis Suc_less_eq drop_Suc_Cons length_Cons nth_Cons_Suc)

lemma first_primary_Cons:
  "first_primary cs = e # r \<Longrightarrow> \<exists>todo. enum_at cs (e # r) todo \<and> filter primary (concat cs) = e # todo"
proof (induction cs)
  case (Cons c cs)
  show ?case
  proof (cases "chain_find primary c")
    case Nil
    with Cons have "first_primary cs = e # r" by (simp add: skip_secondary_def)
    with Cons.IH obtain todo where "enum_at cs (e # r) todo" "filter primary (concat cs) = e # todo"
      by blast
    with Nil enum_at_shift show ?thesis
      by (auto simp: chain_find_Nil_iff filter_empty_conv)
  next
    case (Cons x xs)
    with Cons.prems have [simp]: "x = e" "xs = r" by (simp_all add: skip_secondary_def)
    from chain_find_decomp [OF Cons] obtain pre where
      c: "c = pre @ e # r" and "\<forall>y \<in> set pre. \<not> primary y" "primary e" by auto
    then have "filter primary (concat (c # cs)) = e # filter primary r @ filter primary (concat cs)"
      by simp
    moreover have "enum_at (c # cs) (e # r) (filter primary r @ filter primary (concat cs))"
      unfolding enum_at_def by (intro exI [of _ 0] exI [of _ pre]) (simp add: c)
    ultimately show ?thesis by blast
  qed
qed simp

lemma cache_lookup_next_eq:
  assumes ok: "cache_ok mc" and i: "i < length (mc_hash mc)" and b: "mc_hash mc ! i = pre @ e # r"
  shows "cache_lookup_next mc (e # r) = first_primary (r # drop (Suc i) (mc_hash mc))"
proof -
  have h: "unat (hash (me_key e) (mc_size mc)) = i"
    using ok i b by (force simp: cache_ok_def bucket_ok_def)
  have len: "length (mc_hash mc) = unat (mc_size mc)" using ok by (simp add: cache_ok_def)
  let ?h = "hash (me_key e) (mc_size mc) + 1"
  have "unat (hash (me_key e) (mc_size mc)) + 1 < 2 ^ 32"
    using h i len unsigned_less [where w = "mc_size mc" and 'a = nat] by simp
  then have "unat ?h = Suc i"
    using h by (simp add: unat_add_lem [THEN iffD1])
  moreover from this have "?h < mc_size mc \<longleftrightarrow> Suc i < length (mc_hash mc)"
    by (simp add: word_less_nat_alt len)
  ultimately show ?thesis
    by (auto simp: cache_lookup_next_def skip_secondary_def Let_def split: list.split)
qed

lemma enum_at_next:
  assumes ok: "cache_ok mc" and at: "enum_at (mc_hash mc) s todo"
  shows "case todo of [] \<Rightarrow> cache_lookup_next mc s = []
         | e # todo' \<Rightarrow> \<exists>r. cache_lookup_next mc s = e # r \<and> enum_at (mc_hash mc) (e # r) todo'"
proof -
  let ?H = "mc_hash mc"
  from at obtain i pre e r where i: "i < length ?H" and s: "s = e # r" and b: "?H ! i = pre @ e # r"
    and todo: "todo = filter primary (concat (r # drop (Suc i) ?H))"
    by (cases s) (auto simp: enum_at_def)
  have nxt: "cache_lookup_next mc s = first_primary (r # drop (Suc i) ?H)"
    unfolding s by (rule cache_lookup_next_eq [OF ok i b])
  have shift: "enum_at ?H x t" if at': "enum_at (r # drop (Suc i) ?H) x t" for x t
  proof -
    from at' obtain j p where j: "j < Suc (length ?H - Suc i)" "x \<noteq> []" "(r # drop (Suc i) ?H) ! j = p @ x"
      "t = filter primary (tl x) @ filter primary (concat (drop (Suc j) (r # drop (Suc i) ?H)))"
      by (auto simp: enum_at_def)
    show ?thesis
    proof (cases j)
      case 0
      with j b i show ?thesis
        unfolding enum_at_def by (intro exI [of _ i] exI [of _ "pre @ e # p"]) auto
    next
      case (Suc j')
      with j i show ?thesis
        unfolding enum_at_def by (intro exI [of _ "Suc i + j'"] exI [of _ p]) (auto simp: add.commute)
    qed
  qed
  show ?thesis
  proof (cases "first_primary (r # drop (Suc i) ?H)")
    case Nil
    with todo have "todo = []" by (simp only: first_primary_Nil)
    with nxt Nil show ?thesis by simp
  next
    case (Cons x xs)
    from first_primary_Cons [OF this] obtain t where
      "enum_at (r # drop (Suc i) ?H) (x # xs) t" "todo = x # t" using todo by auto
    with shift nxt Cons show ?thesis by simp
  qed
qed

text \<open>
  The pointers a caller's loop \<open>me = cache_enumerate(mc, NULL); while (me) me =
  cache_enumerate(mc, me)\<close> goes through.
\<close>

fun enum_iter :: "mapent_cache \<Rightarrow> nat \<Rightarrow> chain" where
  "enum_iter mc 0 = cache_enumerate mc []"
| "enum_iter mc (Suc n) = cache_enumerate mc (enum_iter mc n)"

definition primaries :: "mapent_cache \<Rightarrow> mapent list" where
  "primaries mc = filter primary (concat (mc_hash mc))"

lemma enum_iter_at:
  assumes ok: "cache_ok mc"
  shows "n < length (primaries mc) \<Longrightarrow>
    \<exists>r. enum_iter mc n = primaries mc ! n # r \<and> enum_at (mc_hash mc) (enum_iter mc n) (drop (Suc n) (primaries mc))"
proof (induction n)
  case 0
  then obtain e t where p: "primaries mc = e # t" by (cases "primaries mc") auto
  have "first_primary (mc_hash mc) \<noteq> []"
    using p by (simp add: first_primary_Nil primaries_def)
  then obtain x r where x: "first_primary (mc_hash mc) = x # r" by (meson neq_Nil_conv)
  from first_primary_Cons [OF x] p show ?case
    by (auto simp: cache_enumerate_def cache_lookup_first_def x primaries_def)
next
  case (Suc n)
  then obtain r where r: "enum_iter mc n = primaries mc ! n # r"
    and at: "enum_at (mc_hash mc) (enum_iter mc n) (drop (Suc n) (primaries mc))" by auto
  have d: "drop (Suc n) (primaries mc) = primaries mc ! Suc n # drop (Suc (Suc n)) (primaries mc)"
    using Suc.prems by (simp add: Cons_nth_drop_Suc)
  from enum_at_next [OF ok at] r show ?case unfolding d by (auto simp: cache_enumerate_def)
qed

lemma enum_iter_end:
  assumes ok: "cache_ok mc"
  shows "enum_iter mc (length (primaries mc)) = []"
proof (cases "primaries mc")
  case Nil
  then show ?thesis
    by (simp add: cache_enumerate_def cache_lookup_first_def first_primary_Nil primaries_def)
next
  case (Cons e t)
  define n where "n = length (primaries mc) - 1"
  have n: "length (primaries mc) = Suc n" using Cons n_def by simp
  then obtain r where r: "enum_iter mc n = primaries mc ! n # r"
    and at: "enum_at (mc_hash mc) (enum_iter mc n) (drop (Suc n) (primaries mc))"
    using enum_iter_at [OF ok, of n] by auto
  from enum_at_next [OF ok at] n r show ?thesis by (simp add: cache_enumerate_def)
qed


section \<open>What lookups find\<close>

text \<open>The entry a pointer refers to, and the entry cached for a key.\<close>

definition found :: "chain \<Rightarrow> mapent option" where
  "found s = (case s of [] \<Rightarrow> None | e # _ \<Rightarrow> Some e)"

definition cached :: "mapent_cache \<Rightarrow> string \<Rightarrow> mapent option" where
  "cached mc k = found (cache_lookup_distinct mc (Some k))"

lemma found_chain_find: "found (chain_find P c) = find P c"
  by (induction c) (auto simp: found_def)

lemma cached_find: "cached mc k = find (has_key k) (bucket mc k)"
  by (simp add: cached_def cache_lookup_distinct_def found_chain_find)

lemma cached_None_iff: "cached mc k = None \<longleftrightarrow> (\<forall>e \<in> set (bucket mc k). me_key e \<noteq> k)"
  by (auto simp: cached_find find_None_iff)

lemma cached_lookup:
  "cached mc k = None \<longleftrightarrow> cache_lookup_distinct mc (Some k) = []"
  "cached mc k = Some e \<longleftrightarrow> (\<exists>r. cache_lookup_distinct mc (Some k) = e # r)"
  by (cases "cache_lookup_distinct mc (Some k)"; simp add: cached_def found_def)+

lemma cached_Some:
  assumes "cached mc k = Some e"
  shows "me_key e = k" "e \<in> set (bucket mc k)" "cache_ok mc \<Longrightarrow> e \<in> set (entries mc)"
proof -
  from assms show "me_key e = k" "e \<in> set (bucket mc k)" by (auto simp: cached_find find_Some_iff)
  then show "cache_ok mc \<Longrightarrow> e \<in> set (entries mc)" using bucket_entries by blast
qed

lemma find_filter: "(\<And>x. P x \<Longrightarrow> Q x) \<Longrightarrow> find P (filter Q xs) = find P xs"
  by (induction xs) auto

lemma bucket_update:
  assumes "i < length (mc_hash mc)" and "mc_hash mc' = (mc_hash mc)[i := c]" and "mc_size mc' = mc_size mc"
  shows "bucket mc' k = (if unat (hash k (mc_size mc)) = i then c else bucket mc k)"
  using assms by (simp add: bucket_def)

lemma bucket_upd_entry:
  assumes "cache_ok mc"
  shows "bucket (upd_entry a f mc) k = upd_chain a f (bucket mc k)"
  using cache_ok_hash_index [OF assms, of k] by (simp add: bucket_def frame_simps)

lemma cached_upd_entry:
  assumes ok: "cache_ok mc" and f: "\<And>e. me_key (f e) = me_key e"
  shows "cached (upd_entry a f mc) k = map_option (\<lambda>e. if me_id e = a then f e else e) (cached mc k)"
proof -
  have "find (has_key k) (upd_chain a f c) = map_option (\<lambda>e. if me_id e = a then f e else e) (find (has_key k) c)" for c
    using f by (induction c) auto
  then show ?thesis by (simp add: cached_find bucket_upd_entry [OF ok])
qed

lemma cached_mem [simp]: "cached (mc\<lparr>mc_mem := m\<rparr>) k = cached mc k"
  by (simp add: cached_find bucket_def)

lemma delete_tail_fail_MM: "delete_tail key c = (False, r, d) \<Longrightarrow> \<exists>e \<in> set c. me_key e = key \<and> IS_MM e"
  by (induction c arbitrary: r d) (auto split: if_splits prod.splits)

lemma delete_chain_fail_MM: "delete_chain key c = (False, r, d) \<Longrightarrow> \<exists>e \<in> set c. me_key e = key \<and> IS_MM e"
  by (cases c) (auto split: if_splits prod.splits dest: delete_tail_fail_MM)

lemma cache_delete_bucket:
  assumes ok: "cache_ok mc" and del: "cache_delete mc key = (ret, mc')"
  shows "\<exists>b r d. delete_chain key (bucket mc key) = (b, r, d) \<and> ret = (if b then CHE_OK else CHE_FAIL)
    \<and> (\<forall>k. bucket mc' k = (if unat (hash k (mc_size mc)) = unat (hash key (mc_size mc)) then r else bucket mc k))"
proof -
  obtain b r d where dc: "delete_chain key (bucket mc key) = (b, r, d)"
    by (cases "delete_chain key (bucket mc key)")
  with del have mc': "mc_hash mc' = (mc_hash mc)[unat (hash key (mc_size mc)) := r]" "mc_size mc' = mc_size mc"
    and "ret = (if b then CHE_OK else CHE_FAIL)"
    by (auto simp: cache_delete_def Let_def bucket_def)
  with dc bucket_update [OF cache_ok_hash_index [OF ok] mc'] show ?thesis by blast
qed

text \<open>
  Deleting a key never affects what is cached for another key; it succeeds exactly when
  nothing is left for the key, and always when the key has no multi-mount entry.
\<close>

lemma cache_delete_cached:
  assumes ok: "cache_ok mc" and del: "cache_delete mc key = (ret, mc')"
  shows "k \<noteq> key \<Longrightarrow> cached mc' k = cached mc k"
    and "ret = CHE_OK \<longleftrightarrow> cached mc' key = None"
    and "\<forall>e \<in> set (bucket mc key). me_key e = key \<longrightarrow> \<not> IS_MM e \<Longrightarrow> ret = CHE_OK"
proof -
  from cache_delete_bucket [OF ok del] obtain b r d where
    dc: "delete_chain key (bucket mc key) = (b, r, d)" and ret: "ret = (if b then CHE_OK else CHE_FAIL)"
    and bk: "\<And>k. bucket mc' k = (if unat (hash k (mc_size mc)) = unat (hash key (mc_size mc)) then r else bucket mc k)"
    by blast
  from delete_chain_removes [of key "bucket mc key"] dc have
    rem: "filter (\<lambda>e. me_key e \<noteq> key) r = filter (\<lambda>e. me_key e \<noteq> key) (bucket mc key)"
      "b \<longleftrightarrow> (\<forall>e \<in> set r. me_key e \<noteq> key)" by (auto simp: removes_def)
  show "ret = CHE_OK \<longleftrightarrow> cached mc' key = None"
    using ret rem(2) bk by (simp add: cached_None_iff)
  show "ret = CHE_OK" if "\<forall>e \<in> set (bucket mc key). me_key e = key \<longrightarrow> \<not> IS_MM e"
    using that ret dc delete_chain_fail_MM [of key "bucket mc key" r d] by (cases b) auto
  show "cached mc' k = cached mc k" if "k \<noteq> key"
  proof -
    have "find (has_key k) c = find (has_key k) (filter (\<lambda>e. me_key e \<noteq> key) c)" for c
      using that by (subst find_filter) auto
    moreover have "bucket mc k = bucket mc key" if "unat (hash k (mc_size mc)) = unat (hash key (mc_size mc))"
      using that by (simp add: bucket_def)
    ultimately show ?thesis using bk rem(1) by (simp add: cached_find) metis
  qed
qed


lemma cache_add_ample:
  assumes "mem_ample (mc_mem mc)"
  obtains m where "mem_ample m"
    "cache_add mc ms key ent age =
       map_option (\<lambda>mc'. (CHE_OK, mc'))
         (cache_link (mc\<lparr>mc_mem := m, mc_brk := Suc (mc_brk mc)\<rparr>) key (new_mapent (mc_brk mc) ms key ent age))"
proof -
  from assms obtain m1 where m1: "malloc (mc_mem mc) = (True, m1)" "mem_ample m1" by (rule mem_ampleE)
  from m1(2) obtain m2 where m2: "malloc m1 = (True, m2)" "mem_ample m2" by (rule mem_ampleE)
  from m2(2) obtain m3 where m3: "malloc m2 = (True, m3)" "mem_ample m3" by (rule mem_ampleE)
  show thesis
    by (rule that [of "if ent = None then m2 else m3"])
       (use m1 m2 m3 in \<open>auto simp: cache_add_def split: option.split\<close>)
qed

text \<open>Adding a key that is not cached; everything else is found as before.\<close>

lemma cache_add_new:
  assumes ok: "cache_ok mc" and new: "cached mc key = None" and mem: "mem_ample (mc_mem mc)"
  shows "\<exists>mc'. cache_add mc ms key ent age = Some (CHE_OK, mc') \<and> mem_ample (mc_mem mc')
    \<and> mc_size mc' = mc_size mc \<and> mc_lost mc' = mc_lost mc
    \<and> mc_hash mc' = (mc_hash mc)[unat (hash key (mc_size mc)) := new_mapent (mc_brk mc) ms key ent age # bucket mc key]
    \<and> (\<forall>k. cached mc' k = (if k = key then Some (new_mapent (mc_brk mc) ms key ent age) else cached mc k))"
proof -
  let ?e = "new_mapent (mc_brk mc) ms key ent age"
  let ?i = "unat (hash key (mc_size mc))"
  from cache_add_ample [OF mem] obtain m3 where m3: "mem_ample m3"
    "cache_add mc ms key ent age =
       map_option (\<lambda>mc'. (CHE_OK, mc')) (cache_link (mc\<lparr>mc_mem := m3, mc_brk := Suc (mc_brk mc)\<rparr>) key ?e)" .
  let ?mc1 = "mc\<lparr>mc_mem := m3, mc_brk := Suc (mc_brk mc)\<rparr>"
  let ?mc' = "?mc1\<lparr>mc_hash := (mc_hash mc)[?i := ?e # bucket mc key]\<rparr>"
  have "cache_lookup_distinct ?mc1 (Some key) = []"
    using new by (simp add: cached_lookup(1) cache_lookup_distinct_def bucket_def)
  from cache_link_new [OF this, of ?e] have "cache_link ?mc1 key ?e = Some ?mc'"
    by (simp add: bucket_def)
  moreover have "cached ?mc' k = (if k = key then Some ?e else cached mc k)" for k
    using bucket_update [OF cache_ok_hash_index [OF ok, of key], of ?mc' "?e # bucket mc key" k]
    by (auto simp: cached_find bucket_def)
  ultimately show ?thesis using m3 by simp
qed

section \<open>Reading a map into the cache\<close>

text \<open>
  The cache of one map: every linked entry comes from the source \<open>ms\<close>, and no allocation
  of the run fails.
\<close>

definition single_source :: "addr \<Rightarrow> mapent_cache \<Rightarrow> bool" where
  "single_source ms mc \<longleftrightarrow>
     cache_ok mc \<and> mem_ample (mc_mem mc) \<and> (\<forall>c \<in> set (mc_hash mc). \<forall>e \<in> set c. me_source e = ms)"

definition cache_get :: "mapent_cache \<Rightarrow> string \<Rightarrow> (string option \<times> time) option" where
  "cache_get mc k = map_option (\<lambda>e. (me_mapent e, me_age e)) (cached mc k)"

definition cache_put :: "addr \<Rightarrow> mapent_cache \<Rightarrow> string \<Rightarrow> string option \<Rightarrow> time \<Rightarrow> mapent_cache option" where
  "cache_put ms mc k v t = map_option snd (cache_update mc ms k v t)"

lemma single_source_bucket: "single_source ms mc \<Longrightarrow> e \<in> set (bucket mc k) \<Longrightarrow> me_source e = ms"
  using cache_ok_hash_index [of mc k] by (auto simp: single_source_def bucket_def)

text \<open>With a single source the search for the source stops at the first entry.\<close>

lemma find_source_lookup:
  assumes "single_source ms mc"
  shows "find_source ms (cache_lookup mc (Some k)) = Some (cache_lookup mc (Some k))"
proof (cases "cache_lookup mc (Some k)")
  case (Cons e r)
  then have "e \<in> set (bucket mc k) \<union> set (bucket mc ''*'')"
    by (auto simp: cache_lookup_def split: list.splits if_splits dest: chain_find_set)
  with single_source_bucket [OF assms] have "me_source e = ms" by blast
  with Cons show ?thesis by (simp add: find_source_first)
qed simp

lemma cache_lookup_cached:
  "cached mc k = Some e \<Longrightarrow> \<exists>r. cache_lookup mc (Some k) = e # r"
  by (auto simp: cached_lookup(2) cache_lookup_def cache_lookup_distinct_def)

lemma cache_lookup_uncached:
  assumes "cached mc k = None" and "cache_lookup mc (Some k) = e # r"
  shows "me_key e = ''*'' \<and> k \<noteq> ''*''"
proof -
  from assms(1) have "chain_find (has_key k) (bucket mc k) = []"
    by (simp add: cached_lookup(1) cache_lookup_distinct_def)
  with assms(2) have cf: "chain_find (has_key ''*'') (bucket mc ''*'') = e # r"
    by (auto simp: cache_lookup_def split: list.splits if_splits)
  have "cached mc ''*'' = Some e"
    using cf by (simp add: cached_def cache_lookup_distinct_def found_def)
  with chain_find_hd [OF cf] assms(1) show ?thesis by auto
qed

lemma cache_update_uncached:
  assumes "single_source ms mc" and "cached mc k = None"
  shows "cache_update mc ms k v t =
    map_option (\<lambda>(ret, mc'). if ret = CHE_FAIL then (CHE_FAIL, mc') else (CHE_UPDATED, mc')) (cache_add mc ms k v t)"
  using find_source_lookup [OF assms(1), of k] cache_lookup_uncached [OF assms(2)]
  by (auto simp: cache_update_def split: list.split)

lemma cache_put_same_read:
  assumes ss: "single_source ms mc" and c: "cached mc k = Some e" and t: "me_age e = t"
  shows "cache_put ms mc k v t = Some mc"
proof -
  from cache_lookup_cached [OF c] obtain r where r: "cache_lookup mc (Some k) = e # r" ..
  from c have "me_key e = k" by (auto simp: cached_find find_Some_iff)
  with find_source_lookup [OF ss, of k] r t show ?thesis
    by (auto simp: cache_put_def cache_update_def)
qed

lemma cache_put_replace:
  assumes ss: "single_source ms mc" and c: "cached mc k = Some e" and t: "me_age e \<noteq> t"
  shows "\<exists>m. mem_ample m \<and>
    cache_put ms mc k v t = Some (upd_entry (me_id e) (\<lambda>x. x\<lparr>me_mapent := v, me_age := t\<rparr>) (mc\<lparr>mc_mem := m\<rparr>))"
proof -
  let ?upd = "\<lambda>w m. upd_entry (me_id e) (\<lambda>x. x\<lparr>me_mapent := w, me_age := t\<rparr>) (mc\<lparr>mc_mem := m\<rparr>)"
  from cache_lookup_cached [OF c] obtain r where r: "cache_lookup mc (Some k) = e # r" ..
  note k = cached_Some(1) [OF c]
  have ok: "cache_ok mc" and mem: "mem_ample (mc_mem mc)" using ss by (simp_all add: single_source_def)
  obtain m where m: "malloc (mc_mem mc) = (True, m)" "mem_ample m"
    using mem_ample_malloc [OF mem] by (cases "malloc (mc_mem mc)") auto
  have self: "upd_entry (me_id e) (\<lambda>x. x\<lparr>me_age := t\<rparr>) mc
      = upd_entry (me_id e) (\<lambda>x. x\<lparr>me_mapent := me_mapent e, me_age := t\<rparr>) mc"
  proof (rule upd_entry_cong)
    fix x assume "x \<in> set (entries mc)" "me_id x = me_id e"
    then have "x = e" using entry_unique [OF ok] cached_Some(3) [OF c ok] by blast
    then show "x\<lparr>me_age := t\<rparr> = x\<lparr>me_mapent := me_mapent e, me_age := t\<rparr>" by simp
  qed
  note simps = cache_put_def cache_update_def find_source_lookup [OF ss, of k, unfolded r] r k t m(1)
  consider (none) "v = None" | (eq) "v \<noteq> None" "me_mapent e = v" | (diff) "v \<noteq> None" "me_mapent e \<noteq> v"
    by blast
  then show ?thesis
  proof cases
    case none
    then have "cache_put ms mc k v t = Some (?upd v (mc_mem mc))" by (simp add: simps)
    with mem show ?thesis by blast
  next
    case eq
    then have "cache_put ms mc k v t = Some (?upd v (mc_mem mc))" using self by (auto simp: simps)
    with mem show ?thesis by blast
  next
    case diff
    then have "cache_put ms mc k v t = Some (?upd v m)" by (auto simp: simps)
    with m(2) show ?thesis by blast
  qed
qed

text \<open>The three outcomes of an update, and what every key holds afterwards.\<close>

lemma single_source_put:
  assumes ss: "single_source ms mc"
  shows "\<exists>mc'. cache_put ms mc k v t = Some mc' \<and> single_source ms mc' \<and>
    (\<forall>x. cache_get mc' x = (if x = k \<and> (\<forall>v0. cache_get mc k \<noteq> Some (v0, t)) then Some (v, t) else cache_get mc x))"
proof -
  have ok: "cache_ok mc" and mem: "mem_ample (mc_mem mc)"
    and src: "\<forall>c \<in> set (mc_hash mc). \<forall>e \<in> set c. me_source e = ms"
    using ss by (simp_all add: single_source_def)
  show ?thesis
  proof (cases "cached mc k")
    case None
    from cache_add_new [OF ok None mem, of ms v t] obtain mc' where
      add: "cache_add mc ms k v t = Some (CHE_OK, mc')" and m': "mem_ample (mc_mem mc')" and
      h: "mc_hash mc' = (mc_hash mc)[unat (hash k (mc_size mc)) := new_mapent (mc_brk mc) ms k v t # bucket mc k]"
      and c: "\<And>x. cached mc' x = (if x = k then Some (new_mapent (mc_brk mc) ms k v t) else cached mc x)"
      by blast
    have "cache_put ms mc k v t = Some mc'"
      using add by (simp add: cache_put_def cache_update_uncached [OF ss None])
    moreover have "single_source ms mc'"
      using cache_add_ok [OF ok add] m' src single_source_bucket [OF ss, of _ k]
      unfolding single_source_def h by (auto dest!: set_update_subset_insert [THEN subsetD])
    ultimately show ?thesis using c None by (auto simp: cache_get_def)
  next
    case (Some e)
    show ?thesis
    proof (cases "me_age e = t")
      case True
      with cache_put_same_read [OF ss Some] ss Some show ?thesis by (auto simp: cache_get_def)
    next
      case False
      let ?f = "\<lambda>x. x\<lparr>me_mapent := v, me_age := t\<rparr>"
      from cache_put_replace [OF ss Some False] obtain m where m: "mem_ample m"
        "cache_put ms mc k v t = Some (upd_entry (me_id e) ?f (mc\<lparr>mc_mem := m\<rparr>))" by blast
      let ?mc = "upd_entry (me_id e) ?f (mc\<lparr>mc_mem := m\<rparr>)"
      have upd: "cached ?mc x = map_option (\<lambda>y. if me_id y = me_id e then ?f y else y) (cached mc x)" for x
        using cached_upd_entry [of "mc\<lparr>mc_mem := m\<rparr>" ?f "me_id e" x] ok by simp
      have id: "x = k" if "cached mc x = Some y" "me_id y = me_id e" for x y
        using entry_unique [OF ok _ _ that(2)] cached_Some [OF that(1)] cached_Some [OF Some] ok by simp
      have "cache_get ?mc x = (if x = k then Some (v, t) else cache_get mc x)" for x
      proof (cases "x = k")
        case True
        with upd [of k] Some show ?thesis by (simp add: cache_get_def)
      next
        case False
        with upd [of x] id [of x] show ?thesis by (cases "cached mc x") (auto simp: cache_get_def)
      qed
      moreover have "single_source ms ?mc"
        using upd_entry_ok [of "mc\<lparr>mc_mem := m\<rparr>" "me_id e" ?f] ok m src
        by (auto simp: single_source_def frame_simps upd_chain_def)
      ultimately show ?thesis using m(2) Some False by (auto simp: cache_get_def)
    qed
  qed
qed

interpretation cache_store: timed_store cache_get "cache_put ms" "single_source ms" for ms
proof unfold_locales
  fix s k v t assume "single_source ms s"
  from single_source_put [OF this] show "\<exists>s'. cache_put ms s k v t = Some s'" by blast
next
  fix s k v t s' assume "single_source ms s" "cache_put ms s k v t = Some s'"
  with single_source_put [OF this(1), of k v t] show "single_source ms s'" by simp
next
  fix s k v t s' v0
  assume "single_source ms s" "cache_put ms s k v t = Some s'" "cache_get s k = Some (v0, t)"
  with single_source_put [OF this(1), of k v t] show "cache_get s' k = Some (v0, t)" by auto
next
  fix s k v t s'
  assume "single_source ms s" "cache_put ms s k v t = Some s'" "\<And>v0. cache_get s k \<noteq> Some (v0, t)"
  with single_source_put [OF this(1), of k v t] show "cache_get s' k = Some (v, t)" by auto
next
  fix s k v t s' k'
  assume "single_source ms s" "cache_put ms s k v t = Some s'" "k' \<noteq> k"
  with single_source_put [OF this(1), of k v t] show "cache_get s' k' = cache_get s k'" by auto
qed


section \<open>Adding a key that is already cached\<close>

text \<open>
  The new entry is placed behind the last entry with its key, so lookups return the
  entries of a key in the order they were read. The entries that stood behind that one
  leave the chain.
\<close>

lemma cache_add_existing:
  assumes ok: "cache_ok mc" and ex: "cached mc key = Some e" and mem: "mem_ample (mc_mem mc)"
    and prim: "key_primary key (bucket mc key)"
  shows "\<exists>pre l rest mc'. cache_add mc ms key ent age = Some (CHE_OK, mc')
    \<and> bucket mc key = pre @ l # rest \<and> me_key l = key \<and> (\<forall>x \<in> set rest. me_key x \<noteq> key)
    \<and> bucket mc' key = pre @ [l, new_mapent (mc_brk mc) ms key ent age]
    \<and> mc_lost mc' = rest # mc_lost mc"
proof -
  let ?e = "new_mapent (mc_brk mc) ms key ent age"
  from cache_add_ample [OF mem] obtain m where add: "cache_add mc ms key ent age =
      map_option (\<lambda>mc'. (CHE_OK, mc')) (cache_link (mc\<lparr>mc_mem := m, mc_brk := Suc (mc_brk mc)\<rparr>) key ?e)" .
  let ?mc = "mc\<lparr>mc_mem := m, mc_brk := Suc (mc_brk mc)\<rparr>"
  have same: "bucket ?mc key = bucket mc key" "cache_lookup_distinct ?mc (Some key) = cache_lookup_distinct mc (Some key)"
    by (simp_all add: bucket_def cache_lookup_distinct_def)
  from ex obtain r where "cache_lookup_distinct ?mc (Some key) = e # r"
    unfolding same by (auto simp: cached_lookup(2))
  moreover have ok': "cache_ok ?mc" using cache_ok_brk [of "mc\<lparr>mc_mem := m\<rparr>"] ok by simp
  moreover obtain mc' where link: "cache_link ?mc key ?e = Some mc'"
    using cache_link_returns [of key ?mc ?e] prim same by auto
  ultimately obtain pre l rest where b: "bucket mc key = pre @ l # rest" "me_key l = key"
      "\<forall>x \<in> set rest. me_key x \<noteq> key" and
    mc': "mc' = ?mc\<lparr>mc_hash := (mc_hash ?mc)[unat (hash key (mc_size ?mc)) := pre @ [l, ?e]],
                    mc_lost := rest # mc_lost ?mc\<rparr>"
    using cache_link_existing [of ?mc key e r ?e mc'] same by auto
  have "bucket mc' key = pre @ [l, ?e]"
    using bucket_update [OF cache_ok_hash_index [OF ok', of key], of mc' "pre @ [l, ?e]" key]
    by (simp add: mc')
  with add link b mc' show ?thesis
    by (intro exI [of _ pre] exI [of _ l] exI [of _ rest] exI [of _ mc']) simp
qed

lemma last_occurrence_unique:
  assumes "xs @ x # ys = xs' @ x' # ys'" and "P x" and "P x'"
    and "\<forall>y \<in> set ys. \<not> P y" and "\<forall>y \<in> set ys'. \<not> P y"
  shows "xs' = xs \<and> x' = x \<and> ys' = ys"
proof -
  have "rev ys @ x # rev xs = rev ys' @ x' # rev xs'"
    using arg_cong [OF assms(1), of rev] by simp
  then have "takeWhile (\<lambda>y. \<not> P y) (rev ys @ x # rev xs) = takeWhile (\<lambda>y. \<not> P y) (rev ys' @ x' # rev xs')"
    by simp
  then have "ys = ys'" using assms(2-5) by (simp add: takeWhile_append)
  with assms(1) show ?thesis by simp
qed

lemma cache_add_size:
  assumes ok: "cache_ok mc" and add: "cache_add mc ms key ent age = Some (ret, mc')"
  shows "mc_size mc' = mc_size mc"
  using add
proof (cases rule: cache_add_cases)
  case (ok m)
  then show ?thesis
    using cache_link_frame(1) [OF _ ok(2)] cache_ok_brk [of "mc\<lparr>mc_mem := m\<rparr>"] assms(1) by simp
qed simp

section \<open>The inode index\<close>

lemma deref_in_find:
  "e \<in> set (concat cs) \<Longrightarrow> me_id e = a \<Longrightarrow> distinct (map me_id (concat cs)) \<Longrightarrow> found (deref_in a cs) = Some e"
proof (induction cs)
  case (Cons c cs)
  have f: "found (chain_find (\<lambda>x. me_id x = a) c) = find (\<lambda>x. me_id x = a) c"
    by (rule found_chain_find)
  show ?case
  proof (cases "find (\<lambda>x. me_id x = a) c")
    case None
    then have "chain_find (\<lambda>x. me_id x = a) c = []"
      using f by (simp add: found_def split: list.splits)
    with None Cons show ?thesis by (auto simp: find_None_iff)
  next
    case (Some x)
    then have "x \<in> set c" "me_id x = a" by (auto simp: find_Some_iff)
    moreover have "inj_on me_id (set (concat (c # cs)))" using Cons.prems(3) distinct_map by blast
    ultimately have "x = e" using Cons.prems(1,2) by (auto dest: inj_onD)
    with Some f show ?thesis by (auto simp: found_def split: list.splits)
  qed
qed simp

lemma deref_find:
  assumes "cache_ok mc" and "e \<in> set (entries mc)"
  shows "found (deref mc (me_id e)) = Some e"
  using assms deref_in_find [of e "mc_hash mc @ mc_lost mc" "me_id e"]
  by (simp add: deref_def entries_def cache_ok_def)

lemma lookup_ino_set:
  assumes ok: "cache_ok mc" and e: "e \<in> set (entries mc)"
  shows "found (cache_lookup_ino (cache_set_ino_index mc e) (me_dev e) (me_ino e)) = Some e"
proof -
  let ?mc = "cache_set_ino_index mc e"
  let ?i = "unat (ino_hash (me_dev e) (me_ino e) (mc_size mc))"
  have i: "?i < length (ino_del (me_id e) (mc_ino_index mc))"
    using cache_ok_ino_index [OF ok] by (simp add: ino_del_def)
  have "mc_ino_index ?mc ! ?i = me_id e # ino_del (me_id e) (mc_ino_index mc) ! ?i" and "mc_size ?mc = mc_size mc"
    using i by (simp_all add: cache_set_ino_index_def Let_def)
  moreover have "found (deref ?mc (me_id e)) = Some e"
    using deref_find [OF ok e] by (simp add: deref_def cache_set_ino_index_def Let_def)
  then obtain r where "deref ?mc (me_id e) = e # r" by (auto simp: found_def split: list.splits)
  ultimately show ?thesis by (simp add: cache_lookup_ino_def found_def)
qed

text \<open>Every entry the index returns has the device and inode number asked for.\<close>

lemma lookup_ino_sound:
  "lookup_ino_loop mc as dev ino = e # r \<Longrightarrow> me_dev e = dev \<and> me_ino e = ino \<and> me_id e \<in> set as \<and> e \<in> set (entries mc)"
  by (induction as) (auto split: list.splits if_splits dest: deref_entry)

section \<open>The parent of an offset\<close>

text \<open>\<open>p\<close> is a proper ancestor of the path \<open>key\<close>: \<open>key\<close> is \<open>p/...\<close>, and \<open>p\<close> is not the root.\<close>

definition ancestor :: "string \<Rightarrow> string \<Rightarrow> bool" where
  "ancestor p key \<longleftrightarrow> (\<exists>rest. key = p @ CHR ''/'' # rest) \<and> 2 \<le> length p"

lemma ancestor_take:
  "ancestor p key \<longleftrightarrow> (\<exists>n. p = take n key \<and> n < length key \<and> key ! n = CHR ''/'' \<and> 2 \<le> n)"
proof
  assume "ancestor p key"
  then show "\<exists>n. p = take n key \<and> n < length key \<and> key ! n = CHR ''/'' \<and> 2 \<le> n"
    by (auto simp: ancestor_def intro!: exI [of _ "length p"])
next
  assume "\<exists>n. p = take n key \<and> n < length key \<and> key ! n = CHR ''/'' \<and> 2 \<le> n"
  then show "ancestor p key"
    by (auto simp: ancestor_def) (metis id_take_nth_drop)
qed

lemma slash_before_spec:
  assumes "key \<noteq> []" and "hd key = CHR ''/''" and "t < length key"
  shows "\<exists>p. slash_before key t = Some p \<and> p \<le> t \<and> key ! p = CHR ''/'' \<and> (\<forall>n. p < n \<and> n \<le> t \<longrightarrow> key ! n \<noteq> CHR ''/'')"
  using assms
proof (induction t)
  case 0
  then show ?case by (subst slash_before.simps) (simp add: hd_conv_nth)
next
  case (Suc t)
  show ?case
  proof (cases "key ! Suc t = CHR ''/''")
    case True
    with Suc.prems show ?thesis by (subst slash_before.simps) auto
  next
    case False
    with Suc obtain p where "slash_before key t = Some p" "p \<le> t" "key ! p = CHR ''/''"
      "\<forall>n. p < n \<and> n \<le> t \<longrightarrow> key ! n \<noteq> CHR ''/''" by auto
    with False show ?thesis
      by (intro exI [of _ p]) (auto simp: slash_before.simps [of key "Suc t"] le_Suc_eq)
  qed
qed

text \<open>The search returns the entry of the longest cached ancestor at or before \<open>t\<close>.\<close>

lemma offset_parent_loop_spec:
  assumes "key \<noteq> []" and "hd key = CHR ''/''" and "t < length key"
  shows "\<exists>s. offset_parent_loop mc key t = Some s \<and>
    (case s of
       [] \<Rightarrow> \<forall>n. 2 \<le> n \<and> n \<le> t \<and> key ! n = CHR ''/'' \<longrightarrow> cached mc (take n key) = None
     | e # _ \<Rightarrow> \<exists>n. 2 \<le> n \<and> n \<le> t \<and> key ! n = CHR ''/'' \<and> cached mc (take n key) = Some e
          \<and> (\<forall>m. n < m \<and> m \<le> t \<and> key ! m = CHR ''/'' \<longrightarrow> cached mc (take m key) = None))"
  using assms(3)
proof (induction t rule: less_induct)
  case (less t)
  from slash_before_spec [OF assms(1,2) less.prems] obtain p where
    p: "slash_before key t = Some p" "p \<le> t" "key ! p = CHR ''/''"
    and above: "\<And>n. p < n \<Longrightarrow> n \<le> t \<Longrightarrow> key ! n \<noteq> CHR ''/''" by blast
  note step = offset_parent_loop.simps [of mc key t]
  show ?case
  proof (cases "p \<le> 1")
    case True
    with p above show ?thesis by (subst step) force
  next
    case False
    show ?thesis
    proof (cases "cache_lookup_distinct mc (Some (take p key))")
      case (Cons e r)
      then have "cached mc (take p key) = Some e" by (auto simp: cached_lookup(2))
      with Cons False p above show ?thesis by (subst step) (auto intro!: exI [of _ p] dest: leD)
    next
      case Nil
      then have none: "cached mc (take p key) = None" by (simp add: cached_lookup(1))
      have lt: "p - 1 < t" "p - 1 < length key" using False p(2) less.prems by simp_all
      from less.IH [OF lt] obtain s where
        s: "offset_parent_loop mc key (p - 1) = Some s" and
        spec: "case s of
           [] \<Rightarrow> \<forall>n. 2 \<le> n \<and> n \<le> p - 1 \<and> key ! n = CHR ''/'' \<longrightarrow> cached mc (take n key) = None
         | e # _ \<Rightarrow> \<exists>n. 2 \<le> n \<and> n \<le> p - 1 \<and> key ! n = CHR ''/'' \<and> cached mc (take n key) = Some e
              \<and> (\<forall>m. n < m \<and> m \<le> p - 1 \<and> key ! m = CHR ''/'' \<longrightarrow> cached mc (take m key) = None)"
        by blast
      have range: "n \<le> p - 1 \<or> n = p" if "n \<le> t" "key ! n = CHR ''/''" for n
        using above [of n] that by (cases "p < n") auto
      have "offset_parent_loop mc key t = Some s"
        using p False Nil s by (subst step) simp
      moreover have "case s of
           [] \<Rightarrow> \<forall>n. 2 \<le> n \<and> n \<le> t \<and> key ! n = CHR ''/'' \<longrightarrow> cached mc (take n key) = None
         | e # _ \<Rightarrow> \<exists>n. 2 \<le> n \<and> n \<le> t \<and> key ! n = CHR ''/'' \<and> cached mc (take n key) = Some e
              \<and> (\<forall>m. n < m \<and> m \<le> t \<and> key ! m = CHR ''/'' \<longrightarrow> cached mc (take m key) = None)"
      proof (cases s)
        case Nil
        with spec none range show ?thesis by auto
      next
        case (Cons e r)
        with spec obtain n where n: "2 \<le> n" "n \<le> p - 1" "key ! n = CHR ''/''" "cached mc (take n key) = Some e"
          "\<And>m. n < m \<Longrightarrow> m \<le> p - 1 \<Longrightarrow> key ! m = CHR ''/'' \<Longrightarrow> cached mc (take m key) = None" by auto
        then have "\<forall>m. n < m \<and> m \<le> t \<and> key ! m = CHR ''/'' \<longrightarrow> cached mc (take m key) = None"
          using none range by blast
        with n(1-4) p(2) Cons show ?thesis by auto
      qed
      ultimately show ?thesis by blast
    qed
  qed
qed

section \<open>Saved map entries and negative entries\<close>

lemma push_pop:
  assumes "me_mapent me \<noteq> None" and "mem_ample m"
  shows "\<exists>me' m'. cache_push_mapent me ent m = (CHE_OK, me', m') \<and> me_mapent me' = ent
           \<and> mem_ample m' \<and> cache_pop_mapent me' = (CHE_OK, me)"
proof -
  from assms(1) obtain s where s: "me_mapent me = Some s" by blast
  from assms(2) obtain m1 where m1: "malloc m = (True, m1)" "mem_ample m1" by (rule mem_ampleE)
  from m1(2) obtain m2 where m2: "malloc m1 = (True, m2)" "mem_ample m2" by (rule mem_ampleE)
  let ?me = "me\<lparr>me_mapent := ent, me_stack := \<lparr>s_mapent = me_mapent me, s_age = me_age me\<rparr> # me_stack me\<rparr>"
  have "cache_push_mapent me ent m = (CHE_OK, ?me, if ent = None then m1 else m2)"
    using m1(1) m2(1) by (cases ent) (simp_all add: cache_push_mapent_def s)
  moreover have "cache_pop_mapent ?me = (CHE_OK, me)" by (simp add: cache_pop_mapent_def s)
  ultimately show ?thesis using m1(2) m2(2) by simp
qed


text \<open>
  A mount failure recorded for a cached key hides its map entry; once the timeout has
  passed the negative entry is dropped and the saved map entry is back, unless a newer
  one has been read.
\<close>

lemma cached_replace:
  assumes ok: "cache_ok mc" and c: "cached mc k = Some e" and e': "me_key e' = k"
  shows "cached (upd_entry (me_id e) (\<lambda>_. e') mc) k = Some e'"
proof -
  have "upd_entry (me_id e) (\<lambda>_. e') mc = upd_entry (me_id e) (\<lambda>x. if me_key x = k then e' else x) mc"
    using entry_unique [OF ok _ cached_Some(3) [OF c ok]] cached_Some(1) [OF c] by (intro upd_entry_cong) auto
  moreover have "cached (upd_entry (me_id e) (\<lambda>x. if me_key x = k then e' else x) mc) k = Some e'"
    using cached_upd_entry [OF ok, of "\<lambda>x. if me_key x = k then e' else x" "me_id e" k] c e' cached_Some(1) [OF c]
    by simp
  ultimately show ?thesis by simp
qed

lemma cache_update_negative_cached:
  assumes ok: "cache_ok mc" and mem: "mem_ample (mc_mem mc)" and k: "k \<noteq> ''*''"
    and c: "cached mc k = Some e" and ent: "me_mapent e \<noteq> None"
  shows "\<exists>mc'. cache_update_negative now mc ms k timeout = Some mc' \<and> cache_ok mc' \<and>
    cached mc' k = Some (e\<lparr>me_mapent := None,
      me_stack := \<lparr>s_mapent = me_mapent e, s_age = me_age e\<rparr> # me_stack e, me_status := now + timeout\<rparr>)"
proof -
  let ?e1 = "e\<lparr>me_mapent := None, me_stack := \<lparr>s_mapent = me_mapent e, s_age = me_age e\<rparr> # me_stack e\<rparr>"
  from mem obtain m where m: "malloc (mc_mem mc) = (True, m)" by (rule mem_ampleE)
  let ?mc1 = "upd_entry (me_id e) (\<lambda>_. ?e1) (mc\<lparr>mc_mem := m\<rparr>)"
  from c obtain r where r: "cache_lookup_distinct mc (Some k) = e # r" by (auto simp: cached_lookup(2))
  have ok1: "cache_ok ?mc1"
    using replace_entry_ok [of "mc\<lparr>mc_mem := m\<rparr>" e ?e1] ok cached_Some(3) [OF c ok]
    by (simp add: same_identity_def)
  have c1: "cached ?mc1 k = Some ?e1"
    using cached_replace [of "mc\<lparr>mc_mem := m\<rparr>" k e ?e1] ok c cached_Some(1) [OF c] by simp
  then obtain r1 where r1: "cache_lookup_distinct ?mc1 (Some k) = ?e1 # r1" by (auto simp: cached_lookup(2))
  let ?mc2 = "upd_entry (me_id e) (\<lambda>x. x\<lparr>me_status := now + timeout\<rparr>) ?mc1"
  have "cache_push_mapent e None (mc_mem mc) = (CHE_OK, ?e1, m)"
    using m ent by (simp add: cache_push_mapent_def)
  then have "cache_update_negative now mc ms k timeout = Some ?mc2"
    using k r r1 by (simp add: cache_update_negative_def)
  moreover have "cached ?mc2 k = Some (?e1\<lparr>me_status := now + timeout\<rparr>)"
    using cached_upd_entry [OF ok1, of "\<lambda>x. x\<lparr>me_status := now + timeout\<rparr>" "me_id e" k] c1 by simp
  ultimately show ?thesis using upd_entry_ok [OF ok1] by simp
qed

lemma cache_lookup_negative_restores:
  assumes ok: "cache_ok mc" and c: "cached mc k = Some e" and "me_mapent e = None"
    and st: "me_stack e = \<lparr>s_mapent = Some saved, s_age = me_age e\<rparr> # rest" and t: "me_status e < now"
  shows "fst (cache_lookup_negative now mc e k) = CHE_OK"
    "cached (snd (cache_lookup_negative now mc e k)) k = Some (e\<lparr>me_stack := rest, me_mapent := Some saved\<rparr>)"
proof -
  let ?e = "e\<lparr>me_stack := rest, me_mapent := Some saved\<rparr>"
  from c obtain r where "cache_lookup_distinct mc (Some k) = e # r" by (auto simp: cached_lookup(2))
  then have "cache_lookup_negative now mc e k = (CHE_OK, upd_entry (me_id e) (\<lambda>_. ?e) mc)"
    using assms(3) st t by (simp add: cache_lookup_negative_def cache_pop_mapent_def)
  with cached_replace [OF ok c, of ?e] cached_Some(1) [OF c]
  show "fst (cache_lookup_negative now mc e k) = CHE_OK"
    "cached (snd (cache_lookup_negative now mc e k)) k = Some ?e" by simp_all
qed

section \<open>Properties\<close>

text \<open>A cache with one chain, for the concrete instances.\<close>

definition one_chain :: "chain \<Rightarrow> mapent_cache" where
  "one_chain es = (empty_cache 1 None None [])\<lparr>mc_hash := [es], mc_brk := 9\<rparr>"

definition sample_entry :: "addr \<Rightarrow> string \<Rightarrow> mapent" where
  "sample_entry a k = new_mapent a 0 k (Some ''srv:/exp'') 5"

lemma hash_one [simp]: "hash k 1 = 0"
  by (simp add: hash_def Let_def)

lemma one_chain_sel [simp]:
  "mc_hash (one_chain es) = [es]" "mc_size (one_chain es) = 1" "mc_mem (one_chain es) = []"
  "mc_lost (one_chain es) = []" "mc_ino_index (one_chain es) = [[]]" "mc_brk (one_chain es) = 9"
  "bucket (one_chain es) k = es"
  by (simp_all add: one_chain_def empty_cache_def bucket_def)

lemma sample_entry_sel [simp]:
  "me_id (sample_entry a k) = a" "me_key (sample_entry a k) = k" "me_len (sample_entry a k) = length k"
  "me_source (sample_entry a k) = 0" "me_mapent (sample_entry a k) = Some ''srv:/exp''"
  "me_age (sample_entry a k) = 5" "me_mm_root (sample_entry a k) = None"
  by (simp_all add: sample_entry_def)

lemma one_chain_ok: "distinct (map me_id es) \<Longrightarrow> \<forall>e \<in> set es. me_len e = length (me_key e) \<and> me_id e < 9 \<Longrightarrow>
    cache_ok (one_chain es)"
  by (simp add: cache_ok_def entries_def bucket_ok_def)

interpretation cache_sys: transition_system
  "\<lambda>mc. \<exists>sz ap ms m. sz \<noteq> 0 \<and> mc = empty_cache sz ap ms m"
  "\<lambda>mc op mc'. cache_exec mc op = Some mc'" cache_ok
  by unfold_locales (auto intro: empty_cache_ok cache_exec_ok)



text \<open>
  C5: A caller that walks a consistent cache with cache_enumerate, from NULL until NULL is
  returned, sees exactly the primary entries (every entry but the offsets of multi-mounts),
  each once and in table order.
\<close>

theorem cache_enumerate_complete:
  assumes "cache_ok mc"
  shows "(\<forall>n < length (primaries mc). found (enum_iter mc n) = Some (primaries mc ! n))
    \<and> enum_iter mc (length (primaries mc)) = []"
  using enum_iter_at [OF assms] enum_iter_end [OF assms] by (fastforce simp: found_def)

theorem cache_enumerate_complete_witness:
  "cache_ok (one_chain [sample_entry 0 ''a'', sample_entry 1 ''b''])
   \<and> found (enum_iter (one_chain [sample_entry 0 ''a'', sample_entry 1 ''b'']) 1) = Some (sample_entry 1 ''b'')"
proof -
  have ok: "cache_ok (one_chain [sample_entry 0 ''a'', sample_entry 1 ''b''])" by (simp add: one_chain_ok)
  have ps: "primaries (one_chain [sample_entry 0 ''a'', sample_entry 1 ''b'']) = [sample_entry 0 ''a'', sample_entry 1 ''b'']"
    by (simp add: primaries_def primary_def IS_MM_def)
  from cache_enumerate_complete [OF ok, unfolded ps, THEN conjunct1, rule_format, of 1] ok
  show ?thesis by simp
qed

text \<open>
  C6: Deleting a key leaves what is cached for every other key unchanged. The call
  succeeds exactly when no entry of the key is left, and it does so whenever no entry of
  the key belongs to a multi-mount.
\<close>

theorem cache_delete_correct:
  assumes "cache_ok mc" and "cache_delete mc key = (ret, mc')"
  shows "(\<forall>k. k \<noteq> key \<longrightarrow> cached mc' k = cached mc k) \<and> (ret = CHE_OK \<longleftrightarrow> cached mc' key = None)
    \<and> ((\<forall>e \<in> set (bucket mc key). me_key e = key \<longrightarrow> \<not> IS_MM e) \<longrightarrow> ret = CHE_OK)"
  using cache_delete_cached [OF assms] by blast

theorem cache_delete_correct_witness:
  "cached (snd (cache_delete (one_chain [sample_entry 0 ''a'', sample_entry 1 ''b'']) ''a'')) ''b''
     = Some (sample_entry 1 ''b'')"
proof -
  let ?mc = "one_chain [sample_entry 0 ''a'', sample_entry 1 ''b'']"
  have ok: "cache_ok ?mc" by (simp add: one_chain_ok)
  from cache_delete_correct [OF ok, of "''a''" "fst (cache_delete ?mc ''a'')" "snd (cache_delete ?mc ''a'')"]
  have "cached (snd (cache_delete ?mc ''a'')) ''b'' = cached ?mc ''b''" by simp
  then show ?thesis by (simp add: cached_find)
qed

text \<open>
  C7: Reading a map into its cache with a time not used before, one cache_update per map
  entry, returns and leaves for every key of the map its first map entry in the file, marked
  with the time of the read; a key that the map does not have keeps what was cached.
\<close>

theorem cache_read_map:
  assumes "single_source ms mc" and "\<And>k v. cache_get mc k \<noteq> Some (v, age)"
  shows "\<exists>mc'. read_all (cache_put ms) mc kvs age = Some mc' \<and> single_source ms mc' \<and>
    (\<forall>k. cache_get mc' k = (case map_of kvs k of Some v \<Rightarrow> Some (v, age) | None \<Rightarrow> cache_get mc k))"
  by (rule cache_store.read_all_fresh [OF assms])

theorem cache_read_map_witness:
  "\<exists>mc'. read_all (cache_put 0) (one_chain [sample_entry 0 ''a''])
           [(''b'', Some ''s:/b''), (''b'', Some ''s:/c'')] 6 = Some mc'
     \<and> cache_get mc' ''b'' = Some (Some ''s:/b'', 6) \<and> cache_get mc' ''a'' = Some (Some ''srv:/exp'', 5)"
proof -
  let ?mc = "one_chain [sample_entry 0 ''a'']"
  have "single_source 0 ?mc" by (simp add: single_source_def one_chain_ok)
  moreover have "cache_get ?mc k \<noteq> Some (v, 6)" for k v
    by (auto simp: cache_get_def cached_find split: if_splits)
  ultimately obtain mc' where
    "read_all (cache_put 0) ?mc [(''b'', Some ''s:/b''), (''b'', Some ''s:/c'')] 6 = Some mc'" and
    g: "\<And>k. cache_get mc' k = (case map_of [(''b'', Some ''s:/b''), (''b'', Some ''s:/c'')] k of
           Some v \<Rightarrow> Some (v, 6) | None \<Rightarrow> cache_get ?mc k)"
    using cache_read_map by blast
  with g [of "''b''"] g [of "''a''"] show ?thesis by (simp add: cache_get_def cached_find)
qed

text \<open>
  C40: Adding an entry for a key that is already cached puts it behind the last entry of the
  key but cuts off the rest of the chain: a key whose entries all stood there is no longer
  found although nothing deleted it.
\<close>

theorem cache_add_unlinks:
  assumes "cache_ok mc" and "cached mc key = Some e" and "mem_ample (mc_mem mc)"
    and "key_primary key (bucket mc key)"
    and "bucket mc key = pre @ l # rest" and "me_key l = key" and "\<forall>x \<in> set rest. me_key x \<noteq> key"
  shows "\<exists>mc'. cache_add mc ms key ent age = Some (CHE_OK, mc')
    \<and> bucket mc' key = pre @ [l, new_mapent (mc_brk mc) ms key ent age]
    \<and> (\<forall>x \<in> set rest. (\<forall>y \<in> set pre. me_key y \<noteq> me_key x) \<longrightarrow> cached mc' (me_key x) = None)"
proof -
  from cache_add_existing [OF assms(1-4)] obtain pre' l' rest' mc' where
    add: "cache_add mc ms key ent age = Some (CHE_OK, mc')" and
    b: "bucket mc key = pre' @ l' # rest'" "me_key l' = key" "\<forall>x \<in> set rest'. me_key x \<noteq> key" and
    b': "bucket mc' key = pre' @ [l', new_mapent (mc_brk mc) ms key ent age]" by blast
  have eq: "pre' = pre \<and> l' = l \<and> rest' = rest"
    using last_occurrence_unique [of pre l rest pre' l' rest' "has_key key"] b assms(5-7) by simp
  have "cached mc' (me_key x) = None" if x: "x \<in> set rest" "\<forall>y \<in> set pre. me_key y \<noteq> me_key x" for x
  proof -
    have "unat (hash (me_key x) (mc_size mc)) = unat (hash key (mc_size mc))"
      using cache_ok_bucket [OF assms(1), of x key] x(1) assms(5) by simp
    moreover have "mc_size mc' = mc_size mc" by (rule cache_add_size [OF assms(1) add])
    ultimately have "bucket mc' (me_key x) = bucket mc' key" by (simp add: bucket_def)
    with b' eq x assms(6,7) show ?thesis by (auto simp: cached_None_iff)
  qed
  with add b' eq show ?thesis by blast
qed

theorem cache_add_unlinks_witness:
  "\<exists>mc'. cache_add (one_chain [sample_entry 0 ''a'', sample_entry 1 ''b'']) 0 ''a'' None 6 = Some (CHE_OK, mc')
     \<and> cached mc' ''b'' = None"
proof -
  let ?mc = "one_chain [sample_entry 0 ''a'', sample_entry 1 ''b'']"
  have "cache_ok ?mc" by (simp add: one_chain_ok)
  from cache_add_unlinks [OF this, of "''a''" "sample_entry 0 ''a''" "[]" "sample_entry 0 ''a''" "[sample_entry 1 ''b'']" 0 None 6]
  show ?thesis by (auto simp: cached_find key_primary_def primary_def IS_MM_def)
qed

text \<open>
  C38: cache_lookup_key_next does not return when it is called on an offset of a
  multi-mount that has any entry behind it in its chain; on every other entry it returns
  the next entry with the same key.
\<close>

theorem cache_lookup_key_next_total:
  "cache_lookup_key_next (e # r) =
     (if primary e \<or> r = [] then Some (chain_find (has_key (me_key e)) r) else None)"
proof (cases "primary e")
  case True
  then show ?thesis by (simp add: cache_lookup_key_next_primary)
next
  case False
  then show ?thesis
    by (cases r) (simp_all add: cache_lookup_key_next_def key_next_loop_diverges key_next_loop.simps [of e "[]"])
qed

text \<open>
  After cache_set_ino_index for an entry of the cache, cache_lookup_ino with the
  entry's device and inode number returns that entry; and whatever cache_lookup_ino returns
  is an entry of the cache with the numbers asked for.
\<close>

theorem cache_ino_index_correct:
  assumes "cache_ok mc" and "e \<in> set (entries mc)"
  shows "found (cache_lookup_ino (cache_set_ino_index mc e) (me_dev e) (me_ino e)) = Some e
    \<and> (\<forall>dev ino x. found (cache_lookup_ino mc dev ino) = Some x \<longrightarrow>
         me_dev x = dev \<and> me_ino x = ino \<and> x \<in> set (entries mc))"
proof -
  have "me_dev x = dev \<and> me_ino x = ino \<and> x \<in> set (entries mc)"
    if "found (cache_lookup_ino mc dev ino) = Some x" for dev ino x
    using that lookup_ino_sound by (auto simp: cache_lookup_ino_def found_def split: list.splits)
  with lookup_ino_set [OF assms] show ?thesis by blast
qed

theorem cache_ino_index_correct_witness:
  "found (cache_lookup_ino (cache_set_ino_index (one_chain [sample_entry 0 ''/a'']) (sample_entry 0 ''/a''))
     (me_dev (sample_entry 0 ''/a'')) (me_ino (sample_entry 0 ''/a''))) = Some (sample_entry 0 ''/a'')"
  using cache_ino_index_correct [of "one_chain [sample_entry 0 ''/a'']" "sample_entry 0 ''/a''"]
  by (simp add: one_chain_ok entries_def)

text \<open>
  For an absolute path cache_get_offset_parent stays inside the key, returns NULL for
  a path that ends in a slash, and otherwise returns the entry of the longest proper
  ancestor directory that is cached (the root directory is not considered), or NULL when
  none is.
\<close>

theorem cache_get_offset_parent_correct:
  assumes "key = CHR ''/'' # rest"
  shows "\<exists>s. cache_get_offset_parent mc key = Some s \<and>
    (if last key = CHR ''/'' then s = []
     else case found s of
            None \<Rightarrow> \<forall>p. ancestor p key \<longrightarrow> cached mc p = None
          | Some e \<Rightarrow> \<exists>p. ancestor p key \<and> cached mc p = Some e
              \<and> (\<forall>q. ancestor q key \<and> length p < length q \<longrightarrow> cached mc q = None))"
proof (cases "last key = CHR ''/''")
  case True
  with assms show ?thesis by (simp add: cache_get_offset_parent_def)
next
  case False
  have key: "key \<noteq> []" "hd key = CHR ''/''" "length key - 1 < length key" using assms by simp_all
  from offset_parent_loop_spec [OF key, of mc] obtain s where
    s: "offset_parent_loop mc key (length key - 1) = Some s" and
    spec: "case s of
       [] \<Rightarrow> \<forall>n. 2 \<le> n \<and> n \<le> length key - 1 \<and> key ! n = CHR ''/'' \<longrightarrow> cached mc (take n key) = None
     | e # _ \<Rightarrow> \<exists>n. 2 \<le> n \<and> n \<le> length key - 1 \<and> key ! n = CHR ''/'' \<and> cached mc (take n key) = Some e
          \<and> (\<forall>m. n < m \<and> m \<le> length key - 1 \<and> key ! m = CHR ''/'' \<longrightarrow> cached mc (take m key) = None)"
    by blast
  have le: "n \<le> length key - 1 \<longleftrightarrow> n < length key" for n using key(1) by (cases key) auto
  have "cache_get_offset_parent mc key = Some s"
    using False key s by (simp add: cache_get_offset_parent_def)
  moreover have "case found s of
            None \<Rightarrow> \<forall>p. ancestor p key \<longrightarrow> cached mc p = None
          | Some e \<Rightarrow> \<exists>p. ancestor p key \<and> cached mc p = Some e
              \<and> (\<forall>q. ancestor q key \<and> length p < length q \<longrightarrow> cached mc q = None)"
  proof (cases s)
    case Nil
    with spec show ?thesis by (auto simp: found_def ancestor_take le)
  next
    case (Cons e r)
    with spec obtain n where n: "2 \<le> n" "n < length key" "key ! n = CHR ''/''" "cached mc (take n key) = Some e"
      "\<And>m. n < m \<Longrightarrow> m < length key \<Longrightarrow> key ! m = CHR ''/'' \<Longrightarrow> cached mc (take m key) = None"
      unfolding le by auto
    then have "\<forall>q. ancestor q key \<and> length (take n key) < length q \<longrightarrow> cached mc q = None"
      by (auto simp: ancestor_take)
    with n Cons show ?thesis by (auto simp: found_def ancestor_take)
  qed
  ultimately show ?thesis using False by auto
qed

theorem cache_get_offset_parent_correct_witness:
  "\<exists>s. cache_get_offset_parent (one_chain [sample_entry 0 ''/a'', sample_entry 1 ''/a/b'']) ''/a/b/c'' = Some s
     \<and> found s = Some (sample_entry 1 ''/a/b'')"
proof -
  let ?mc = "one_chain [sample_entry 0 ''/a'', sample_entry 1 ''/a/b'']"
  obtain s where s: "cache_get_offset_parent ?mc ''/a/b/c'' = Some s" and
    spec: "case found s of
            None \<Rightarrow> \<forall>p. ancestor p ''/a/b/c'' \<longrightarrow> cached ?mc p = None
          | Some e \<Rightarrow> \<exists>p. ancestor p ''/a/b/c'' \<and> cached ?mc p = Some e
              \<and> (\<forall>q. ancestor q ''/a/b/c'' \<and> length p < length q \<longrightarrow> cached ?mc q = None)"
    using cache_get_offset_parent_correct [of "''/a/b/c''" "''a/b/c''" ?mc] by auto
  have anc: "ancestor ''/a/b'' ''/a/b/c''" by (simp add: ancestor_def)
  have c: "cached ?mc ''/a/b'' = Some (sample_entry 1 ''/a/b'')" by (simp add: cached_find)
  have "found s \<noteq> None"
  proof
    assume "found s = None"
    with spec anc c show False by auto
  qed
  then obtain e where e: "found s = Some e" by blast
  with spec obtain p where p: "cached ?mc p = Some e"
    "\<forall>q. ancestor q ''/a/b/c'' \<and> length p < length q \<longrightarrow> cached ?mc q = None" by auto
  have "\<not> length p < length ''/a/b''" using p(2) anc c by force
  moreover have "p = ''/a'' \<or> p = ''/a/b''" using p(1) by (auto simp: cached_find split: if_splits)
  ultimately have "p = ''/a/b''" by auto
  with p(1) c e s show ?thesis by auto
qed

text \<open>
  A mount failure recorded by cache_update_negative for a cached key hides its map
  entry until the timeout; a lookup before that reports the key unavailable, the first
  cache_lookup_negative after it brings the entry back exactly as it was, apart from the
  time of the failure.
\<close>

theorem negative_cache_roundtrip:
  assumes "cache_ok mc" and "mem_ample (mc_mem mc)" and "k \<noteq> ''*''"
    and "cached mc k = Some e" and "me_mapent e = Some ent"
  shows "\<exists>mc1 e1. cache_update_negative now mc ms k timeout = Some mc1 \<and> cached mc1 k = Some e1
    \<and> me_mapent e1 = None
    \<and> (\<forall>t \<le> now + timeout. cache_lookup_negative t mc1 e1 k = (CHE_UNAVAIL, mc1))
    \<and> (\<forall>t > now + timeout. fst (cache_lookup_negative t mc1 e1 k) = CHE_OK
         \<and> cached (snd (cache_lookup_negative t mc1 e1 k)) k = Some (e\<lparr>me_status := now + timeout\<rparr>))"
proof -
  let ?e1 = "e\<lparr>me_mapent := None, me_stack := \<lparr>s_mapent = me_mapent e, s_age = me_age e\<rparr> # me_stack e,
    me_status := now + timeout\<rparr>"
  have "me_mapent e \<noteq> None" using assms(5) by simp
  from cache_update_negative_cached [OF assms(1-4) this, of now ms timeout] obtain mc1 where
    mc1: "cache_update_negative now mc ms k timeout = Some mc1" "cache_ok mc1" "cached mc1 k = Some ?e1"
    by blast
  have "cache_lookup_negative t mc1 ?e1 k = (CHE_UNAVAIL, mc1)" if "t \<le> now + timeout" for t
    using that by (simp add: cache_lookup_negative_def)
  moreover have "fst (cache_lookup_negative t mc1 ?e1 k) = CHE_OK
      \<and> cached (snd (cache_lookup_negative t mc1 ?e1 k)) k = Some (e\<lparr>me_status := now + timeout\<rparr>)"
    if "now + timeout < t" for t
    using cache_lookup_negative_restores [OF mc1(2,3), where saved = ent and rest = "me_stack e" and now = t]
      that assms(5) by simp
  moreover have "me_mapent ?e1 = None" by simp
  ultimately show ?thesis using mc1(1,3) by blast
qed

theorem negative_cache_roundtrip_witness:
  "\<exists>mc1 e1. cache_update_negative 100 (one_chain [sample_entry 0 ''a'']) 0 ''a'' 60 = Some mc1
     \<and> cached mc1 ''a'' = Some e1
     \<and> cached (snd (cache_lookup_negative 161 mc1 e1 ''a'')) ''a'' = Some ((sample_entry 0 ''a'')\<lparr>me_status := 160\<rparr>)"
  using negative_cache_roundtrip [of "one_chain [sample_entry 0 ''a'']" "''a''" "sample_entry 0 ''a''"
      "''srv:/exp''" 100 0 60]
  by (force simp: one_chain_ok cached_find)

end
