(* ===== verification/Macros.thy ===== *)
theory Macros
  imports Interfaces
begin

text \<open>
  The macro substitution variables of \<^verbatim>\<open>lib/macros.c\<close> and the standard variables that
  \<^verbatim>\<open>lib/mounts.c\<close> keeps in them. A table is the list of its \<open>struct substvar\<close> nodes from
  the head on; the global \<open>system_table\<close> is passed and returned. Locks are not modelled.
\<close>

section \<open>Tables\<close>

record substvar =
  sv_def :: string
  sv_val :: string
  sv_readonly :: bool

type_synonym subst_table = "substvar list"

text \<open>\<open>!strncmp(str, sv->def, len) && sv->def[len] == '\0'\<close>\<close>

definition macro_match :: "string \<Rightarrow> nat \<Rightarrow> substvar \<Rightarrow> bool" where
  "macro_match str len sv \<longleftrightarrow> strncmp_eq str (sv_def sv) len \<and> cstr_at (sv_def sv) len = Some NUL"

text \<open>\<open>def = strdup(str); def[len] = '\0'; new->next = table\<close>\<close>

definition new_substvar :: "string \<Rightarrow> nat \<Rightarrow> string \<Rightarrow> substvar" where
  "new_substvar str len v = \<lparr>sv_def = take len str, sv_val = v, sv_readonly = False\<rparr>"

text \<open>The first matching node gets a new value.\<close>

fun set_first :: "(substvar \<Rightarrow> bool) \<Rightarrow> string \<Rightarrow> subst_table \<Rightarrow> subst_table" where
  "set_first P v [] = []"
| "set_first P v (s # ss) = (if P s then s\<lparr>sv_val := v\<rparr> # ss else s # set_first P v ss)"

text \<open>The first matching node is unlinked.\<close>

fun unlink_first :: "(substvar \<Rightarrow> bool) \<Rightarrow> subst_table \<Rightarrow> subst_table" where
  "unlink_first P [] = []"
| "unlink_first P (s # ss) = (if P s then ss else s # unlink_first P ss)"

definition macro_is_systemvar :: "subst_table \<Rightarrow> string \<Rightarrow> nat \<Rightarrow> bool" where
  "macro_is_systemvar sys str len = (chain_find (macro_match str len) sys \<noteq> [])"

definition macro_global_addvar ::
  "subst_table \<Rightarrow> string \<Rightarrow> nat \<Rightarrow> string \<Rightarrow> mem \<Rightarrow> bool \<times> subst_table \<times> mem" where
  "macro_global_addvar sys str len v m =
     (if (case chain_find (macro_match str len) sys of [] \<Rightarrow> False | sv # _ \<Rightarrow> \<not> sv_readonly sv)
      then
        (let (ok, m1) = malloc m
         in if \<not> ok then (False, sys, m1) else (True, set_first (macro_match str len) v sys, m1))
      else
        (let (ok1, m1) = malloc m in
         if \<not> ok1 then (False, sys, m1) else
         let (ok2, m2) = malloc m1 in
         if \<not> ok2 then (False, sys, m2) else
         let (ok3, m3) = malloc m2 in
         if \<not> ok3 then (False, sys, m3) else (True, new_substvar str len v # sys, m3)))"

definition MAX_MACRO_STRING :: nat where
  "MAX_MACRO_STRING = 128"

text \<open>
  \<open>macro_parse_globalvar\<close>. The loop that looks for \<open>=\<close> tests the pointer, not the
  character it points to; \<open>None\<close> stands for its leaving the string.
\<close>

definition macro_parse_globalvar ::
  "subst_table \<Rightarrow> string \<Rightarrow> mem \<Rightarrow> (bool \<times> subst_table \<times> mem) option" where
  "macro_parse_globalvar sys define_str m =
     (if length define_str \<ge> MAX_MACRO_STRING then Some (False, sys, m)
      else
        (case strchr define_str (CHR ''='') of
           None \<Rightarrow> None
         | Some rest \<Rightarrow>
             (let buf = takeWhile (\<lambda>c. c \<noteq> CHR ''='') define_str
              in Some (macro_global_addvar sys buf (length buf) (tl rest) m))))"

definition macro_addvar ::
  "subst_table \<Rightarrow> string \<Rightarrow> nat \<Rightarrow> string option \<Rightarrow> mem \<Rightarrow> subst_table \<times> mem" where
  "macro_addvar table str len value m =
     (let this = (case value of None \<Rightarrow> [] | Some v \<Rightarrow> v)
      in if chain_find (macro_match str len) table \<noteq> []
         then
           (let (ok, m1) = malloc m
            in (if ok then set_first (macro_match str len) this table else table, m1))
         else
           (let (ok1, m1) = malloc m in
            if \<not> ok1 then (table, m1) else
            let (ok2, m2) = malloc m1 in
            if \<not> ok2 then (table, m2) else
            let (ok3, m3) = malloc m2 in
            if \<not> ok3 then (table, m3) else (new_substvar str len this # table, m3)))"

definition macro_global_removevar :: "subst_table \<Rightarrow> string \<Rightarrow> nat \<Rightarrow> subst_table" where
  "macro_global_removevar sys str len =
     (case chain_find (macro_match str len) sys of
        [] \<Rightarrow> sys
      | sv # _ \<Rightarrow> if sv_readonly sv then sys else unlink_first (macro_match str len) sys)"

definition macro_removevar :: "subst_table \<Rightarrow> string \<Rightarrow> nat \<Rightarrow> subst_table" where
  "macro_removevar table str len = unlink_first (macro_match str len) table"

text \<open>\<open>macro_findvar\<close> without the optional lookup in the process environment.\<close>

definition macro_findvar :: "subst_table \<Rightarrow> subst_table \<Rightarrow> string \<Rightarrow> nat \<Rightarrow> substvar option" where
  "macro_findvar sys table str len =
     (case chain_find (macro_match str len) table of
        lv # _ \<Rightarrow> Some lv
      | [] \<Rightarrow> (case chain_find (macro_match str len) sys of sv # _ \<Rightarrow> Some sv | [] \<Rightarrow> None))"

text \<open>The process environment after \<open>macro_setenv\<close>; \<open>setenv\<close> overwrites.\<close>

definition setenv_table :: "subst_table \<Rightarrow> (string \<rightharpoonup> string) \<Rightarrow> (string \<rightharpoonup> string)" where
  "setenv_table t env = fold (\<lambda>sv e. e(sv_def sv \<mapsto> sv_val sv)) t env"

definition macro_setenv :: "subst_table \<Rightarrow> subst_table \<Rightarrow> (string \<rightharpoonup> string) \<Rightarrow> (string \<rightharpoonup> string)" where
  "macro_setenv sys table env = setenv_table table (setenv_table sys env)"

section \<open>The predefined variables\<close>

text \<open>
  What \<open>uname\<close>, \<open>gethostname\<close> and the configured \<open>sub_domain\<close> report, and the byte order.
\<close>

record host_info =
  un_machine :: string
  un_nodename :: string
  un_sysname :: string
  un_release :: string
  un_version :: string
  hi_hostname :: "string option"
  hi_sub_domain :: "string option"
  hi_endian :: string

definition host_processor :: "string \<Rightarrow> string" where
  "host_processor machine =
     (case machine of
        c0 # c1 # rest \<Rightarrow>
          if c0 = CHR ''i'' \<and> (of_char (CHR ''3'') :: nat) \<le> of_char c1 \<and> rest = ''86''
          then c0 # CHR ''3'' # rest else machine
      | _ \<Rightarrow> machine)"

text \<open>The values of \<open>host\<close>, \<open>domain\<close> and \<open>hostd\<close>.\<close>

definition host_names :: "string option \<Rightarrow> string option \<Rightarrow> string \<times> string \<times> string" where
  "host_names hostname local_domain =
     (case hostname of
        None \<Rightarrow> ([], [], [])
      | Some name \<Rightarrow>
          (let host = takeWhile (\<lambda>c. c \<noteq> CHR ''.'') name;
               domain = (case strchr name (CHR ''.'') of None \<Rightarrow> [] | Some rest \<Rightarrow> tl rest)
           in case local_domain of
                Some d \<Rightarrow> (host, d, host @ ''.'' @ d)
              | None \<Rightarrow> (host, domain, if domain \<noteq> [] then host @ ''.'' @ domain else host)))"

definition ro_var :: "string \<Rightarrow> string \<Rightarrow> substvar" where
  "ro_var d v = \<lparr>sv_def = d, sv_val = v, sv_readonly = True\<rparr>"

text \<open>The static chain from \<open>sv_osvers\<close> on, and the whole chain from \<open>sv_hostd\<close> on.\<close>

definition sv_osvers :: "host_info \<Rightarrow> subst_table" where
  "sv_osvers hi =
     [ro_var ''OSVERS'' (un_version hi), ro_var ''OSREL'' (un_release hi),
      ro_var ''OSNAME'' (un_sysname hi), ro_var ''HOST'' (un_nodename hi),
      ro_var ''CPU'' (host_processor (un_machine hi)), ro_var ''ARCH'' (un_machine hi)]"

definition sv_hostd :: "host_info \<Rightarrow> subst_table" where
  "sv_hostd hi =
     (case host_names (hi_hostname hi) (hi_sub_domain hi) of (host, domain, hostd) \<Rightarrow>
        [ro_var ''hostd'' hostd, ro_var ''domain'' domain, ro_var ''xhost'' host, ro_var ''host'' host,
         ro_var ''byte'' (hi_endian hi), ro_var ''false'' ''0'', ro_var ''true'' ''1'',
         ro_var ''dollar'' ''$''] @ sv_osvers hi)"

definition macro_free_global_table :: "host_info \<Rightarrow> subst_table \<Rightarrow> subst_table" where
  "macro_free_global_table hi sys = sv_osvers hi"

text \<open>The values configured for the amd variables.\<close>

record amd_conf =
  conf_arch :: "string option"
  conf_karch :: "string option"
  conf_os :: "string option"
  conf_full_os :: "string option"
  conf_os_ver :: "string option"
  conf_vendor :: "string option"
  conf_cluster :: "string option"
  conf_auto_dir :: "string option"

definition global_add_opt :: "string \<Rightarrow> string option \<Rightarrow> subst_table \<times> mem \<Rightarrow> subst_table \<times> mem" where
  "global_add_opt name v st =
     (case v of None \<Rightarrow> st
      | Some val \<Rightarrow> snd (macro_global_addvar (fst st) name (length name) val (snd st)))"

text \<open>
  \<open>add_std_amd_vars\<close>. Its argument is the head of the table before the additions, that is
  the suffix of the grown table. The name looked up for the default of \<open>cluster\<close> is the
  first four characters of \<open>domain\<close>, as in the source.
\<close>

definition add_std_amd_vars :: "amd_conf \<Rightarrow> subst_table \<Rightarrow> mem \<Rightarrow> subst_table \<times> mem" where
  "add_std_amd_vars c sys m =
     (let st1 = global_add_opt ''arch'' (conf_arch c) (sys, m);
          st2 = global_add_opt ''karch'' (conf_karch c) st1;
          st3 = global_add_opt ''os'' (conf_os c) st2;
          st4 = global_add_opt ''full_os'' (conf_full_os c) st3;
          st5 = global_add_opt ''osver'' (conf_os_ver c) st4;
          st6 = global_add_opt ''vendor'' (conf_vendor c) st5;
          st7 = (case conf_cluster c of
                   Some v \<Rightarrow> global_add_opt ''cluster'' (Some v) st6
                 | None \<Rightarrow>
                     (case macro_findvar (fst st6) (drop (length (fst st6) - length sys) (fst st6)) ''domain'' 4 of
                        None \<Rightarrow> st6
                      | Some v \<Rightarrow>
                          if sv_val v = [] then st6
                          else (let (ok, m') = malloc (snd st6)
                                in if ok then global_add_opt ''cluster'' (Some (sv_val v)) (fst st6, m')
                                   else (fst st6, m'))))
      in global_add_opt ''autodir'' (conf_auto_dir c) st7)"

definition macro_init :: "host_info \<Rightarrow> amd_conf \<Rightarrow> mem \<Rightarrow> subst_table \<times> mem" where
  "macro_init hi c m = add_std_amd_vars c (sv_hostd hi) m"

definition remove_std_amd_vars :: "subst_table \<Rightarrow> subst_table" where
  "remove_std_amd_vars sys =
     fold (\<lambda>n t. macro_global_removevar t n (length n))
       [''autodir'', ''cluster'', ''vendor'', ''osver'', ''full_os'', ''os'', ''karch'', ''arch''] sys"

section \<open>The standard variables of a mount request\<close>

definition MAX_ENV_NAME :: nat where
  "MAX_ENV_NAME = 15"

definition set_env_name :: "string option \<Rightarrow> string \<Rightarrow> string option" where
  "set_env_name prefix name =
     (let len = length name + (case prefix of None \<Rightarrow> 0 | Some p \<Rightarrow> length p) + 1
      in if len > MAX_ENV_NAME then None
         else Some (case prefix of None \<Rightarrow> name | Some p \<Rightarrow> p @ name))"

definition do_macro_addvar ::
  "string option \<Rightarrow> string \<Rightarrow> string option \<Rightarrow> subst_table \<times> mem \<Rightarrow> subst_table \<times> mem" where
  "do_macro_addvar prefix name val st =
     (case set_env_name prefix name of
        None \<Rightarrow> st
      | Some n \<Rightarrow> macro_addvar (fst st) n (length n) val (snd st))"

definition do_macro_removevar :: "string option \<Rightarrow> string \<Rightarrow> subst_table \<Rightarrow> subst_table" where
  "do_macro_removevar prefix name t =
     (case set_env_name prefix name of None \<Rightarrow> t | Some n \<Rightarrow> macro_removevar t n (length n))"

record thread_stdenv_vars =
  tsv_uid :: nat
  tsv_gid :: nat
  tsv_user :: "string option"
  tsv_group :: "string option"
  tsv_home :: "string option"

text \<open>\<open>sprintf(numbuf, "%ld", num)\<close> for a non-negative number.\<close>

fun dec_digits :: "nat \<Rightarrow> string" where
  "dec_digits n = (if n < 10 then [char_of (48 + n)] else dec_digits (n div 10) @ [char_of (48 + n mod 10)])"

declare dec_digits.simps [simp del]

definition addstdenv ::
  "subst_table \<Rightarrow> thread_stdenv_vars option \<Rightarrow> string option \<Rightarrow> subst_table \<times> mem \<Rightarrow> subst_table \<times> mem" where
  "addstdenv sys tsv prefix st =
     (case tsv of
        None \<Rightarrow> st
      | Some v \<Rightarrow>
          (let st1 = do_macro_addvar prefix ''UID'' (Some (dec_digits (tsv_uid v))) st;
               st2 = do_macro_addvar prefix ''GID'' (Some (dec_digits (tsv_gid v))) st1;
               st3 = do_macro_addvar prefix ''USER'' (tsv_user v) st2;
               st4 = do_macro_addvar prefix ''GROUP'' (tsv_group v) st3;
               st5 = do_macro_addvar prefix ''HOME'' (tsv_home v) st4
           in case macro_findvar sys (fst st5) ''HOST'' 4 of
                None \<Rightarrow> st5
              | Some mv \<Rightarrow>
                  (let (ok, m) = malloc (snd st5)
                   in if ok then do_macro_addvar prefix ''SHOST'' (Some (takeWhile (\<lambda>c. c \<noteq> CHR ''.'') (sv_val mv))) (fst st5, m)
                      else (fst st5, m))))"

definition removestdenv :: "string option \<Rightarrow> subst_table \<Rightarrow> subst_table" where
  "removestdenv prefix t =
     fold (do_macro_removevar prefix) [''UID'', ''USER'', ''HOME'', ''GID'', ''GROUP'', ''SHOST''] t"

section \<open>Lemmas\<close>

text \<open>Names are C strings, and no name occurs twice in a local table.\<close>

definition names_ok :: "subst_table \<Rightarrow> bool" where
  "names_ok t \<longleftrightarrow> (\<forall>sv \<in> set t. cstring (sv_def sv))"

definition table_ok :: "subst_table \<Rightarrow> bool" where
  "table_ok t \<longleftrightarrow> names_ok t \<and> distinct (map sv_def t)"

definition tbl_find :: "subst_table \<Rightarrow> string \<Rightarrow> string option" where
  "tbl_find t n = map_option sv_val (find (\<lambda>sv. sv_def sv = n) t)"

lemma macro_match_iff:
  assumes "cstring (sv_def sv)" and "len \<le> length str"
  shows "macro_match str len sv \<longleftrightarrow> sv_def sv = take len str"
proof -
  have "sv_def sv ! len \<noteq> NUL" if "len < length (sv_def sv)"
    using assms(1) that nth_mem by (fastforce simp: cstring_def)
  then show ?thesis
    using assms(2) by (auto simp: macro_match_def strncmp_eq_def cstr_at_def split: if_splits)
qed

lemma macro_match_name:
  "cstring (sv_def sv) \<Longrightarrow> macro_match n (length n) sv \<longleftrightarrow> sv_def sv = n"
  by (simp add: macro_match_iff)

lemma names_ok_simps [simp]:
  "names_ok []" "names_ok (sv # t) \<longleftrightarrow> cstring (sv_def sv) \<and> names_ok t"
  "names_ok (t @ u) \<longleftrightarrow> names_ok t \<and> names_ok u"
  by (auto simp: names_ok_def)

lemma chain_find_match:
  assumes "names_ok t"
  shows "chain_find (macro_match n (length n)) t = chain_find (\<lambda>sv. sv_def sv = n) t"
  using assms by (induction t) (auto simp: macro_match_name)

lemma found_in_table:
  "names_ok t \<Longrightarrow> chain_find (macro_match n (length n)) t = [] \<longleftrightarrow> tbl_find t n = None"
  by (auto simp: chain_find_match tbl_find_def chain_find_Nil_iff find_None_iff)

lemma find_chain:
  "find P t = (case chain_find P t of [] \<Rightarrow> None | x # _ \<Rightarrow> Some x)"
  by (induction t) auto

lemma macro_findvar_val:
  assumes "names_ok sys" and "names_ok t"
  shows "map_option sv_val (macro_findvar sys t n (length n)) =
    (case tbl_find t n of Some v \<Rightarrow> Some v | None \<Rightarrow> tbl_find sys n)"
  unfolding macro_findvar_def chain_find_match [OF assms(1)] chain_find_match [OF assms(2)]
  by (auto simp: tbl_find_def find_chain split: list.split)

lemma set_first_find:
  assumes "names_ok t" and "tbl_find t n \<noteq> None"
  shows "tbl_find (set_first (macro_match n (length n)) v t) x = (if x = n then Some v else tbl_find t x)"
  using assms by (induction t) (auto simp: tbl_find_def macro_match_name)

lemma set_first_names [simp]: "map sv_def (set_first P v t) = map sv_def t"
  by (induction t) auto

lemma names_ok_map: "map sv_def t = map sv_def u \<Longrightarrow> names_ok t \<longleftrightarrow> names_ok u"
  unfolding names_ok_def by (metis (no_types, lifting) imageE image_eqI list.set_map)

lemma set_first_ok [simp]:
  "names_ok (set_first P v t) = names_ok t" "table_ok (set_first P v t) = table_ok t"
  using names_ok_map [OF set_first_names] by (auto simp: table_ok_def)

lemma unlink_first_find:
  assumes "table_ok t"
  shows "tbl_find (unlink_first (macro_match n (length n)) t) x = (if x = n then None else tbl_find t x)"
  using assms
  by (induction t) (auto simp: tbl_find_def table_ok_def macro_match_name find_None_iff, metis image_eqI)

lemma set_unlink_first: "set (unlink_first P t) \<subseteq> set t"
  by (induction t) auto

lemma unlink_first_ok: "table_ok t \<Longrightarrow> table_ok (unlink_first P t)"
  by (induction t) (auto simp: table_ok_def names_ok_def dest: set_unlink_first [THEN subsetD])

text \<open>Setting a variable affects no other name, whatever the allocations do.\<close>

lemma macro_addvar_other:
  assumes "names_ok t" and "x \<noteq> n"
  shows "tbl_find (fst (macro_addvar t n (length n) v m)) x = tbl_find t x"
proof -
  have "tbl_find (new_substvar n (length n) w # t) x = tbl_find t x" for w
    using assms(2) by (simp add: tbl_find_def new_substvar_def)
  moreover have "tbl_find (set_first (macro_match n (length n)) w t) x = tbl_find t x"
    if "tbl_find t n \<noteq> None" for w
    using set_first_find [OF assms(1) that] assms(2) by simp
  ultimately show ?thesis
    using found_in_table [OF assms(1), of n]
    by (auto simp: macro_addvar_def Let_def split: prod.split)
qed

lemma macro_addvar_table_ok:
  assumes "table_ok t" and "cstring n"
  shows "table_ok (fst (macro_addvar t n (length n) v m))"
proof -
  have "table_ok (new_substvar n (length n) w # t)" if "tbl_find t n = None" for w
    using that assms by (auto simp: table_ok_def new_substvar_def tbl_find_def find_None_iff)
  with found_in_table [of t n] assms show ?thesis
    by (auto simp: macro_addvar_def Let_def table_ok_def split: prod.split)
qed

lemma macro_addvar_sets:
  assumes "names_ok t" and "mem_ample m"
  shows "tbl_find (fst (macro_addvar t n (length n) (Some v) m)) n = Some v"
proof -
  from assms(2) obtain m1 where m1: "malloc m = (True, m1)" "mem_ample m1" by (rule mem_ampleE)
  from m1(2) obtain m2 where m2: "malloc m1 = (True, m2)" "mem_ample m2" by (rule mem_ampleE)
  from m2(2) obtain m3 where m3: "malloc m2 = (True, m3)" "mem_ample m3" by (rule mem_ampleE)
  show ?thesis
  proof (cases "tbl_find t n = None")
    case True
    then have "fst (macro_addvar t n (length n) (Some v) m) = new_substvar n (length n) v # t"
      using found_in_table [OF assms(1), of n] m1 m2 m3 by (simp add: macro_addvar_def)
    then show ?thesis by (simp add: tbl_find_def new_substvar_def)
  next
    case False
    then have "fst (macro_addvar t n (length n) (Some v) m) = set_first (macro_match n (length n)) v t"
      using found_in_table [OF assms(1), of n] m1 by (simp add: macro_addvar_def)
    then show ?thesis using set_first_find [OF assms(1) False] by simp
  qed
qed

interpretation local_macros: named_table tbl_find
  "\<lambda>t n v. fst (macro_addvar t n (length n) (Some v) [])" "\<lambda>t n. macro_removevar t n (length n)"
  table_ok cstring
proof unfold_locales
  fix t n v x assume "table_ok t"
  then have "names_ok t" by (simp add: table_ok_def)
  then show "tbl_find (fst (macro_addvar t n (length n) (Some v) [])) x = (if x = n then Some v else tbl_find t x)"
    by (simp add: macro_addvar_other macro_addvar_sets)
next
  fix t n x assume "table_ok t"
  then show "tbl_find (macro_removevar t n (length n)) x = (if x = n then None else tbl_find t x)"
    by (simp add: macro_removevar_def unlink_first_find)
next
  fix t n v assume "table_ok t" "cstring n"
  then show "table_ok (fst (macro_addvar t n (length n) (Some v) []))" by (rule macro_addvar_table_ok)
next
  fix t n assume "table_ok t"
  then show "table_ok (macro_removevar t n (length n))" by (simp add: macro_removevar_def unlink_first_ok)
qed


section \<open>Properties\<close>

definition sample_host :: host_info where
  "sample_host =
     \<lparr>un_machine = ''i686'', un_nodename = ''c1.example.org'', un_sysname = ''Linux'', un_release = ''5.4'',
      un_version = ''1'', hi_hostname = Some ''c1.example.org'', hi_sub_domain = None, hi_endian = ''little''\<rparr>"

lemma do_macro_addvar_other:
  "names_ok (fst st) \<Longrightarrow> set_env_name prefix name \<noteq> Some x \<Longrightarrow>
     tbl_find (fst (do_macro_addvar prefix name v st)) x = tbl_find (fst st) x"
  by (auto simp: do_macro_addvar_def macro_addvar_other split: option.split)

lemma set_env_name_cstring:
  "set_env_name prefix name = Some n \<Longrightarrow> cstring name \<Longrightarrow> (\<forall>p. prefix = Some p \<longrightarrow> cstring p) \<Longrightarrow> cstring n"
  by (auto simp: set_env_name_def cstring_def Let_def split: if_splits option.splits)

lemma do_macro_addvar_table_ok:
  assumes "table_ok (fst st)" and "cstring name" and "\<forall>p. prefix = Some p \<longrightarrow> cstring p"
  shows "table_ok (fst (do_macro_addvar prefix name v st))"
proof (cases "set_env_name prefix name")
  case None
  with assms show ?thesis by (simp add: do_macro_addvar_def)
next
  case (Some n)
  with set_env_name_cstring [OF Some assms(2,3)] macro_addvar_table_ok [OF assms(1)] show ?thesis
    by (simp add: do_macro_addvar_def)
qed

lemma cstring_names: "cstring ''UID'' \<and> cstring ''GID'' \<and> cstring ''USER'' \<and> cstring ''GROUP'' \<and> cstring ''HOME'' \<and> cstring ''SHOST''"
  by (simp add: cstring_def NUL_def)

text \<open>The names the standard variables have with a prefix.\<close>

definition std_names :: "string option \<Rightarrow> string set" where
  "std_names prefix = {n. \<exists>x \<in> {''UID'', ''USER'', ''HOME'', ''GID'', ''GROUP'', ''SHOST''}. set_env_name prefix x = Some n}"

text \<open>One addition, as a step that keeps a table well formed and every other name alone.\<close>

definition std_step :: "string option \<Rightarrow> subst_table \<Rightarrow> subst_table \<Rightarrow> bool" where
  "std_step prefix t u \<longleftrightarrow> table_ok u \<and> (\<forall>x. x \<notin> std_names prefix \<longrightarrow> tbl_find u x = tbl_find t x)"

lemma std_step_add:
  assumes "std_step prefix t (fst st)" and "\<forall>p. prefix = Some p \<longrightarrow> cstring p"
    and "name \<in> {''UID'', ''USER'', ''HOME'', ''GID'', ''GROUP'', ''SHOST''}"
  shows "std_step prefix t (fst (do_macro_addvar prefix name v st))"
proof -
  have "names_ok (fst st)" and "table_ok (fst st)" using assms(1) by (simp_all add: std_step_def table_ok_def)
  moreover have "cstring name" using assms(3) cstring_names by auto
  moreover have "set_env_name prefix name \<noteq> Some x" if "x \<notin> std_names prefix" for x
    using that assms(3) by (auto simp: std_names_def)
  ultimately show ?thesis
    using assms(1,2) do_macro_addvar_table_ok do_macro_addvar_other by (simp add: std_step_def)
qed

lemma addstdenv_std_step:
  assumes "table_ok (fst st)" and "\<forall>p. prefix = Some p \<longrightarrow> cstring p"
  shows "std_step prefix (fst st) (fst (addstdenv sys tsv prefix st))"
proof -
  have base: "std_step prefix (fst st) (fst st)" using assms(1) by (simp add: std_step_def)
  note step = std_step_add [OF _ assms(2)]
  show ?thesis
    unfolding addstdenv_def Let_def
    by (auto split: option.split prod.split simp: base intro!: step)
qed

lemma removestdenv_find:
  assumes "table_ok t"
  shows "table_ok (removestdenv prefix t) \<and>
    tbl_find (removestdenv prefix t) x = (if x \<in> std_names prefix then None else tbl_find t x)"
proof -
  have one: "table_ok (do_macro_removevar prefix n u) \<and>
      tbl_find (do_macro_removevar prefix n u) y = (if set_env_name prefix n = Some y then None else tbl_find u y)"
    if "table_ok u" for n u y
    using that local_macros.remove_find [OF that] local_macros.remove_invar [OF that]
    by (auto simp: do_macro_removevar_def split: option.split)
  have fold: "table_ok (fold (do_macro_removevar prefix) ns u) \<and>
      tbl_find (fold (do_macro_removevar prefix) ns u) y =
        (if \<exists>n \<in> set ns. set_env_name prefix n = Some y then None else tbl_find u y)" if "table_ok u" for ns u y
    using that
  proof (induction ns arbitrary: u)
    case (Cons n ns)
    from one [OF Cons.prems] Cons.IH show ?case by auto
  qed simp
  show ?thesis
    unfolding removestdenv_def using fold [OF assms] by (simp only: std_names_def mem_Collect_eq list.set simp_thms)
qed

text \<open>
  Removing the standard variables of a mount request after adding them leaves a local
  table that finds no standard variable and every other variable as before, even when
  allocations fail in between; and a table without repeated names stays one.
\<close>

theorem stdenv_roundtrip:
  assumes "table_ok t" and "\<forall>p. prefix = Some p \<longrightarrow> cstring p"
  shows "table_ok (removestdenv prefix (fst (addstdenv sys tsv prefix (t, m)))) \<and>
    (\<forall>x. tbl_find (removestdenv prefix (fst (addstdenv sys tsv prefix (t, m)))) x =
       (if x \<in> std_names prefix then None else tbl_find t x))"
  using addstdenv_std_step [of "(t, m)" prefix sys tsv] removestdenv_find assms
  by (auto simp: std_step_def)

theorem stdenv_roundtrip_witness:
  "tbl_find (removestdenv None (fst (addstdenv (sv_hostd sample_host)
     (Some \<lparr>tsv_uid = 1000, tsv_gid = 100, tsv_user = Some ''u'', tsv_group = None, tsv_home = None\<rparr>) None
     ([new_substvar ''A'' 1 ''b''], [])))) ''A'' = Some ''b''"
  using stdenv_roundtrip [of "[new_substvar ''A'' 1 ''b'']" None "sv_hostd sample_host"
      "Some \<lparr>tsv_uid = 1000, tsv_gid = 100, tsv_user = Some ''u'', tsv_group = None, tsv_home = None\<rparr>" "[]"]
  by (auto simp: table_ok_def new_substvar_def cstring_def NUL_def std_names_def set_env_name_def tbl_find_def)

lemma macro_global_addvar_find:
  assumes "names_ok sys" and "mem_ample m" and "cstring n"
  shows "\<exists>sys' m'. macro_global_addvar sys n (length n) v m = (True, sys', m') \<and> names_ok sys'
    \<and> (\<forall>x. tbl_find sys' x = (if x = n then Some v else tbl_find sys x))"
proof -
  from assms(2) obtain m1 where m1: "malloc m = (True, m1)" "mem_ample m1" by (rule mem_ampleE)
  from m1(2) obtain m2 where m2: "malloc m1 = (True, m2)" "mem_ample m2" by (rule mem_ampleE)
  from m2(2) obtain m3 where m3: "malloc m2 = (True, m3)" "mem_ample m3" by (rule mem_ampleE)
  let ?rw = "case chain_find (macro_match n (length n)) sys of [] \<Rightarrow> False | sv # _ \<Rightarrow> \<not> sv_readonly sv"
  show ?thesis
  proof (cases ?rw)
    case True
    then have "tbl_find sys n \<noteq> None" using found_in_table [OF assms(1), of n] by (auto split: list.splits)
    from set_first_find [OF assms(1) this] True m1 assms(1) show ?thesis
      by (simp add: macro_global_addvar_def)
  next
    case False
    then have "macro_global_addvar sys n (length n) v m = (True, new_substvar n (length n) v # sys, m3)"
      using m1 m2 m3 by (simp add: macro_global_addvar_def)
    moreover have "tbl_find (new_substvar n (length n) v # sys) x = (if x = n then Some v else tbl_find sys x)" for x
      by (simp add: tbl_find_def new_substvar_def)
    moreover have "names_ok (new_substvar n (length n) v # sys)"
      using assms by (simp add: new_substvar_def)
    ultimately show ?thesis by blast
  qed
qed

text \<open>
  A definition NAME=VALUE given on the command line and shorter than the buffer makes
  the macro NAME expand to VALUE wherever no local variable of that name hides it, also
  when NAME is one of the read-only predefined variables; and it changes no other macro.
\<close>

theorem macro_parse_globalvar_defines:
  assumes "names_ok sys" and "mem_ample m" and "cstring name" and "CHR ''='' \<notin> set name"
    and "length (name @ ''='' @ val) < MAX_MACRO_STRING"
  shows "\<exists>sys' m'. macro_parse_globalvar sys (name @ ''='' @ val) m = Some (True, sys', m')
    \<and> (\<forall>t x. names_ok t \<longrightarrow> map_option sv_val (macro_findvar sys' t x (length x)) =
         (case tbl_find t x of Some v \<Rightarrow> Some v | None \<Rightarrow> if x = name then Some val else tbl_find sys x))"
proof -
  have "macro_parse_globalvar sys (name @ ''='' @ val) m = Some (macro_global_addvar sys name (length name) val m)"
    using assms(4,5) strchr_append [OF assms(4), of val]
    by (simp add: macro_parse_globalvar_def takeWhile_append)
  moreover obtain sys' m' where g: "macro_global_addvar sys name (length name) val m = (True, sys', m')"
    and ok: "names_ok sys'" and f: "\<And>x. tbl_find sys' x = (if x = name then Some val else tbl_find sys x)"
    using macro_global_addvar_find [OF assms(1-3), of val] by blast
  moreover have "map_option sv_val (macro_findvar sys' t x (length x)) =
      (case tbl_find t x of Some v \<Rightarrow> Some v | None \<Rightarrow> if x = name then Some val else tbl_find sys x)"
    if "names_ok t" for t x
    by (simp only: macro_findvar_val [OF ok that] f)
  ultimately show ?thesis by (intro exI [of _ sys'] exI [of _ m']) simp
qed

text \<open>The names of the predefined variables, whatever the host reports.\<close>

lemma sv_hostd_names:
  "map sv_def (sv_hostd hi) =
     [''hostd'', ''domain'', ''xhost'', ''host'', ''byte'', ''false'', ''true'', ''dollar'',
      ''OSVERS'', ''OSREL'', ''OSNAME'', ''HOST'', ''CPU'', ''ARCH'']"
  by (simp add: sv_hostd_def sv_osvers_def ro_var_def split: prod.split)

lemma names_ok_iff: "names_ok t \<longleftrightarrow> (\<forall>n \<in> set (map sv_def t). cstring n)"
  by (simp add: names_ok_def)

lemma sv_hostd_names_ok: "names_ok (sv_hostd hi)"
  unfolding names_ok_iff sv_hostd_names by (simp add: cstring_def NUL_def)

theorem macro_parse_globalvar_defines_witness:
  "\<exists>sys' m'. macro_parse_globalvar (sv_hostd sample_host) (''ARCH'' @ ''='' @ ''x86'') [] = Some (True, sys', m')
     \<and> map_option sv_val (macro_findvar sys' [] ''ARCH'' (length ''ARCH'')) = Some ''x86''"
proof -
  have "cstring ''ARCH''" and "CHR ''='' \<notin> set ''ARCH''"
    and "length (''ARCH'' @ ''='' @ ''x86'') < MAX_MACRO_STRING"
    by (simp_all add: cstring_def NUL_def MAX_MACRO_STRING_def)
  from macro_parse_globalvar_defines [OF sv_hostd_names_ok mem_ample_Nil this, of sample_host]
  obtain sys' m' where 1: "macro_parse_globalvar (sv_hostd sample_host) (''ARCH'' @ ''='' @ ''x86'') [] = Some (True, sys', m')"
    and 2: "\<And>t x. names_ok t \<Longrightarrow> map_option sv_val (macro_findvar sys' t x (length x)) =
         (case tbl_find t x of Some v \<Rightarrow> Some v | None \<Rightarrow> if x = ''ARCH'' then Some ''x86'' else tbl_find (sv_hostd sample_host) x)"
    by blast
  have "tbl_find [] ''ARCH'' = None" by (simp add: tbl_find_def)
  with 2 [of "[]" "''ARCH''"] have "map_option sv_val (macro_findvar sys' [] ''ARCH'' (length ''ARCH'')) = Some ''x86''"
    by (simp only: names_ok_simps option.case simp_thms if_True)
  with 1 show ?thesis by blast
qed

text \<open>
  A definition without an equals sign and shorter than the buffer makes
  macro_parse_globalvar read past the end of the string, so its test that a macro must have
  a value is never reached.
\<close>

theorem macro_parse_globalvar_overrun:
  "macro_parse_globalvar sys d m = None \<longleftrightarrow> length d < MAX_MACRO_STRING \<and> CHR ''='' \<notin> set d"
proof (cases "strchr d (CHR ''='')")
  case None
  moreover from None have "CHR ''='' \<notin> set d" by (simp add: strchr_None_iff)
  ultimately show ?thesis by (simp add: macro_parse_globalvar_def not_le)
next
  case (Some rest)
  then have "CHR ''='' \<in> set d" using strchr_None_iff by (metis option.distinct(1))
  with Some show ?thesis by (simp only: macro_parse_globalvar_def option.case Let_def)
      (simp del: not_None_eq split_paired_Ex)
qed

text \<open>A definition adds no name but its own.\<close>

definition names_in :: "string set \<Rightarrow> subst_table \<times> mem \<Rightarrow> bool" where
  "names_in N st \<longleftrightarrow> set (map sv_def (fst st)) \<subseteq> N"

lemma global_add_opt_names:
  assumes "names_in N st" and "name \<in> N"
  shows "names_in N (global_add_opt name v st)"
proof (cases v)
  case (Some w)
  have "set (map sv_def (fst (snd (macro_global_addvar t name (length name) w m)))) \<subseteq> insert name (set (map sv_def t))" for t m
    using set_first_names [of "macro_match name (length name)" w t]
    by (auto simp: macro_global_addvar_def Let_def new_substvar_def simp del: set_map split: prod.split)
  with Some assms show ?thesis by (force simp: global_add_opt_def names_in_def simp del: set_map)
qed (use assms in \<open>simp add: global_add_opt_def\<close>)

text \<open>The names that the initial table has when no cluster is configured.\<close>

definition base_names :: "string set" where
  "base_names = {''hostd'', ''domain'', ''xhost'', ''host'', ''byte'', ''false'', ''true'', ''dollar'',
     ''OSVERS'', ''OSREL'', ''OSNAME'', ''HOST'', ''CPU'', ''ARCH'',
     ''arch'', ''karch'', ''os'', ''full_os'', ''osver'', ''vendor'', ''autodir''}"

lemma base_names_ok: "names_in base_names (t, m) \<Longrightarrow> names_ok t"
proof -
  have "\<forall>n \<in> base_names. cstring n" by (simp add: base_names_def cstring_def NUL_def)
  then show "names_in base_names (t, m) \<Longrightarrow> names_ok t" by (auto simp: names_ok_def names_in_def)
qed

lemma macro_match_take:
  assumes "names_ok t" and "len \<le> length n" and "take len n \<notin> set (map sv_def t)"
  shows "chain_find (macro_match n len) t = []"
  using assms by (force simp: chain_find_Nil_iff names_ok_def macro_match_iff)

text \<open>
  Without a configured cluster name the initial macro table never defines cluster,
  although the source falls back to the value of domain: the name is looked up with the
  length 4 instead of 6 and so is never found, whatever the host reports.
\<close>

theorem cluster_not_defaulted:
  assumes "conf_cluster c = None"
  shows "\<not> macro_is_systemvar (fst (macro_init hi c m)) ''cluster'' 7"
proof -
  define st6 where "st6 = global_add_opt ''vendor'' (conf_vendor c) (global_add_opt ''osver'' (conf_os_ver c)
     (global_add_opt ''full_os'' (conf_full_os c) (global_add_opt ''os'' (conf_os c)
     (global_add_opt ''karch'' (conf_karch c) (global_add_opt ''arch'' (conf_arch c) (sv_hostd hi, m))))))"
  have "names_in base_names (sv_hostd hi, m)"
    unfolding names_in_def fst_conv sv_hostd_names by (simp add: base_names_def)
  then have n6: "names_in base_names st6"
    unfolding st6_def by (intro global_add_opt_names) (simp_all add: base_names_def)
  have none: "chain_find (macro_match ''domain'' 4) t = []" if "names_in base_names (t, m')" for t m'
    using that base_names_ok [OF that] by (intro macro_match_take) (auto simp: names_in_def base_names_def)
  have suffix: "names_in base_names (drop k (fst st6), m')" for k m'
    using n6 set_drop_subset [of k "fst st6"] by (auto simp: names_in_def)
  have "macro_findvar (fst st6) (drop k (fst st6)) ''domain'' 4 = None" for k
    using none [OF suffix [of 0]] none [OF suffix [of k]] by (simp add: macro_findvar_def)
  with assms have "macro_init hi c m = global_add_opt ''autodir'' (conf_auto_dir c) st6"
    by (simp add: macro_init_def add_std_amd_vars_def Let_def st6_def)
  with global_add_opt_names [OF n6] have fin: "names_in base_names (macro_init hi c m)"
    by (simp add: base_names_def)
  then have "names_ok (fst (macro_init hi c m))" by (cases "macro_init hi c m") (simp add: base_names_ok)
  with fin have "chain_find (macro_match ''cluster'' 7) (fst (macro_init hi c m)) = []"
    by (intro macro_match_take) (auto simp: names_in_def base_names_def)
  then show ?thesis by (simp add: macro_is_systemvar_def)
qed

theorem cluster_not_defaulted_witness:
  "\<not> macro_is_systemvar (fst (macro_init sample_host
      \<lparr>conf_arch = Some ''i686'', conf_karch = None, conf_os = Some ''linux'', conf_full_os = None, conf_os_ver = None,
       conf_vendor = None, conf_cluster = None, conf_auto_dir = Some ''/a''\<rparr> [])) ''cluster'' 7"
  by (rule cluster_not_defaulted) simp

end
