(* ===== verification/Alarm.thy ===== *)
theory Alarm
  imports Prelude
begin

text \<open>
  The alarm queue of \<^verbatim>\<open>lib/alarm.c\<close>: the ordered list \<open>alarms\<close>, the operations that add
  and delete alarms under the mutex, and the thread \<open>alarm_handler\<close>. The thread is the
  field \<open>al_handler\<close>: it holds the mutex (\<open>Running\<close>), waits on the condition variable
  without or with a deadline (\<open>Blocked\<close>), or has released the mutex to call
  \<open>st_add_task\<close> (\<open>Firing\<close>). A signal reaches the thread only while it waits. A mount point
  is an address; \<open>time_t\<close> is an integer.
\<close>

section \<open>Data\<close>

record alarm =
  al_time :: time
  al_cancel :: bool
  al_ap :: addr

datatype handler = Running | Blocked "time option" | Firing addr

record alarm_state =
  alarms :: "alarm list"
  al_handler :: handler
  al_woken :: bool

definition alarm_init :: alarm_state where
  "alarm_init = \<lparr>alarms = [], al_handler = Running, al_woken = False\<rparr>"

text \<open>\<open>pthread_cond_signal(&cond)\<close>\<close>

definition alarm_signal :: "alarm_state \<Rightarrow> alarm_state" where
  "alarm_signal st = (case al_handler st of Blocked _ \<Rightarrow> st\<lparr>al_woken := True\<rparr> | _ \<Rightarrow> st)"

section \<open>Operations\<close>

text \<open>The loop that links a new alarm before the first one that is not earlier.\<close>

fun alarm_link :: "alarm \<Rightarrow> alarm list \<Rightarrow> alarm list" where
  "alarm_link new [] = [new]"
| "alarm_link new (this # rest) =
     (if al_time this \<ge> al_time new then new # this # rest else this # alarm_link new rest)"

text \<open>\<open>__alarm_add\<close>, called with the mutex held.\<close>

definition alarm_add_locked ::
  "addr \<Rightarrow> time \<Rightarrow> time \<Rightarrow> alarm_state \<Rightarrow> mem \<Rightarrow> bool \<times> alarm_state \<times> mem" where
  "alarm_add_locked ap seconds now st m =
     (if seconds = 0 then (True, st, m)
      else
        (let (ok, m1) = malloc m
         in if \<not> ok then (False, st, m1)
            else
              (let new = \<lparr>al_time = now + seconds, al_cancel = False, al_ap = ap\<rparr>;
                   st1 = st\<lparr>alarms := alarm_link new (alarms st)\<rparr>;
                   wake = (case alarms st of [] \<Rightarrow> True | current # _ \<Rightarrow> al_time new < al_time current)
               in (True, if wake then alarm_signal st1 else st1, m1))))"

definition alarm_add ::
  "addr \<Rightarrow> time \<Rightarrow> time \<Rightarrow> alarm_state \<Rightarrow> mem \<Rightarrow> bool \<times> alarm_state \<times> mem" where
  "alarm_add ap seconds now st m = alarm_add_locked ap seconds now st m"

text \<open>\<open>__alarm_exists\<close>\<close>

fun alarm_exists :: "addr \<Rightarrow> alarm list \<Rightarrow> bool" where
  "alarm_exists ap [] = False"
| "alarm_exists ap (this # rest) = (if ap = al_ap this then True else alarm_exists ap rest)"

definition alarm_delete :: "addr \<Rightarrow> alarm_state \<Rightarrow> alarm_state" where
  "alarm_delete ap st =
     (case alarms st of
        [] \<Rightarrow> st
      | current # rest \<Rightarrow>
          (let rest' = filter (\<lambda>this. al_ap this \<noteq> ap) rest
           in if ap = al_ap current
              then alarm_signal (st\<lparr>alarms := current\<lparr>al_cancel := True, al_time := 0\<rparr> # rest'\<rparr>)
              else st\<lparr>alarms := current # rest'\<rparr>))"

text \<open>
  \<open>submount\<close> is \<open>ap->submount\<close>, \<open>has_mounts\<close> the result of \<open>mnts_has_mounted_mounts(ap)\<close>.
\<close>

definition conditional_alarm_add ::
  "bool \<Rightarrow> bool \<Rightarrow> addr \<Rightarrow> time \<Rightarrow> time \<Rightarrow> alarm_state \<Rightarrow> mem \<Rightarrow> bool \<times> alarm_state \<times> mem" where
  "conditional_alarm_add submount has_mounts ap seconds now st m =
     (if submount then (True, st, m)
      else if \<not> has_mounts then (True, st, m)
      else if alarm_exists ap (alarms st) then (True, st, m)
      else alarm_add_locked ap seconds now st m)"

text \<open>
  One iteration of the loop of \<open>alarm_handler\<close>, entered with the mutex held, and the mount
  point whose alarm triggers.
\<close>

definition alarm_handler_iter :: "time \<Rightarrow> alarm_state \<Rightarrow> alarm_state" where
  "alarm_handler_iter now st =
     (case alarms st of
        [] \<Rightarrow> st\<lparr>al_handler := Blocked None, al_woken := False\<rparr>
      | first # rest \<Rightarrow>
          if al_time first > now
          then st\<lparr>al_handler := Blocked (Some (al_time first)), al_woken := False\<rparr>
          else if \<not> al_cancel first
          then st\<lparr>alarms := rest, al_handler := Firing (al_ap first)\<rparr>
          else st\<lparr>alarms := rest\<rparr>)"

text \<open>The iterations up to the next wait, with the mount points that get a task.\<close>

function alarm_handler_run :: "time \<Rightarrow> alarm_state \<Rightarrow> addr list \<times> alarm_state" where
  "alarm_handler_run now st =
     (case al_handler st of
        Blocked _ \<Rightarrow> ([], st)
      | Firing ap \<Rightarrow> (let (aps, st') = alarm_handler_run now (st\<lparr>al_handler := Running\<rparr>) in (ap # aps, st'))
      | Running \<Rightarrow> alarm_handler_run now (alarm_handler_iter now st))"
  by pat_completeness auto
termination
  by (relation "measure (\<lambda>(now, st). 3 * length (alarms st) +
        (case al_handler st of Blocked _ \<Rightarrow> 0 | Running \<Rightarrow> 1 | Firing _ \<Rightarrow> 2))")
     (auto simp: alarm_handler_iter_def split: list.split)

declare alarm_handler_run.simps [simp del]

section \<open>The queue as a transition system\<close>

datatype alarm_event =
    AddAlarm bool bool addr time time mem
  | DeleteAlarm addr
  | HandlerIter time
  | HandlerWake
  | HandlerFired

text \<open>
  The operations run while the handler does not hold the mutex; a waiting handler can
  return from the wait at any time (a signal, the deadline or a spurious wakeup). The clock
  and the periods are not negative.
\<close>

inductive alarm_step :: "alarm_state \<Rightarrow> alarm_event \<Rightarrow> alarm_state \<Rightarrow> bool" where
  step_add: "al_handler st \<noteq> Running \<Longrightarrow> 0 \<le> now \<Longrightarrow> 0 \<le> seconds \<Longrightarrow>
     conditional_alarm_add sub mnts ap seconds now st m = (r, st', m') \<Longrightarrow>
     alarm_step st (AddAlarm sub mnts ap seconds now m) st'"
| step_delete: "al_handler st \<noteq> Running \<Longrightarrow> alarm_step st (DeleteAlarm ap) (alarm_delete ap st)"
| step_iter: "al_handler st = Running \<Longrightarrow> 0 \<le> now \<Longrightarrow> alarm_step st (HandlerIter now) (alarm_handler_iter now st)"
| step_wake: "al_handler st = Blocked d \<Longrightarrow> alarm_step st HandlerWake (st\<lparr>al_handler := Running, al_woken := False\<rparr>)"
| step_fired: "al_handler st = Firing ap \<Longrightarrow> alarm_step st HandlerFired (st\<lparr>al_handler := Running\<rparr>)"

inductive_cases alarm_stepE: "alarm_step st e st'"

section \<open>The order of the queue\<close>

text \<open>
  The alarms are ordered by time, each mount point has at most one, and an alarm is
  cancelled only at the head of the queue, where its time is zero.
\<close>

fun alarms_ok :: "alarm list \<Rightarrow> bool" where
  "alarms_ok [] = True"
| "alarms_ok (a # as) \<longleftrightarrow> (if al_cancel a then al_time a = 0 else al_time a > 0)
     \<and> sorted (map al_time (a # as)) \<and> distinct (map al_ap (a # as))
     \<and> (\<forall>b \<in> set as. \<not> al_cancel b \<and> al_time b > 0)"

text \<open>A handler that waits and has no signal under way waits for the head of the queue.\<close>

definition handler_ok :: "alarm_state \<Rightarrow> bool" where
  "handler_ok st \<longleftrightarrow>
     (case al_handler st of
        Blocked None \<Rightarrow> al_woken st \<or> alarms st = []
      | Blocked (Some d) \<Rightarrow> al_woken st \<or> (\<exists>a as. alarms st = a # as \<and> al_time a = d \<and> \<not> al_cancel a)
      | _ \<Rightarrow> True)"

definition alarm_ok :: "alarm_state \<Rightarrow> bool" where
  "alarm_ok st \<longleftrightarrow> alarms_ok (alarms st) \<and> handler_ok st"

lemma set_alarm_link [simp]: "set (alarm_link a as) = insert a (set as)"
  by (induction as) auto

lemma alarm_link_sorted: "sorted (map al_time as) \<Longrightarrow> sorted (map al_time (alarm_link a as))"
  by (induction as) auto

lemma alarm_link_distinct:
  "distinct (map al_ap as) \<Longrightarrow> al_ap a \<notin> al_ap ` set as \<Longrightarrow> distinct (map al_ap (alarm_link a as))"
  by (induction as) auto

lemma alarm_exists_iff: "alarm_exists ap as \<longleftrightarrow> ap \<in> al_ap ` set as"
  by (induction as) auto

lemma alarms_ok_link:
  assumes "alarms_ok as" and "\<not> al_cancel a" and "0 < al_time a" and "al_ap a \<notin> al_ap ` set as"
  shows "alarms_ok (alarm_link a as)"
proof (cases as)
  case Nil
  with assms show ?thesis by simp
next
  case (Cons b bs)
  with assms have s: "sorted (map al_time bs)" "distinct (map al_ap bs)" by auto
  show ?thesis
  proof (cases "al_time b \<ge> al_time a")
    case True
    with assms Cons show ?thesis by (auto split: if_splits)
  next
    case False
    with assms Cons alarm_link_sorted [OF s(1), of a] alarm_link_distinct [OF s(2), of a] show ?thesis
      by (auto split: if_splits)
  qed
qed

lemma alarms_ok_tl: "alarms_ok (a # as) \<Longrightarrow> alarms_ok as"
  by (cases as) auto

lemma alarm_signal_simps [simp]:
  "alarms (alarm_signal st) = alarms st" "al_handler (alarm_signal st) = al_handler st"
  by (auto simp: alarm_signal_def split: handler.split)

lemma handler_ok_signal: "handler_ok (alarm_signal st)"
  by (auto simp: handler_ok_def alarm_signal_def split: handler.split option.split)

text \<open>A queue that only grows behind its head, or at its head by an alarm of the same time.\<close>

lemma alarm_link_head:
  "as \<noteq> [] \<Longrightarrow> \<not> al_time a < al_time (hd as) \<Longrightarrow>
     \<exists>b bs. alarm_link a as = b # bs \<and> al_time b = al_time (hd as) \<and> (b = a \<or> b = hd as)"
  by (cases as) auto

lemma conditional_alarm_add_ok:
  assumes "alarm_ok st" and "0 \<le> now" and "0 \<le> seconds"
    and "conditional_alarm_add sub mnts ap seconds now st m = (r, st', m')"
  shows "alarm_ok st'"
proof (cases "st' = st")
  case False
  define new where "new = \<lparr>al_time = now + seconds, al_cancel = False, al_ap = ap\<rparr>"
  define wake where "wake = (case alarms st of [] \<Rightarrow> True | current # _ \<Rightarrow> al_time new < al_time current)"
  let ?st1 = "st\<lparr>alarms := alarm_link new (alarms st)\<rparr>"
  from False assms(4) have pos: "seconds \<noteq> 0" and free: "al_ap new \<notin> al_ap ` set (alarms st)"
    and st': "st' = (if wake then alarm_signal ?st1 else ?st1)"
    by (cases "alarms st";
        auto simp: conditional_alarm_add_def alarm_add_locked_def Let_def new_def wake_def alarm_exists_iff
          split: if_splits prod.splits)+
  have "alarms_ok (alarm_link new (alarms st))"
    using assms(1,2,3) pos free by (intro alarms_ok_link) (auto simp: alarm_ok_def new_def)
  moreover have "handler_ok ?st1" if "\<not> wake"
  proof -
    from that have "alarms st \<noteq> []" "\<not> al_time new < al_time (hd (alarms st))"
      by (auto simp: wake_def split: list.splits)
    from alarm_link_head [OF this] obtain b bs where
      b: "alarm_link new (alarms st) = b # bs" "al_time b = al_time (hd (alarms st))" "b = new \<or> b = hd (alarms st)"
      by blast
    have "\<not> al_cancel new" by (simp add: new_def)
    with b \<open>alarms st \<noteq> []\<close> have "(\<exists>a as. alarms st = a # as \<and> al_time a = d \<and> \<not> al_cancel a) \<Longrightarrow>
        (\<exists>a as. alarm_link new (alarms st) = a # as \<and> al_time a = d \<and> \<not> al_cancel a)" for d by auto
    with assms(1) \<open>alarms st \<noteq> []\<close> show ?thesis
      by (auto simp: alarm_ok_def handler_ok_def split: handler.splits option.splits)
  qed
  ultimately show ?thesis by (simp add: alarm_ok_def st' handler_ok_signal)
qed (use assms in simp)

lemma alarm_delete_ok:
  assumes "alarm_ok st"
  shows "alarm_ok (alarm_delete ap st)"
proof (cases "alarms st")
  case Nil
  with assms show ?thesis by (simp add: alarm_delete_def)
next
  case (Cons cur rest)
  have s: "sorted (map al_time (filter P rest))" "distinct (map al_ap (filter P rest))" for P
    using assms Cons by (auto simp: alarm_ok_def sorted_filter distinct_map_filter)
  show ?thesis
  proof (cases "ap = al_ap cur")
    case True
    with assms Cons s show ?thesis by (auto simp: alarm_delete_def Let_def alarm_ok_def handler_ok_signal)
  next
    case False
    with assms Cons have "handler_ok (st\<lparr>alarms := cur # filter (\<lambda>this. al_ap this \<noteq> ap) rest\<rparr>)"
      by (auto simp: alarm_ok_def handler_ok_def split: handler.splits option.splits)
    with False assms Cons s show ?thesis by (auto simp: alarm_delete_def Let_def alarm_ok_def)
  qed
qed

lemma alarm_handler_iter_ok:
  "alarm_ok st \<Longrightarrow> al_handler st = Running \<Longrightarrow> 0 \<le> now \<Longrightarrow> alarm_ok (alarm_handler_iter now st)"
  using alarms_ok_tl [of "hd (alarms st)" "tl (alarms st)"]
  by (cases "alarms st") (auto simp: alarm_ok_def handler_ok_def alarm_handler_iter_def simp del: alarms_ok.simps(2),
      auto)

interpretation alarm_sys: transition_system "\<lambda>st. st = alarm_init" alarm_step alarm_ok
proof unfold_locales
  fix st assume "st = alarm_init"
  then show "alarm_ok st" by (simp add: alarm_init_def alarm_ok_def handler_ok_def)
next
  fix st e st' assume ok: "alarm_ok st" and "alarm_step st e st'"
  from this(2) show "alarm_ok st'"
  proof cases
    case step_add
    with ok show ?thesis by (blast intro: conditional_alarm_add_ok)
  qed (use ok in \<open>auto simp: alarm_delete_ok alarm_handler_iter_ok\<close>, auto simp: alarm_ok_def handler_ok_def)
qed

section \<open>Properties\<close>

lemma alarm_handler_run_iter:
  "al_handler st = Running \<Longrightarrow> alarm_handler_run now st = alarm_handler_run now (alarm_handler_iter now st)"
  by (subst alarm_handler_run.simps) simp

lemma alarm_handler_run_fire:
  "al_handler st = Firing ap \<Longrightarrow> alarm_handler_run now st =
     (ap # fst (alarm_handler_run now (st\<lparr>al_handler := Running\<rparr>)), snd (alarm_handler_run now (st\<lparr>al_handler := Running\<rparr>)))"
  by (subst alarm_handler_run.simps) (simp split: prod.split)

lemma alarm_handler_run_wait: "al_handler st = Blocked d \<Longrightarrow> alarm_handler_run now st = ([], st)"
  by (subst alarm_handler_run.simps) simp

lemma alarm_handler_run_sorted:
  assumes "al_handler st = Running" and "sorted (map al_time (alarms st))"
  shows "fst (alarm_handler_run now st) = map al_ap (filter (\<lambda>a. al_time a \<le> now \<and> \<not> al_cancel a) (alarms st))
    \<and> alarms (snd (alarm_handler_run now st)) = filter (\<lambda>a. now < al_time a) (alarms st)
    \<and> al_handler (snd (alarm_handler_run now st)) =
        Blocked (case filter (\<lambda>a. now < al_time a) (alarms st) of [] \<Rightarrow> None | a # _ \<Rightarrow> Some (al_time a))"
  using assms
proof (induction "alarms st" arbitrary: st)
  case Nil
  then show ?case
    by (simp add: alarm_handler_run_iter alarm_handler_iter_def alarm_handler_run_wait flip: Nil(1))
next
  case (Cons a as)
  note iter = alarm_handler_run_iter [OF Cons.prems(1)]
  show ?case
  proof (cases "now < al_time a")
    case True
    with Cons.prems(2) have later: "\<forall>b \<in> set (alarms st). now < al_time b"
      unfolding Cons.hyps(2) [symmetric] by auto
    then have "filter (\<lambda>b. now < al_time b) (alarms st) = alarms st"
      "filter (\<lambda>b. al_time b \<le> now \<and> \<not> al_cancel b) (alarms st) = []"
      by (auto simp: filter_empty_conv)
    moreover have "alarm_handler_iter now st = st\<lparr>al_handler := Blocked (Some (al_time a)), al_woken := False\<rparr>"
      using True by (simp add: alarm_handler_iter_def Cons.hyps(2) [symmetric])
    ultimately show ?thesis
      using iter Cons.hyps(2) [symmetric] by (simp add: alarm_handler_run_wait)
  next
    case False
    let ?st = "st\<lparr>alarms := as, al_handler := Running\<rparr>"
    from Cons.prems(2) have "sorted (map al_time as)" unfolding Cons.hyps(2) [symmetric] by simp
    with Cons.hyps(1) [of ?st] have IH: "fst (alarm_handler_run now ?st) = map al_ap (filter (\<lambda>a. al_time a \<le> now \<and> \<not> al_cancel a) as)
      \<and> alarms (snd (alarm_handler_run now ?st)) = filter (\<lambda>a. now < al_time a) as
      \<and> al_handler (snd (alarm_handler_run now ?st)) =
          Blocked (case filter (\<lambda>a. now < al_time a) as of [] \<Rightarrow> None | a # _ \<Rightarrow> Some (al_time a))" by simp
    have "st\<lparr>alarms := as\<rparr> = ?st" using Cons.prems(1) by simp
    with False IH Cons.hyps(2) [symmetric] show ?thesis
      by (simp add: iter alarm_handler_iter_def alarm_handler_run_fire)
  qed
qed

text \<open>A queue with alarms of three mount points, the first of them cancelled.\<close>

definition sample_alarms :: alarm_state where
  "sample_alarms =
     \<lparr>alarms = [\<lparr>al_time = 0, al_cancel = True, al_ap = 1\<rparr>, \<lparr>al_time = 5, al_cancel = False, al_ap = 2\<rparr>,
                \<lparr>al_time = 9, al_cancel = False, al_ap = 3\<rparr>],
      al_handler = Running, al_woken = False\<rparr>"

text \<open>
  C8: In every state that the alarm thread and the callers of alarm_delete and
  conditional_alarm_add can reach, the queue is ordered by time, holds at most one alarm
  per mount point and a cancelled one only at its head, and no wakeup is lost: a thread
  that waits with no signal under way waits for the head of the queue, or for nothing
  when the queue is empty.
\<close>

theorem alarm_reachable_ok:
  assumes "reach (\<lambda>st. st = alarm_init) alarm_step st"
  shows "sorted (map al_time (alarms st)) \<and> distinct (map al_ap (alarms st)) \<and> (\<forall>a \<in> set (tl (alarms st)). \<not> al_cancel a)
    \<and> (\<forall>d. al_handler st = Blocked d \<and> \<not> al_woken st \<longrightarrow>
         (case alarms st of [] \<Rightarrow> d = None | a # _ \<Rightarrow> d = Some (al_time a)))"
proof -
  have ok: "alarm_ok st" using assms by (rule alarm_sys.invar_reach)
  then have "sorted (map al_time (alarms st)) \<and> distinct (map al_ap (alarms st)) \<and> (\<forall>a \<in> set (tl (alarms st)). \<not> al_cancel a)"
    by (cases "alarms st") (auto simp: alarm_ok_def)
  with ok show ?thesis by (auto simp: alarm_ok_def handler_ok_def split: option.splits)
qed

theorem alarm_reachable_ok_witness:
  "\<exists>st :: alarm_state. alarms st = [\<lparr>al_time = 15, al_cancel = False, al_ap = 7\<rparr>] \<and> al_handler st = Blocked None
     \<and> sorted (map al_time (alarms st)) \<and> al_woken st"
proof -
  define s1 where "s1 = alarm_handler_iter 10 alarm_init"
  define s2 where "s2 = fst (snd (conditional_alarm_add False True 7 5 10 s1 []))"
  have "alarm_step alarm_init (HandlerIter 10) s1"
    unfolding s1_def by (rule step_iter) (simp_all add: alarm_init_def)
  then have "reach (\<lambda>st. st = alarm_init) alarm_step s1"
    by (rule reach_step [rotated]) (simp add: reach_init)
  moreover have "alarm_step s1 (AddAlarm False True 7 5 10 []) s2"
    by (rule step_add) (auto simp: s1_def s2_def alarm_handler_iter_def alarm_init_def conditional_alarm_add_def alarm_add_locked_def)
  ultimately have r: "reach (\<lambda>st. st = alarm_init) alarm_step s2" by (rule reach_step)
  have "alarms s2 = [\<lparr>al_time = 15, al_cancel = False, al_ap = 7\<rparr>] \<and> al_handler s2 = Blocked None \<and> al_woken s2"
    by (simp add: s1_def s2_def alarm_handler_iter_def alarm_init_def conditional_alarm_add_def alarm_add_locked_def alarm_signal_def)
  with alarm_reachable_ok [OF r] show ?thesis by blast
qed

text \<open>
  C3: When the alarm thread runs at some time it queues an expire task for exactly the
  mount points whose alarms are due and not cancelled, in the order of their times, keeps
  exactly the alarms that are not due, and then waits until the time of the first of these.
\<close>

theorem alarm_handler_fires_due:
  assumes "al_handler st = Running" and "alarm_ok st"
  shows "fst (alarm_handler_run now st) = map al_ap (filter (\<lambda>a. al_time a \<le> now \<and> \<not> al_cancel a) (alarms st))
    \<and> alarms (snd (alarm_handler_run now st)) = filter (\<lambda>a. now < al_time a) (alarms st)
    \<and> al_handler (snd (alarm_handler_run now st)) =
        Blocked (case filter (\<lambda>a. now < al_time a) (alarms st) of [] \<Rightarrow> None | a # _ \<Rightarrow> Some (al_time a))"
proof -
  have "sorted (map al_time (alarms st))" using assms(2) by (cases "alarms st") (auto simp: alarm_ok_def)
  with assms(1) show ?thesis by (rule alarm_handler_run_sorted)
qed

theorem alarm_handler_fires_due_witness:
  "fst (alarm_handler_run 6 sample_alarms) = [2] \<and> al_handler (snd (alarm_handler_run 6 sample_alarms)) = Blocked (Some 9)"
  using alarm_handler_fires_due [of sample_alarms 6]
  by (simp add: sample_alarms_def alarm_ok_def handler_ok_def)

text \<open>
  Deleting the alarm of a mount point leaves it no alarm that can trigger and every
  other mount point its alarm. A deleted alarm at the head of the queue stays there until
  the alarm thread takes it off, and until then conditional_alarm_add adds no new alarm.
\<close>

theorem alarm_delete_cancels:
  assumes "alarm_ok st"
  shows "(\<forall>a \<in> set (alarms (alarm_delete ap st)). al_ap a = ap \<longrightarrow> al_cancel a)
    \<and> filter (\<lambda>a. al_ap a \<noteq> ap) (alarms (alarm_delete ap st)) = filter (\<lambda>a. al_ap a \<noteq> ap) (alarms st)
    \<and> (alarms st \<noteq> [] \<and> al_ap (hd (alarms st)) = ap \<longrightarrow>
         conditional_alarm_add sub mnts ap seconds now (alarm_delete ap st) m = (True, alarm_delete ap st, m))"
  using assms
  by (cases "alarms st") (auto simp: alarm_delete_def Let_def conditional_alarm_add_def alarm_ok_def)

theorem alarm_delete_cancels_witness:
  "filter (\<lambda>a. al_ap a \<noteq> 2) (alarms (alarm_delete 2 sample_alarms)) = filter (\<lambda>a. al_ap a \<noteq> 2) (alarms sample_alarms)
     \<and> length (alarms (alarm_delete 2 sample_alarms)) = 2"
  using alarm_delete_cancels [of sample_alarms 2]
  by (simp add: sample_alarms_def alarm_ok_def handler_ok_def alarm_delete_def Let_def)

end
