(* ===== verification/State.thy ===== *)
theory State
  imports Alarm
begin

text \<open>
  The state machine of \<^verbatim>\<open>daemon/state.c\<close>: the queue of tasks, the handler thread that starts
  them, and the worker threads that expire mounts and read maps, for all mount points of
  the daemon; with the operation of \<^verbatim>\<open>daemon/master.c\<close> that queues tasks on a signal. A mount
  point is an address. Between two points where a thread releases the state mutex its code
  is one function on the record \<open>daemon\<close>. A task waiting in the list \<open>pending\<close> of another
  is the state it asks for: its other fields are still as \<open>st_alloc_task\<close> clears them.
  \<open>assert\<close> only logs and \<open>fatal\<close> aborts; both are left out.
\<close>

section \<open>Data\<close>

datatype states =
    ST_ANY | ST_INVAL | ST_INIT | ST_READY | ST_EXPIRE | ST_PRUNE | ST_READMAP
  | ST_SHUTDOWN_PENDING | ST_SHUTDOWN_FORCE | ST_SHUTDOWN

text \<open>
  The fields of \<open>struct autofs_point\<close> that the state machine uses; \<open>ap_mounts\<close> tells
  whether the list \<open>mounts\<close> has entries. A thread identifier is a number, 0 for none.
\<close>

record autofs_point =
  ap_state :: states
  ap_shutdown :: bool
  ap_submount :: bool
  ap_exp_thread :: nat
  ap_readmap_thread :: nat
  ap_exp_runfreq :: time
  ap_mounts :: bool

record state_queue =
  sq_thid :: nat
  sq_pending :: "states list"
  sq_ap :: addr
  sq_state :: states
  sq_busy :: bool
  sq_done :: bool
  sq_cancel :: bool

text \<open>What a worker thread does: expire with the flags \<open>how\<close>, or read the map at a time.\<close>

datatype worker = ExpireProc nat | DoReadmap time

text \<open>
  The shared state: the mount points, the task queue and its flag \<open>signaled\<close>, whether the
  handler waits for the queue to become non-empty, the alarm queue, the clock, the outcomes
  of the coming allocations and thread creations, the worker threads that have not ended,
  the identifiers used and the threads asked to cancel, the mount points sent \<open>SIGCONT\<close>.
\<close>

record daemon =
  st_aps :: "addr \<Rightarrow> autofs_point"
  st_queue :: "state_queue list"
  st_signaled :: bool
  st_idle :: bool
  st_alarms :: alarm_state
  st_now :: time
  st_mem :: mem
  st_create :: mem
  st_threads :: "(nat \<times> addr \<times> worker) list"
  st_last_thid :: nat
  st_cancels :: "nat list"
  st_sigcont :: "addr list"

definition AUTOFS_EXP_NORMAL :: nat where "AUTOFS_EXP_NORMAL = 0"
definition AUTOFS_EXP_IMMEDIATE :: nat where "AUTOFS_EXP_IMMEDIATE = 1"
definition AUTOFS_EXP_FORCE :: nat where "AUTOFS_EXP_FORCE = 4"

datatype expire_result = EXP_ERROR | EXP_STARTED | EXP_PARTIAL

definition upd_ap :: "addr \<Rightarrow> (autofs_point \<Rightarrow> autofs_point) \<Rightarrow> daemon \<Rightarrow> daemon" where
  "upd_ap ap f d = d\<lparr>st_aps := (st_aps d)(ap := f (st_aps d ap))\<rparr>"

text \<open>The first task of a mount point, as the loops with a break find it.\<close>

fun upd_task :: "addr \<Rightarrow> (state_queue \<Rightarrow> state_queue) \<Rightarrow> state_queue list \<Rightarrow> state_queue list" where
  "upd_task ap f [] = []"
| "upd_task ap f (t # ts) = (if sq_ap t = ap then f t # ts else t # upd_task ap f ts)"

section \<open>Starting work\<close>

definition st_alarm :: "addr \<Rightarrow> daemon \<Rightarrow> daemon" where
  "st_alarm ap d =
     (let a = st_aps d ap;
          (r, al, m) = conditional_alarm_add (ap_submount a) (ap_mounts a) ap (ap_exp_runfreq a) (st_now d) (st_alarms d) (st_mem d)
      in d\<lparr>st_alarms := al, st_mem := m\<rparr>)"

definition st_ready :: "addr \<Rightarrow> daemon \<Rightarrow> daemon" where
  "st_ready ap d = upd_ap ap (\<lambda>a. a\<lparr>ap_shutdown := False, ap_state := ST_READY\<rparr>) d"

definition st_set_thid :: "addr \<Rightarrow> nat \<Rightarrow> daemon \<Rightarrow> daemon" where
  "st_set_thid ap thid d = d\<lparr>st_queue := upd_task ap (\<lambda>t. t\<lparr>sq_thid := thid\<rparr>) (st_queue d)\<rparr>"

definition st_set_done :: "addr \<Rightarrow> daemon \<Rightarrow> daemon" where
  "st_set_done ap d = d\<lparr>st_queue := upd_task ap (\<lambda>t. t\<lparr>sq_done := True\<rparr>) (st_queue d)\<rparr>"

text \<open>\<open>pthread_create\<close>: a fresh identifier, or \<open>None\<close>.\<close>

definition pthread_create :: "addr \<Rightarrow> worker \<Rightarrow> daemon \<Rightarrow> nat option \<times> daemon" where
  "pthread_create ap w d =
     (let (ok, c) = malloc (st_create d); thid = Suc (st_last_thid d)
      in if ok
         then (Some thid, d\<lparr>st_create := c, st_last_thid := thid, st_threads := (thid, ap, w) # st_threads d\<rparr>)
         else (None, d\<lparr>st_create := c\<rparr>))"

text \<open>
  \<open>expire_proc\<close>; the wait for the new thread to signal that it has copied its arguments
  keeps the state mutex.
\<close>

definition expire_proc :: "addr \<Rightarrow> nat \<Rightarrow> daemon \<Rightarrow> expire_result \<times> daemon" where
  "expire_proc ap how d =
     (let (ok, m) = malloc (st_mem d); d1 = d\<lparr>st_mem := m\<rparr>
      in if \<not> ok then (EXP_ERROR, d1)
         else
           (case pthread_create ap (ExpireProc how) d1 of
              (None, d2) \<Rightarrow> (EXP_ERROR, d2)
            | (Some thid, d2) \<Rightarrow>
                (EXP_STARTED, st_set_thid ap thid (upd_ap ap (\<lambda>a. a\<lparr>ap_exp_thread := thid\<rparr>) d2))))"

definition st_readmap :: "addr \<Rightarrow> daemon \<Rightarrow> bool \<times> daemon" where
  "st_readmap ap d =
     (let d0 = upd_ap ap (\<lambda>a. a\<lparr>ap_state := ST_READMAP\<rparr>) d;
          (ok, m) = malloc (st_mem d0); d1 = d0\<lparr>st_mem := m\<rparr>
      in if \<not> ok then (False, st_alarm ap (st_ready ap d1))
         else
           (case pthread_create ap (DoReadmap (st_now d)) d1 of
              (None, d2) \<Rightarrow> (False, st_alarm ap (st_ready ap d2))
            | (Some thid, d2) \<Rightarrow>
                (True, st_set_thid ap thid (upd_ap ap (\<lambda>a. a\<lparr>ap_readmap_thread := thid\<rparr>) d2))))"

text \<open>What the four functions that start \<open>expire_proc\<close> share: the switch on its result.\<close>

definition st_start_expire :: "states \<Rightarrow> nat \<Rightarrow> addr \<Rightarrow> daemon \<Rightarrow> bool \<times> daemon" where
  "st_start_expire state how ap d =
     (case expire_proc ap how (upd_ap ap (\<lambda>a. a\<lparr>ap_state := state\<rparr>) d) of
        (EXP_STARTED, d1) \<Rightarrow> (True, d1)
      | (_, d1) \<Rightarrow> (False, st_ready ap (st_alarm ap d1)))"

definition st_prepare_shutdown :: "addr \<Rightarrow> daemon \<Rightarrow> bool \<times> daemon" where
  "st_prepare_shutdown = st_start_expire ST_SHUTDOWN_PENDING AUTOFS_EXP_IMMEDIATE"

definition st_force_shutdown :: "addr \<Rightarrow> daemon \<Rightarrow> bool \<times> daemon" where
  "st_force_shutdown = st_start_expire ST_SHUTDOWN_FORCE (AUTOFS_EXP_FORCE OR AUTOFS_EXP_IMMEDIATE)"

definition st_shutdown :: "addr \<Rightarrow> daemon \<Rightarrow> bool \<times> daemon" where
  "st_shutdown ap d =
     (False, (upd_ap ap (\<lambda>a. a\<lparr>ap_state := ST_SHUTDOWN\<rparr>) d)\<lparr>st_sigcont := ap # st_sigcont d\<rparr>)"

definition st_prune :: "addr \<Rightarrow> daemon \<Rightarrow> bool \<times> daemon" where
  "st_prune = st_start_expire ST_PRUNE AUTOFS_EXP_IMMEDIATE"

definition st_expire :: "addr \<Rightarrow> daemon \<Rightarrow> bool \<times> daemon" where
  "st_expire = st_start_expire ST_EXPIRE AUTOFS_EXP_NORMAL"

definition run_state_task :: "state_queue \<Rightarrow> daemon \<Rightarrow> bool \<times> daemon" where
  "run_state_task task d =
     (if sq_state task \<noteq> ap_state (st_aps d (sq_ap task))
      then
        (case sq_state task of
           ST_PRUNE \<Rightarrow> st_prune (sq_ap task) d
         | ST_EXPIRE \<Rightarrow> st_expire (sq_ap task) d
         | ST_READMAP \<Rightarrow> st_readmap (sq_ap task) d
         | ST_SHUTDOWN_PENDING \<Rightarrow> st_prepare_shutdown (sq_ap task) d
         | ST_SHUTDOWN_FORCE \<Rightarrow> st_force_shutdown (sq_ap task) d
         | _ \<Rightarrow> (False, d))
      else (False, d))"

section \<open>The task queue\<close>

definition st_alloc_task :: "addr \<Rightarrow> states \<Rightarrow> daemon \<Rightarrow> state_queue option \<times> daemon" where
  "st_alloc_task ap state d =
     (let (ok, m) = malloc (st_mem d)
      in (if ok then Some \<lparr>sq_thid = 0, sq_pending = [], sq_ap = ap, sq_state = state, sq_busy = False, sq_done = False, sq_cancel = False\<rparr>
          else None, d\<lparr>st_mem := m\<rparr>))"

text \<open>\<open>list_add_tail(&new->pending, &task->pending)\<close>\<close>

definition add_pending :: "addr \<Rightarrow> states \<Rightarrow> daemon \<Rightarrow> daemon" where
  "add_pending ap state d =
     (case st_alloc_task ap state d of
        (None, d1) \<Rightarrow> d1
      | (Some new, d1) \<Rightarrow> d1\<lparr>st_queue := upd_task ap (\<lambda>t. t\<lparr>sq_pending := sq_pending t @ [sq_state new]\<rparr>) (st_queue d1)\<rparr>)"

text \<open>\<open>__st_add_task\<close>, called with the state mutex held.\<close>

definition st_add_task_locked :: "addr \<Rightarrow> states \<Rightarrow> daemon \<Rightarrow> bool \<times> daemon" where
  "st_add_task_locked ap state d =
     (if state = ST_READY then (True, (st_ready ap d)\<lparr>st_signaled := True\<rparr>)
      else if ap_state (st_aps d ap) = ST_SHUTDOWN then (True, d)
      else if state = ST_SHUTDOWN then st_shutdown ap d
      else
        (let shutting = (ap_state (st_aps d ap) = ST_SHUTDOWN_PENDING \<or> ap_state (st_aps d ap) = ST_SHUTDOWN_FORCE);
             d1 = (case chain_find (\<lambda>t. sq_ap t = ap) (st_queue d) of
                     task # _ \<Rightarrow>
                       if (sq_state task = state \<and> \<not> sq_done task) \<or> shutting then d
                       else if sq_pending task = [] then add_pending ap state d
                       else if list_ex (\<lambda>p. p = state \<or> shutting) (sq_pending task) then d
                       else add_pending ap state d
                   | [] \<Rightarrow>
                       (case st_alloc_task ap state d of
                          (None, d1) \<Rightarrow> d1
                        | (Some new, d1) \<Rightarrow> d1\<lparr>st_queue := new # st_queue d1\<rparr>))
         in (True, d1\<lparr>st_signaled := True\<rparr>)))"

definition st_add_task :: "addr \<Rightarrow> states \<Rightarrow> daemon \<Rightarrow> bool \<times> daemon" where
  "st_add_task ap state d = st_add_task_locked ap state d"

definition cancel_tasks :: "state_queue \<Rightarrow> state_queue" where
  "cancel_tasks task =
     (let task1 = (if sq_busy task \<and> (sq_state task = ST_EXPIRE \<or> sq_state task = ST_PRUNE \<or> sq_state task = ST_READMAP)
                   then task\<lparr>sq_cancel := True\<rparr> else task)
      in task1\<lparr>sq_pending := filter (\<lambda>s. s = ST_SHUTDOWN_PENDING \<or> s = ST_SHUTDOWN_FORCE) (sq_pending task1)\<rparr>)"

definition st_remove_tasks :: "addr \<Rightarrow> daemon \<Rightarrow> daemon" where
  "st_remove_tasks ap d =
     (if st_queue d = [] then d
      else d\<lparr>st_queue := map (\<lambda>t. if sq_ap t = ap then cancel_tasks t else t) (st_queue d), st_signaled := True\<rparr>)"

fun task_active :: "addr \<Rightarrow> states \<Rightarrow> state_queue list \<Rightarrow> bool" where
  "task_active ap state [] = False"
| "task_active ap state (task # ts) =
     (if sq_ap task \<noteq> ap then task_active ap state ts
      else if sq_state task = state then True
      else if state = ST_ANY then True
      else list_ex (\<lambda>w. w = state) (sq_pending task) \<or> task_active ap state ts)"

definition st_task_active :: "addr \<Rightarrow> states \<Rightarrow> daemon \<Rightarrow> bool" where
  "st_task_active ap state d = task_active ap state (st_queue d)"

section \<open>Ending work\<close>

text \<open>
  \<open>expire_cleanup\<close>, run by the worker \<open>thid\<close> when it ends: \<open>success\<close> is the status of the
  expire (0 when everything expired), \<open>rv\<close> and \<open>idle\<close> are the result of \<open>askumount\<close>, and
  \<open>ignore_busy\<close> tells whether the daemon is built with \<open>ENABLE_IGNORE_BUSY_MOUNTS\<close>.
\<close>

definition expire_next :: "bool \<Rightarrow> addr \<Rightarrow> int \<Rightarrow> int \<Rightarrow> bool \<Rightarrow> daemon \<Rightarrow> states \<times> daemon" where
  "expire_next ignore_busy ap success rv idle d =
     (let a = st_aps d ap;
          expired = (if ap_submount a \<and> success = 0 \<and> rv = 0 \<and> idle then (ST_SHUTDOWN_PENDING, d)
                     else (ST_READY, if ap_state a = ST_EXPIRE then st_alarm ap d else d))
      in case ap_state a of
           ST_EXPIRE \<Rightarrow> expired
         | ST_PRUNE \<Rightarrow> expired
         | ST_READY \<Rightarrow> (ST_READY, d)
         | ST_SHUTDOWN_PENDING \<Rightarrow>
             if rv = 0 \<and> \<not> idle \<and> \<not> ap_shutdown a then (ST_READY, st_alarm ap d)
             else if ignore_busy then (ST_SHUTDOWN, d)
             else if success = 0 then (ST_SHUTDOWN, d)
             else (ST_READY, st_alarm ap d)
         | ST_SHUTDOWN_FORCE \<Rightarrow> (ST_SHUTDOWN, d)
         | _ \<Rightarrow> (ST_INVAL, d))"

definition end_thread :: "nat \<Rightarrow> daemon \<Rightarrow> daemon" where
  "end_thread thid d = d\<lparr>st_threads := filter (\<lambda>(i, _). i \<noteq> thid) (st_threads d)\<rparr>"

definition expire_cleanup :: "bool \<Rightarrow> nat \<Rightarrow> addr \<Rightarrow> int \<Rightarrow> int \<Rightarrow> bool \<Rightarrow> daemon \<Rightarrow> daemon" where
  "expire_cleanup ignore_busy thid ap success rv idle d =
     (let (nxt, d1) =
            (if thid = ap_exp_thread (st_aps d ap)
             then expire_next ignore_busy ap success rv idle (upd_ap ap (\<lambda>a. a\<lparr>ap_exp_thread := 0\<rparr>) d)
             else (ST_INVAL, d));
          d2 = st_set_done ap d1;
          d3 = (if nxt \<noteq> ST_INVAL then snd (st_add_task_locked ap nxt d2) else d2)
      in end_thread thid d3)"

definition do_readmap_cleanup :: "nat \<Rightarrow> addr \<Rightarrow> daemon \<Rightarrow> daemon" where
  "do_readmap_cleanup thid ap d =
     end_thread thid (st_ready ap (st_set_done ap (upd_ap ap (\<lambda>a. a\<lparr>ap_readmap_thread := 0\<rparr>) d)))"

text \<open>
  \<open>st_wait_task\<close>, for the results of \<open>st_task_active\<close> at its polls, 200 ms apart; \<open>None\<close>
  when the polls given are not enough for it to return.
\<close>

fun wait_task_loop :: "nat \<Rightarrow> nat \<Rightarrow> nat \<Rightarrow> bool list \<Rightarrow> bool option" where
  "wait_task_loop seconds wait duration [] = None"
| "wait_task_loop seconds wait duration (active # polls) =
     (let wait' = (if wait = 4 then 0 else Suc wait);
          duration' = (if wait = 4 then Suc duration else duration)
      in if \<not> active then Some True
         else if seconds \<noteq> 0 \<and> duration' \<ge> seconds then Some False
         else wait_task_loop seconds wait' duration' polls)"

definition st_wait_task :: "nat \<Rightarrow> bool list \<Rightarrow> bool option" where
  "st_wait_task seconds polls = wait_task_loop seconds 0 0 polls"

section \<open>Signals\<close>

datatype signal = SIGTERM | SIGINT | SIGUSR1 | SIGUSR2 | SIGHUP

text \<open>The body of the loop of \<open>master_notify_state_change\<close>, built with forced shutdown.\<close>

definition notify_state_change :: "signal \<Rightarrow> addr \<Rightarrow> daemon \<Rightarrow> daemon" where
  "notify_state_change sig ap d =
     (let st = ap_state (st_aps d ap);
          shut = (\<lambda>s. if st \<noteq> ST_SHUTDOWN_PENDING \<and> st \<noteq> ST_SHUTDOWN_FORCE
                       then snd (st_add_task_locked ap s (upd_ap ap (\<lambda>a. a\<lparr>ap_shutdown := True\<rparr>) d)) else d)
      in if st = ST_SHUTDOWN then d
         else (case sig of
                 SIGTERM \<Rightarrow> shut ST_SHUTDOWN_PENDING
               | SIGINT \<Rightarrow> shut ST_SHUTDOWN_PENDING
               | SIGUSR2 \<Rightarrow> shut ST_SHUTDOWN_FORCE
               | SIGUSR1 \<Rightarrow> snd (st_add_task_locked ap ST_PRUNE d)
               | SIGHUP \<Rightarrow> d))"

text \<open>\<open>master_notify_state_change\<close> over the mount points of \<open>master->mounts\<close>.\<close>

definition master_notify_state_change :: "addr list \<Rightarrow> signal \<Rightarrow> daemon \<Rightarrow> daemon" where
  "master_notify_state_change mounts sig d = fold (notify_state_change sig) mounts d"

section \<open>The queue handler\<close>

text \<open>\<open>list_del(&task->list)\<close> of the task at a position.\<close>

definition list_del :: "nat \<Rightarrow> state_queue list \<Rightarrow> state_queue list" where
  "list_del i q = take i q @ drop (Suc i) q"

text \<open>\<open>task->busy = 1; ret = run_state_task(task);\<close>\<close>

definition start_task :: "nat \<Rightarrow> daemon \<Rightarrow> bool \<times> daemon" where
  "start_task i d =
     (let task = (st_queue d ! i)\<lparr>sq_busy := True\<rparr>
      in run_state_task task (d\<lparr>st_queue := (st_queue d)[i := task]\<rparr>))"

text \<open>
  One iteration of the loop that starts the tasks of a queue that was empty: the pointer
  \<open>p\<close> is a position in the queue.
\<close>

definition first_iter :: "daemon \<Rightarrow> nat \<Rightarrow> daemon \<times> nat" where
  "first_iter d i =
     (if sq_cancel (st_queue d ! i) then (d\<lparr>st_queue := list_del i (st_queue d)\<rparr>, i)
      else
        (case start_task i d of
           (True, d1) \<Rightarrow> (d1, Suc i)
         | (False, d1) \<Rightarrow> (d1\<lparr>st_queue := list_del i (st_queue d1)\<rparr>, i)))"

text \<open>
  The code at the label \<open>remove\<close>: without a waiting task the task goes; otherwise the
  first waiting task takes its place at the tail of the queue. It is taken off the list
  \<open>pending\<close>, which is anchored in the task that is freed, so its own list is empty.
\<close>

definition remove_task :: "daemon \<Rightarrow> nat \<Rightarrow> daemon \<times> nat" where
  "remove_task d i =
     (let task = st_queue d ! i; q = list_del i (st_queue d)
      in case sq_pending task of
           [] \<Rightarrow> (d\<lparr>st_queue := q\<rparr>, i)
         | s # _ \<Rightarrow>
             (let next = \<lparr>sq_thid = 0, sq_pending = [], sq_ap = sq_ap task, sq_state = s, sq_busy = False, sq_done = False, sq_cancel = False\<rparr>
              in (d\<lparr>st_queue := q @ [next]\<rparr>, if i = length q then 0 else i)))"

text \<open>One iteration of the loop that looks after the tasks of the queue.\<close>

definition scan_iter :: "daemon \<Rightarrow> nat \<Rightarrow> daemon \<times> nat" where
  "scan_iter d i =
     (let task = st_queue d ! i
      in if sq_thid task = 0 \<and> sq_cancel task then remove_task d i
         else if \<not> sq_busy task then
           (case start_task i d of
              (False, d1) \<Rightarrow> remove_task d1 i
            | (True, d1) \<Rightarrow> (d1, Suc i))
         else if sq_thid task = 0 then (d, Suc i)
         else if sq_cancel task then
           (d\<lparr>st_cancels := sq_thid task # st_cancels d, st_queue := (st_queue d)[i := task\<lparr>sq_cancel := False\<rparr>]\<rparr>, Suc i)
         else if \<not> sq_done task then (d, Suc i)
         else remove_task d i)"

end
