(* ===== verification/State_Lemmas.thy ===== *)
theory State_Lemmas
  imports State
begin

text \<open>
  The passes of the queue handler as total functions, the invariant of the task queue and
  of the worker threads, and that every operation keeps it.
\<close>

lemma map_update_same: "i < length q \<Longrightarrow> f t = f (q ! i) \<Longrightarrow> map f (q[i := t]) = map f q"
  by (metis list_update_id map_update nth_map)

lemma all_update: "t \<in> set (q[i := u]) \<Longrightarrow> \<forall>x \<in> set q. P x \<Longrightarrow> P u \<Longrightarrow> P t"
  using set_update_subset_insert [of q i u] by auto

lemma take_Suc_update: "i < length q \<Longrightarrow> take (Suc i) (q[i := u]) = take i q @ [u]"
  by (simp add: take_Suc_conv_app_nth)

section \<open>What an operation does to queue and threads\<close>

definition exp_of :: "daemon \<Rightarrow> addr \<Rightarrow> nat" where
  "exp_of d = (\<lambda>x. ap_exp_thread (st_aps d x))"

definition readmap_of :: "daemon \<Rightarrow> addr \<Rightarrow> nat" where
  "readmap_of d = (\<lambda>x. ap_readmap_thread (st_aps d x))"

text \<open>Nothing but states, alarms and the outcomes of allocations changes.\<close>

definition same_work :: "daemon \<Rightarrow> daemon \<Rightarrow> bool" where
  "same_work d d' \<longleftrightarrow> st_queue d' = st_queue d \<and> st_threads d' = st_threads d \<and> st_last_thid d' = st_last_thid d
     \<and> st_signaled d' = st_signaled d \<and> st_idle d' = st_idle d
     \<and> exp_of d' = exp_of d \<and> readmap_of d' = readmap_of d"

fun set_exp :: "worker \<Rightarrow> addr \<Rightarrow> nat \<Rightarrow> (addr \<Rightarrow> nat) \<Rightarrow> addr \<Rightarrow> nat" where
  "set_exp (ExpireProc how) ap thid f = f(ap := thid)"
| "set_exp (DoReadmap now) ap thid f = f"

fun set_readmap :: "worker \<Rightarrow> addr \<Rightarrow> nat \<Rightarrow> (addr \<Rightarrow> nat) \<Rightarrow> addr \<Rightarrow> nat" where
  "set_readmap (ExpireProc how) ap thid f = f"
| "set_readmap (DoReadmap now) ap thid f = f(ap := thid)"

text \<open>A worker was started for a mount point.\<close>

definition started :: "addr \<Rightarrow> daemon \<Rightarrow> daemon \<Rightarrow> bool" where
  "started ap d d' \<longleftrightarrow> (\<exists>w. let thid = Suc (st_last_thid d) in
     st_queue d' = upd_task ap (\<lambda>t. t\<lparr>sq_thid := thid\<rparr>) (st_queue d)
     \<and> st_threads d' = (thid, ap, w) # st_threads d \<and> st_last_thid d' = thid
     \<and> st_signaled d' = st_signaled d \<and> st_idle d' = st_idle d
     \<and> exp_of d' = set_exp w ap thid (exp_of d) \<and> readmap_of d' = set_readmap w ap thid (readmap_of d))"

lemma exp_of_upd: "exp_of (upd_ap ap f d) = (exp_of d)(ap := ap_exp_thread (f (st_aps d ap)))"
  "readmap_of (upd_ap ap f d) = (readmap_of d)(ap := ap_readmap_thread (f (st_aps d ap)))"
  by (auto simp: exp_of_def readmap_of_def upd_ap_def)

lemma exp_of_same [simp]: "(exp_of d)(ap := ap_exp_thread (st_aps d ap)) = exp_of d"
  "(readmap_of d)(ap := ap_readmap_thread (st_aps d ap)) = readmap_of d"
  by (auto simp: exp_of_def readmap_of_def)

lemma exp_of_simps [simp]:
  "exp_of (d\<lparr>st_queue := q\<rparr>) = exp_of d" "readmap_of (d\<lparr>st_queue := q\<rparr>) = readmap_of d"
  "exp_of (d\<lparr>st_mem := m\<rparr>) = exp_of d" "readmap_of (d\<lparr>st_mem := m\<rparr>) = readmap_of d"
  "exp_of (d\<lparr>st_create := m\<rparr>) = exp_of d" "readmap_of (d\<lparr>st_create := m\<rparr>) = readmap_of d"
  "exp_of (d\<lparr>st_signaled := b\<rparr>) = exp_of d" "readmap_of (d\<lparr>st_signaled := b\<rparr>) = readmap_of d"
  "exp_of (d\<lparr>st_idle := b\<rparr>) = exp_of d" "readmap_of (d\<lparr>st_idle := b\<rparr>) = readmap_of d"
  "exp_of (d\<lparr>st_threads := ts\<rparr>) = exp_of d" "readmap_of (d\<lparr>st_threads := ts\<rparr>) = readmap_of d"
  "exp_of (d\<lparr>st_last_thid := n\<rparr>) = exp_of d" "readmap_of (d\<lparr>st_last_thid := n\<rparr>) = readmap_of d"
  "exp_of (d\<lparr>st_cancels := c\<rparr>) = exp_of d" "readmap_of (d\<lparr>st_cancels := c\<rparr>) = readmap_of d"
  "exp_of (d\<lparr>st_sigcont := c\<rparr>) = exp_of d" "readmap_of (d\<lparr>st_sigcont := c\<rparr>) = readmap_of d"
  "exp_of (d\<lparr>st_alarms := al\<rparr>) = exp_of d" "readmap_of (d\<lparr>st_alarms := al\<rparr>) = readmap_of d"
  by (simp_all add: exp_of_def readmap_of_def)

lemma upd_ap_simps [simp]:
  "st_queue (upd_ap ap f d) = st_queue d" "st_threads (upd_ap ap f d) = st_threads d"
  "st_last_thid (upd_ap ap f d) = st_last_thid d" "st_signaled (upd_ap ap f d) = st_signaled d"
  "st_idle (upd_ap ap f d) = st_idle d" "st_mem (upd_ap ap f d) = st_mem d" "st_create (upd_ap ap f d) = st_create d"
  "st_now (upd_ap ap f d) = st_now d" "st_cancels (upd_ap ap f d) = st_cancels d" "st_sigcont (upd_ap ap f d) = st_sigcont d"
  "st_aps (upd_ap ap f d) = (st_aps d)(ap := f (st_aps d ap))" "st_alarms (upd_ap ap f d) = st_alarms d"
  by (simp_all add: upd_ap_def)

lemma same_work_refl [simp]: "same_work d d"
  by (simp add: same_work_def)

lemma same_work_trans: "same_work d d1 \<Longrightarrow> same_work d1 d2 \<Longrightarrow> same_work d d2"
  by (simp add: same_work_def)

lemma started_after: "same_work d d1 \<Longrightarrow> started ap d1 d2 \<Longrightarrow> started ap d d2"
  by (auto simp: same_work_def started_def Let_def)

lemma same_work_st_alarm: "same_work d (st_alarm ap d)"
  by (simp add: same_work_def st_alarm_def Let_def split: prod.split)

lemma same_work_st_ready: "same_work d (st_ready ap d)"
  by (simp add: same_work_def st_ready_def exp_of_upd)

lemma same_work_state: "same_work d (upd_ap ap (\<lambda>a. a\<lparr>ap_state := s\<rparr>) d)"
  by (simp add: same_work_def exp_of_upd)

lemma same_work_mem: "same_work d (d\<lparr>st_mem := m\<rparr>)" "same_work d (d\<lparr>st_create := m\<rparr>)"
  by (simp_all add: same_work_def)

lemmas same_work_intros = same_work_trans [OF _ same_work_st_alarm] same_work_trans [OF _ same_work_st_ready]
  same_work_trans [OF _ same_work_state] same_work_trans [OF _ same_work_mem(1)] same_work_trans [OF _ same_work_mem(2)]
  same_work_refl

lemma expire_proc_work:
  assumes "expire_proc ap how d = (r, d')"
  shows "if r = EXP_STARTED then started ap d d' else same_work d d'"
  using assms
  by (auto simp: expire_proc_def pthread_create_def Let_def started_def st_set_thid_def exp_of_upd same_work_def
      split: prod.splits if_splits)

lemma st_start_expire_work:
  assumes "st_start_expire s how ap d = (r, d')"
  shows "if r then started ap d d' else same_work d d'"
proof -
  let ?d = "upd_ap ap (\<lambda>a. a\<lparr>ap_state := s\<rparr>) d"
  obtain e d1 where e: "expire_proc ap how ?d = (e, d1)" by (cases "expire_proc ap how ?d")
  from expire_proc_work [OF e] have "e = EXP_STARTED \<Longrightarrow> started ap d d1" "e \<noteq> EXP_STARTED \<Longrightarrow> same_work d d1"
    using started_after [OF same_work_state] same_work_trans [OF same_work_state] by auto
  with assms e show ?thesis
    by (cases e) (auto simp: st_start_expire_def intro!: same_work_intros)
qed

lemma st_readmap_work:
  assumes "st_readmap ap d = (r, d')"
  shows "if r then started ap d d' else same_work d d'"
proof (cases r)
  case True
  with assms show ?thesis
    by (auto simp: st_readmap_def pthread_create_def Let_def started_def st_set_thid_def exp_of_upd
        split: prod.splits if_splits)
next
  case False
  with assms show ?thesis
    by (auto simp: st_readmap_def pthread_create_def Let_def split: prod.splits if_splits intro!: same_work_intros)
qed

lemma run_state_task_work:
  assumes "run_state_task task d = (r, d')"
  shows "if r then started (sq_ap task) d d' else same_work d d'"
  using assms st_start_expire_work [of _ _ "sq_ap task" d r d'] st_readmap_work [of "sq_ap task" d r d']
  by (auto simp: run_state_task_def st_prune_def st_expire_def st_prepare_shutdown_def st_force_shutdown_def
      split: states.splits if_splits)

section \<open>The passes of the handler\<close>

lemma length_upd_task [simp]: "length (upd_task ap f q) = length q"
  by (induction q) auto

lemma upd_task_pending [simp]: "map sq_pending (upd_task ap (\<lambda>t. t\<lparr>sq_thid := i\<rparr>) q) = map sq_pending q"
  by (induction q) auto

lemma length_list_del [simp]: "i < length q \<Longrightarrow> length (list_del i q) = length q - 1"
  by (simp add: list_del_def)

text \<open>The number of tasks that others wait for.\<close>

definition waited_for :: "state_queue list \<Rightarrow> nat" where
  "waited_for q = length (filter (\<lambda>p. p \<noteq> []) (map sq_pending q))"

lemma waited_for_pending: "map sq_pending q = map sq_pending q' \<Longrightarrow> waited_for q = waited_for q'"
  by (simp add: waited_for_def)

lemma waited_for_simps [simp]:
  "waited_for [] = 0" "waited_for (t # q) = (if sq_pending t \<noteq> [] then 1 else 0) + waited_for q"
  "waited_for (q @ q') = waited_for q + waited_for q'"
  by (simp_all add: waited_for_def)

lemma waited_for_list_del:
  assumes "i < length q"
  shows "waited_for q = waited_for (list_del i q) + (if sq_pending (q ! i) \<noteq> [] then 1 else 0)"
proof -
  have "waited_for q = waited_for (take i q @ q ! i # drop (Suc i) q)" using assms by (simp add: id_take_nth_drop [symmetric])
  then show ?thesis by (simp add: list_del_def)
qed

lemma start_task_pending:
  assumes "start_task i d = (r, d')" and "i < length (st_queue d)"
  shows "map sq_pending (st_queue d') = map sq_pending (st_queue d)"
proof -
  let ?t = "(st_queue d ! i)\<lparr>sq_busy := True\<rparr>"
  let ?d = "d\<lparr>st_queue := (st_queue d)[i := ?t]\<rparr>"
  have p: "map sq_pending (st_queue ?d) = map sq_pending (st_queue d)"
    using assms(2) by (simp add: map_update_same)
  from assms have "run_state_task ?t ?d = (r, d')" by (simp add: start_task_def Let_def)
  from run_state_task_work [OF this] show ?thesis
    using p by (cases r) (auto simp: started_def same_work_def Let_def simp del: upd_task_pending intro: trans [OF upd_task_pending])
qed

lemma start_task_length:
  "start_task i d = (r, d') \<Longrightarrow> i < length (st_queue d) \<Longrightarrow> length (st_queue d') = length (st_queue d)"
  by (metis start_task_pending length_map)

lemma first_iter_measure:
  assumes "first_iter d i = (d', j)" and "i < length (st_queue d)"
  shows "length (st_queue d') - j < length (st_queue d) - i"
  using assms by (auto simp: first_iter_def dest: start_task_length split: if_splits prod.splits bool.splits)

function first_pass :: "daemon \<Rightarrow> nat \<Rightarrow> daemon" where
  "first_pass d i = (if i < length (st_queue d) then first_pass (fst (first_iter d i)) (snd (first_iter d i)) else d)"
  by pat_completeness auto
termination
  by (relation "measure (\<lambda>(d, i). length (st_queue d) - i)")
    (use first_iter_measure [OF prod.collapse [symmetric]] in \<open>auto simp: case_prod_unfold\<close>)

declare first_pass.simps [simp del]

lemma remove_task_measure:
  assumes "remove_task d i = (d', j)" and "i < length (st_queue d)"
  shows "waited_for (st_queue d') < waited_for (st_queue d) \<or>
    waited_for (st_queue d') = waited_for (st_queue d) \<and> length (st_queue d') - j < length (st_queue d) - i"
  using assms waited_for_list_del [OF assms(2)]
  by (auto simp: remove_task_def Let_def split: list.splits if_splits)

lemma scan_iter_cases:
  assumes "scan_iter d i = (d', j)"
  obtains (rem) "remove_task d i = (d', j)"
      "sq_thid (st_queue d ! i) = 0 \<and> sq_cancel (st_queue d ! i) \<or> sq_thid (st_queue d ! i) \<noteq> 0 \<and> sq_done (st_queue d ! i)"
    | (failed) d1 where "\<not> sq_busy (st_queue d ! i)" "start_task i d = (False, d1)" "remove_task d1 i = (d', j)"
    | (running) "\<not> sq_busy (st_queue d ! i)" "start_task i d = (True, d')" "j = Suc i"
    | (stay) "d' = d" "j = Suc i" "sq_busy (st_queue d ! i)"
    | (cancel) "d' = d\<lparr>st_cancels := sq_thid (st_queue d ! i) # st_cancels d,
        st_queue := (st_queue d)[i := (st_queue d ! i)\<lparr>sq_cancel := False\<rparr>]\<rparr>" "j = Suc i" "sq_busy (st_queue d ! i)"
proof -
  let ?t = "st_queue d ! i"
  note defs = scan_iter_def Let_def
  consider "sq_thid ?t = 0 \<and> sq_cancel ?t" | "\<not> (sq_thid ?t = 0 \<and> sq_cancel ?t)" "\<not> sq_busy ?t"
    | "\<not> (sq_thid ?t = 0 \<and> sq_cancel ?t)" "sq_busy ?t" by blast
  then show thesis
  proof cases
    case 1
    with assms show thesis by (intro rem) (simp_all add: defs)
  next
    case 2
    obtain r d1 where r: "start_task i d = (r, d1)" by (cases "start_task i d")
    from assms 2 r show thesis using running failed by (cases r) (simp_all add: defs)
  next
    case 3
    then consider "sq_thid ?t = 0" | "sq_thid ?t \<noteq> 0" "sq_cancel ?t" | "sq_thid ?t \<noteq> 0" "\<not> sq_cancel ?t" "\<not> sq_done ?t"
      | "sq_thid ?t \<noteq> 0" "\<not> sq_cancel ?t" "sq_done ?t" by blast
    then show thesis
    proof cases
      case 1
      with 3 assms show thesis by (intro stay) (simp_all add: defs)
    next
      case 2
      with 3 assms show thesis by (intro cancel) (simp_all add: defs)
    next
      case c3: 3
      with 3 assms show thesis by (intro stay) (simp_all add: defs)
    next
      case 4
      with 3 assms show thesis by (intro rem) (simp_all add: defs)
    qed
  qed
qed

lemma scan_iter_measure:
  assumes "scan_iter d i = (d', j)" and i: "i < length (st_queue d)"
  shows "waited_for (st_queue d') < waited_for (st_queue d) \<or>
    waited_for (st_queue d') = waited_for (st_queue d) \<and> length (st_queue d') - j < length (st_queue d) - i"
proof -
  have kept: "waited_for (st_queue d1) = waited_for (st_queue d) \<and> length (st_queue d1) = length (st_queue d)"
    if "start_task i d = (r, d1)" for r d1
    using waited_for_pending [OF start_task_pending [OF that i]] start_task_length [OF that i] by simp
  have upd: "waited_for ((st_queue d)[i := (st_queue d ! i)\<lparr>sq_cancel := False\<rparr>]) = waited_for (st_queue d)"
    using i by (intro waited_for_pending) (simp add: map_update_same)
  have removed: ?thesis if "remove_task d1 i = (d', j)" "waited_for (st_queue d1) = waited_for (st_queue d)"
    "length (st_queue d1) = length (st_queue d)" for d1
    using remove_task_measure [OF that(1)] that(2,3) i by simp
  from assms(1) show ?thesis
  proof (cases rule: scan_iter_cases)
    case rem
    then show ?thesis by (intro removed [of d]) simp_all
  next
    case (failed d1)
    then show ?thesis using kept by (intro removed [of d1]) simp_all
  next
    case running
    with kept i show ?thesis by auto
  next
    case stay
    with i show ?thesis by auto
  next
    case cancel
    with i upd show ?thesis by auto
  qed
qed

function st_scan :: "daemon \<Rightarrow> nat \<Rightarrow> daemon" where
  "st_scan d i = (if i < length (st_queue d) then st_scan (fst (scan_iter d i)) (snd (scan_iter d i)) else d)"
  by pat_completeness auto
termination
  by (relation "measures [\<lambda>(d, i). waited_for (st_queue d), \<lambda>(d, i). length (st_queue d) - i]")
    (use scan_iter_measure [OF prod.collapse [symmetric]] in \<open>auto simp: case_prod_unfold\<close>)

declare st_scan.simps [simp del]

text \<open>
  The two atomic steps of the handler: from the wait for a queue that is not empty to the
  first wait for a signal, and from one wait for a signal to the next wait.
\<close>

definition st_handler_start :: "daemon \<Rightarrow> daemon" where
  "st_handler_start d = (first_pass d 0)\<lparr>st_signaled := False, st_idle := False\<rparr>"

definition st_handler_pass :: "daemon \<Rightarrow> daemon" where
  "st_handler_pass d =
     (let d1 = st_scan d 0
      in if st_queue d1 = [] then d1\<lparr>st_idle := True\<rparr> else d1\<lparr>st_signaled := False\<rparr>)"

text \<open>When the handler, once woken, leaves its wait.\<close>

definition handler_enabled :: "daemon \<Rightarrow> bool" where
  "handler_enabled d \<longleftrightarrow> (if st_idle d then st_queue d \<noteq> [] else st_signaled d)"

section \<open>The invariant\<close>

text \<open>The states that tasks are queued for.\<close>

definition task_states :: "states set" where
  "task_states = {ST_EXPIRE, ST_PRUNE, ST_READMAP, ST_SHUTDOWN_PENDING, ST_SHUTDOWN_FORCE}"

definition task_ok :: "state_queue \<Rightarrow> bool" where
  "task_ok t \<longleftrightarrow> distinct (sq_pending t) \<and> set (sq_pending t) \<subseteq> task_states \<and> sq_state t \<in> task_states
     \<and> (sq_busy t \<longleftrightarrow> sq_thid t \<noteq> 0) \<and> (sq_done t \<longrightarrow> sq_busy t) \<and> (sq_cancel t \<longrightarrow> sq_busy t)"

text \<open>The thread of the running task of a mount point.\<close>

definition has_thread :: "state_queue \<Rightarrow> bool" where
  "has_thread t \<longleftrightarrow> sq_thid t \<noteq> 0 \<and> \<not> sq_done t"

definition running :: "addr \<Rightarrow> state_queue list \<Rightarrow> nat option" where
  "running ap q = map_option sq_thid (find (\<lambda>t. sq_ap t = ap \<and> has_thread t) q)"

text \<open>
  A mount point has a worker thread exactly while it has a running task: one thread, which
  is recorded in the task and in the one field of the mount point for its kind.
\<close>

fun ap_work :: "addr \<Rightarrow> nat option \<Rightarrow> (nat \<times> addr \<times> worker) list \<Rightarrow> nat \<Rightarrow> nat \<Rightarrow> bool" where
  "ap_work ap None ths e r \<longleftrightarrow> ths = [] \<and> e = 0 \<and> r = 0"
| "ap_work ap (Some i) ths e r \<longleftrightarrow>
     (\<exists>w. ths = [(i, ap, w)] \<and> e = set_exp w ap i (\<lambda>_. 0) ap \<and> r = set_readmap w ap i (\<lambda>_. 0) ap)"

definition threads_of :: "addr \<Rightarrow> (nat \<times> addr \<times> worker) list \<Rightarrow> (nat \<times> addr \<times> worker) list" where
  "threads_of ap ths = filter (\<lambda>(i, a, w). a = ap) ths"

definition ap_ok :: "daemon \<Rightarrow> addr \<Rightarrow> bool" where
  "ap_ok d ap \<longleftrightarrow> ap_work ap (running ap (st_queue d)) (threads_of ap (st_threads d)) (exp_of d ap) (readmap_of d ap)"

definition threads_ok :: "daemon \<Rightarrow> bool" where
  "threads_ok d \<longleftrightarrow> distinct (map fst (st_threads d)) \<and> (\<forall>i \<in> set (map fst (st_threads d)). 0 < i \<and> i \<le> st_last_thid d)"

definition core_ok :: "daemon \<Rightarrow> bool" where
  "core_ok d \<longleftrightarrow> distinct (map sq_ap (st_queue d)) \<and> (\<forall>t \<in> set (st_queue d). task_ok t) \<and> threads_ok d \<and> (\<forall>ap. ap_ok d ap)"

text \<open>
  While the handler waits for a queue that is not empty no task has started; while it
  waits for a signal that has not come, every task has.
\<close>

definition daemon_ok :: "daemon \<Rightarrow> bool" where
  "daemon_ok d \<longleftrightarrow> core_ok d \<and> (st_idle d \<longrightarrow> (\<forall>t \<in> set (st_queue d). \<not> sq_busy t))
     \<and> (\<not> st_idle d \<and> \<not> st_signaled d \<longrightarrow> (\<forall>t \<in> set (st_queue d). sq_busy t))"

subsection \<open>Running tasks after a change of the queue\<close>

lemma running_simps [simp]:
  "running ap [] = None"
  "running ap (t # q) = (if sq_ap t = ap \<and> has_thread t then Some (sq_thid t) else running ap q)"
  by (simp_all add: running_def)

lemma running_append: "running ap (q @ q') = (case running ap q of Some i \<Rightarrow> Some i | None \<Rightarrow> running ap q')"
  by (induction q) auto

lemma running_other: "ap \<notin> sq_ap ` set q \<Longrightarrow> running ap q = None"
  by (induction q) auto

lemma running_update:
  assumes "distinct (map sq_ap q)" and "i < length q" and "sq_ap t = sq_ap (q ! i)"
  shows "running ap (q[i := t]) =
    (if ap = sq_ap t then if has_thread t then Some (sq_thid t) else None else running ap q)"
  using assms
proof (induction q arbitrary: i)
  case (Cons u q)
  show ?case
  proof (cases i)
    case 0
    with Cons.prems running_other [of ap q] show ?thesis by auto
  next
    case (Suc j)
    with Cons.prems have "sq_ap u \<noteq> sq_ap t" using nth_mem by fastforce
    with Cons Suc show ?thesis by auto
  qed
qed simp

lemma running_list_del:
  assumes "distinct (map sq_ap q)" and "i < length q"
  shows "running ap (list_del i q) = (if ap = sq_ap (q ! i) then None else running ap q)"
proof -
  have q: "q = take i q @ q ! i # drop (Suc i) q" using assms(2) by (rule id_take_nth_drop)
  then have "distinct (map sq_ap (take i q @ q ! i # drop (Suc i) q))" using assms(1) by simp
  then have "sq_ap (q ! i) \<notin> sq_ap ` set (take i q @ drop (Suc i) q)" by auto
  then have "running (sq_ap (q ! i)) (list_del i q) = None" unfolding list_del_def by (rule running_other)
  moreover have "running ap (list_del i q) = running ap (take i q @ q ! i # drop (Suc i) q)" if "ap \<noteq> sq_ap (q ! i)"
    using that by (simp add: list_del_def running_append split: option.split)
  ultimately show ?thesis using q by auto
qed

lemma running_nth:
  assumes "distinct (map sq_ap q)" and "i < length q"
  shows "running (sq_ap (q ! i)) q = (if has_thread (q ! i) then Some (sq_thid (q ! i)) else None)"
  using running_update [OF assms refl, of "sq_ap (q ! i)"] by simp

lemma upd_task_nth:
  assumes "distinct (map sq_ap q)" and "i < length q"
  shows "upd_task (sq_ap (q ! i)) f q = q[i := f (q ! i)]"
  using assms
proof (induction q arbitrary: i)
  case (Cons u q)
  then show ?case by (cases i) (auto dest: nth_mem)
qed simp

lemma upd_task_absent: "ap \<notin> sq_ap ` set q \<Longrightarrow> upd_task ap f q = q"
  by (induction q) auto

lemma set_list_del: "set (list_del i q) \<subseteq> set q"
  using set_take_subset [of i q] set_drop_subset [of "Suc i" q] by (auto simp: list_del_def)

lemma distinct_list_del:
  assumes "distinct (map sq_ap q)" and "i < length q"
  shows "distinct (map sq_ap (list_del i q))" "sq_ap (q ! i) \<notin> sq_ap ` set (list_del i q)"
proof -
  have "distinct (map sq_ap (take i q @ q ! i # drop (Suc i) q))"
    using assms by (simp add: id_take_nth_drop [symmetric])
  then show "distinct (map sq_ap (list_del i q))" "sq_ap (q ! i) \<notin> sq_ap ` set (list_del i q)"
    by (auto simp: list_del_def)
qed

lemma list_del_update: "list_del i (q[i := t]) = list_del i q"
  by (simp add: list_del_def)

subsection \<open>Changes that keep the threads\<close>

text \<open>Threads, identifiers and the fields of the mount points stay.\<close>

definition same_threads :: "daemon \<Rightarrow> daemon \<Rightarrow> bool" where
  "same_threads d d' \<longleftrightarrow> st_threads d' = st_threads d \<and> st_last_thid d' = st_last_thid d
     \<and> exp_of d' = exp_of d \<and> readmap_of d' = readmap_of d"

lemma core_ok_queue:
  assumes "core_ok d" and "same_threads d d'" and "distinct (map sq_ap (st_queue d'))"
    and "\<And>t. t \<in> set (st_queue d') \<Longrightarrow> task_ok t" and "\<And>ap. running ap (st_queue d') = running ap (st_queue d)"
  shows "core_ok d'"
  using assms by (simp add: core_ok_def same_threads_def threads_ok_def ap_ok_def)

lemma core_okD:
  assumes "core_ok d"
  shows "distinct (map sq_ap (st_queue d))" "t \<in> set (st_queue d) \<Longrightarrow> task_ok t" "threads_ok d" "ap_ok d ap"
  using assms by (simp_all add: core_ok_def)

lemma same_work_threads: "same_work d d' \<Longrightarrow> same_threads d d'"
  by (simp add: same_work_def same_threads_def)

lemma core_ok_same_work:
  assumes "core_ok d" and "same_work d d'"
  shows "core_ok d'"
  using assms by (intro core_ok_queue [OF assms(1) same_work_threads [OF assms(2)]])
    (auto simp: same_work_def core_ok_def)

lemma daemon_ok_same_work: "daemon_ok d \<Longrightarrow> same_work d d' \<Longrightarrow> daemon_ok d'"
  using core_ok_same_work by (auto simp: daemon_ok_def same_work_def)

text \<open>The code at \<open>remove\<close>, for a task that has no thread.\<close>

lemma remove_task_core:
  assumes ok: "core_ok d" and i: "i < length (st_queue d)" and idle: "\<not> has_thread (st_queue d ! i)"
    and d1: "same_threads d d1" "st_queue d1 = (st_queue d)[i := t]"
    and t: "sq_ap t = sq_ap (st_queue d ! i)" "sq_pending t = sq_pending (st_queue d ! i)"
    and rem: "remove_task d1 i = (d', j)"
  shows "core_ok d'"
proof -
  let ?q = "st_queue d"
  note q = core_okD(1) [OF ok]
  have t': "(st_queue d)[i := t] ! i = t" using i by simp
  have keep: "running ap (list_del i ?q) = running ap ?q" for ap
    using running_list_del [OF q i, of ap] running_nth [OF q i] idle by auto
  have rest: "task_ok u" if "u \<in> set (list_del i ?q)" for u
    using that core_okD(2) [OF ok] set_list_del by blast
  have "task_ok (?q ! i)" using ok i by (simp add: core_ok_def)
  then have nxt: "task_ok \<lparr>sq_thid = 0, sq_pending = [], sq_ap = a, sq_state = s, sq_busy = False, sq_done = False, sq_cancel = False\<rparr>"
    if "sq_pending (?q ! i) = s # r" for s r a
    using that by (simp add: task_ok_def)
  show ?thesis
  proof (rule core_ok_queue [OF ok])
    show "same_threads d d'"
      using rem d1(1) by (auto simp: remove_task_def Let_def same_threads_def split: list.splits)
    show "distinct (map sq_ap (st_queue d'))"
      using rem t distinct_list_del [OF q i] by (auto simp: remove_task_def Let_def d1(2) t' list_del_update split: list.splits)
    show "task_ok u" if "u \<in> set (st_queue d')" for u
      using that rem t(2) rest nxt
      by (auto simp: remove_task_def Let_def d1(2) t' list_del_update split: list.splits)
    show "running ap (st_queue d') = running ap (st_queue d)" for ap
      using rem keep by (auto simp: remove_task_def Let_def d1(2) t' list_del_update running_append has_thread_def
          split: list.splits option.split)
  qed
qed

subsection \<open>Starting a task\<close>

lemma start_task_result:
  assumes ok: "core_ok d" and i: "i < length (st_queue d)" and r: "start_task i d = (r, d')"
  shows "\<exists>t. st_queue d' = (st_queue d)[i := t] \<and> sq_ap t = sq_ap (st_queue d ! i) \<and> sq_pending t = sq_pending (st_queue d ! i)
    \<and> st_signaled d' = st_signaled d \<and> st_idle d' = st_idle d
    \<and> (if r then t = (st_queue d ! i)\<lparr>sq_busy := True, sq_thid := Suc (st_last_thid d)\<rparr> else same_threads d d')"
proof -
  let ?t = "(st_queue d ! i)\<lparr>sq_busy := True\<rparr>"
  let ?d = "d\<lparr>st_queue := (st_queue d)[i := ?t]\<rparr>"
  have u: "upd_task (sq_ap (st_queue d ! i)) f ((st_queue d)[i := ?t]) = (st_queue d)[i := f ?t]" for f
    using upd_task_nth [of "(st_queue d)[i := ?t]" i f] core_okD(1) [OF ok] i
    by (simp add: map_update_same)
  from r have "run_state_task ?t ?d = (r, d')" by (simp add: start_task_def Let_def)
  from run_state_task_work [OF this] show ?thesis
    by (cases r) (auto simp: started_def same_work_def same_threads_def Let_def u)
qed

lemma start_task_core:
  assumes ok: "core_ok d" and i: "i < length (st_queue d)" and nb: "\<not> sq_busy (st_queue d ! i)"
    and r: "start_task i d = (True, d')"
  shows "core_ok d'"
proof -
  let ?t = "(st_queue d ! i)\<lparr>sq_busy := True\<rparr>" and ?ap = "sq_ap (st_queue d ! i)" and ?thid = "Suc (st_last_thid d)"
  let ?d = "d\<lparr>st_queue := (st_queue d)[i := ?t]\<rparr>" and ?u = "(st_queue d ! i)\<lparr>sq_busy := True, sq_thid := Suc (st_last_thid d)\<rparr>"
  note q = core_okD(1) [OF ok]
  have tok: "task_ok (st_queue d ! i)" using ok i by (simp add: core_ok_def)
  then have t0: "sq_thid (st_queue d ! i) = 0" "\<not> sq_done (st_queue d ! i)" using nb by (auto simp: task_ok_def)
  from start_task_result [OF ok i r] have q': "st_queue d' = (st_queue d)[i := ?u]" by auto
  from r have "run_state_task ?t ?d = (True, d')" by (simp add: start_task_def Let_def)
  from run_state_task_work [OF this] obtain w where
    w: "st_threads d' = (?thid, ?ap, w) # st_threads d" "st_last_thid d' = ?thid"
      "exp_of d' = set_exp w ?ap ?thid (exp_of d)" "readmap_of d' = set_readmap w ?ap ?thid (readmap_of d)"
    by (auto simp: started_def Let_def)
  have none: "running ?ap (st_queue d) = None" using running_nth [OF q i] t0 by (simp add: has_thread_def)
  have run: "running ap (st_queue d') = (if ap = ?ap then Some ?thid else running ap (st_queue d))" for ap
    using running_update [OF q i, of ?u ap] t0 by (simp add: q' has_thread_def)
  have "distinct (map sq_ap (st_queue d'))" using q i by (simp add: q' map_update_same)
  moreover have "task_ok t" if "t \<in> set (st_queue d')" for t
  proof (rule all_update [OF that [unfolded q']])
    show "\<forall>x \<in> set (st_queue d). task_ok x" using ok by (simp add: core_ok_def)
    show "task_ok ?u" using tok nb by (simp add: task_ok_def)
  qed
  moreover have "threads_ok d'" using core_okD(3) [OF ok] w by (fastforce simp: threads_ok_def)
  moreover have "ap_ok d' ap" for ap
    using core_okD(4) [OF ok, of ap] none w run [of ap]
    by (cases w) (auto simp: ap_ok_def threads_of_def)
  ultimately show ?thesis by (simp add: core_ok_def)
qed

lemma scan_iter_core:
  assumes ok: "core_ok d" and i: "i < length (st_queue d)" and r: "scan_iter d i = (d', j)"
  shows "core_ok d'"
  using r
proof (cases rule: scan_iter_cases)
  case rem
  have "task_ok (st_queue d ! i)" using ok i by (simp add: core_ok_def)
  with rem(2) have "\<not> has_thread (st_queue d ! i)" by (auto simp: has_thread_def task_ok_def)
  from remove_task_core [OF ok i this _ _ refl refl, of d d' j] rem(1) show ?thesis
    by (simp add: same_threads_def)
next
  case (failed d1)
  have "task_ok (st_queue d ! i)" using ok i by (simp add: core_ok_def)
  with failed(1) have "\<not> has_thread (st_queue d ! i)" by (auto simp: has_thread_def task_ok_def)
  moreover obtain t where "st_queue d1 = (st_queue d)[i := t]" "same_threads d d1"
    "sq_ap t = sq_ap (st_queue d ! i)" "sq_pending t = sq_pending (st_queue d ! i)"
    using start_task_result [OF ok i failed(2)] by auto
  ultimately show ?thesis using remove_task_core [OF ok i] failed(3) by blast
next
  case running
  with ok i start_task_core show ?thesis by blast
next
  case stay
  with ok show ?thesis by simp
next
  case cancel
  let ?t = "(st_queue d ! i)\<lparr>sq_cancel := False\<rparr>"
  note q = core_okD(1) [OF ok]
  show ?thesis
  proof (rule core_ok_queue [OF ok])
    show "same_threads d d'" by (simp add: cancel same_threads_def)
    show "distinct (map sq_ap (st_queue d'))" using q i by (simp add: cancel map_update_same)
    show "task_ok t" if "t \<in> set (st_queue d')" for t
    proof (rule all_update [of t "st_queue d" i ?t task_ok])
      show "t \<in> set ((st_queue d)[i := ?t])" using that by (simp add: cancel)
      show all: "\<forall>x \<in> set (st_queue d). task_ok x" using ok by (simp add: core_ok_def)
      show "task_ok ?t" using all [rule_format, OF nth_mem [OF i]] by (auto simp: task_ok_def)
    qed
    show "running ap (st_queue d') = running ap (st_queue d)" for ap
      using running_update [OF q i, of ?t ap] running_nth [OF q i] by (simp add: cancel has_thread_def)
  qed
qed

subsection \<open>The passes\<close>

lemma first_iter_core:
  assumes ok: "core_ok d" and i: "i < length (st_queue d)" and nb: "\<not> sq_busy (st_queue d ! i)"
    and r: "first_iter d i = (d', j)"
  shows "core_ok d'"
proof -
  note q = core_okD(1) [OF ok]
  have tok: "task_ok (st_queue d ! i)" using ok i by (simp add: core_ok_def)
  with nb have nt: "\<not> has_thread (st_queue d ! i)" and nc: "\<not> sq_cancel (st_queue d ! i)"
    by (auto simp: has_thread_def task_ok_def)
  obtain b d1 where b: "start_task i d = (b, d1)" by (cases "start_task i d")
  show ?thesis
  proof (cases b)
    case True
    with b nc r start_task_core [OF ok i nb] show ?thesis by (simp add: first_iter_def)
  next
    case False
    with start_task_result [OF ok i b] obtain t where t: "st_queue d1 = (st_queue d)[i := t]" and same: "same_threads d d1"
      by auto
    from r b False nc have d': "d' = d1\<lparr>st_queue := list_del i (st_queue d)\<rparr>"
      by (auto simp: first_iter_def t list_del_update)
    show ?thesis
    proof (rule core_ok_queue [OF ok])
      show "same_threads d d'" using same by (simp add: d' same_threads_def)
      show "distinct (map sq_ap (st_queue d'))" using distinct_list_del [OF q i] by (simp add: d')
      show "task_ok u" if "u \<in> set (st_queue d')" for u
        using that core_okD(2) [OF ok] set_list_del [of i "st_queue d"] by (auto simp: d')
      show "running ap (st_queue d') = running ap (st_queue d)" for ap
        using running_list_del [OF q i, of ap] running_nth [OF q i] nt by (auto simp: d')
    qed
  qed
qed

text \<open>Before position \<open>i\<close> every task has started, from it on none has.\<close>

definition half_started :: "daemon \<Rightarrow> nat \<Rightarrow> bool" where
  "half_started d i \<longleftrightarrow> i \<le> length (st_queue d) \<and> (\<forall>t \<in> set (take i (st_queue d)). sq_busy t) \<and> (\<forall>t \<in> set (drop i (st_queue d)). \<not> sq_busy t)"

lemma half_started_nth: "half_started d i \<Longrightarrow> i < length (st_queue d) \<Longrightarrow> \<not> sq_busy (st_queue d ! i)"
  by (auto simp: half_started_def simp flip: Cons_nth_drop_Suc)

lemma first_iter_half:
  assumes ok: "core_ok d" and h: "half_started d i" and i: "i < length (st_queue d)" and r: "first_iter d i = (d', j)"
  shows "half_started d' j"
proof -
  have "task_ok (st_queue d ! i)" using ok i by (simp add: core_ok_def)
  with half_started_nth [OF h i] have nc: "\<not> sq_cancel (st_queue d ! i)" by (auto simp: task_ok_def)
  have dr: "\<forall>t \<in> set (drop (Suc i) (st_queue d)). \<not> sq_busy t"
    using h i by (auto simp: half_started_def simp flip: Cons_nth_drop_Suc)
  obtain b d1 where b: "start_task i d = (b, d1)" by (cases "start_task i d")
  from start_task_result [OF ok i b] obtain t where t: "st_queue d1 = (st_queue d)[i := t]" and
    busy: "b \<Longrightarrow> sq_busy t" by (cases b) auto
  show ?thesis
  proof (cases b)
    case True
    with r b nc have "d' = d1" "j = Suc i" by (simp_all add: first_iter_def)
    with h i t busy True dr show ?thesis
      by (simp add: half_started_def take_Suc_update drop_update_cancel)
  next
    case False
    with r b nc have "st_queue d' = list_del i (st_queue d)" "j = i"
      by (auto simp: first_iter_def t list_del_update)
    with h i dr show ?thesis by (simp add: half_started_def list_del_def)
  qed
qed

lemma first_pass_ok:
  "core_ok d \<Longrightarrow> half_started d i \<Longrightarrow>
     core_ok (first_pass d i) \<and> (\<forall>t \<in> set (st_queue (first_pass d i)). sq_busy t)"
proof (induction d i rule: first_pass.induct)
  case (1 d i)
  show ?case
  proof (cases "i < length (st_queue d)")
    case True
    obtain d' j where r: "first_iter d i = (d', j)" by (cases "first_iter d i")
    from first_iter_core [OF "1.prems"(1) True half_started_nth [OF "1.prems"(2) True] r]
      first_iter_half [OF "1.prems" True r] "1.IH" [OF True] r True show ?thesis
      by (subst (1 2) first_pass.simps) simp
  next
    case False
    with "1.prems" show ?thesis by (subst (1 2) first_pass.simps) (simp add: half_started_def)
  qed
qed

lemma scan_iter_prefix:
  assumes ok: "core_ok d" and i: "i < length (st_queue d)" and r: "scan_iter d i = (d', j)"
    and b: "\<forall>t \<in> set (take i (st_queue d)). sq_busy t"
  shows "\<forall>t \<in> set (take j (st_queue d')). sq_busy t"
proof -
  have suc: "\<forall>t \<in> set (take (Suc i) ((st_queue d)[i := u])). sq_busy t" if "sq_busy u" for u
    using that b i by (simp add: take_Suc_update)
  have removed: ?thesis if "remove_task d1 i = (d', j)" "st_queue d1 = (st_queue d)[i := u]" for d1 u
    using that b i by (auto simp: remove_task_def Let_def list_del_update list_del_def split: list.splits if_splits)
  from r show ?thesis
  proof (cases rule: scan_iter_cases)
    case rem
    with removed [of d "st_queue d ! i"] show ?thesis by simp
  next
    case (failed d1)
    with start_task_result [OF ok i failed(2)] removed [of d1] show ?thesis by auto
  next
    case running
    let ?u = "(st_queue d ! i)\<lparr>sq_busy := True, sq_thid := Suc (st_last_thid d)\<rparr>"
    from start_task_result [OF ok i running(2)] have "st_queue d' = (st_queue d)[i := ?u]" by auto
    with suc [of ?u] running(3) show ?thesis by simp
  next
    case stay
    with suc [of "st_queue d ! i"] show ?thesis by simp
  next
    case cancel
    with suc [of "(st_queue d ! i)\<lparr>sq_cancel := False\<rparr>"] show ?thesis by simp
  qed
qed

lemma st_scan_ok:
  "core_ok d \<Longrightarrow> \<forall>t \<in> set (take i (st_queue d)). sq_busy t \<Longrightarrow>
     core_ok (st_scan d i) \<and> (\<forall>t \<in> set (st_queue (st_scan d i)). sq_busy t)"
proof (induction d i rule: st_scan.induct)
  case (1 d i)
  show ?case
  proof (cases "i < length (st_queue d)")
    case True
    obtain d' j where r: "scan_iter d i = (d', j)" by (cases "scan_iter d i")
    from scan_iter_core [OF "1.prems"(1) True r] scan_iter_prefix [OF "1.prems"(1) True r "1.prems"(2)]
      "1.IH" [OF True] r True show ?thesis
      by (subst (1 2) st_scan.simps) simp
  next
    case False
    with "1.prems" show ?thesis by (subst (1 2) st_scan.simps) simp
  qed
qed

lemma core_ok_flags: "core_ok (d\<lparr>st_signaled := b\<rparr>) = core_ok d" "core_ok (d\<lparr>st_idle := b\<rparr>) = core_ok d"
  by (simp_all add: core_ok_def threads_ok_def ap_ok_def)

lemma st_handler_start_ok: "daemon_ok d \<Longrightarrow> st_idle d \<Longrightarrow> daemon_ok (st_handler_start d)"
  using first_pass_ok [of d 0] by (simp add: daemon_ok_def st_handler_start_def core_ok_flags half_started_def)

lemma start_task_flags:
  assumes "start_task i d = (r, d')"
  shows "st_signaled d' = st_signaled d \<and> st_idle d' = st_idle d"
proof -
  from assms have "run_state_task ((st_queue d ! i)\<lparr>sq_busy := True\<rparr>)
      (d\<lparr>st_queue := (st_queue d)[i := (st_queue d ! i)\<lparr>sq_busy := True\<rparr>]\<rparr>) = (r, d')"
    by (simp add: start_task_def Let_def)
  from run_state_task_work [OF this] show ?thesis by (cases r) (auto simp: started_def same_work_def Let_def)
qed

lemma remove_task_flags:
  "remove_task d i = (d', j) \<Longrightarrow> st_signaled d' = st_signaled d \<and> st_idle d' = st_idle d"
  by (auto simp: remove_task_def Let_def split: list.splits)

lemma scan_iter_flags:
  "scan_iter d i = (d', j) \<Longrightarrow> st_signaled d' = st_signaled d \<and> st_idle d' = st_idle d"
  by (erule scan_iter_cases) (auto dest!: start_task_flags remove_task_flags)

lemma st_scan_flags: "st_signaled (st_scan d i) = st_signaled d \<and> st_idle (st_scan d i) = st_idle d"
proof (induction d i rule: st_scan.induct)
  case (1 d i)
  then show ?case using scan_iter_flags [OF prod.collapse [symmetric], of d i] by (subst (1 2) st_scan.simps) simp
qed

lemma st_handler_pass_ok: "daemon_ok d \<Longrightarrow> \<not> st_idle d \<Longrightarrow> daemon_ok (st_handler_pass d)"
  using st_scan_ok [of d 0] st_scan_flags [of d 0]
  by (simp add: daemon_ok_def st_handler_pass_def core_ok_flags Let_def)

subsection \<open>The task queue\<close>

lemma core_ok_new_task:
  assumes ok: "core_ok d" and "ap \<notin> sq_ap ` set (st_queue d)" and "same_threads d d'" and "s \<in> task_states"
    and "st_queue d' = \<lparr>sq_thid = 0, sq_pending = [], sq_ap = ap, sq_state = s, sq_busy = False, sq_done = False, sq_cancel = False\<rparr> # st_queue d"
  shows "core_ok d'"
  using assms(2-) core_okD(1,2) [OF ok] by (intro core_ok_queue [OF ok assms(3)]) (auto simp: has_thread_def task_ok_def)

text \<open>A change of the one task of a mount point that keeps its thread.\<close>

lemma core_ok_upd_task:
  assumes ok: "core_ok d" and th: "same_threads d d'" and q: "st_queue d' = upd_task ap f (st_queue d)"
    and f: "\<And>t. t \<in> set (st_queue d) \<Longrightarrow> sq_ap t = ap \<Longrightarrow>
      sq_ap (f t) = ap \<and> task_ok (f t) \<and> sq_thid (f t) = sq_thid t \<and> sq_done (f t) = sq_done t"
  shows "core_ok d'"
proof (cases "ap \<in> sq_ap ` set (st_queue d)")
  case False
  then show ?thesis
    using q core_okD(1,2) [OF ok] by (intro core_ok_queue [OF ok th]) (auto simp: upd_task_absent)
next
  case True
  then obtain i where i: "i < length (st_queue d)" and a: "sq_ap (st_queue d ! i) = ap"
    by (auto simp: in_set_conv_nth)
  note dq = core_okD(1) [OF ok]
  let ?t = "f (st_queue d ! i)"
  from upd_task_nth [OF dq i, of f] q a have q': "st_queue d' = (st_queue d)[i := ?t]" by simp
  have ft: "sq_ap ?t = sq_ap (st_queue d ! i)" "task_ok ?t" "has_thread ?t = has_thread (st_queue d ! i)"
    "sq_thid ?t = sq_thid (st_queue d ! i)"
    using f [OF nth_mem [OF i] a] a by (simp_all add: has_thread_def)
  show ?thesis
  proof (rule core_ok_queue [OF ok th])
    show "distinct (map sq_ap (st_queue d'))" using dq i ft(1) by (simp add: q' map_update_same)
    show "task_ok t" if "t \<in> set (st_queue d')" for t
      using all_update [OF that [unfolded q'], of task_ok] ft(2) core_okD(2) [OF ok] by blast
    show "running x (st_queue d') = running x (st_queue d)" for x
      using running_update [OF dq i ft(1), of x] running_nth [OF dq i] ft by (auto simp: q')
  qed
qed

lemma add_pending_core:
  assumes ok: "core_ok d" and s: "s \<in> task_states"
    and new: "\<And>t. t \<in> set (st_queue d) \<Longrightarrow> sq_ap t = ap \<Longrightarrow> s \<notin> set (sq_pending t)"
  shows "core_ok (add_pending ap s d)"
proof (cases "malloc (st_mem d)")
  case (Pair b m)
  show ?thesis
  proof (cases b)
    case False
    with Pair have "add_pending ap s d = d\<lparr>st_mem := m\<rparr>" by (simp add: add_pending_def st_alloc_task_def)
    then show ?thesis using core_ok_same_work [OF ok] same_work_mem by simp
  next
    case True
    with Pair show ?thesis
      using core_okD(2) [OF ok] s new
      by (intro core_ok_upd_task [OF ok, of _ ap "\<lambda>t. t\<lparr>sq_pending := sq_pending t @ [s]\<rparr>"])
        (auto simp: add_pending_def st_alloc_task_def same_threads_def task_ok_def)
  qed
qed

lemma st_add_task_locked_cases:
  assumes "st_add_task_locked ap s d = (b, d')"
  obtains (ready) "s = ST_READY" "d' = (st_ready ap d)\<lparr>st_signaled := True\<rparr>"
    | (ignored) "s \<noteq> ST_READY" "ap_state (st_aps d ap) = ST_SHUTDOWN" "d' = d"
    | (shutdown) "s = ST_SHUTDOWN" "d' = snd (st_shutdown ap d)"
    | (queued) d1 where "s \<noteq> ST_READY" "s \<noteq> ST_SHUTDOWN" "d' = d1\<lparr>st_signaled := True\<rparr>"
        "d1 = d \<or> (\<exists>t ts. chain_find (\<lambda>t. sq_ap t = ap) (st_queue d) = t # ts \<and> s \<notin> set (sq_pending t) \<and> d1 = add_pending ap s d)
         \<or> (\<exists>m. d1 = d\<lparr>st_mem := m\<rparr>)
         \<or> (\<exists>m. ap \<notin> sq_ap ` set (st_queue d) \<and> d1 = d\<lparr>st_mem := m, st_queue :=
             \<lparr>sq_thid = 0, sq_pending = [], sq_ap = ap, sq_state = s, sq_busy = False, sq_done = False, sq_cancel = False\<rparr> # st_queue d\<rparr>)"
proof -
  consider "s = ST_READY" | "s \<noteq> ST_READY" "ap_state (st_aps d ap) = ST_SHUTDOWN"
    | "s = ST_SHUTDOWN" "ap_state (st_aps d ap) \<noteq> ST_SHUTDOWN"
    | "s \<noteq> ST_READY" "s \<noteq> ST_SHUTDOWN" "ap_state (st_aps d ap) \<noteq> ST_SHUTDOWN" by blast
  then show thesis
  proof cases
    case 1
    with assms show thesis by (intro ready) (auto simp: st_add_task_locked_def)
  next
    case 2
    with assms show thesis by (intro ignored) (auto simp: st_add_task_locked_def)
  next
    case 3
    with assms show thesis by (intro shutdown) (simp_all add: st_add_task_locked_def)
  next
    case 4
    show thesis
    proof (cases "chain_find (\<lambda>t. sq_ap t = ap) (st_queue d)")
      case Nil
      then have new: "ap \<notin> sq_ap ` set (st_queue d)" by (auto simp: chain_find_Nil_iff)
      obtain b m where "malloc (st_mem d) = (b, m)" by (cases "malloc (st_mem d)")
      with 4 Nil assms new show thesis
        by (cases b) (intro queued [OF 4(1,2)], auto simp: st_add_task_locked_def st_alloc_task_def Let_def)+
    next
      case (Cons t ts)
      let ?sh = "ap_state (st_aps d ap) = ST_SHUTDOWN_PENDING \<or> ap_state (st_aps d ap) = ST_SHUTDOWN_FORCE"
      show thesis
      proof (cases "(sq_state t = s \<and> \<not> sq_done t) \<or> ?sh \<or> list_ex (\<lambda>p. p = s \<or> ?sh) (sq_pending t)")
        case True
        with Cons 4 assms have "d' = d\<lparr>st_signaled := True\<rparr>"
          by (auto simp: st_add_task_locked_def Let_def)
        then show thesis by (rule queued [OF 4(1,2)]) simp
      next
        case False
        with Cons 4 assms have "d' = (add_pending ap s d)\<lparr>st_signaled := True\<rparr>"
          by (auto simp: st_add_task_locked_def Let_def)
        moreover have "s \<notin> set (sq_pending t)" using False by (auto simp: list_ex_iff)
        ultimately show thesis using Cons by (intro queued [OF 4(1,2)]) auto
      qed
    qed
  qed
qed

lemma chain_find_task:
  assumes "distinct (map sq_ap q)" and "chain_find (\<lambda>t. sq_ap t = ap) q = t # ts" and "u \<in> set q" and "sq_ap u = ap"
  shows "u = t"
  using assms chain_find_set [OF assms(2)] chain_find_hd [OF assms(2)] by (auto simp: distinct_map inj_on_def)

lemma st_add_task_locked_core:
  assumes ok: "core_ok d" and s: "s \<in> task_states \<union> {ST_READY, ST_SHUTDOWN}"
    and r: "st_add_task_locked ap s d = (b, d')"
  shows "core_ok d'"
  using r
proof (cases rule: st_add_task_locked_cases)
  case ready
  then show ?thesis using core_ok_same_work [OF ok same_work_st_ready] by (simp add: core_ok_flags)
next
  case ignored
  then show ?thesis using ok by simp
next
  case shutdown
  then show ?thesis using ok by (intro core_ok_same_work [OF ok]) (simp add: st_shutdown_def same_work_def exp_of_upd)
next
  case (queued d1)
  with s have s': "s \<in> task_states" by auto
  from queued(4) have "core_ok d1"
  proof (elim disjE exE conjE)
    fix t ts assume t: "chain_find (\<lambda>t. sq_ap t = ap) (st_queue d) = t # ts" "s \<notin> set (sq_pending t)" "d1 = add_pending ap s d"
    then show "core_ok d1" using add_pending_core [OF ok s', of ap] chain_find_task [OF core_okD(1) [OF ok] t(1)] by blast
  next
    fix m assume "d1 = d\<lparr>st_mem := m\<rparr>"
    then show "core_ok d1" using core_ok_same_work [OF ok same_work_mem(1)] by simp
  next
    fix m assume "ap \<notin> sq_ap ` set (st_queue d)" and "d1 = d\<lparr>st_mem := m, st_queue :=
       \<lparr>sq_thid = 0, sq_pending = [], sq_ap = ap, sq_state = s, sq_busy = False, sq_done = False, sq_cancel = False\<rparr> # st_queue d\<rparr>"
    then show "core_ok d1" using s' by (intro core_ok_new_task [OF ok]) (simp_all add: same_threads_def)
  qed (use ok in simp)
  with queued(3) show ?thesis by (simp add: core_ok_flags)
qed

text \<open>Adding a task starts none.\<close>

lemma upd_task_all: "\<forall>t \<in> set q. P t \<Longrightarrow> (\<And>t. P t \<Longrightarrow> P (f t)) \<Longrightarrow> \<forall>t \<in> set (upd_task ap f q). P t"
  by (induction q) auto

lemma st_add_task_locked_ok:
  assumes ok: "daemon_ok d" and s: "s \<in> task_states \<union> {ST_READY, ST_SHUTDOWN}"
    and r: "st_add_task_locked ap s d = (b, d')"
  shows "daemon_ok d'"
proof -
  have core: "core_ok d'" using st_add_task_locked_core [OF _ s r] ok by (simp add: daemon_ok_def)
  have idle: "\<forall>t \<in> set (st_queue (add_pending ap s d)). \<not> sq_busy t" if "\<forall>t \<in> set (st_queue d). \<not> sq_busy t"
    using that upd_task_all [OF that, of "\<lambda>t. t\<lparr>sq_pending := sq_pending t @ [s]\<rparr>" ap]
    by (auto simp: add_pending_def st_alloc_task_def Let_def split: prod.split)
  have keep: "st_idle (add_pending ap s d) = st_idle d" by (simp add: add_pending_def st_alloc_task_def Let_def split: prod.split)
  from r show ?thesis
  proof (cases rule: st_add_task_locked_cases)
    case (queued d1)
    then have "st_idle d' \<longrightarrow> (\<forall>t \<in> set (st_queue d'). \<not> sq_busy t)"
      using idle keep ok by (auto simp: daemon_ok_def)
    with core queued(3) show ?thesis by (simp add: daemon_ok_def)
  qed (use ok core in \<open>auto simp: daemon_ok_def st_ready_def st_shutdown_def\<close>)
qed

lemma cancel_tasks_simps [simp]:
  "sq_ap (cancel_tasks t) = sq_ap t" "sq_thid (cancel_tasks t) = sq_thid t" "sq_done (cancel_tasks t) = sq_done t"
  "sq_busy (cancel_tasks t) = sq_busy t" "sq_state (cancel_tasks t) = sq_state t"
  by (simp_all add: cancel_tasks_def Let_def)

lemma st_remove_tasks_ok:
  assumes ok: "daemon_ok d"
  shows "daemon_ok (st_remove_tasks ap d)"
proof (cases "st_queue d = []")
  case False
  let ?f = "\<lambda>t. if sq_ap t = ap then cancel_tasks t else t"
  have core: "core_ok d" using ok by (simp add: daemon_ok_def)
  have f: "task_ok t \<Longrightarrow> task_ok (cancel_tasks t)" for t
    by (auto simp: cancel_tasks_def Let_def task_ok_def)
  have run: "running x (map ?f q) = running x q" for x q
    by (induction q) (auto simp: has_thread_def)
  have names: "map sq_ap (map ?f q) = map sq_ap q" for q by simp
  have "core_ok (st_remove_tasks ap d)"
    using False core_okD [OF core] f names [of "st_queue d"]
    by (intro core_ok_queue [OF core]) (auto simp: st_remove_tasks_def same_threads_def run simp del: map_map)
  then show ?thesis using ok f False by (auto simp: daemon_ok_def st_remove_tasks_def)
qed (use ok in \<open>simp add: st_remove_tasks_def\<close>)

subsection \<open>The end of a worker\<close>

text \<open>The worker of a mount point, by the invariant.\<close>

lemma worker_of:
  assumes ok: "core_ok d" and w: "(thid, ap, w) \<in> set (st_threads d)"
  obtains i where "i < length (st_queue d)" "sq_ap (st_queue d ! i) = ap" "sq_thid (st_queue d ! i) = thid"
    "has_thread (st_queue d ! i)" "threads_of ap (st_threads d) = [(thid, ap, w)]"
    "exp_of d ap = set_exp w ap thid (\<lambda>_. 0) ap" "readmap_of d ap = set_readmap w ap thid (\<lambda>_. 0) ap"
proof -
  have th: "(thid, ap, w) \<in> set (threads_of ap (st_threads d))" using w by (auto simp: threads_of_def)
  have work: "ap_work ap (running ap (st_queue d)) (threads_of ap (st_threads d)) (exp_of d ap) (readmap_of d ap)"
    using core_okD(4) [OF ok, of ap] by (simp add: ap_ok_def)
  with th obtain n where n: "running ap (st_queue d) = Some n" by (cases "running ap (st_queue d)") auto
  with work th have one: "threads_of ap (st_threads d) = [(thid, ap, w)]" "n = thid"
    and fields: "exp_of d ap = set_exp w ap thid (\<lambda>_. 0) ap" "readmap_of d ap = set_readmap w ap thid (\<lambda>_. 0) ap"
    by auto
  from n one obtain t where t: "find (\<lambda>t. sq_ap t = ap \<and> has_thread t) (st_queue d) = Some t" "sq_thid t = thid"
    by (auto simp: running_def)
  then obtain i where "i < length (st_queue d)" "sq_ap (st_queue d ! i) = ap \<and> has_thread (st_queue d ! i)" "t = st_queue d ! i"
    by (auto simp: find_Some_iff)
  with t one fields that show thesis by blast
qed

lemma finish_core:
  assumes ok: "core_ok d" and w: "(thid, ap, w) \<in> set (st_threads d)"
    and q: "st_queue d' = upd_task ap (\<lambda>t. t\<lparr>sq_done := True\<rparr>) (st_queue d)"
    and th: "st_threads d' = filter (\<lambda>(i, _). i \<noteq> thid) (st_threads d)" "st_last_thid d' = st_last_thid d"
    and e: "exp_of d' = (exp_of d)(ap := 0)" "readmap_of d' = (readmap_of d)(ap := 0)"
  shows "core_ok d'"
proof -
  note dq = core_okD(1) [OF ok]
  from worker_of [OF ok w] obtain i where i: "i < length (st_queue d)" "sq_ap (st_queue d ! i) = ap"
    "sq_thid (st_queue d ! i) = thid" "has_thread (st_queue d ! i)" "threads_of ap (st_threads d) = [(thid, ap, w)]" by metis
  let ?t = "(st_queue d ! i)\<lparr>sq_done := True\<rparr>"
  have q': "st_queue d' = (st_queue d)[i := ?t]" using upd_task_nth [OF dq i(1), of "\<lambda>t. t\<lparr>sq_done := True\<rparr>"] q i(2) by simp
  have "task_ok (st_queue d ! i)" using ok i(1) by (simp add: core_ok_def)
  then have tok: "task_ok ?t" using i(4) by (auto simp: task_ok_def has_thread_def)
  have own: "a = ap" if "(thid, a, v) \<in> set (st_threads d)" for a v
    using eq_key_imp_eq_value [OF _ that w] core_okD(3) [OF ok] by (simp add: threads_ok_def)
  have ths: "threads_of a (st_threads d') = (if a = ap then [] else threads_of a (st_threads d))" for a
  proof -
    have "threads_of a (st_threads d') = filter (\<lambda>(j, _). j \<noteq> thid) (threads_of a (st_threads d))"
      by (simp add: th threads_of_def filter_filter conj_commute case_prod_unfold)
    moreover have "filter (\<lambda>(j, _). j \<noteq> thid) (threads_of a (st_threads d)) = threads_of a (st_threads d)" if "a \<noteq> ap"
      using own that by (intro filter_True) (auto simp: threads_of_def)
    ultimately show ?thesis using i(5) by simp
  qed
  have run: "running a (st_queue d') = (if a = ap then None else running a (st_queue d))" for a
    using running_update [OF dq i(1), of ?t a] i(2) by (simp add: q' has_thread_def)
  have "distinct (map sq_ap (st_queue d'))" using dq i by (simp add: q' map_update_same)
  moreover have "task_ok t" if "t \<in> set (st_queue d')" for t
    using all_update [OF that [unfolded q'], of task_ok] tok core_okD(2) [OF ok] by blast
  moreover have "threads_ok d'"
    using core_okD(3) [OF ok] by (auto simp: threads_ok_def th distinct_map_filter)
  moreover have "ap_ok d' a" for a
    using core_okD(4) [OF ok, of a] run [of a] ths [of a] by (auto simp: ap_ok_def e)
  ultimately show ?thesis by (simp add: core_ok_def)
qed

lemma worker_not_idle:
  assumes "daemon_ok d" and "(thid, ap, w) \<in> set (st_threads d)"
  shows "\<not> st_idle d"
proof -
  have core: "core_ok d" using assms(1) by (simp add: daemon_ok_def)
  from worker_of [OF core assms(2)] obtain i where "i < length (st_queue d)" "has_thread (st_queue d ! i)" by metis
  moreover from this(1) core have "task_ok (st_queue d ! i)" by (simp add: core_ok_def)
  ultimately have "\<exists>t \<in> set (st_queue d). sq_busy t" by (auto simp: task_ok_def has_thread_def)
  with assms(1) show ?thesis by (auto simp: daemon_ok_def)
qed

text \<open>Marking the task done and ending the thread keeps the invariant.\<close>

lemma finish_ok:
  assumes ok: "daemon_ok d" and w: "(thid, ap, w) \<in> set (st_threads d)" and d1: "same_work d1 d2"
    and d1_def: "d1 = d\<lparr>st_aps := (st_aps d)(ap := a)\<rparr>" "ap_exp_thread a = 0" "ap_readmap_thread a = 0"
  shows "daemon_ok (end_thread thid (st_set_done ap d2))"
proof -
  let ?d = "end_thread thid (st_set_done ap d2)"
  have core: "core_ok d" using ok by (simp add: daemon_ok_def)
  have e: "exp_of d1 = (exp_of d)(ap := 0)" "readmap_of d1 = (readmap_of d)(ap := 0)"
    using d1_def by (auto simp: exp_of_def readmap_of_def)
  have "core_ok ?d"
    using d1 d1_def(1) e by (intro finish_core [OF core w]) (simp_all add: end_thread_def st_set_done_def same_work_def)
  moreover have "\<not> st_idle ?d"
    using worker_not_idle [OF ok w] d1 d1_def(1) by (simp add: end_thread_def st_set_done_def same_work_def)
  moreover have "\<forall>t \<in> set (st_queue ?d). sq_busy t" if "\<not> st_signaled ?d"
  proof -
    have "\<forall>t \<in> set (st_queue d). sq_busy t"
      using that ok worker_not_idle [OF ok w] d1 d1_def(1) by (simp add: daemon_ok_def end_thread_def st_set_done_def same_work_def)
    from upd_task_all [OF this, of "\<lambda>t. t\<lparr>sq_done := True\<rparr>" ap] show ?thesis
      using d1 d1_def(1) by (simp add: end_thread_def st_set_done_def same_work_def)
  qed
  ultimately show ?thesis by (simp add: daemon_ok_def)
qed

lemma st_add_task_locked_threads:
  "st_add_task_locked ap s (d\<lparr>st_threads := ths\<rparr>) =
     (fst (st_add_task_locked ap s d), (snd (st_add_task_locked ap s d))\<lparr>st_threads := ths\<rparr>)"
  by (auto simp: st_add_task_locked_def Let_def st_ready_def st_shutdown_def upd_ap_def add_pending_def st_alloc_task_def
      split: list.split prod.split)

lemma st_add_task_locked_st_threads [simp]: "st_threads (snd (st_add_task_locked ap s d)) = st_threads d"
  by (auto simp: st_add_task_locked_def Let_def st_ready_def st_shutdown_def add_pending_def st_alloc_task_def
      split: list.split prod.split)

lemma expire_next_work:
  "expire_next ib ap success rv idle d = (nxt, d') \<Longrightarrow>
     same_work d d' \<and> nxt \<in> {ST_SHUTDOWN_PENDING, ST_READY, ST_SHUTDOWN, ST_INVAL}"
  by (auto simp: expire_next_def Let_def same_work_st_alarm split: states.splits if_splits)

lemma expire_cleanup_ok:
  assumes ok: "daemon_ok d" and w: "(thid, ap, ExpireProc how) \<in> set (st_threads d)"
  shows "daemon_ok (expire_cleanup ib thid ap success rv idle d)"
proof -
  have core: "core_ok d" using ok by (simp add: daemon_ok_def)
  let ?a = "(st_aps d ap)\<lparr>ap_exp_thread := 0\<rparr>"
  from worker_of [OF core w] have "exp_of d ap = thid" "readmap_of d ap = 0" by (metis set_exp.simps(1) fun_upd_same, metis set_readmap.simps(1))
  then have e: "ap_exp_thread (st_aps d ap) = thid" "ap_readmap_thread ?a = 0" by (simp_all add: exp_of_def readmap_of_def)
  obtain nxt d1 where n: "expire_next ib ap success rv idle (upd_ap ap (\<lambda>a. a\<lparr>ap_exp_thread := 0\<rparr>) d) = (nxt, d1)"
    by (cases "expire_next ib ap success rv idle (upd_ap ap (\<lambda>a. a\<lparr>ap_exp_thread := 0\<rparr>) d)")
  from expire_next_work [OF n] have sw: "same_work (d\<lparr>st_aps := (st_aps d)(ap := ?a)\<rparr>) d1"
    and nxt: "nxt \<in> {ST_SHUTDOWN_PENDING, ST_READY, ST_SHUTDOWN, ST_INVAL}" by (simp_all add: upd_ap_def)
  let ?d = "end_thread thid (st_set_done ap d1)"
  have fin: "daemon_ok ?d" by (rule finish_ok [OF ok w sw refl _ e(2)]) simp
  have "expire_cleanup ib thid ap success rv idle d = (if nxt \<noteq> ST_INVAL then snd (st_add_task_locked ap nxt ?d) else ?d)"
  proof -
    have "end_thread thid (snd (st_add_task_locked ap nxt (st_set_done ap d1))) = snd (st_add_task_locked ap nxt ?d)"
      by (simp add: end_thread_def st_add_task_locked_threads)
    then show ?thesis by (simp add: expire_cleanup_def e n Let_def)
  qed
  moreover have "daemon_ok (snd (st_add_task_locked ap nxt ?d))" if "nxt \<noteq> ST_INVAL"
    using that nxt by (intro st_add_task_locked_ok [OF fin _ prod.collapse [symmetric]]) (auto simp: task_states_def)
  ultimately show ?thesis using fin by simp
qed

lemma do_readmap_cleanup_ok:
  assumes ok: "daemon_ok d" and w: "(thid, ap, DoReadmap now) \<in> set (st_threads d)"
  shows "daemon_ok (do_readmap_cleanup thid ap d)"
proof -
  have core: "core_ok d" using ok by (simp add: daemon_ok_def)
  let ?a = "(st_aps d ap)\<lparr>ap_readmap_thread := 0, ap_shutdown := False, ap_state := ST_READY\<rparr>"
  from worker_of [OF core w] have "exp_of d ap = 0" by (metis set_exp.simps(2))
  then have "ap_exp_thread ?a = 0" by (simp add: exp_of_def)
  then have "daemon_ok (end_thread thid (st_set_done ap (d\<lparr>st_aps := (st_aps d)(ap := ?a)\<rparr>)))"
    by (intro finish_ok [OF ok w same_work_refl refl]) simp_all
  moreover have "do_readmap_cleanup thid ap d = end_thread thid (st_set_done ap (d\<lparr>st_aps := (st_aps d)(ap := ?a)\<rparr>))"
    by (simp add: do_readmap_cleanup_def end_thread_def st_set_done_def st_ready_def upd_ap_def)
  ultimately show ?thesis by simp
qed

section \<open>The daemon as a transition system\<close>

text \<open>
  What the threads of the daemon do under the state mutex: tasks are added by the alarm
  thread, by signals, by the mount threads and by the master map; a mount thread that ends
  removes its tasks; workers end; the handler runs. \<open>Other\<close> is any change to the fields
  that the state machine only reads.
\<close>

datatype daemon_event =
    AddTask addr states
  | RemoveTasks addr
  | ExpireDone nat addr int int bool
  | ReadmapDone nat addr
  | HandlerStart
  | HandlerPass
  | Other

inductive daemon_step :: "bool \<Rightarrow> daemon \<Rightarrow> daemon_event \<Rightarrow> daemon \<Rightarrow> bool" for ignore_busy where
  dstep_add: "s \<in> task_states \<union> {ST_READY} \<Longrightarrow> daemon_step ignore_busy d (AddTask ap s) (snd (st_add_task ap s d))"
| dstep_remove: "daemon_step ignore_busy d (RemoveTasks ap) (st_remove_tasks ap d)"
| dstep_expire: "(thid, ap, ExpireProc how) \<in> set (st_threads d) \<Longrightarrow>
     daemon_step ignore_busy d (ExpireDone thid ap success rv idle) (expire_cleanup ignore_busy thid ap success rv idle d)"
| dstep_readmap: "(thid, ap, DoReadmap now) \<in> set (st_threads d) \<Longrightarrow>
     daemon_step ignore_busy d (ReadmapDone thid ap) (do_readmap_cleanup thid ap d)"
| dstep_start: "st_idle d \<Longrightarrow> st_queue d \<noteq> [] \<Longrightarrow> daemon_step ignore_busy d HandlerStart (st_handler_start d)"
| dstep_pass: "\<not> st_idle d \<Longrightarrow> st_signaled d \<Longrightarrow> daemon_step ignore_busy d HandlerPass (st_handler_pass d)"
| dstep_other: "same_work d d' \<Longrightarrow> \<forall>x. ap_state (st_aps d' x) = ap_state (st_aps d x) \<Longrightarrow> daemon_step ignore_busy d Other d'"

inductive_cases daemon_stepE: "daemon_step ib d e d'"

definition daemon_init :: "daemon \<Rightarrow> bool" where
  "daemon_init d \<longleftrightarrow> st_queue d = [] \<and> st_threads d = [] \<and> st_idle d
     \<and> (\<forall>x. ap_state (st_aps d x) = ST_INIT \<and> ap_exp_thread (st_aps d x) = 0 \<and> ap_readmap_thread (st_aps d x) = 0)"

interpretation daemon_sys: transition_system daemon_init "daemon_step ib" daemon_ok for ib
proof unfold_locales
  fix d assume "daemon_init d"
  then show "daemon_ok d"
    by (simp add: daemon_init_def daemon_ok_def core_ok_def threads_ok_def ap_ok_def threads_of_def exp_of_def readmap_of_def)
next
  fix d e d' assume ok: "daemon_ok d" and "daemon_step ib d e d'"
  from this(2) show "daemon_ok d'"
  proof cases
    case (dstep_add s ap)
    with ok show ?thesis
      using st_add_task_locked_ok [OF ok _ prod.collapse [symmetric], of s ap] by (auto simp: st_add_task_def)
  next
    case dstep_remove
    with ok show ?thesis by (simp add: st_remove_tasks_ok)
  next
    case dstep_expire
    with ok show ?thesis by (simp add: expire_cleanup_ok)
  next
    case dstep_readmap
    with ok show ?thesis by (simp add: do_readmap_cleanup_ok)
  next
    case dstep_start
    with ok show ?thesis by (simp add: st_handler_start_ok)
  next
    case dstep_pass
    with ok show ?thesis by (simp add: st_handler_pass_ok)
  next
    case dstep_other
    with ok show ?thesis by (simp add: daemon_ok_same_work)
  qed
qed

end
