(* ===== verification/State_Props.thy ===== *)
theory State_Props
  imports State_Lemmas
begin

text \<open>
  The properties of the state machine: what holds in every state the threads reach, what
  adding, removing and finishing tasks does, and where the queue loses a task or a wakeup.
\<close>

section \<open>Reachable states\<close>

lemma one_worker:
  assumes "core_ok d" and "(i, ap, v) \<in> set (st_threads d)" and "(j, ap, w) \<in> set (st_threads d)"
  shows "i = j \<and> v = w"
proof -
  from worker_of [OF assms(1,2)] have "threads_of ap (st_threads d) = [(i, ap, v)]" by metis
  moreover from worker_of [OF assms(1,3)] have "threads_of ap (st_threads d) = [(j, ap, w)]" by metis
  ultimately show ?thesis by simp
qed

lemma no_worker_fields:
  assumes "core_ok d" and "running ap (st_queue d) = None"
  shows "ap_exp_thread (st_aps d ap) = 0 \<and> ap_readmap_thread (st_aps d ap) = 0"
  using core_okD(4) [OF assms(1), of ap] assms(2) by (simp add: ap_ok_def exp_of_def readmap_of_def)

lemma task_without_thread:
  assumes "core_ok d" and "t \<in> set (st_queue d)" and "\<not> has_thread t"
  shows "running (sq_ap t) (st_queue d) = None"
  using assms running_nth [OF core_okD(1) [OF assms(1)]] by (auto simp: in_set_conv_nth)


text \<open>A daemon whose mount points have been set up, and the task of an idle one.\<close>

definition sample_ap :: autofs_point where
  "sample_ap = \<lparr>ap_state = ST_INIT, ap_shutdown = False, ap_submount = False, ap_exp_thread = 0, ap_readmap_thread = 0,
     ap_exp_runfreq = 15, ap_mounts = True\<rparr>"

definition sample_daemon :: daemon where
  "sample_daemon = \<lparr>st_aps = (\<lambda>_. sample_ap), st_queue = [], st_signaled = False, st_idle = True, st_alarms = alarm_init,
     st_now = 100, st_mem = [], st_create = [], st_threads = [], st_last_thid = 0, st_cancels = [], st_sigcont = []\<rparr>"

lemma sample_daemon_init: "daemon_init sample_daemon"
  by (simp add: daemon_init_def sample_daemon_def sample_ap_def)


section \<open>Adding tasks\<close>

lemma chain_find_upd_task:
  assumes "chain_find (\<lambda>t. sq_ap t = ap) q = t # ts" and "sq_ap (f t) = ap"
  shows "chain_find (\<lambda>t. sq_ap t = ap) (upd_task ap f q) = f t # ts"
  using assms by (induction q) (auto split: if_splits)

text \<open>
  Asking for a state twice is the same as asking once: while memory lasts, a second
  request for the same task adds nothing to the queue, whatever state the mount point is in.
\<close>

theorem st_add_task_idempotent:
  assumes "mem_ample (st_mem d)"
  shows "snd (st_add_task ap s (snd (st_add_task ap s d))) = snd (st_add_task ap s d)"
proof -
  from assms obtain m where m: "malloc (st_mem d) = (True, m)" by (rule mem_ampleE)
  show ?thesis
  proof (cases "s = ST_READY \<or> ap_state (st_aps d ap) = ST_SHUTDOWN \<or> s = ST_SHUTDOWN")
    case True
    then show ?thesis by (auto simp: st_add_task_def st_add_task_locked_def st_ready_def st_shutdown_def upd_ap_def)
  next
    case False
    show ?thesis
    proof (cases "chain_find (\<lambda>t. sq_ap t = ap) (st_queue d)")
      case Nil
      with False m show ?thesis
        by (simp add: st_add_task_def st_add_task_locked_def st_alloc_task_def Let_def)
    next
      case (Cons t ts)
      let ?f = "\<lambda>t. t\<lparr>sq_pending := sq_pending t @ [s]\<rparr>"
      have "sq_ap t = ap" using chain_find_hd [OF Cons] .
      then have "chain_find (\<lambda>t. sq_ap t = ap) (upd_task ap ?f (st_queue d)) = ?f t # ts"
        using chain_find_upd_task [OF Cons, of ?f] by simp
      with False m Cons show ?thesis
        by (simp add: st_add_task_def st_add_task_locked_def add_pending_def st_alloc_task_def Let_def)
    qed
  qed
qed

theorem st_add_task_idempotent_witness:
  "snd (st_add_task 3 ST_READMAP (snd (st_add_task 3 ST_READMAP sample_daemon))) = snd (st_add_task 3 ST_READMAP sample_daemon)"
  by (rule st_add_task_idempotent) (simp add: sample_daemon_def)

section \<open>Finishing tasks\<close>

text \<open>The state of a mount point after its expire worker ends, by the state it was in.\<close>

lemma st_alarm_aps [simp]: "st_aps (st_alarm ap d) = st_aps d"
  by (simp add: st_alarm_def Let_def split: prod.split)

lemma st_set_done_aps [simp]: "st_aps (st_set_done ap d) = st_aps d"
  by (simp add: st_set_done_def)

lemma end_thread_aps [simp]: "st_aps (end_thread i d) = st_aps d" "st_signaled (end_thread i d) = st_signaled d"
  "st_queue (end_thread i d) = st_queue d" "st_sigcont (end_thread i d) = st_sigcont d" "st_idle (end_thread i d) = st_idle d"
  by (simp_all add: end_thread_def)

lemma add_pending_aps [simp]: "st_aps (add_pending ap s d) = st_aps d"
  by (simp add: add_pending_def st_alloc_task_def Let_def split: prod.split)

lemma st_add_task_locked_state:
  "ap_state (st_aps (snd (st_add_task_locked ap s d)) ap) =
     (if s = ST_READY then ST_READY else if s = ST_SHUTDOWN then ST_SHUTDOWN else ap_state (st_aps d ap))"
  by (auto simp: st_add_task_locked_def Let_def st_ready_def st_shutdown_def st_alloc_task_def split: list.split prod.split)

lemma st_add_task_locked_signals:
  assumes "ap_state (st_aps d ap) \<noteq> ST_SHUTDOWN"
  shows "st_signaled (snd (st_add_task_locked ap s d)) \<longleftrightarrow> s \<noteq> ST_SHUTDOWN \<or> st_signaled d"
  using assms by (auto simp: st_add_task_locked_def Let_def st_shutdown_def)

lemma st_add_task_locked_idle: "st_idle (snd (st_add_task_locked ap s d)) = st_idle d"
  by (auto simp: st_add_task_locked_def Let_def st_ready_def st_shutdown_def add_pending_def st_alloc_task_def
      split: list.split prod.split)

lemma expire_cleanup_eq:
  assumes "thid = ap_exp_thread (st_aps d ap)"
    and "expire_next ib ap success rv idle (upd_ap ap (\<lambda>a. a\<lparr>ap_exp_thread := 0\<rparr>) d) = (nxt, d1)"
  shows "expire_cleanup ib thid ap success rv idle d =
    end_thread thid (if nxt \<noteq> ST_INVAL then snd (st_add_task_locked ap nxt (st_set_done ap d1)) else st_set_done ap d1)"
  using assms by (simp add: expire_cleanup_def)

text \<open>
  When the expire worker of a mount point ends, the mount point leaves its state as the
  state machine prescribes: from a shutdown that failed, or that found the mount in use
  without having been signalled, it returns to ready; from a successful or forced shutdown
  it goes to shutdown and its mount thread is signalled; from an expire or prune it returns
  to ready, except that a submount that expired everything and is idle keeps its state and
  asks for its shutdown.
\<close>

theorem expire_cleanup_next_state:
  assumes "thid = ap_exp_thread (st_aps d ap)"
  shows "ap_state (st_aps (expire_cleanup ib thid ap success rv idle d) ap) =
    (case ap_state (st_aps d ap) of
       ST_SHUTDOWN_PENDING \<Rightarrow>
         if rv = 0 \<and> \<not> idle \<and> \<not> ap_shutdown (st_aps d ap) \<or> \<not> ib \<and> success \<noteq> 0 then ST_READY else ST_SHUTDOWN
     | ST_SHUTDOWN_FORCE \<Rightarrow> ST_SHUTDOWN
     | ST_READY \<Rightarrow> ST_READY
     | s \<Rightarrow> if s \<in> {ST_EXPIRE, ST_PRUNE} \<and> \<not> (ap_submount (st_aps d ap) \<and> success = 0 \<and> rv = 0 \<and> idle)
             then ST_READY else s)"
proof -
  let ?a = "st_aps d ap"
  obtain nxt d1 where n: "expire_next ib ap success rv idle (upd_ap ap (\<lambda>a. a\<lparr>ap_exp_thread := 0\<rparr>) d) = (nxt, d1)"
    by (cases "expire_next ib ap success rv idle (upd_ap ap (\<lambda>a. a\<lparr>ap_exp_thread := 0\<rparr>) d)")
  from n have st: "ap_state (st_aps d1 ap) = ap_state ?a"
    by (auto simp: expire_next_def Let_def split: states.splits if_splits)
  have "ap_state (st_aps (expire_cleanup ib thid ap success rv idle d) ap) =
      (if nxt = ST_READY then ST_READY else if nxt = ST_SHUTDOWN then ST_SHUTDOWN else ap_state ?a)"
    using st by (auto simp: expire_cleanup_eq [OF assms(1) n] st_add_task_locked_state)
  with n show ?thesis
    by (cases "ap_state ?a") (auto simp: expire_next_def Let_def split: if_splits)
qed

theorem expire_cleanup_next_state_witness:
  "ap_state (st_aps (expire_cleanup False 0 3 1 0 True (upd_ap 3 (\<lambda>a. a\<lparr>ap_state := ST_SHUTDOWN_PENDING\<rparr>) sample_daemon)) 3) = ST_READY"
  by (subst expire_cleanup_next_state) (simp_all add: sample_daemon_def sample_ap_def)

text \<open>
  An expire worker whose mount point does not end in state shutdown wakes the handler.
  A worker that has read a map never does: the handler, when it waits for a signal, goes on
  waiting although the task is done, and the tasks queued behind it wait for another event.
\<close>

theorem worker_end_wakeup:
  assumes "\<not> st_idle d" and "\<not> st_signaled d"
  shows "(thid = ap_exp_thread (st_aps d ap) \<and> ap_state (st_aps d ap) \<in> {ST_EXPIRE, ST_PRUNE, ST_READY, ST_SHUTDOWN_PENDING, ST_SHUTDOWN_FORCE} \<longrightarrow>
      (handler_enabled (expire_cleanup ib thid ap success rv idle d) \<longleftrightarrow>
         ap_state (st_aps (expire_cleanup ib thid ap success rv idle d) ap) \<noteq> ST_SHUTDOWN))
    \<and> \<not> handler_enabled (do_readmap_cleanup thid ap d)"
proof -
  have "handler_enabled (expire_cleanup ib thid ap success rv idle d) \<longleftrightarrow>
      ap_state (st_aps (expire_cleanup ib thid ap success rv idle d) ap) \<noteq> ST_SHUTDOWN"
    if t: "thid = ap_exp_thread (st_aps d ap)"
      and s: "ap_state (st_aps d ap) \<in> {ST_EXPIRE, ST_PRUNE, ST_READY, ST_SHUTDOWN_PENDING, ST_SHUTDOWN_FORCE}"
  proof -
    obtain nxt d1 where n: "expire_next ib ap success rv idle (upd_ap ap (\<lambda>a. a\<lparr>ap_exp_thread := 0\<rparr>) d) = (nxt, d1)"
      by (cases "expire_next ib ap success rv idle (upd_ap ap (\<lambda>a. a\<lparr>ap_exp_thread := 0\<rparr>) d)")
    from expire_next_work [OF n] have sw: "st_signaled d1 = st_signaled d" "st_idle d1 = st_idle d"
      by (simp_all add: same_work_def)
    from n s have nxt: "nxt \<in> {ST_READY, ST_SHUTDOWN, ST_SHUTDOWN_PENDING}" and st: "ap_state (st_aps d1 ap) = ap_state (st_aps d ap)"
      by (auto simp: expire_next_def Let_def split: if_splits)
    have eq: "expire_cleanup ib thid ap success rv idle d =
        end_thread thid (snd (st_add_task_locked ap nxt (st_set_done ap d1)))"
      using expire_cleanup_eq [OF t n] nxt by auto
    have "st_signaled (snd (st_add_task_locked ap nxt (st_set_done ap d1))) \<longleftrightarrow> nxt \<noteq> ST_SHUTDOWN"
      using nxt st s sw assms(2) st_add_task_locked_signals [of "st_set_done ap d1" ap nxt] by (auto simp: st_set_done_def)
    moreover have "ap_state (st_aps (snd (st_add_task_locked ap nxt (st_set_done ap d1))) ap) = ST_SHUTDOWN \<longleftrightarrow> nxt = ST_SHUTDOWN"
      using nxt st s by (auto simp: st_add_task_locked_state)
    ultimately show ?thesis
      using assms(1) sw(2) by (simp add: eq handler_enabled_def st_add_task_locked_idle st_set_done_def)
  qed
  moreover have "\<not> handler_enabled (do_readmap_cleanup thid ap d)"
    using assms by (simp add: handler_enabled_def do_readmap_cleanup_def st_ready_def st_set_done_def)
  ultimately show ?thesis by blast
qed

text \<open>A mount point whose map is being read, with an expire and a shutdown waiting.\<close>

definition sample_readmap :: daemon where
  "sample_readmap = sample_daemon\<lparr>
     st_aps := (\<lambda>_. sample_ap)(3 := sample_ap\<lparr>ap_state := ST_READMAP, ap_readmap_thread := 1\<rparr>), st_idle := False,
     st_queue := [\<lparr>sq_thid = 1, sq_pending = [ST_EXPIRE, ST_SHUTDOWN_PENDING], sq_ap = 3, sq_state = ST_READMAP, sq_busy = True,
                   sq_done = False, sq_cancel = False\<rparr>], st_threads := [(1, 3, DoReadmap 90)], st_last_thid := 1\<rparr>"

theorem worker_end_wakeup_witness:
  "\<not> handler_enabled (do_readmap_cleanup 1 3 sample_readmap)"
  using worker_end_wakeup [of sample_readmap 1 3] by (simp add: sample_readmap_def sample_daemon_def)

section \<open>What a pass does to the tasks of one mount point\<close>

lemma st_alarm_ample:
  "mem_ample (st_mem d) \<Longrightarrow> mem_ample (st_mem (st_alarm ap d))"
  "st_create (st_alarm ap d) = st_create d" "st_now (st_alarm ap d) = st_now d"
  by (auto simp: st_alarm_def conditional_alarm_add_def alarm_add_locked_def Let_def split: prod.splits if_splits
      dest: mem_ample_malloc(2))

text \<open>Memory and threads can still be had, and the clock stands still.\<close>

definition ample :: "time \<Rightarrow> daemon \<Rightarrow> bool" where
  "ample now d \<longleftrightarrow> mem_ample (st_mem d) \<and> mem_ample (st_create d) \<and> st_now d = now"

text \<open>The worker that serves a task.\<close>

definition worker_for :: "states \<Rightarrow> time \<Rightarrow> worker" where
  "worker_for s now =
     (case s of
        ST_READMAP \<Rightarrow> DoReadmap now
      | ST_EXPIRE \<Rightarrow> ExpireProc AUTOFS_EXP_NORMAL
      | ST_SHUTDOWN_FORCE \<Rightarrow> ExpireProc (AUTOFS_EXP_FORCE OR AUTOFS_EXP_IMMEDIATE)
      | _ \<Rightarrow> ExpireProc AUTOFS_EXP_IMMEDIATE)"

lemma run_state_task_frame:
  assumes "run_state_task t d = (r, d')" and "x \<noteq> sq_ap t"
  shows "st_aps d' x = st_aps d x"
  using assms
  by (auto simp: run_state_task_def st_prune_def st_expire_def st_prepare_shutdown_def st_force_shutdown_def
      st_start_expire_def expire_proc_def st_readmap_def pthread_create_def Let_def st_ready_def st_set_thid_def
      split: states.splits if_splits prod.splits expire_result.splits option.splits)

lemma expire_proc_ample:
  assumes "ample now d"
  shows "\<exists>d'. expire_proc ap how d = (EXP_STARTED, d') \<and> ample now d' \<and> ap_state (st_aps d' ap) = ap_state (st_aps d ap)
    \<and> (Suc (st_last_thid d), ap, ExpireProc how) \<in> set (st_threads d')"
proof -
  from assms obtain m where m: "malloc (st_mem d) = (True, m)" "mem_ample m" by (auto simp: ample_def elim: mem_ampleE)
  from assms obtain c where c: "malloc (st_create d) = (True, c)" "mem_ample c" by (auto simp: ample_def elim: mem_ampleE)
  from m c assms show ?thesis by (simp add: expire_proc_def pthread_create_def st_set_thid_def ample_def)
qed

lemma st_start_expire_ample:
  assumes "ample now d"
  shows "\<exists>d'. st_start_expire s how ap d = (True, d') \<and> ample now d' \<and> ap_state (st_aps d' ap) = s
    \<and> (Suc (st_last_thid d), ap, ExpireProc how) \<in> set (st_threads d')"
proof -
  have "ample now (upd_ap ap (\<lambda>a. a\<lparr>ap_state := s\<rparr>) d)" using assms by (simp add: ample_def)
  from expire_proc_ample [OF this, of ap how] show ?thesis by (auto simp: st_start_expire_def)
qed

lemma st_readmap_ample:
  assumes "ample now d"
  shows "\<exists>d'. st_readmap ap d = (True, d') \<and> ample now d' \<and> ap_state (st_aps d' ap) = ST_READMAP
    \<and> (Suc (st_last_thid d), ap, DoReadmap now) \<in> set (st_threads d')"
proof -
  from assms obtain m where m: "malloc (st_mem d) = (True, m)" "mem_ample m" by (auto simp: ample_def elim: mem_ampleE)
  from assms obtain c where c: "malloc (st_create d) = (True, c)" "mem_ample c" by (auto simp: ample_def elim: mem_ampleE)
  from m c assms show ?thesis by (simp add: st_readmap_def pthread_create_def st_set_thid_def ample_def)
qed

lemma run_state_task_ample:
  assumes "ample now d" and "sq_state t \<in> task_states" and "ap_state (st_aps d (sq_ap t)) \<noteq> sq_state t"
  shows "\<exists>d'. run_state_task t d = (True, d') \<and> ample now d' \<and> ap_state (st_aps d' (sq_ap t)) = sq_state t
    \<and> (Suc (st_last_thid d), sq_ap t, worker_for (sq_state t) now) \<in> set (st_threads d')"
  using assms st_start_expire_ample [OF assms(1), of _ _ "sq_ap t"] st_readmap_ample [OF assms(1), of "sq_ap t"]
  by (auto simp: task_states_def run_state_task_def st_prune_def st_expire_def st_prepare_shutdown_def st_force_shutdown_def
      worker_for_def)

lemma run_state_task_keeps_ample:
  assumes "run_state_task t d = (r, d')" and "ample now d" and "sq_state t \<in> task_states"
  shows "ample now d'"
proof (cases "ap_state (st_aps d (sq_ap t)) = sq_state t")
  case True
  with assms show ?thesis by (simp add: run_state_task_def)
next
  case False
  with run_state_task_ample [OF assms(2,3)] assms(1) show ?thesis by auto
qed

text \<open>One iteration leaves the other tasks of the queue and what belongs to them alone.\<close>

lemma start_task_frame:
  assumes ok: "core_ok d" and i: "i < length (st_queue d)" and r: "start_task i d = (b, d')"
  shows "x \<noteq> sq_ap (st_queue d ! i) \<Longrightarrow> st_aps d' x = st_aps d x"
    and "ample now d \<Longrightarrow> ample now d'" and "set (st_threads d) \<subseteq> set (st_threads d')"
proof -
  let ?t = "(st_queue d ! i)\<lparr>sq_busy := True\<rparr>" and ?d = "d\<lparr>st_queue := (st_queue d)[i := (st_queue d ! i)\<lparr>sq_busy := True\<rparr>]\<rparr>"
  from r have run: "run_state_task ?t ?d = (b, d')" by (simp add: start_task_def Let_def)
  have ts: "sq_state ?t \<in> task_states" using core_okD(2) [OF ok nth_mem [OF i]] by (simp add: task_ok_def)
  show "st_aps d' x = st_aps d x" if "x \<noteq> sq_ap (st_queue d ! i)"
    using run_state_task_frame [OF run] that by simp
  show "ample now d'" if "ample now d"
    using run_state_task_keeps_ample [OF run _ ts] that by (simp add: ample_def)
  show "set (st_threads d) \<subseteq> set (st_threads d')"
    using run_state_task_work [OF run] by (cases b) (auto simp: started_def same_work_def Let_def)
qed

lemma remove_task_frame:
  assumes "i < length (st_queue d)" and "remove_task d i = (d', j)"
  shows "st_aps d' = st_aps d \<and> st_threads d' = st_threads d \<and> ample now d' = ample now d"
    and "t \<in> set (drop (Suc i) (st_queue d)) \<Longrightarrow> t \<in> set (drop j (st_queue d'))"
    and "t \<in> set (take i (st_queue d)) \<Longrightarrow> t \<in> set (st_queue d')"
  using assms by (auto simp: remove_task_def Let_def list_del_def ample_def split: list.splits if_splits)

text \<open>An iteration changes the task it looks at, and then either goes on or removes it.\<close>

lemma scan_iter_shape:
  assumes ok: "core_ok d" and i: "i < length (st_queue d)" and r: "scan_iter d i = (d', j)"
  obtains u d1 where "st_queue d1 = (st_queue d)[i := u]" "sq_ap u = sq_ap (st_queue d ! i)"
    "sq_pending u = sq_pending (st_queue d ! i)" "\<And>x. x \<noteq> sq_ap u \<Longrightarrow> st_aps d1 x = st_aps d x"
    "\<And>now. ample now d \<Longrightarrow> ample now d1" "set (st_threads d) \<subseteq> set (st_threads d1)"
    "d' = d1 \<and> j = Suc i \<and> sq_busy u \<and> sq_state u = sq_state (st_queue d ! i) \<or> remove_task d1 i = (d', j)"
  using r
proof (cases rule: scan_iter_cases)
  case rem
  show thesis by (rule that [of d "st_queue d ! i"]) (use rem in auto)
next
  case (failed d1)
  from start_task_result [OF ok i failed(2)] obtain u where u: "st_queue d1 = (st_queue d)[i := u]"
    "sq_ap u = sq_ap (st_queue d ! i)" "sq_pending u = sq_pending (st_queue d ! i)" by auto
  show thesis by (rule that [OF u]) (use failed(3) start_task_frame [OF ok i failed(2)] u(2) in auto)
next
  case running
  from start_task_result [OF ok i running(2)] obtain u where u: "st_queue d' = (st_queue d)[i := u]"
    "sq_ap u = sq_ap (st_queue d ! i)" "sq_pending u = sq_pending (st_queue d ! i)"
    "u = (st_queue d ! i)\<lparr>sq_busy := True, sq_thid := Suc (st_last_thid d)\<rparr>" by auto
  show thesis by (rule that [OF u(1-3)]) (use running(3) start_task_frame [OF ok i running(2)] u(2,4) in auto)
next
  case stay
  show thesis by (rule that [of d "st_queue d ! i"]) (use stay in auto)
next
  case cancel
  show thesis
    by (rule that [of d' "(st_queue d ! i)\<lparr>sq_cancel := False\<rparr>"]) (use cancel in \<open>auto simp: ample_def\<close>)
qed

lemma in_drop_cases: "i < length q \<Longrightarrow> t \<in> set (drop i q) \<longleftrightarrow> t = q ! i \<or> t \<in> set (drop (Suc i) q)"
  by (simp flip: Cons_nth_drop_Suc)

lemma in_set_cases: "i < length q \<Longrightarrow> t \<in> set q \<longleftrightarrow> t \<in> set (take i q) \<or> t = q ! i \<or> t \<in> set (drop (Suc i) q)"
  by (subst id_take_nth_drop [of i q]) auto

lemma scan_iter_frame:
  assumes ok: "core_ok d" and i: "i < length (st_queue d)" and r: "scan_iter d i = (d', j)"
    and t: "sq_ap t \<noteq> sq_ap (st_queue d ! i)"
  shows "t \<in> set (drop i (st_queue d)) \<Longrightarrow> t \<in> set (drop j (st_queue d'))"
    and "t \<in> set (st_queue d) \<Longrightarrow> t \<in> set (st_queue d')"
    and "st_aps d' (sq_ap t) = st_aps d (sq_ap t)" and "ample now d \<Longrightarrow> ample now d'"
    and "set (st_threads d) \<subseteq> set (st_threads d')"
proof -
  obtain u d1 where s: "st_queue d1 = (st_queue d)[i := u]" "sq_ap u = sq_ap (st_queue d ! i)"
    and "sq_pending u = sq_pending (st_queue d ! i)" and s': "\<And>x. x \<noteq> sq_ap u \<Longrightarrow> st_aps d1 x = st_aps d x"
    "\<And>now. ample now d \<Longrightarrow> ample now d1" "set (st_threads d) \<subseteq> set (st_threads d1)"
    and c': "d' = d1 \<and> j = Suc i \<and> sq_busy u \<and> sq_state u = sq_state (st_queue d ! i) \<or> remove_task d1 i = (d', j)"
    by (rule scan_iter_shape [OF ok i r]) (rule that)
  from c' have c: "d' = d1 \<and> j = Suc i \<or> remove_task d1 i = (d', j)" by blast
  have ne: "t \<noteq> st_queue d ! i" using t by auto
  have i1: "i < length (st_queue d1)" using i s(1) by simp
  note rem = remove_task_frame [OF i1]
  show "t \<in> set (drop j (st_queue d'))" if "t \<in> set (drop i (st_queue d))"
    using that c ne i s(1) rem(2) [of d' j t] by (auto simp: in_drop_cases)
  show "t \<in> set (st_queue d')" if "t \<in> set (st_queue d)"
  proof -
    from that in_set_cases [OF i, of t] ne have pre: "t \<in> set (take i (st_queue d1)) \<or> t \<in> set (drop (Suc i) (st_queue d1))"
      by (simp add: s(1))
    show ?thesis
    proof (cases "remove_task d1 i = (d', j)")
      case True
      from pre rem(2) [OF True, of t] rem(3) [OF True, of t] show ?thesis by (blast dest: in_set_dropD)
    next
      case False
      with c have "d' = d1" by blast
      with pre show ?thesis by (blast dest: in_set_takeD in_set_dropD)
    qed
  qed
  have same: "st_aps d' = st_aps d1 \<and> st_threads d' = st_threads d1 \<and> ample n d' = ample n d1" for n
    using c rem(1) [of d' j n] by blast
  show "st_aps d' (sq_ap t) = st_aps d (sq_ap t)" using same s'(1) [of "sq_ap t"] t s(2) by simp
  show "ample now d'" if "ample now d" using same s'(2) [OF that] by simp
  show "set (st_threads d) \<subseteq> set (st_threads d')" using same s'(3) by simp
qed

text \<open>What holds of a queue at every step of a pass holds at its end.\<close>

lemma st_scan_invariant:
  assumes "core_ok d" and "P d i"
    and step: "\<And>d i d' j. core_ok d \<Longrightarrow> i < length (st_queue d) \<Longrightarrow> P d i \<Longrightarrow> scan_iter d i = (d', j) \<Longrightarrow> P d' j"
  shows "\<exists>k \<ge> length (st_queue (st_scan d i)). P (st_scan d i) k"
  using assms(1,2)
proof (induction d i rule: st_scan.induct)
  case (1 d i)
  show ?case
  proof (cases "i < length (st_queue d)")
    case True
    obtain d' j where r: "scan_iter d i = (d', j)" by (cases "scan_iter d i")
    from "1.IH" [OF True] r step [OF "1.prems"(1) True "1.prems"(2) r] scan_iter_core [OF "1.prems"(1) True r]
    have "\<exists>k \<ge> length (st_queue (st_scan d' j)). P (st_scan d' j) k" by simp
    moreover have "st_scan d i = st_scan d' j" using True r by (subst st_scan.simps) simp
    ultimately show ?thesis by simp
  next
    case False
    with "1.prems" have "st_scan d i = d" "length (st_queue d) \<le> i" by (subst st_scan.simps, simp, simp)
    with "1.prems"(2) show ?thesis by auto
  qed
qed

section \<open>Every waiting task is started\<close>

text \<open>The task of a mount point waits from a position of the queue on, or its worker runs.\<close>

definition task_waits :: "addr \<Rightarrow> states \<Rightarrow> daemon \<Rightarrow> nat \<Rightarrow> bool" where
  "task_waits ap s d i \<longleftrightarrow> ap_state (st_aps d ap) \<noteq> s \<and>
     (\<exists>t \<in> set (drop i (st_queue d)). sq_ap t = ap \<and> \<not> sq_busy t \<and> sq_state t = s)"

definition task_runs :: "addr \<Rightarrow> states \<Rightarrow> time \<Rightarrow> daemon \<Rightarrow> bool" where
  "task_runs ap s now d \<longleftrightarrow> ap_state (st_aps d ap) = s \<and>
     (\<exists>t \<in> set (st_queue d). sq_ap t = ap \<and> sq_state t = s \<and> has_thread t \<and> \<not> sq_cancel t
        \<and> (sq_thid t, ap, worker_for s now) \<in> set (st_threads d))"

lemma start_task_runs:
  assumes ok: "core_ok d" and i: "i < length (st_queue d)" and a: "ample now d"
    and nb: "\<not> sq_busy (st_queue d ! i)" and st: "ap_state (st_aps d (sq_ap (st_queue d ! i))) \<noteq> sq_state (st_queue d ! i)"
  obtains d' where "start_task i d = (True, d')" "ample now d'"
    "task_runs (sq_ap (st_queue d ! i)) (sq_state (st_queue d ! i)) now d'"
proof -
  let ?t = "(st_queue d ! i)\<lparr>sq_busy := True\<rparr>" and ?d = "d\<lparr>st_queue := (st_queue d)[i := (st_queue d ! i)\<lparr>sq_busy := True\<rparr>]\<rparr>"
  have tok: "task_ok (st_queue d ! i)" using ok i by (simp add: core_ok_def)
  have "ample now ?d" using a by (simp add: ample_def)
  from run_state_task_ample [OF this, of ?t] st tok obtain d' where run: "run_state_task ?t ?d = (True, d')" and d': "ample now d'"
    "ap_state (st_aps d' (sq_ap ?t)) = sq_state ?t" "(Suc (st_last_thid d), sq_ap ?t, worker_for (sq_state ?t) now) \<in> set (st_threads d')"
    by (auto simp: task_ok_def)
  have start: "start_task i d = (True, d')" using run by (simp add: start_task_def Let_def)
  from start_task_result [OF ok i start] have
    q: "st_queue d' = (st_queue d)[i := (st_queue d ! i)\<lparr>sq_busy := True, sq_thid := Suc (st_last_thid d)\<rparr>]" by auto
  have "(st_queue d ! i)\<lparr>sq_busy := True, sq_thid := Suc (st_last_thid d)\<rparr> \<in> set (st_queue d')"
    using i by (simp add: q set_update_memI)
  with tok nb d' have "task_runs (sq_ap (st_queue d ! i)) (sq_state (st_queue d ! i)) now d'"
    unfolding task_runs_def by (intro conjI bexI) (auto simp: has_thread_def task_ok_def)
  with start d'(1) that show thesis by blast
qed

lemma own_task:
  assumes "core_ok d" and "i < length (st_queue d)" and "t \<in> set (st_queue d)" and "sq_ap t = sq_ap (st_queue d ! i)"
  shows "t = st_queue d ! i"
  using assms core_okD(1) [OF assms(1)] by (auto simp: distinct_map inj_on_def)

lemma scan_iter_runs:
  assumes ok: "core_ok d" and i: "i < length (st_queue d)" and r: "scan_iter d i = (d', j)"
    and p: "ample now d \<and> (task_waits ap s d i \<or> task_runs ap s now d)"
  shows "ample now d' \<and> (task_waits ap s d' j \<or> task_runs ap s now d')"
proof -
  let ?u = "st_queue d ! i"
  have tok: "task_ok ?u" using ok i by (simp add: core_ok_def)
  show ?thesis
  proof (cases "sq_ap ?u = ap")
    case False
    note fr = scan_iter_frame [OF ok i r]
    have "task_waits ap s d' j" if "task_waits ap s d i"
      using that False fr(1,3) by (fastforce simp: task_waits_def)
    moreover have "task_runs ap s now d'" if run: "task_runs ap s now d"
    proof -
      from run obtain t where t: "t \<in> set (st_queue d)" "sq_ap t = ap" "sq_state t = s" "has_thread t" "\<not> sq_cancel t"
        "(sq_thid t, ap, worker_for s now) \<in> set (st_threads d)" "ap_state (st_aps d ap) = s" by (auto simp: task_runs_def)
      with fr(2) [of t] fr(3) [of t] fr(5) [of t] False show ?thesis by (auto simp: task_runs_def)
    qed
    moreover have "\<exists>t. sq_ap t = ap" by (metis state_queue.select_convs(3))
    then have "ample now d'" using p fr(4) False by metis
    ultimately show ?thesis using p by blast
  next
    case True
    have own: "t = ?u" if "t \<in> set (st_queue d)" "sq_ap t = ap" for t
      using own_task [OF ok i that(1)] that(2) True by simp
    show ?thesis
    proof (cases "task_runs ap s now d")
      case run: True
      then have "has_thread ?u \<and> \<not> sq_cancel ?u" using own by (auto simp: task_runs_def)
      with tok r have "d' = d" by (auto simp: scan_iter_def has_thread_def task_ok_def Let_def)
      with run p show ?thesis by simp
    next
      case notrun: False
      with p have "task_waits ap s d i" by blast
      with own have u: "\<not> sq_busy ?u" "sq_state ?u = s" "ap_state (st_aps d ap) \<noteq> s"
        by (auto simp: task_waits_def dest!: in_set_dropD)
      from start_task_runs [OF ok i _ u(1)] u True p obtain d1 where d1: "start_task i d = (True, d1)" "ample now d1" "task_runs ap s now d1"
        by metis
      from tok u(1) have "\<not> sq_cancel ?u" by (simp add: task_ok_def)
      with r d1(1) u(1) have "d' = d1" by (simp add: scan_iter_def Let_def)
      with d1 show ?thesis by simp
    qed
  qed
qed

lemma st_scan_runs:
  assumes "core_ok d" and "ample now d" and "task_waits ap s d 0"
  shows "task_runs ap s now (st_scan d 0)"
proof -
  from st_scan_invariant [of d "\<lambda>d i. ample now d \<and> (task_waits ap s d i \<or> task_runs ap s now d)" 0]
    assms scan_iter_runs obtain k where "length (st_queue (st_scan d 0)) \<le> k"
    "task_waits ap s (st_scan d 0) k \<or> task_runs ap s now (st_scan d 0)" by blast
  then show ?thesis by (auto simp: task_waits_def)
qed

lemma first_iter_runs:
  assumes ok: "core_ok d" and i: "i < length (st_queue d)" and h: "half_started d i" and r: "first_iter d i = (d', j)"
    and p: "ample now d \<and> (task_waits ap s d i \<or> task_runs ap s now d)"
  shows "ample now d' \<and> (task_waits ap s d' j \<or> task_runs ap s now d')"
proof -
  let ?u = "st_queue d ! i"
  have tok: "task_ok ?u" using ok i by (simp add: core_ok_def)
  note nb = half_started_nth [OF h i]
  have nc: "\<not> sq_cancel ?u" using tok nb by (simp add: task_ok_def)
  obtain b d1 where b: "start_task i d = (b, d1)" by (cases "start_task i d")
  note fr = start_task_frame [OF ok i b]
  from start_task_result [OF ok i b] obtain v where q: "st_queue d1 = (st_queue d)[i := v]" by auto
  show ?thesis
  proof (cases "sq_ap ?u = ap")
    case True
    have own: "t = ?u" if "t \<in> set (st_queue d)" "sq_ap t = ap" for t
      using own_task [OF ok i that(1)] that(2) True by simp
    have "\<not> has_thread ?u" using tok nb by (simp add: has_thread_def task_ok_def)
    then have "\<not> task_runs ap s now d" using own by (auto simp: task_runs_def)
    with p own have u: "sq_state ?u = s" "ap_state (st_aps d ap) \<noteq> s"
      by (auto simp: task_waits_def dest!: in_set_dropD)
    from start_task_runs [OF ok i _ nb] u True p b have "b" "ample now d1" "task_runs ap s now d1" by (metis prod.inject)+
    with r b nc show ?thesis by (simp add: first_iter_def)
  next
    case False
    have keep: "st_aps d' ap = st_aps d ap" "set (st_threads d) \<subseteq> set (st_threads d')" "ample now d'"
      using r b nc fr(1) [of ap] fr(2) [of now] fr(3) p False by (auto simp: first_iter_def ample_def split: bool.splits)
    have dr: "t \<in> set (drop j (st_queue d'))" if "t \<in> set (drop i (st_queue d))" "sq_ap t = ap" for t
      using that r b nc q i False by (cases b) (auto simp: first_iter_def in_drop_cases list_del_update list_del_def)
    have mem: "t \<in> set (st_queue d')" if "t \<in> set (st_queue d)" "sq_ap t = ap" for t
    proof -
      have "t \<in> set (take i (st_queue d)) \<or> t \<in> set (drop (Suc i) (st_queue d))" using that in_set_cases [OF i, of t] False by auto
      with r b nc q i show ?thesis
        by (cases b) (auto simp: first_iter_def list_del_update list_del_def in_set_cases [of i "(st_queue d)[i := v]"])
    qed
    show ?thesis
    proof (cases "task_runs ap s now d")
      case True
      then obtain t where t: "t \<in> set (st_queue d)" "sq_ap t = ap" "sq_state t = s" "has_thread t" "\<not> sq_cancel t"
        "(sq_thid t, ap, worker_for s now) \<in> set (st_threads d)" "ap_state (st_aps d ap) = s" by (auto simp: task_runs_def)
      with keep mem [OF t(1,2)] show ?thesis by (auto simp: task_runs_def)
    next
      case nr: False
      with p keep dr show ?thesis by (auto simp: task_waits_def)
    qed
  qed
qed

lemma first_pass_runs:
  "core_ok d \<Longrightarrow> half_started d i \<Longrightarrow> ample now d \<and> (task_waits ap s d i \<or> task_runs ap s now d) \<Longrightarrow>
     task_runs ap s now (first_pass d i)"
proof (induction d i rule: first_pass.induct)
  case (1 d i)
  show ?case
  proof (cases "i < length (st_queue d)")
    case True
    obtain d' j where r: "first_iter d i = (d', j)" by (cases "first_iter d i")
    from first_iter_core [OF "1.prems"(1) True half_started_nth [OF "1.prems"(2) True] r]
      first_iter_half [OF "1.prems"(1,2) True r] first_iter_runs [OF "1.prems"(1) True "1.prems"(2) r "1.prems"(3)]
      "1.IH" [OF True] r True show ?thesis
      by (subst first_pass.simps) simp
  next
    case False
    with "1.prems" show ?thesis by (subst first_pass.simps) (auto simp: task_waits_def)
  qed
qed

text \<open>The next step of the handler.\<close>

definition handler_next :: "daemon \<Rightarrow> daemon" where
  "handler_next d = (if st_idle d then st_handler_start d else st_handler_pass d)"

text \<open>
  C15: A task that has not started is started by the next step of the handler, whatever the
  other tasks of the queue do: unless the mount point is in the state already or memory or
  threads run out, the mount point enters the state of the task and the worker for it runs.
\<close>

theorem waiting_task_starts:
  assumes "daemon_ok d" and "ample now d"
    and "t \<in> set (st_queue d)" and "\<not> sq_busy t" and "ap_state (st_aps d (sq_ap t)) \<noteq> sq_state t"
  shows "task_runs (sq_ap t) (sq_state t) now (handler_next d)"
proof -
  have core: "core_ok d" using assms(1) by (simp add: daemon_ok_def)
  have waits: "task_waits (sq_ap t) (sq_state t) d 0" using assms(3-5) by (auto simp: task_waits_def)
  show ?thesis
  proof (cases "st_idle d")
    case True
    with assms(1) have "half_started d 0" by (simp add: daemon_ok_def half_started_def)
    with first_pass_runs [OF core this] waits assms(2) True show ?thesis
      by (simp add: handler_next_def st_handler_start_def task_runs_def)
  next
    case False
    with st_scan_runs [OF core assms(2) waits] show ?thesis
      by (auto simp: handler_next_def st_handler_pass_def Let_def task_runs_def)
  qed
qed

theorem waiting_task_starts_witness:
  "task_runs 3 ST_EXPIRE 100 (handler_next (snd (st_add_task 3 ST_EXPIRE sample_daemon)))"
proof -
  let ?t = "\<lparr>sq_thid = 0, sq_pending = [], sq_ap = 3, sq_state = ST_EXPIRE, sq_busy = False, sq_done = False, sq_cancel = False\<rparr> :: state_queue"
  have "daemon_ok sample_daemon" using sample_daemon_init by (rule daemon_sys.invar_init)
  then have "daemon_ok (snd (st_add_task 3 ST_EXPIRE sample_daemon))"
    unfolding st_add_task_def by (rule st_add_task_locked_ok [OF _ _ prod.collapse [symmetric]]) (simp add: task_states_def)
  from waiting_task_starts [OF this, of 100 ?t] show ?thesis
    by (simp add: st_add_task_def st_add_task_locked_def sample_daemon_def sample_ap_def st_alloc_task_def Let_def ample_def)
qed

section \<open>Tasks that are lost\<close>

text \<open>
  The task of a mount point is done and another waits behind it, or that one has taken its
  place with nothing behind it.
\<close>

definition next_waits :: "addr \<Rightarrow> states \<Rightarrow> daemon \<Rightarrow> nat \<Rightarrow> bool" where
  "next_waits ap s d i \<longleftrightarrow> (\<exists>t \<in> set (drop i (st_queue d)). sq_ap t = ap \<and> sq_thid t \<noteq> 0 \<and> sq_done t \<and> \<not> sq_cancel t
     \<and> (\<exists>rest. sq_pending t = s # rest))"

definition only_next :: "addr \<Rightarrow> states \<Rightarrow> daemon \<Rightarrow> bool" where
  "only_next ap s d \<longleftrightarrow> (\<forall>t \<in> set (st_queue d). sq_ap t = ap \<longrightarrow> sq_state t = s \<and> sq_pending t = [])"

lemma remove_task_queue:
  assumes "i < length (st_queue d)" and "remove_task d i = (d', j)" and "u \<in> set (st_queue d')"
  shows "u \<in> set (list_del i (st_queue d)) \<or> (\<exists>rest. sq_pending (st_queue d ! i) = sq_state u # rest) \<and> sq_pending u = [] \<and> sq_ap u = sq_ap (st_queue d ! i)"
  using assms by (auto simp: remove_task_def Let_def split: list.splits)

lemma list_del_not_own:
  assumes "core_ok d" and "i < length (st_queue d)" and "u \<in> set (list_del i (st_queue d))"
  shows "sq_ap u \<noteq> sq_ap (st_queue d ! i) \<and> u \<in> set (st_queue d)"
  using distinct_list_del(2) [OF core_okD(1) [OF assms(1)] assms(2)] assms(3) set_list_del [of i "st_queue d"] by (metis image_eqI subsetD)

lemma scan_iter_lost:
  assumes ok: "core_ok d" and i: "i < length (st_queue d)" and r: "scan_iter d i = (d', j)"
    and p: "next_waits ap s d i \<or> only_next ap s d"
  shows "next_waits ap s d' j \<or> only_next ap s d'"
proof -
  let ?u = "st_queue d ! i"
  have tok: "task_ok ?u" using ok i by (simp add: core_ok_def)
  obtain v d1 where q: "st_queue d1 = (st_queue d)[i := v]" "sq_ap v = sq_ap ?u" "sq_pending v = sq_pending ?u"
    and "\<And>x. x \<noteq> sq_ap v \<Longrightarrow> st_aps d1 x = st_aps d x" "\<And>now. ample now d \<Longrightarrow> ample now d1"
    "set (st_threads d) \<subseteq> set (st_threads d1)"
    and c: "d' = d1 \<and> j = Suc i \<and> sq_busy v \<and> sq_state v = sq_state ?u \<or> remove_task d1 i = (d', j)"
    by (rule scan_iter_shape [OF ok i r]) (rule that)
  have new: "w \<in> set (list_del i (st_queue d)) \<or> w = v \<and> sq_state v = sq_state ?u
      \<or> (\<exists>rest. sq_pending ?u = sq_state w # rest) \<and> sq_pending w = [] \<and> sq_ap w = sq_ap ?u" if "w \<in> set (st_queue d')" for w
    using c
  proof
    assume "d' = d1 \<and> j = Suc i \<and> sq_busy v \<and> sq_state v = sq_state ?u"
    with that q(1) i show ?thesis by (auto simp: in_set_cases [of i "(st_queue d)[i := v]"] list_del_def)
  next
    assume "remove_task d1 i = (d', j)"
    from remove_task_queue [OF _ this that] q i
    have "w \<in> set (list_del i (st_queue d)) \<or> (\<exists>rest. sq_pending ?u = sq_state w # rest) \<and> sq_pending w = [] \<and> sq_ap w = sq_ap ?u"
      by (simp add: list_del_update)
    then show ?thesis by blast
  qed
  show ?thesis
  proof (cases "only_next ap s d")
    case True
    have "only_next ap s d'"
      unfolding only_next_def
    proof (intro ballI impI)
      fix w assume w: "w \<in> set (st_queue d')" "sq_ap w = ap"
      from new [OF w(1)] show "sq_state w = s \<and> sq_pending w = []"
      proof (elim disjE conjE exE)
        assume "w \<in> set (list_del i (st_queue d))"
        with list_del_not_own [OF ok i] True w(2) show ?thesis by (auto simp: only_next_def)
      next
        assume "w = v" "sq_state v = sq_state ?u"
        with True w(2) q i show ?thesis by (auto simp: only_next_def)
      next
        fix rest assume "sq_pending ?u = sq_state w # rest" "sq_ap w = sq_ap ?u"
        with True w(2) i show ?thesis by (auto simp: only_next_def)
      qed
    qed
    then show ?thesis ..
  next
    case False
    with p have nw: "next_waits ap s d i" by blast
    show ?thesis
    proof (cases "sq_ap ?u = ap")
      case other: False
      with nw scan_iter_frame(1) [OF ok i r] have "next_waits ap s d' j" unfolding next_waits_def by metis
      then show ?thesis ..
    next
      case True
      with nw own_task [OF ok i] have u: "sq_thid ?u \<noteq> 0" "sq_done ?u" "\<not> sq_cancel ?u" "\<exists>rest. sq_pending ?u = s # rest"
        by (auto simp: next_waits_def dest!: in_set_dropD)
      with tok r have "remove_task d i = (d', j)" by (simp add: scan_iter_def Let_def task_ok_def)
      from remove_task_queue [OF i this] u(4) True list_del_not_own [OF ok i]
      have "only_next ap s d'" unfolding only_next_def by (metis list.inject)
      then show ?thesis ..
    qed
  qed
qed


lemma sample_readmap_ok: "daemon_ok sample_readmap"
  by (auto simp: daemon_ok_def core_ok_def sample_readmap_def sample_daemon_def sample_ap_def task_ok_def task_states_def
      threads_ok_def ap_ok_def threads_of_def exp_of_def readmap_of_def has_thread_def)


section \<open>Signals and waiting\<close>

lemma task_active_iff:
  "s \<noteq> ST_ANY \<Longrightarrow> task_active ap s q \<longleftrightarrow> (\<exists>t \<in> set q. sq_ap t = ap \<and> (sq_state t = s \<or> s \<in> set (sq_pending t)))"
  by (induction q) (auto simp: list_ex_iff)

lemma upd_task_mem: "t \<in> set q \<Longrightarrow> t \<in> set (upd_task ap f q) \<or> f t \<in> set (upd_task ap f q)"
  by (induction q) auto

text \<open>Adding a task takes none out of the queue.\<close>

lemma st_add_task_locked_keeps:
  assumes "t \<in> set (st_queue d)"
  shows "\<exists>u \<in> set (st_queue (snd (st_add_task_locked ap s d))). sq_ap u = sq_ap t \<and> sq_state u = sq_state t
    \<and> set (sq_pending t) \<subseteq> set (sq_pending u)"
proof -
  let ?f = "\<lambda>t. t\<lparr>sq_pending := sq_pending t @ [s]\<rparr>"
  have pend: "\<exists>u \<in> set (st_queue (add_pending ap s d)). sq_ap u = sq_ap t \<and> sq_state u = sq_state t \<and> set (sq_pending t) \<subseteq> set (sq_pending u)"
  proof (cases "fst (malloc (st_mem d))")
    case True
    then have q: "st_queue (add_pending ap s d) = upd_task ap ?f (st_queue d)"
      by (simp add: add_pending_def st_alloc_task_def case_prod_unfold)
    from upd_task_mem [OF assms, of ap ?f] show ?thesis unfolding q
    proof
      assume "?f t \<in> set (upd_task ap ?f (st_queue d))"
      then show "\<exists>u \<in> set (upd_task ap ?f (st_queue d)). sq_ap u = sq_ap t \<and> sq_state u = sq_state t \<and> set (sq_pending t) \<subseteq> set (sq_pending u)"
        by (rule bexI [rotated]) auto
    qed auto
  next
    case False
    with assms show ?thesis by (auto simp: add_pending_def st_alloc_task_def case_prod_unfold)
  qed
  have "st_add_task_locked ap s d = (fst (st_add_task_locked ap s d), snd (st_add_task_locked ap s d))" by simp
  then show ?thesis
    by (rule st_add_task_locked_cases) (use pend assms in \<open>auto simp: st_ready_def st_shutdown_def\<close>)
qed

lemma add_pending_active:
  assumes "mem_ample (st_mem d)" and "chain_find (\<lambda>t. sq_ap t = ap) (st_queue d) = t # ts" and "s \<noteq> ST_ANY"
  shows "task_active ap s (st_queue (add_pending ap s d))"
proof -
  let ?f = "\<lambda>t. t\<lparr>sq_pending := sq_pending t @ [s]\<rparr>"
  from assms(1) obtain m where m: "malloc (st_mem d) = (True, m)" by (rule mem_ampleE)
  have "sq_ap t = ap" using chain_find_hd [OF assms(2)] .
  with chain_find_upd_task [OF assms(2), of ?f] have "?f t \<in> set (upd_task ap ?f (st_queue d))"
    by (intro chain_find_set) auto
  then have "\<exists>u \<in> set (upd_task ap ?f (st_queue d)). sq_ap u = ap \<and> (sq_state u = s \<or> s \<in> set (sq_pending u))"
    by (rule bexI [rotated]) (simp add: \<open>sq_ap t = ap\<close>)
  with m assms(3) show ?thesis by (simp add: add_pending_def st_alloc_task_def task_active_iff)
qed

lemma st_add_task_locked_active:
  assumes "mem_ample (st_mem d)" and "s \<in> task_states"
    and "ap_state (st_aps d ap) \<notin> {ST_SHUTDOWN, ST_SHUTDOWN_PENDING, ST_SHUTDOWN_FORCE}"
  shows "task_active ap s (st_queue (snd (st_add_task_locked ap s d)))"
proof -
  from assms(1) obtain m where m: "malloc (st_mem d) = (True, m)" by (rule mem_ampleE)
  have s: "s \<noteq> ST_ANY" "s \<noteq> ST_READY" "s \<noteq> ST_SHUTDOWN" using assms(2) by (auto simp: task_states_def)
  show ?thesis
  proof (cases "chain_find (\<lambda>t. sq_ap t = ap) (st_queue d)")
    case Nil
    with m s assms(3) show ?thesis by (simp add: st_add_task_locked_def st_alloc_task_def Let_def)
  next
    case (Cons t ts)
    have t: "t \<in> set (st_queue d)" "sq_ap t = ap" using chain_find_set [OF Cons] chain_find_hd [OF Cons] by simp_all
    show ?thesis
    proof (cases "sq_state t = s \<and> \<not> sq_done t \<or> s \<in> set (sq_pending t)")
      case True
      with Cons s assms(3) have "st_queue (snd (st_add_task_locked ap s d)) = st_queue d"
        by (auto simp: st_add_task_locked_def Let_def list_ex_iff)
      with True t s show ?thesis by (auto simp: task_active_iff)
    next
      case False
      with Cons s assms(3) have "st_queue (snd (st_add_task_locked ap s d)) = st_queue (add_pending ap s d)"
        by (auto simp: st_add_task_locked_def Let_def list_ex_iff)
      with add_pending_active [OF assms(1) Cons s(1)] show ?thesis by simp
    qed
  qed
qed

lemma st_add_task_locked_mem: "mem_ample (st_mem d) \<Longrightarrow> mem_ample (st_mem (snd (st_add_task_locked ap s d)))"
  by (auto simp: st_add_task_locked_def Let_def st_ready_def st_shutdown_def add_pending_def st_alloc_task_def
      split: list.split prod.split dest: mem_ample_malloc(2))

text \<open>A shutdown has been asked for, or will be when the loop comes to the mount point.\<close>

definition asked :: "addr \<Rightarrow> daemon \<Rightarrow> bool" where
  "asked ap d \<longleftrightarrow> ap_shutdown (st_aps d ap) \<and> task_active ap ST_SHUTDOWN_PENDING (st_queue d)"

lemma st_add_task_locked_aps:
  assumes "s \<in> task_states"
  shows "st_aps (snd (st_add_task_locked ap s d)) = st_aps d"
  using assms by (auto simp: task_states_def st_add_task_locked_def Let_def st_alloc_task_def split: list.split prod.split)

lemma task_active_add:
  "task_active x s q \<Longrightarrow> q = st_queue d \<Longrightarrow> s \<noteq> ST_ANY \<Longrightarrow> task_active x s (st_queue (snd (st_add_task_locked ap s' d)))"
  using st_add_task_locked_keeps [of _ d ap s'] by (fastforce simp: task_active_iff)

lemma notify_asked:
  assumes "asked ap d"
  shows "asked ap (notify_state_change SIGTERM x d)"
proof -
  let ?d = "upd_ap x (\<lambda>a. a\<lparr>ap_shutdown := True\<rparr>) d"
  have "task_active ap ST_SHUTDOWN_PENDING (st_queue (snd (st_add_task_locked x ST_SHUTDOWN_PENDING ?d)))"
    using assms by (intro task_active_add [of _ _ "st_queue d"]) (simp_all add: asked_def)
  with assms show ?thesis
    by (simp add: asked_def notify_state_change_def Let_def st_add_task_locked_aps task_states_def)
qed

lemma notify_asks:
  assumes "mem_ample (st_mem d)" and "ap_state (st_aps d ap) \<notin> {ST_SHUTDOWN, ST_SHUTDOWN_PENDING, ST_SHUTDOWN_FORCE}"
  shows "asked ap (notify_state_change SIGTERM ap d)"
proof -
  let ?d = "upd_ap ap (\<lambda>a. a\<lparr>ap_shutdown := True\<rparr>) d"
  have "task_active ap ST_SHUTDOWN_PENDING (st_queue (snd (st_add_task_locked ap ST_SHUTDOWN_PENDING ?d)))"
    using assms by (intro st_add_task_locked_active) (simp_all add: task_states_def)
  with assms(2) show ?thesis
    by (simp add: asked_def notify_state_change_def Let_def st_add_task_locked_aps task_states_def)
qed

lemma notify_other:
  "x \<noteq> ap \<Longrightarrow> st_aps (notify_state_change SIGTERM x d) ap = st_aps d ap"
  "mem_ample (st_mem d) \<Longrightarrow> mem_ample (st_mem (notify_state_change SIGTERM x d))"
  using st_add_task_locked_mem [of "upd_ap x (\<lambda>a. a\<lparr>ap_shutdown := True\<rparr>) d" x ST_SHUTDOWN_PENDING]
  by (simp_all add: notify_state_change_def Let_def st_add_task_locked_aps task_states_def)

text \<open>
  C16: After SIGTERM every mount point of the master map that is not shutting down yet is
  marked for shutdown and has a shutdown task, running or waiting, whatever its other tasks.
\<close>

theorem sigterm_queues_shutdown:
  assumes "mem_ample (st_mem d)" and "ap \<in> set mounts"
    and "ap_state (st_aps d ap) \<notin> {ST_SHUTDOWN, ST_SHUTDOWN_PENDING, ST_SHUTDOWN_FORCE}"
  shows "ap_shutdown (st_aps (master_notify_state_change mounts SIGTERM d) ap)
    \<and> st_task_active ap ST_SHUTDOWN_PENDING (master_notify_state_change mounts SIGTERM d)"
proof -
  have keep: "asked ap d' \<Longrightarrow> asked ap (fold (notify_state_change SIGTERM) xs d')" for xs d'
    by (induction xs arbitrary: d') (auto intro: notify_asked)
  have "asked ap (fold (notify_state_change SIGTERM) mounts d)"
    using assms
  proof (induction mounts arbitrary: d)
    case (Cons x xs)
    show ?case
    proof (cases "x = ap")
      case True
      with Cons.prems show ?thesis by (simp add: keep notify_asks)
    next
      case False
      with Cons.prems show ?thesis by (simp add: Cons.IH notify_other)
    qed
  qed simp
  then show ?thesis by (simp add: asked_def master_notify_state_change_def st_task_active_def)
qed

theorem sigterm_queues_shutdown_witness:
  "st_task_active 3 ST_SHUTDOWN_PENDING (master_notify_state_change [2, 3] SIGTERM sample_daemon)"
  using sigterm_queues_shutdown [of sample_daemon 3 "[2, 3]"] by (simp add: sample_daemon_def sample_ap_def)

lemma wait_task_loop_active:
  assumes "0 < seconds" and "wait \<le> 4" and "duration < seconds"
  shows "wait_task_loop seconds wait duration (replicate n True) =
    (if n + wait + 5 * duration < 5 * seconds then None else Some False)"
  using assms
proof (induction n arbitrary: wait duration)
  case (Suc n)
  show ?case
  proof (cases "wait = 4 \<and> Suc duration \<ge> seconds")
    case True
    with Suc.prems show ?thesis by auto
  next
    case False
    with Suc.prems Suc.IH [of "if wait = 4 then 0 else Suc wait" "if wait = 4 then Suc duration else duration"]
    show ?thesis by (auto simp: Let_def)
  qed
qed auto

text \<open>
  st_wait_task with a limit gives up on a task that stays active after exactly five
  polls per second of the limit, and returns success at the first poll that finds the task
  gone before that.
\<close>

theorem st_wait_task_timing:
  assumes "0 < seconds"
  shows "st_wait_task seconds (replicate n True @ False # polls) = Some (n < 5 * seconds)
    \<and> (n \<ge> 5 * seconds \<longrightarrow> st_wait_task seconds (replicate n True) = Some False)
    \<and> (n < 5 * seconds \<longrightarrow> st_wait_task seconds (replicate n True) = None)"
proof -
  have stop: "wait_task_loop seconds w u xs = Some b \<Longrightarrow> wait_task_loop seconds w u (xs @ ys) = Some b" for w u xs ys b
    by (induction seconds w u xs rule: wait_task_loop.induct) (auto simp: Let_def split: if_splits)
  have go: "wait_task_loop seconds w u xs = None \<Longrightarrow> wait_task_loop seconds w u (xs @ False # ys) = Some True" for w u xs ys
    by (induction seconds w u xs rule: wait_task_loop.induct) (auto simp: Let_def split: if_splits)
  show ?thesis
    using wait_task_loop_active [of seconds 0 0 n] assms stop [of 0 0 "replicate n True" False "False # polls"]
      go [of 0 0 "replicate n True" polls] by (cases "n < 5 * seconds") (simp_all add: st_wait_task_def)
qed

theorem st_wait_task_timing_witness:
  "st_wait_task 2 (replicate 9 True @ False # []) = Some True \<and> st_wait_task 2 (replicate 10 True) = Some False"
  using st_wait_task_timing [of 2 9 "[]"] st_wait_task_timing [of 2 10 "[]"] by simp

end
