(* ===== verification/Args.thy ===== *)
theory Args
  imports Prelude
begin

text \<open>
  Argument vectors (\<^verbatim>\<open>lib/args.c\<close>) and path names put together in a buffer
  (\<^verbatim>\<open>lib/cat_path.c\<close>). A vector is the list of its entries without the final \<open>NULL\<close>, an
  entry that is \<open>NULL\<close> is \<open>None\<close>. What goes wrong in memory is a result: a free of
  pointers that were never set, or an access outside the buffer.
\<close>

section \<open>Argument vectors\<close>

type_synonym argv = "string option list"

datatype argv_error = ARGV_NULL | ARGV_WILD_FREE

text \<open>
  The loop that copies entries: the copies, or the number of entries that were not set when
  a \<open>strdup\<close> failed.
\<close>

fun dup_args :: "argv \<Rightarrow> mem \<Rightarrow> (nat + argv) \<times> mem" where
  "dup_args [] m = (Inr [], m)"
| "dup_args (None # as) m =
     (case dup_args as m of (Inl n, m') \<Rightarrow> (Inl n, m') | (Inr v, m') \<Rightarrow> (Inr (None # v), m'))"
| "dup_args (Some s # as) m =
     (case malloc m of
        (False, m1) \<Rightarrow> (Inl (length as), m1)
      | (True, m1) \<Rightarrow>
          (case dup_args as m1 of (Inl n, m') \<Rightarrow> (Inl n, m') | (Inr v, m') \<Rightarrow> (Inr (Some s # v), m')))"

text \<open>\<open>free_argv\<close> of a vector whose last entries were not set.\<close>

definition free_argv :: "nat \<Rightarrow> argv_error" where
  "free_argv unset = (if unset = 0 then ARGV_NULL else ARGV_WILD_FREE)"

text \<open>\<open>add_argv(argc, argv, str)\<close>, for a vector of \<open>argc - 1\<close> entries.\<close>

definition add_argv :: "argv \<Rightarrow> string \<Rightarrow> mem \<Rightarrow> (argv_error + argv) \<times> mem" where
  "add_argv argv str m =
     (case malloc m of
        (False, m1) \<Rightarrow> (Inl ARGV_NULL, m1)
      | (True, m1) \<Rightarrow>
          (case dup_args argv m1 of
             (Inl unset, m2) \<Rightarrow> (Inl (free_argv unset), m2)
           | (Inr vector, m2) \<Rightarrow>
               (case malloc m2 of
                  (False, m3) \<Rightarrow> (Inl ARGV_NULL, m3)
                | (True, m3) \<Rightarrow> (Inr (vector @ [Some str]), m3))))"

text \<open>
  \<open>append_argv\<close>: the entries of the first vector are moved by \<open>realloc\<close>, those of the
  second are copied.
\<close>

definition append_argv :: "argv \<Rightarrow> argv \<Rightarrow> mem \<Rightarrow> (argv_error + argv) \<times> mem" where
  "append_argv argv1 argv2 m =
     (case malloc m of
        (False, m1) \<Rightarrow> (Inl ARGV_NULL, m1)
      | (True, m1) \<Rightarrow>
          (case dup_args argv2 m1 of
             (Inl unset, m2) \<Rightarrow> (Inl (free_argv unset), m2)
           | (Inr vector, m2) \<Rightarrow> (Inr (argv1 @ vector), m2)))"

definition copy_argv :: "argv \<Rightarrow> mem \<Rightarrow> (argv_error + argv) \<times> mem" where
  "copy_argv argv m =
     (case malloc m of
        (False, m1) \<Rightarrow> (Inl ARGV_NULL, m1)
      | (True, m1) \<Rightarrow>
          (case dup_args argv m1 of
             (Inl unset, m2) \<Rightarrow> (Inl (free_argv unset), m2)
           | (Inr vector, m2) \<Rightarrow> (Inr vector, m2)))"

definition compare :: "string option \<Rightarrow> string option \<Rightarrow> bool" where
  "compare s1 s2 = (case (s1, s2) of (Some a, Some b) \<Rightarrow> a = b | (None, None) \<Rightarrow> True | _ \<Rightarrow> False)"

fun compare_entries :: "argv \<Rightarrow> argv \<Rightarrow> bool" where
  "compare_entries (a # as) (b # bs) = (if compare a b then compare_entries as bs else False)"
| "compare_entries _ _ = True"

definition compare_argv :: "argv \<Rightarrow> argv \<Rightarrow> bool" where
  "compare_argv argv1 argv2 = (if length argv1 \<noteq> length argv2 then False else compare_entries argv1 argv2)"

section \<open>Paths in a buffer\<close>

text \<open>
  \<open>cat_path\<close> on a buffer of \<open>len\<close> bytes. The loop that copies \<open>dir\<close>, after its first
  character: the position and the space left, \<open>None\<close> for a store behind the buffer.
\<close>

fun cat_dir :: "nat \<Rightarrow> string \<Rightarrow> nat \<Rightarrow> nat \<Rightarrow> (nat \<times> nat) option" where
  "cat_dir len [] s left = (if s + 1 \<ge> len then None else Some (s + 1, left))"
| "cat_dir len (c # d) s left =
     (if s + 1 \<ge> len then None
      else if left - 1 = 0 then Some (s + 1, 0)
      else cat_dir len d (s + 1) (left - 1))"

text \<open>
  The loop that takes slashes off the end, from the position behind the last character;
  \<open>None\<close> for a read before the buffer.
\<close>

fun cat_strip :: "nat \<Rightarrow> string \<Rightarrow> nat \<Rightarrow> nat \<Rightarrow> (nat \<times> nat) option" where
  "cat_strip len dir 0 left = None"
| "cat_strip len dir (Suc s) left =
     (if dir ! s = CHR ''/'' then (if left < len then cat_strip len dir s (left + 1) else Some (s, left + 1))
      else Some (s, left))"

text \<open>
  The loop that copies \<open>base\<close> behind the text in the buffer. With no space left \<open>--left\<close>
  wraps around and nothing stops the stores.
\<close>

fun cat_base :: "nat \<Rightarrow> string \<Rightarrow> string \<Rightarrow> nat \<Rightarrow> (bool \<times> string) option" where
  "cat_base len buf b 0 = None"
| "cat_base len buf b (Suc left) =
     (if left = 0 then Some (False, butlast buf)
      else if length buf \<ge> len then None
      else (case b of [] \<Rightarrow> Some (True, buf) | c # cs \<Rightarrow> cat_base len (buf @ [c]) cs left))"

text \<open>The result and the text in the buffer.\<close>

definition cat_path :: "nat \<Rightarrow> string \<Rightarrow> string \<Rightarrow> (bool \<times> string) option" where
  "cat_path len dir base =
     (case dir of
        [] \<Rightarrow> None
      | c # d \<Rightarrow>
          (if len = 0 then None
           else (case cat_dir len d 0 len of
                   None \<Rightarrow> None
                 | Some (s, left) \<Rightarrow>
                     if left = 0 then Some (False, take s dir)
                     else (case cat_strip len dir s left of
                             None \<Rightarrow> None
                           | Some (s, left) \<Rightarrow>
                               if s + 1 \<ge> len then None
                               else cat_base len (take (s + 1) dir @ ''/'') (dropWhile (\<lambda>c. c = CHR ''/'') base) (left - 1)))))"

fun strnlen_loop :: "string \<Rightarrow> nat \<Rightarrow> nat \<Rightarrow> nat" where
  "strnlen_loop [] len maxlen = len"
| "strnlen_loop (c # s) len maxlen = (if len < maxlen then strnlen_loop s (len + 1) maxlen else len)"

text \<open>\<open>_strlen\<close>\<close>

definition strlen_max :: "string \<Rightarrow> nat \<Rightarrow> nat" where
  "strlen_max str maxlen = strnlen_loop str 0 maxlen"

definition PATH_MAX :: nat where "PATH_MAX = 4096"

definition ncat_path :: "nat \<Rightarrow> string \<Rightarrow> string \<Rightarrow> nat \<Rightarrow> (bool \<times> string) option" where
  "ncat_path len dir base blen =
     (let alen = strlen_max base blen
      in if blen > PATH_MAX \<or> alen = 0 then Some (False, [])
         else cat_path len dir (take alen base))"

text \<open>\<open>_strncmp(s1, s2, n) == 0\<close>\<close>

definition strncmp_full :: "string \<Rightarrow> string \<Rightarrow> nat \<Rightarrow> bool" where
  "strncmp_full s1 s2 n = (if n \<noteq> 0 \<and> n \<noteq> length s1 then False else strncmp_eq s1 s2 n)"

section \<open>Properties of vectors\<close>

lemma dup_args_ample: "mem_ample m \<Longrightarrow> \<exists>m'. dup_args v m = (Inr v, m') \<and> mem_ample m'"
proof (induction v m rule: dup_args.induct)
  case (3 s as m)
  then obtain m1 where m1: "malloc m = (True, m1)" "mem_ample m1" by (blast elim: mem_ampleE)
  with 3 show ?case by fastforce
qed (auto split: prod.split sum.split)

lemma compare_iff: "compare a b \<longleftrightarrow> a = b"
  by (auto simp: compare_def split: option.split)

lemma compare_argv_iff: "compare_argv v w \<longleftrightarrow> v = w"
proof -
  have "length v = length w \<Longrightarrow> compare_entries v w \<longleftrightarrow> v = w"
    by (induction v w rule: list_induct2) (auto simp: compare_iff)
  then show ?thesis by (auto simp: compare_argv_def)
qed

lemma dup_args_fails:
  "fst (dup_args v m) = Inl n \<Longrightarrow> \<exists>u s w. v = u @ Some s # w \<and> length w = n"
proof (induction v m rule: dup_args.induct)
  case (2 as m)
  then obtain u s w where "as = u @ Some s # w" "length w = n" by (auto split: prod.splits sum.splits)
  then have "None # as = (None # u) @ Some s # w \<and> length w = n" by simp
  then show ?case by blast
next
  case (3 s as m)
  show ?case
  proof (cases "fst (malloc m)")
    case True
    then obtain m1 where m1: "malloc m = (True, m1)" by (cases "malloc m") auto
    with "3.prems" have "fst (dup_args as m1) = Inl n" by (auto split: prod.splits sum.splits)
    from "3.IH" [OF m1 [symmetric] _ this] obtain u t w where "as = u @ Some t # w" "length w = n" by blast
    then have "Some s # as = (Some s # u) @ Some t # w \<and> length w = n" by simp
    then show ?thesis by blast
  next
    case False
    with 3 have "Some s # as = [] @ Some s # as \<and> length as = n" by (cases "malloc m") auto
    then show ?thesis by blast
  qed
qed simp

text \<open>
  While memory lasts, a copied vector compares equal to the original, adding an argument
  and appending a vector give the concatenation; comparing decides equality of vectors.
\<close>

theorem argv_operations:
  assumes "mem_ample m"
  shows "fst (copy_argv v m) = Inr v \<and> compare_argv v v \<and> (compare_argv v w \<longleftrightarrow> v = w)
    \<and> fst (add_argv v s m) = Inr (v @ [Some s]) \<and> fst (append_argv v w m) = Inr (v @ w)"
proof -
  from assms obtain m1 where m1: "malloc m = (True, m1)" "mem_ample m1" by (rule mem_ampleE)
  from dup_args_ample [OF m1(2)] obtain m2 m3 where d: "dup_args v m1 = (Inr v, m2)" "mem_ample m2" "dup_args w m1 = (Inr w, m3)"
    by metis
  from d(2) obtain m4 where "malloc m2 = (True, m4)" by (blast elim: mem_ampleE)
  with m1 d show ?thesis by (simp add: copy_argv_def add_argv_def append_argv_def compare_argv_iff)
qed

theorem argv_operations_witness:
  "fst (add_argv [Some ''a'', None] ''b'' []) = Inr ([Some ''a'', None] @ [Some ''b''])"
  using argv_operations [of "[]" "[Some ''a'', None]" "[]" "''b''"] by simp

lemma dup_args_out_of_memory:
  "dup_args (u @ Some s # w) (replicate (length (filter (\<lambda>a. a \<noteq> None) u)) True @ False # m) = (Inl (length w), m)"
proof (induction u)
  case (Cons a u)
  then show ?case by (cases a) auto
qed simp

text \<open>
  When memory runs out while a vector is copied, the copy is freed as a whole although
  the entries behind the failing one were never set: whenever the entry that cannot be
  copied is not the last, copy_argv, add_argv and append_argv free wild pointers.
\<close>

theorem argv_wild_free:
  assumes "w \<noteq> []" and "v = u @ Some s # w"
    and "m = True # replicate (length (filter (\<lambda>a. a \<noteq> None) u)) True @ False # m'"
  shows "fst (copy_argv v m) = Inl ARGV_WILD_FREE \<and> fst (add_argv v t m) = Inl ARGV_WILD_FREE
    \<and> fst (append_argv x v m) = Inl ARGV_WILD_FREE"
  using assms by (simp add: copy_argv_def add_argv_def append_argv_def dup_args_out_of_memory free_argv_def del: not_None_eq)

theorem argv_wild_free_witness:
  "fst (copy_argv [Some ''mount'', Some ''-t'', Some ''nfs''] [True, True, False]) = Inl ARGV_WILD_FREE"
  using argv_wild_free [of "[Some ''nfs'']" "[Some ''mount'', Some ''-t'', Some ''nfs'']" "[Some ''mount'']" "''-t''" "[True, True, False]" "[]"]
  by simp

section \<open>Properties of paths\<close>

definition strip_tail :: "string \<Rightarrow> string" where
  "strip_tail s = rev (dropWhile (\<lambda>c. c = CHR ''/'') (rev s))"

definition strip_head :: "string \<Rightarrow> string" where
  "strip_head s = dropWhile (\<lambda>c. c = CHR ''/'') s"

lemma strip_tail_snoc [simp]: "strip_tail (s @ [c]) = (if c = CHR ''/'' then strip_tail s else s @ [c])"
  by (simp add: strip_tail_def)

lemma strip_tail_Nil [simp]: "strip_tail [] = []" "strip_tail [c] = (if c = CHR ''/'' then [] else [c])"
  by (simp_all add: strip_tail_def)

lemma strip_tail_prefix: "\<exists>t. s = strip_tail s @ t \<and> (\<forall>c \<in> set t. c = CHR ''/'')"
proof -
  have "s = rev (dropWhile (\<lambda>c. c = CHR ''/'') (rev s)) @ rev (takeWhile (\<lambda>c. c = CHR ''/'') (rev s))"
    by (metis rev_append rev_rev_ident takeWhile_dropWhile_id)
  moreover have "\<forall>c \<in> set (rev (takeWhile (\<lambda>c. c = CHR ''/'') (rev s))). c = CHR ''/''"
    by (auto dest: set_takeWhileD)
  ultimately show ?thesis unfolding strip_tail_def by blast
qed

lemma cat_dir_fits:
  "s + length d + 1 < len \<Longrightarrow> length d < left \<Longrightarrow> cat_dir len d s left = Some (s + length d + 1, left - length d)"
  by (induction d arbitrary: s left) auto

lemma cat_dir_long: "s < len \<Longrightarrow> s + length d + 1 \<ge> len \<Longrightarrow> cat_dir len d s (len - s) = None"
proof (induction d arbitrary: s)
  case (Cons c d)
  show ?case
  proof (cases "s + 1 \<ge> len")
    case False
    then have "len - s - 1 = len - (s + 1)" by simp
    with False Cons.IH [of "s + 1"] Cons.prems show ?thesis by simp
  qed simp
qed simp

lemma cat_strip_result:
  assumes "s \<le> length dir" and "s < len"
  shows "0 < s \<Longrightarrow> cat_strip len dir s (len - s + 1) =
    (if strip_tail (take s dir) = [] then Some (0, len + 1)
     else Some (length (strip_tail (take s dir)) - 1, len - length (strip_tail (take s dir)) + 1))"
  using assms
proof (induction s)
  case (Suc s)
  have t: "take (Suc s) dir = take s dir @ [dir ! s]" using Suc.prems by (simp add: take_Suc_conv_app_nth)
  show ?case
  proof (cases "dir ! s = CHR ''/''")
    case slash: True
    show ?thesis
    proof (cases "s = 0")
      case True
      with slash Suc.prems t show ?thesis by simp
    next
      case False
      with Suc slash t have "len - Suc s + 1 < len" "len - Suc s + 1 + 1 = len - s + 1" by auto
      with Suc.IH slash Suc.prems False t show ?thesis by simp
    qed
  next
    case False
    with t Suc.prems show ?thesis by simp
  qed
qed simp

lemma cat_base_result:
  "length buf + left = len + 1 \<Longrightarrow> 0 < left \<Longrightarrow> buf \<noteq> [] \<Longrightarrow> cat_base len buf b left =
     (if length buf + length b < len then Some (True, buf @ b) else Some (False, take (len - 1) (buf @ b)))"
proof (induction b arbitrary: buf left)
  case Nil
  then show ?case by (cases left) (auto simp: butlast_conv_take)
next
  case (Cons c b)
  show ?case
  proof (cases "left = 1")
    case True
    with Cons.prems show ?thesis by (auto simp: butlast_conv_take)
  next
    case False
    then obtain l where l: "left = Suc l" "0 < l" using Cons.prems by (cases left) auto
    with Cons.prems Cons.IH [of "buf @ [c]" l] show ?thesis by auto
  qed
qed

text \<open>
  cat_path puts the directory without its trailing slashes, one slash and the name without
  its leading slashes into the buffer when they fit, reports failure and leaves the truncated
  text when they do not, and in both cases stays inside the buffer, provided the directory
  is shorter than the buffer and is not made of slashes only.
\<close>

theorem cat_path_joins:
  assumes "length dir < len" and "strip_tail dir \<noteq> []"
  shows "cat_path len dir base =
    (let path = strip_tail dir @ ''/'' @ strip_head base
     in if length path < len then Some (True, path) else Some (False, take (len - 1) path))"
proof -
  obtain c d where dir: "dir = c # d" using assms(2) by (cases dir) auto
  have s: "cat_dir len d 0 len = Some (length dir, len - length dir + 1)"
    using cat_dir_fits [of 0 d len len] assms(1) by (simp add: dir)
  have strip: "cat_strip len dir (length dir) (len - length dir + 1) =
      Some (length (strip_tail dir) - 1, len - length (strip_tail dir) + 1)"
    using cat_strip_result [of "length dir" dir len] assms by (simp add: dir)
  obtain t where t: "dir = strip_tail dir @ t" using strip_tail_prefix by blast
  have tk: "take (length (strip_tail dir)) dir = strip_tail dir" by (subst t) simp
  have le: "length (strip_tail dir) \<le> length dir" using arg_cong [OF t, of length] by simp
  have pos: "0 < length (strip_tail dir)" using assms(2) by simp
  have "cat_path len dir base = cat_base len (strip_tail dir @ ''/'') (strip_head base) (len - length (strip_tail dir))"
    using s strip tk le pos assms(1) by (simp add: cat_path_def dir [symmetric] strip_head_def) (simp add: dir)
  with cat_base_result [of "strip_tail dir @ ''/''" "len - length (strip_tail dir)" len "strip_head base"] le assms(1)
  show ?thesis by (simp add: Let_def)
qed

theorem cat_path_joins_witness:
  "cat_path 11 ''/net//'' ''/host'' = Some (True, ''/net/host'') \<and> cat_path 10 ''/net'' ''host2'' = Some (False, ''/net/host'')"
  using cat_path_joins [of "''/net//''" 11 "''/host''"] cat_path_joins [of "''/net''" 10 "''host2''"]
  by (simp add: strip_tail_def strip_head_def)

text \<open>
  Outside that range the care for the buffer fails. A directory as long as the buffer
  or longer makes cat_path write behind the buffer; an empty one makes it read before the
  buffer; and for the root directory the two slashes at the joint are not avoided and the
  space left is overestimated, so that a name that fills the buffer is written behind it.
\<close>

theorem cat_path_limits:
  "(length dir \<ge> len \<or> dir = [] \<longrightarrow> cat_path len dir base = None)
   \<and> (2 + length (strip_head base) < len \<longrightarrow> cat_path len ''/'' base = Some (True, ''//'' @ strip_head base))
   \<and> (2 + length (strip_head base) = len \<longrightarrow> cat_path len ''/'' base = None)"
proof -
  have long: "cat_path len dir base = None" if "length dir \<ge> len \<or> dir = []"
  proof (cases dir)
    case (Cons c d)
    with that cat_dir_long [of 0 len d] show ?thesis by (cases "len = 0") (simp_all add: cat_path_def)
  qed (simp add: cat_path_def)
  have root: "cat_path len ''/'' base = cat_base len ''//'' (strip_head base) len" if "2 \<le> len"
    using that by (simp add: cat_path_def strip_head_def)
  have copy: "cat_base n buf b (Suc l) = (if length buf + length b < n then Some (True, buf @ b) else None)"
    if "length buf + length b \<le> n" "length b < l" for n buf b l
    using that
  proof (induction b arbitrary: buf l)
    case (Cons c b)
    from Cons.prems obtain k where k: "l = Suc k" by (cases l) auto
    with Cons.prems have "cat_base n buf (c # b) (Suc l) = cat_base n (buf @ [c]) b (Suc k)" by simp
    with Cons.IH [of "buf @ [c]" k] Cons.prems k show ?case by (simp del: cat_base.simps)
  qed auto
  have "cat_path len ''/'' base = (if 2 + length (strip_head base) < len then Some (True, ''//'' @ strip_head base) else None)"
    if fits: "2 + length (strip_head base) \<le> len"
  proof -
    obtain l where l: "len = Suc l" using fits by (cases len) auto
    with fits copy [of "''//''" "strip_head base" len l] root show ?thesis by simp
  qed
  with long show ?thesis by auto
qed

theorem cat_path_limits_witness:
  "cat_path 20 ''/'' ''home'' = Some (True, ''//home'')"
  using cat_path_limits [of 20 "''/''" "''home''"] by (simp add: strip_head_def)

end
