(* ===== verification/Parse_Subs.thy ===== *)
theory Parse_Subs
  imports Hash Macros Args
begin

text \<open>
  The string routines of \<^verbatim>\<open>lib/parse_subs.c\<close> that the map parsers share: scanning map
  entries, removing quotes, cleaning up paths, merging mount options and expanding macros
  in amd map entries. A pointer into a string is the rest of the string from there on. An
  access outside a string or a buffer is a result of its own, \<open>None\<close> where there is no
  other failure.
\<close>

section \<open>Scanning\<close>

fun skipspace :: "string \<Rightarrow> string" where
  "skipspace [] = []"
| "skipspace (c # cs) =
     (if c \<in> {CHR '' '', BS, TAB, LF, VT, FF, CR} then skipspace cs
      else if c = CHR ''#'' then [] else c # cs)"

fun check_colon_loop :: "string \<Rightarrow> bool" where
  "check_colon_loop [] = False"
| "check_colon_loop (c # cs) = (if strncmp_eq (c # cs) '':/'' 2 then True else check_colon_loop cs)"

definition check_colon :: "string \<Rightarrow> bool" where
  "check_colon str = (if strncmp_eq str '':/'' 2 then True else check_colon_loop str)"

text \<open>
  The inner loop of \<open>chunklen\<close>, from the character after an opening quote: what follows the
  closing quote, the characters passed and \<open>expect_colon\<close>. Without a closing quote the
  outer loop steps over the end of the string.
\<close>

fun chunk_quoted :: "string \<Rightarrow> nat \<Rightarrow> bool \<Rightarrow> (string \<times> nat \<times> bool) option" where
  "chunk_quoted [] n expect = None"
| "chunk_quoted (c # cs) n expect =
     (if c = DQUOTE then Some (cs, n + 1, expect)
      else chunk_quoted cs (n + 1) (if strncmp_eq (c # cs) '':/'' 2 then False else expect))"

lemma chunk_quoted_shorter: "chunk_quoted s n e = Some (rest, m, e') \<Longrightarrow> length rest < length s"
  by (induction s n e rule: chunk_quoted.induct) (auto split: if_splits)

function chunklen_loop :: "string \<Rightarrow> nat \<Rightarrow> bool \<Rightarrow> bool \<Rightarrow> nat option" where
  "chunklen_loop [] n quote expect = Some n"
| "chunklen_loop (c # cs) n quote expect =
     (if c = BSLASH then chunklen_loop cs (n + 1) (\<not> quote) expect
      else if c = DQUOTE then
        if quote then chunklen_loop cs (n + 1) False expect
        else (case chunk_quoted cs (n + 1) expect of
                None \<Rightarrow> None
              | Some (rest, m, e) \<Rightarrow> chunklen_loop rest m False e)
      else if c = CHR '':'' then
        chunklen_loop cs (n + 1) quote (if expect \<and> strncmp_eq (c # cs) '':/'' 2 then False else expect)
      else if (c = CHR '' '' \<or> c = TAB) \<and> expect then chunklen_loop cs (n + 1) quote expect
      else if c \<in> {CHR '' '', TAB, BS, LF, VT, FF, CR} \<and> \<not> quote then Some n
      else chunklen_loop cs (n + 1) False expect)"
  by pat_completeness auto
termination
  by (relation "measure (\<lambda>(s, _). length s)") (auto dest: chunk_quoted_shorter)

definition chunklen :: "string \<Rightarrow> bool \<Rightarrow> nat option" where
  "chunklen whence expect_colon = chunklen_loop whence 0 False expect_colon"

fun strmcmp_loop :: "string \<Rightarrow> string \<Rightarrow> int \<Rightarrow> int \<Rightarrow> int" where
  "strmcmp_loop [] [] mchr nchr = 0"
| "strmcmp_loop [] (p # ps) mchr nchr = (if nchr > mchr then 0 else schar p)"
| "strmcmp_loop (c # cs) [] mchr nchr = - schar c"
| "strmcmp_loop (c # cs) (p # ps) mchr nchr =
     (if c = p then strmcmp_loop cs ps mchr (nchr + 1) else schar p - schar c)"

definition strmcmp :: "string \<Rightarrow> string \<Rightarrow> int \<Rightarrow> int" where
  "strmcmp str pat mchr = strmcmp_loop str pat mchr 0"

section \<open>Quotes\<close>

text \<open>
  The first loop of \<open>dequote\<close>: the length without the white space at the end. The loop
  starts at the last of \<open>len\<close> characters; \<open>None\<close> when it leaves the string at the front.
\<close>

fun dequote_strip :: "string \<Rightarrow> nat \<Rightarrow> nat option" where
  "dequote_strip str 0 = None"
| "dequote_strip str (Suc i) =
     (case cstr_at str i of
        None \<Rightarrow> None
      | Some c \<Rightarrow>
          if isspace c
          then if i > 1 \<and> (cstr_at str (i - 1) = Some BSLASH \<or> cstr_at str (i - 1) = Some DQUOTE) then Some (Suc i)
               else dequote_strip str i
          else Some (Suc i))"

text \<open>The second loop, with what it has copied.\<close>

fun dequote_loop :: "string \<Rightarrow> bool \<Rightarrow> bool \<Rightarrow> string \<times> bool" where
  "dequote_loop [] quote dquote = ([], dquote)"
| "dequote_loop (c # cs) quote dquote =
     (if \<not> quote \<and> c = DQUOTE then dequote_loop cs quote (\<not> dquote)
      else if \<not> quote \<and> \<not> dquote \<and> c = BSLASH then dequote_loop cs True dquote
      else (let (out, d) = dequote_loop cs False dquote in (c # out, d)))"

text \<open>\<open>Inl\<close>: the routine reads outside the string; \<open>Inr None\<close>: it returns \<open>NULL\<close>.\<close>

definition dequote :: "string \<Rightarrow> nat \<Rightarrow> mem \<Rightarrow> (unit + string option) \<times> mem" where
  "dequote str origlen m =
     (let (ok, m1) = malloc m
      in if \<not> ok then (Inr None, m1)
         else (case dequote_strip str origlen of
                 None \<Rightarrow> (Inl (), m1)
               | Some len \<Rightarrow>
                   (case dequote_loop (take len str) False False of
                      (out, dquote) \<Rightarrow> (Inr (if dquote then None else Some out), m1))))"

text \<open>\<open>while (*p++ && len++ < maxlen) { if (*p == '"') break; }\<close> from the quote on.\<close>

fun span_quoted :: "string \<Rightarrow> nat \<Rightarrow> nat \<Rightarrow> (string \<times> nat) option" where
  "span_quoted [] len maxlen = None"
| "span_quoted (c # cs) len maxlen =
     (if \<not> len < maxlen then Some (cs, len + 1)
      else if cstr_hd cs = DQUOTE then Some (cs, len + 1)
      else span_quoted cs (len + 1) maxlen)"

lemma span_quoted_shorter: "span_quoted s len m = Some (rest, n) \<Longrightarrow> length rest < length s"
  by (induction s len m rule: span_quoted.induct) (auto split: if_splits)

text \<open>\<open>None\<close> when the pointer passes the end of the string.\<close>

function span_space_loop :: "string \<Rightarrow> nat \<Rightarrow> nat \<Rightarrow> nat option" where
  "span_space_loop [] len maxlen = Some len"
| "span_space_loop (c # cs) len maxlen =
     (if isblank c \<or> \<not> len < maxlen then Some len
      else if c = DQUOTE then
        (case span_quoted (c # cs) len maxlen of
           None \<Rightarrow> None
         | Some (rest, n) \<Rightarrow> (case rest of [] \<Rightarrow> None | _ # rs \<Rightarrow> span_space_loop rs (n + 1) maxlen))
      else if c = BSLASH then (case cs of [] \<Rightarrow> None | _ # cs' \<Rightarrow> span_space_loop cs' (len + 2) maxlen)
      else span_space_loop cs (len + 1) maxlen)"
  by pat_completeness auto
termination
  by (relation "measure (\<lambda>(s, _). length s)") (auto dest: span_quoted_shorter simp del: span_quoted.simps)

definition span_space :: "string \<Rightarrow> nat \<Rightarrow> nat option" where
  "span_space str maxlen = span_space_loop str 0 maxlen"

section \<open>Paths\<close>

datatype path_type = PATH_INDIRECT | PATH_DIRECT | PATH_ANY

text \<open>The loop of \<open>sanitize_path\<close>; \<open>None\<close> for a control character.\<close>

fun sanitize_loop :: "string \<Rightarrow> bool \<Rightarrow> bool \<Rightarrow> bool \<Rightarrow> (string \<times> bool) option" where
  "sanitize_loop [] seen_slash quote dquote = Some ([], dquote)"
| "sanitize_loop (c # cs) seen_slash quote dquote =
     (let copy = (\<lambda>seen. map_option (\<lambda>(out, d). (c # out, d)) (sanitize_loop cs seen False dquote))
      in if quote then copy seen_slash
         else if c = DQUOTE then sanitize_loop cs seen_slash quote (\<not> dquote)
         else if \<not> dquote \<and> schar c < 32 then None
         else if \<not> dquote \<and> c = BSLASH then sanitize_loop cs seen_slash True dquote
         else if c = CHR ''/'' then (if seen_slash then sanitize_loop cs seen_slash quote dquote else copy True)
         else copy False)"

text \<open>
  \<open>sanitize_path\<close> on the first \<open>origlen\<close> characters. Before the final test \<open>cp\<close> points to
  the terminator, so \<open>strlen(cp)\<close> is 0.
\<close>

definition sanitize_path :: "string \<Rightarrow> nat \<Rightarrow> path_type \<Rightarrow> mem \<Rightarrow> string option \<times> mem" where
  "sanitize_path path origlen type m =
     (let tmp = (if cstr_hd path = DQUOTE then tl path else path);
          slash = (CHR ''/'' \<in> set tmp)
      in if (case type of
               PATH_INDIRECT \<Rightarrow> slash
             | PATH_DIRECT \<Rightarrow> \<not> slash \<or> cstr_hd tmp \<noteq> CHR ''/''
             | PATH_ANY \<Rightarrow> False)
         then (None, m)
         else
           (let (ok, m1) = malloc m
            in if \<not> ok then (None, m1)
               else (case sanitize_loop (take origlen path) False False False of
                       None \<Rightarrow> (None, m1)
                     | Some (s_path, dquote) \<Rightarrow>
                         if dquote then (None, m1)
                         else (let cp = ([] :: string)
                               in (Some (if length cp > 1 \<and> origlen > 1 \<and> s_path \<noteq> [] \<and> last s_path = CHR ''/''
                                         then butlast s_path else s_path), m1)))))"

definition starts_with_null_opt :: "string option \<Rightarrow> bool" where
  "starts_with_null_opt str =
     (case str of
        None \<Rightarrow> False
      | Some s \<Rightarrow>
          length s \<ge> 5 \<and> hd s = CHR ''-''
          \<and> (cstr_at s 5 = Some NUL \<or> cstr_at s 5 = Some (CHR '' '') \<or> cstr_at s 5 = Some (CHR '',''))
          \<and> strncmp_eq s ''-null'' 5)"

section \<open>Mount options\<close>

definition MAX_OPTIONS_LEN :: nat where "MAX_OPTIONS_LEN = 256"
definition MAX_OPTION_LEN :: nat where "MAX_OPTION_LEN = 40"

lemma strchr_length: "strchr s c = Some r \<Longrightarrow> 0 < length r \<and> length r \<le> length s"
  by (induction s c rule: strchr.induct) (auto split: if_splits)

function hasopt :: "string \<Rightarrow> string \<Rightarrow> bool" where
  "hasopt rest opt =
     (case strstr rest opt of
        None \<Rightarrow> False
      | Some (pre, p) \<Rightarrow>
          if (pre = [] \<or> last pre = CHR '','')
             \<and> cstr_hd (drop (length opt) p) \<in> {NUL, CHR ''='', CHR '',''}
          then True
          else (case strchr p (CHR '','') of None \<Rightarrow> False | Some r \<Rightarrow> hasopt (tl r) opt))"
  by pat_completeness auto
termination
proof (relation "measure (\<lambda>(rest, opt). length rest)")
  fix rest opt x pre p r
  assume "strstr rest opt = Some x" "(pre, p) = x" "strchr p (CHR '','') = Some r"
  then show "((tl r, opt), (rest, opt)) \<in> measure (\<lambda>(rest, opt). length rest)"
    using strstr_split [of rest opt pre p] strchr_length [of p "CHR '',''" r] by (cases r) auto
qed simp

declare hasopt.simps [simp del]

text \<open>The tokens of \<open>strtok_r(str, ",", &ptr)\<close>.\<close>

fun strtok :: "string \<Rightarrow> string \<Rightarrow> string list" where
  "strtok [] acc = (if acc = [] then [] else [rev acc])"
| "strtok (c # cs) acc =
     (if c = CHR '','' then (if acc = [] then strtok cs [] else rev acc # strtok cs []) else strtok cs (c # acc))"

datatype merge_error = MERGE_NULL | MERGE_OVERFLOW

text \<open>Appending to \<open>result\<close>, a buffer of \<open>MAX_OPTIONS_LEN + 1\<close> bytes.\<close>

definition result_cat :: "string \<Rightarrow> string \<Rightarrow> merge_error + string" where
  "result_cat result s = (if length (result @ s) > MAX_OPTIONS_LEN then Inl MERGE_OVERFLOW else Inr (result @ s))"

text \<open>The pairs of options that exclude each other.\<close>

definition excluded :: "string \<Rightarrow> string \<Rightarrow> bool" where
  "excluded this opt2 \<longleftrightarrow>
     this = ''rw'' \<and> hasopt opt2 ''ro'' \<or> this = ''ro'' \<and> hasopt opt2 ''rw''
     \<or> this = ''bg'' \<and> hasopt opt2 ''fg'' \<or> this = ''fg'' \<and> hasopt opt2 ''bg''
     \<or> this = ''soft'' \<and> hasopt opt2 ''hard'' \<or> this = ''hard'' \<and> hasopt opt2 ''soft''"

text \<open>
  The body of the loop of \<open>merge_options\<close> on \<open>result\<close> and \<open>resultlen\<close>. For an option with
  a value that \<open>opt2\<close> gives too, the rest of the body sees the name alone. The length
  is added to \<open>resultlen\<close> in the first branch and assigned in the second.
\<close>

definition merge_token :: "string \<Rightarrow> string \<Rightarrow> string \<times> nat \<Rightarrow> merge_error + string \<times> nat" where
  "merge_token opt2 tok st =
     (let (result, resultlen) = st;
          name = takeWhile (\<lambda>c. c \<noteq> CHR ''='') tok;
          this = (if CHR ''='' \<in> set tok then name else tok)
      in if CHR ''='' \<in> set tok \<and> \<not> hasopt opt2 name then
           if resultlen + length name > MAX_OPTIONS_LEN then Inl MERGE_NULL
           else (case result_cat result (tok @ '','') of
                   Inl e \<Rightarrow> Inl e
                 | Inr r \<Rightarrow> Inr (r, resultlen + length tok + 1))
         else if excluded this opt2 then Inr (result, resultlen)
         else
           (let neg = (if strncmp_eq this ''no'' 2 then drop 2 this else ''no'' @ this)
            in if length neg > MAX_OPTION_LEN then Inl MERGE_NULL
               else if hasopt opt2 neg then Inr (result, resultlen)
               else if hasopt opt2 this then Inr (result, resultlen)
               else if resultlen + length this + 1 > MAX_OPTIONS_LEN then Inl MERGE_NULL
               else (case result_cat result (this @ '','') of
                       Inl e \<Rightarrow> Inl e
                     | Inr r \<Rightarrow> Inr (r, length this + 1))))"

fun merge_loop :: "string \<Rightarrow> string list \<Rightarrow> string \<times> nat \<Rightarrow> merge_error + string \<times> nat" where
  "merge_loop opt2 [] st = Inr st"
| "merge_loop opt2 (tok # toks) st =
     (case merge_token opt2 tok st of Inl e \<Rightarrow> Inl e | Inr st' \<Rightarrow> merge_loop opt2 toks st')"

text \<open>
  \<open>merge_options\<close>. \<open>garbage\<close> is the length of the string that the uninitialised buffer
  \<open>str\<close> happens to hold when it is tested; \<open>strcpy\<close> into \<open>str\<close> checks nothing. \<open>dup\<close>
  tells whether the final \<open>strdup\<close> succeeds.
\<close>

definition merge_dup :: "bool \<Rightarrow> string \<Rightarrow> merge_error + string" where
  "merge_dup dup s = (if dup then Inr s else Inl MERGE_NULL)"

definition merge_options :: "nat \<Rightarrow> bool \<Rightarrow> string option \<Rightarrow> string option \<Rightarrow> merge_error + string" where
  "merge_options garbage dup opt1 opt2 =
     (let o1 = (case opt1 of None \<Rightarrow> [] | Some s \<Rightarrow> s); o2 = (case opt2 of None \<Rightarrow> [] | Some s \<Rightarrow> s)
      in if o1 = [] \<and> o2 = [] then Inl MERGE_NULL
         else if o2 = [] then merge_dup dup o1
         else if o1 = [] then merge_dup dup o2
         else if o1 = o2 then merge_dup dup o1
         else if garbage > MAX_OPTIONS_LEN then Inl MERGE_NULL
         else if length o1 > MAX_OPTIONS_LEN then Inl MERGE_OVERFLOW
         else (case merge_loop o2 (strtok o1 []) ([], 0) of
                 Inl e \<Rightarrow> Inl e
               | Inr (result, resultlen) \<Rightarrow>
                   if resultlen + length o2 > MAX_OPTIONS_LEN then Inl MERGE_NULL
                   else (case result_cat result o2 of
                           Inl e \<Rightarrow> Inl e
                         | Inr r \<Rightarrow> merge_dup dup (if r \<noteq> [] \<and> last r = CHR '','' then butlast r else r))))"

section \<open>Macros in amd map entries\<close>

datatype expand_type = EXPAND_NONE | EXPAND_LEADING_SLASH | EXPAND_TRAILING_SLASH | EXPAND_LEADING_DOT | EXPAND_TRAILING_DOT

text \<open>\<open>basename\<close> and \<open>dirname\<close> of \<open>libgen.h\<close>.\<close>

definition strip_slashes :: "string \<Rightarrow> string" where
  "strip_slashes s = rev (dropWhile (\<lambda>c. c = CHR ''/'') (rev s))"

definition basename :: "string \<Rightarrow> string" where
  "basename s =
     (if s = [] then ''.''
      else if strip_slashes s = [] then ''/''
      else rev (takeWhile (\<lambda>c. c \<noteq> CHR ''/'') (rev (strip_slashes s))))"

definition dirname :: "string \<Rightarrow> string" where
  "dirname s =
     (if CHR ''/'' \<notin> set (strip_slashes s) then (if s \<noteq> [] \<and> hd s = CHR ''/'' then ''/'' else ''.'')
      else (let dir = strip_slashes (rev (dropWhile (\<lambda>c. c \<noteq> CHR ''/'') (rev (strip_slashes s))))
            in if dir = [] then ''/'' else dir))"

definition expand_slash_or_dot :: "string \<Rightarrow> expand_type \<Rightarrow> string option" where
  "expand_slash_or_dot str type =
     (case type of
        EXPAND_NONE \<Rightarrow> Some str
      | EXPAND_LEADING_SLASH \<Rightarrow> Some (basename str)
      | EXPAND_TRAILING_SLASH \<Rightarrow> Some (dirname str)
      | EXPAND_LEADING_DOT \<Rightarrow> map_option tl (strchr str (CHR ''.''))
      | EXPAND_TRAILING_DOT \<Rightarrow> Some (takeWhile (\<lambda>c. c \<noteq> CHR ''.'') str))"

text \<open>
  The name inside \<open>${...}\<close>: what is looked up, and how its value is cut. The two tests of
  \<open>p - 1\<close> see the opening brace when the name is empty, and \<open>end\<close> may pass \<open>start\<close>, which
  gives a negative length that matches no variable.
\<close>

definition amd_name :: "string \<Rightarrow> expand_type \<times> string option" where
  "amd_name name =
     (let lead = cstr_hd name; trail = (if name = [] then CHR ''{'' else last name);
          type1 = (if name \<noteq> [] \<and> lead = CHR ''/'' then EXPAND_LEADING_SLASH
                   else if name \<noteq> [] \<and> lead = CHR ''.'' then EXPAND_LEADING_DOT else EXPAND_NONE);
          start = (if type1 = EXPAND_NONE then 0 else 1 :: nat);
          type2 = (if trail = CHR ''/'' then EXPAND_TRAILING_SLASH
                   else if trail = CHR ''.'' then EXPAND_TRAILING_DOT else type1);
          end' = (if trail = CHR ''/'' \<or> trail = CHR ''.'' then length name - 1 else length name)
      in (type2, if start \<le> end' then Some (take (end' - start) (drop start name)) else None))"

lemma length_dropWhile_tl: "length (dropWhile P (tl s)) \<le> length s" "length (dropWhile P s) \<le> length s"
  using length_dropWhile_le [of P "tl s"] length_dropWhile_le [of P s] by auto

text \<open>
  \<open>expandamdent\<close>: the length it counts and what it writes to \<open>dst\<close>, which is filled with
  NUL before. \<open>norm\<close> is the flag \<open>CONF_NORMALIZE_SLASHES\<close>, \<open>start\<close> holds for the first
  character of the entry. When \<open>strdup\<close> fails the value of a macro is taken uncut.
\<close>

text \<open>
  One iteration of its loop, after \<open>ch\<close> was read: what it adds to the length, what it
  writes, the new \<open>squote\<close>, and the rest of the entry or \<open>None\<close> when it returns.
\<close>

definition expandamd_iter ::
  "bool \<Rightarrow> subst_table \<Rightarrow> subst_table \<Rightarrow> bool \<Rightarrow> bool \<Rightarrow> char \<Rightarrow> string \<Rightarrow> mem \<Rightarrow> nat \<times> string \<times> bool \<times> string option \<times> mem" where
  "expandamd_iter norm sys svc start squote ch src m =
     (if ch = CHR ''$'' then
        if cstr_hd src = CHR ''{'' then
          (case strchr (tl src) (CHR ''}'') of
             None \<Rightarrow> (0, [], squote, None, m)
           | Some p \<Rightarrow>
               (let name = takeWhile (\<lambda>c. c \<noteq> CHR ''}'') (tl src);
                    (type, n) = amd_name name
                in case Option.bind n (\<lambda>n. macro_findvar sys svc n (length n)) of
                     Some sv \<Rightarrow>
                       (let (ok, m1) = malloc m;
                            val = (if ok then (case expand_slash_or_dot (sv_val sv) type of None \<Rightarrow> sv_val sv | Some v \<Rightarrow> v)
                                   else sv_val sv)
                        in (length val, val, squote, Some (tl p), m1))
                   | None \<Rightarrow> (1 + 1 + length name + 1, ch # CHR ''{'' # name @ ''}'', squote, Some (tl p), m)))
        else (1, [ch], squote, Some src, m)
      else if ch = BSLASH then
        if squote \<or> \<not> norm then (1, [ch], squote, Some src, m)
        else (case src of [] \<Rightarrow> (0, [], squote, Some [], m) | c # src' \<Rightarrow> (1, [c], squote, Some src', m))
      else if ch = CHR ''/'' then
        if squote \<or> \<not> norm then (1, [ch], squote, Some src, m)
        else if start \<and> cstr_hd src = CHR ''/'' then
          (2, [ch, CHR ''/''], squote, Some (dropWhile (\<lambda>c. c = CHR ''/'') (tl src)), m)
        else (1, [ch], squote, Some (dropWhile (\<lambda>c. c = CHR ''/'') src), m)
      else if ch = SQUOTE then (1, [ch], \<not> squote, Some src, m)
      else (1, [ch], squote, Some src, m))"

lemma expandamd_iter_shorter:
  assumes "expandamd_iter norm sys svc start squote ch src m = (l, out, sq, Some rest, m')"
  shows "length rest \<le> length src"
proof -
  have "length (tl p) \<le> length src" if "strchr (tl src) (CHR ''}'') = Some p" for p
    using strchr_length [OF that] by auto
  with assms show ?thesis
    by (auto simp: expandamd_iter_def Let_def length_dropWhile_tl split: if_splits option.splits prod.splits list.splits)
qed

function expandamd_loop ::
  "bool \<Rightarrow> subst_table \<Rightarrow> subst_table \<Rightarrow> bool \<Rightarrow> bool \<Rightarrow> string \<Rightarrow> mem \<Rightarrow> nat \<times> string \<times> mem" where
  "expandamd_loop norm sys svc start squote [] m = (0, [], m)"
| "expandamd_loop norm sys svc start squote (ch # src) m =
     (case expandamd_iter norm sys svc start squote ch src m of
        (l, out, sq, None, m1) \<Rightarrow> (l, out, m1)
      | (l, out, sq, Some rest, m1) \<Rightarrow>
          (case expandamd_loop norm sys svc False sq rest m1 of (len, dst, m2) \<Rightarrow> (l + len, out @ dst, m2)))"
  by pat_completeness auto
termination
  by (relation "measure (\<lambda>(norm, sys, svc, start, squote, src, m). length src)")
    (auto simp: less_Suc_eq_le dest: expandamd_iter_shorter [OF sym])

definition expandamdent :: "bool \<Rightarrow> subst_table \<Rightarrow> subst_table \<Rightarrow> string \<Rightarrow> mem \<Rightarrow> nat \<times> string \<times> mem" where
  "expandamdent norm sys svc src m = expandamd_loop norm sys svc True False src m"

datatype expand_error = EXPAND_FAILED | EXPAND_OVERRUN

text \<open>\<open>expand_selectors\<close>: the second call writes into a buffer of the length counted by the first.\<close>

definition expand_selectors :: "bool \<Rightarrow> subst_table \<Rightarrow> subst_table \<Rightarrow> string option \<Rightarrow> mem \<Rightarrow> (expand_error + string) \<times> mem" where
  "expand_selectors norm sys sv mapstr m =
     (case mapstr of
        None \<Rightarrow> (Inl EXPAND_FAILED, m)
      | Some src \<Rightarrow>
          (case expandamdent norm sys sv src m of
             (len, _, m1) \<Rightarrow>
               if len = 0 then (Inl EXPAND_FAILED, m1)
               else (case malloc m1 of
                       (False, m2) \<Rightarrow> (Inl EXPAND_FAILED, m2)
                     | (True, m2) \<Rightarrow>
                         (case expandamdent norm sys sv src m2 of
                            (_, expand, m3) \<Rightarrow> (if length expand > len then Inl EXPAND_OVERRUN else Inr expand, m3)))))"

section \<open>Program maps\<close>

text \<open>\<open>next_arg\<close>: the argument and where the next one starts.\<close>

definition next_arg :: "string \<Rightarrow> (string \<times> string) option" where
  "next_arg str =
     (case str of
        [] \<Rightarrow> None
      | c # cs \<Rightarrow>
          (let start = (if c = SQUOTE then cs else c # cs);
               stop = (if c = SQUOTE then SQUOTE else CHR '' '');
               arg = takeWhile (\<lambda>x. x \<noteq> stop) start
           in Some (arg, drop (length arg + 1) start)))"

lemma next_arg_shorter: "next_arg str = Some (arg, next) \<Longrightarrow> length next < length str"
  by (auto simp: next_arg_def Let_def split: list.splits)

function construct_loop :: "string \<Rightarrow> argv \<Rightarrow> mem \<Rightarrow> (argv_error + argv) \<times> mem" where
  "construct_loop next args m =
     (case next_arg next of
        None \<Rightarrow> (Inr args, m)
      | Some (arg, next') \<Rightarrow>
          (case add_argv args arg m of
             (Inl e, m') \<Rightarrow> (Inl e, m')
           | (Inr args', m') \<Rightarrow> construct_loop next' args' m'))"
  by pat_completeness auto
termination
  by (relation "measure (\<lambda>(next, args, m). length next)") (auto dest: next_arg_shorter)

declare construct_loop.simps [simp del]

text \<open>\<open>construct_argv\<close>: program and arguments.\<close>

definition construct_argv :: "string \<Rightarrow> mem \<Rightarrow> (argv_error + string \<times> argv) \<times> mem" where
  "construct_argv str m =
     (case malloc m of
        (False, m1) \<Rightarrow> (Inl ARGV_NULL, m1)
      | (True, m1) \<Rightarrow>
          (case next_arg str of
             None \<Rightarrow> (Inl ARGV_NULL, m1)
           | Some (program, next) \<Rightarrow>
               (case construct_loop next [] m1 of
                  (Inl e, m2) \<Rightarrow> (Inl e, m2)
                | (Inr args, m2) \<Rightarrow> (Inr (program, args), m2))))"

section \<open>Map types\<close>

text \<open>
  \<open>parse_map_type_info\<close> works in place on a copy of the string: the buffer with its
  terminator, in which separators become NUL; a pointer is a position.
\<close>

definition map_type :: "string list" where
  "map_type = [''file'', ''program'', ''yp'', ''nis'', ''nisplus'', ''ldap'', ''ldaps'', ''hesiod'', ''userdir'', ''hosts'']"

definition format_type :: "string list" where
  "format_type = [''sun'', ''hesiod'', ''amd'']"

record map_type_info =
  mi_type :: "string option"
  mi_format :: "string option"
  mi_map :: "string option"

definition cstr_from :: "char list \<Rightarrow> nat \<Rightarrow> string" where
  "cstr_from buf pos = takeWhile (\<lambda>c. c \<noteq> NUL) (drop pos buf)"

text \<open>\<open>while (*pos == ' ') *pos++ = '\0';\<close>\<close>

definition zero_spaces :: "char list \<Rightarrow> nat \<Rightarrow> char list \<times> nat" where
  "zero_spaces buf pos =
     (let k = length (takeWhile (\<lambda>c. c = CHR '' '') (drop pos buf))
      in (take pos buf @ replicate k NUL @ drop (pos + k) buf, pos + k))"

text \<open>From a space or colon behind a name to the map; \<open>None\<close> without a colon.\<close>

definition parse_colon :: "char list \<Rightarrow> nat \<Rightarrow> (char list \<times> nat) option" where
  "parse_colon buf pos =
     (let (buf1, pos1) = zero_spaces buf pos
      in if buf1 ! pos1 \<noteq> CHR '':'' then None else Some (zero_spaces (buf1[pos1 := NUL]) (pos1 + 1)))"

text \<open>The loop over the formats: \<open>None\<close> when the routine returns \<open>NULL\<close>.\<close>

fun format_loop :: "string list \<Rightarrow> char list \<Rightarrow> nat \<Rightarrow> nat option \<Rightarrow> (char list \<times> nat option \<times> nat option) option" where
  "format_loop [] buf pos fmt = Some (buf, fmt, None)"
| "format_loop (f # fs) buf pos fmt =
     (if \<not> strncmp_eq f (cstr_from buf pos) (length f) then format_loop fs buf pos fmt
      else if buf ! (pos + length f) = CHR '' '' \<or> buf ! (pos + length f) = CHR '':''
      then (case parse_colon buf (pos + length f) of
              None \<Rightarrow> None
            | Some (buf', map') \<Rightarrow> Some (buf', Some pos, Some map'))
      else format_loop fs buf (pos + length f) (Some pos))"

text \<open>The loop over the types; after a format it goes on with the next type.\<close>

fun type_loop :: "string list \<Rightarrow> char list \<Rightarrow> bool \<Rightarrow> nat option \<Rightarrow> nat option
    \<Rightarrow> (char list \<times> bool \<times> nat option \<times> nat option) option" where
  "type_loop [] buf type fmt map' = Some (buf, type, fmt, map')"
| "type_loop (t # ts) buf type fmt map' =
     (if \<not> strncmp_eq t (cstr_from buf 0) (length t) then type_loop ts buf type fmt map'
      else if buf ! length t = CHR '' '' \<or> buf ! length t = CHR '':''
      then (case parse_colon buf (length t) of
              None \<Rightarrow> None
            | Some (buf', map'') \<Rightarrow> Some (buf', True, fmt, Some map''))
      else if buf ! length t = CHR '',''
      then (case format_loop format_type (buf[length t := NUL]) (length t + 1) fmt of
              None \<Rightarrow> None
            | Some (buf', fmt', m) \<Rightarrow> type_loop ts buf' True fmt' (case m of None \<Rightarrow> map' | Some p \<Rightarrow> Some p))
      else type_loop ts buf True fmt map')"

text \<open>The loop that ends the string at the first space; \<open>None\<close> when it leaves the buffer.\<close>

fun space_term :: "char list \<Rightarrow> char list option" where
  "space_term [] = None"
| "space_term (c # cs) =
     (if c = NUL then Some (c # cs)
      else if c = CHR '' '' then Some (NUL # cs)
      else if c = BSLASH then (case cs of [] \<Rightarrow> None | d # ds \<Rightarrow> map_option (\<lambda>r. c # d # r) (space_term ds))
      else map_option (\<lambda>r. c # r) (space_term cs))"

text \<open>The allocations for the parts that were found.\<close>

fun strdup_all :: "nat \<Rightarrow> mem \<Rightarrow> bool \<times> mem" where
  "strdup_all 0 m = (True, m)"
| "strdup_all (Suc n) m = (case malloc m of (False, m1) \<Rightarrow> (False, m1) | (True, m1) \<Rightarrow> strdup_all n m1)"

text \<open>\<open>Inl\<close> for a read behind the buffer, \<open>Inr None\<close> for \<open>NULL\<close>.\<close>

definition parse_map_type_info :: "string \<Rightarrow> mem \<Rightarrow> (unit + map_type_info option) \<times> mem" where
  "parse_map_type_info str m =
     (case strdup_all 2 m of
        (False, m1) \<Rightarrow> (Inr None, m1)
      | (True, m1) \<Rightarrow>
          (let buf = str @ [NUL];
               parsed = (if CHR '':'' \<notin> set str
                         then (case zero_spaces buf 0 of (b, p) \<Rightarrow> Some (b, False, None, Some p))
                         else (case type_loop map_type buf False None None of
                                 None \<Rightarrow> None
                               | Some (b, type, fmt, map') \<Rightarrow>
                                   if \<not> type then (case zero_spaces b 0 of (b', p) \<Rightarrow> Some (b', type, fmt, Some p))
                                   else Some (b, type, fmt, map')))
           in case parsed of
                None \<Rightarrow> (Inr None, m1)
              | Some (b, type, fmt, map') \<Rightarrow>
                  (case space_term b of
                     None \<Rightarrow> (Inl (), m1)
                   | Some b' \<Rightarrow>
                       (let info = \<lparr>mi_type = (if type then Some (cstr_from b' 0) else None),
                                    mi_format = map_option (cstr_from b') fmt, mi_map = map_option (cstr_from b') map'\<rparr>
                        in case strdup_all (length (filter (\<lambda>x. x \<noteq> None) [mi_type info, mi_format info, mi_map info])) m1 of
                             (True, m2) \<Rightarrow> (Inr (Some info), m2)
                           | (False, m2) \<Rightarrow> (Inr None, m2)))))"

section \<open>Selectors\<close>

text \<open>The names of \<open>sel_table\<close> with their numbers, and the hash table over them.\<close>

datatype sel_id =
    SEL_ARCH | SEL_KARCH | SEL_OS | SEL_OSVER | SEL_FULL_OS | SEL_VENDOR | SEL_HOST | SEL_HOSTD | SEL_XHOST | SEL_DOMAIN
  | SEL_BYTE | SEL_CLUSTER | SEL_NETGRP | SEL_NETGRPD | SEL_IN_NETWORK | SEL_UID | SEL_GID | SEL_KEY | SEL_MAP | SEL_PATH
  | SEL_EXISTS | SEL_AUTODIR | SEL_DOLLAR | SEL_TRUE | SEL_FALSE

datatype sel_kind = SEL_MACRO_STR | SEL_MACRO_NUM | SEL_FUNC1_BOOL | SEL_FUNC2_BOOL

record sel =
  sel_sel :: sel_id
  sel_name :: string
  sel_flags :: sel_kind

definition sel_entry :: "sel_id \<times> string \<times> sel_kind \<Rightarrow> sel" where
  "sel_entry e = (case e of (i, n, k) \<Rightarrow> \<lparr>sel_sel = i, sel_name = n, sel_flags = k\<rparr>)"

definition sel_table :: "sel list" where
  "sel_table = map sel_entry
     [(SEL_ARCH, ''arch'', SEL_MACRO_STR), (SEL_KARCH, ''karch'', SEL_MACRO_STR), (SEL_OS, ''os'', SEL_MACRO_STR),
      (SEL_OSVER, ''osver'', SEL_MACRO_STR), (SEL_FULL_OS, ''full_os'', SEL_MACRO_STR), (SEL_VENDOR, ''vendor'', SEL_MACRO_STR),
      (SEL_HOST, ''host'', SEL_MACRO_STR), (SEL_HOSTD, ''hostd'', SEL_MACRO_STR), (SEL_XHOST, ''xhost'', SEL_FUNC1_BOOL),
      (SEL_DOMAIN, ''domain'', SEL_MACRO_STR), (SEL_BYTE, ''byte'', SEL_MACRO_STR), (SEL_CLUSTER, ''cluster'', SEL_MACRO_STR),
      (SEL_NETGRP, ''netgrp'', SEL_FUNC2_BOOL), (SEL_NETGRPD, ''netgrpd'', SEL_FUNC2_BOOL),
      (SEL_IN_NETWORK, ''in_network'', SEL_FUNC1_BOOL), (SEL_IN_NETWORK, ''netnumber'', SEL_FUNC1_BOOL),
      (SEL_IN_NETWORK, ''network'', SEL_FUNC1_BOOL), (SEL_IN_NETWORK, ''wire'', SEL_FUNC1_BOOL),
      (SEL_UID, ''uid'', SEL_MACRO_NUM), (SEL_GID, ''gid'', SEL_MACRO_NUM), (SEL_KEY, ''key'', SEL_MACRO_STR),
      (SEL_MAP, ''map'', SEL_MACRO_STR), (SEL_PATH, ''path'', SEL_MACRO_STR), (SEL_EXISTS, ''exists'', SEL_FUNC1_BOOL),
      (SEL_AUTODIR, ''autodir'', SEL_MACRO_STR), (SEL_DOLLAR, ''dollar'', SEL_MACRO_STR),
      (SEL_TRUE, ''true'', SEL_FUNC1_BOOL), (SEL_FALSE, ''false'', SEL_FUNC1_BOOL)]"

definition SELECTOR_HASH_SIZE :: u32 where "SELECTOR_HASH_SIZE = 20"

definition sel_add :: "sel \<Rightarrow> sel list list \<Rightarrow> sel list list" where
  "sel_add s tbl = (let hval = unat (hash (sel_name s) SELECTOR_HASH_SIZE) in tbl[hval := s # tbl ! hval])"

definition sel_hash_init :: "sel list list" where
  "sel_hash_init = fold sel_add sel_table (replicate (unat SELECTOR_HASH_SIZE) [])"

definition sel_lookup :: "sel list list \<Rightarrow> string \<Rightarrow> sel option" where
  "sel_lookup tbl name =
     (case chain_find (\<lambda>s. sel_name s = name) (tbl ! unat (hash name SELECTOR_HASH_SIZE)) of [] \<Rightarrow> None | s # _ \<Rightarrow> Some s)"

text \<open>\<open>ipv6_mask_cmp\<close> on the four words of the addresses.\<close>

fun ipv6_mask_cmp :: "u32 list \<Rightarrow> u32 list \<Rightarrow> u32 list \<Rightarrow> bool" where
  "ipv6_mask_cmp (h # hs) (i # is) (m # ms) = (if (h AND m) \<noteq> (i AND m) then False else ipv6_mask_cmp hs is ms)"
| "ipv6_mask_cmp _ _ _ = True"

end
