(* ===== verification/Parse_Props.thy ===== *)
theory Parse_Props
  imports Parse_Subs
begin

text \<open>
  The properties of the string routines: finding and merging mount options, expanding macros
  within the space counted for them, quoting and dequoting, clean paths, splitting command
  lines, and the inputs on which the routines read or write outside their strings.
\<close>

section \<open>Mount options as lists\<close>

abbreviation COMMA :: char where "COMMA \<equiv> CHR '',''"

text \<open>The fields of a string between its commas.\<close>

fun fields :: "string \<Rightarrow> string list" where
  "fields [] = [[]]"
| "fields (c # s) = (if c = COMMA then [] # fields s else (c # hd (fields s)) # tl (fields s))"

lemma fields_not_Nil [simp]: "fields s \<noteq> []"
  by (cases s) auto

lemma fields_plain: "COMMA \<notin> set s \<Longrightarrow> fields s = [s]"
  by (induction s) auto

lemma fields_append: "fields (a @ COMMA # b) = fields a @ fields b"
  by (induction a) auto

text \<open>A field is a stretch without commas that starts and ends at a comma or at an end.\<close>

definition field_at :: "string \<Rightarrow> string \<Rightarrow> string \<Rightarrow> string \<Rightarrow> bool" where
  "field_at s u e v \<longleftrightarrow> s = u @ e @ v \<and> COMMA \<notin> set e \<and> (u = [] \<or> last u = COMMA) \<and> (v = [] \<or> hd v = COMMA)"

lemma fields_iff: "e \<in> set (fields s) \<longleftrightarrow> (\<exists>u v. field_at s u e v)"
proof
  assume "e \<in> set (fields s)"
  then show "\<exists>u v. field_at s u e v"
  proof (induction "length s" arbitrary: s rule: less_induct)
    case less
    show ?case
    proof (cases "COMMA \<in> set s")
      case False
      with less.prems have "field_at s [] e []" by (simp add: fields_plain field_at_def)
      then show ?thesis by blast
    next
      case True
      then obtain a b where s: "s = a @ COMMA # b" "COMMA \<notin> set a" by (meson split_list_first)
      with less.prems consider "e = a" | "e \<in> set (fields b)" by (auto simp: fields_append fields_plain)
      then show ?thesis
      proof cases
        case 1
        with s have "field_at s [] e (COMMA # b)" by (simp add: field_at_def)
        then show ?thesis by blast
      next
        case 2
        with less.hyps [of b] s obtain u v where "field_at b u e v" by auto
        with s have "field_at s (a @ COMMA # u) e v" by (auto simp: field_at_def)
        then show ?thesis by blast
      qed
    qed
  qed
next
  assume "\<exists>u v. field_at s u e v"
  then obtain u v where f: "field_at s u e v" by blast
  have e: "e \<in> set (fields (e @ v))"
    using f by (cases v) (auto simp: field_at_def fields_plain fields_append)
  show "e \<in> set (fields s)"
  proof (cases "u = []")
    case False
    with f obtain u' where "u = u' @ [COMMA]" by (metis append_butlast_last_id field_at_def)
    with f e show ?thesis by (simp add: field_at_def fields_append)
  qed (use f e in \<open>simp add: field_at_def\<close>)
qed

lemma takeWhile_stop: "c \<notin> set a \<Longrightarrow> takeWhile (\<lambda>x. x \<noteq> c) (a @ c # b) = a"
  by (induction a) auto

text \<open>A field gives an option, alone or with a value.\<close>

definition gives :: "string \<Rightarrow> string \<Rightarrow> bool" where
  "gives opt e \<longleftrightarrow> (\<exists>v. e = opt \<or> e = opt @ CHR ''='' # v)"

lemma strstr_None: "strstr s pat = None \<Longrightarrow> s \<noteq> u @ pat @ v"
proof (induction s pat arbitrary: u rule: strstr.induct)
  case (2 c cs pat)
  show ?case
  proof (cases u)
    case Nil
    with 2 show ?thesis by (auto simp: strncmp_eq_def split: if_splits)
  next
    case (Cons d u')
    with 2 show ?thesis by (auto split: if_splits)
  qed
qed (auto split: if_splits)

lemma strstr_first: "strstr s pat = Some (pre, p) \<Longrightarrow> s = u @ pat @ v \<Longrightarrow> length pre \<le> length u"
proof (induction s pat arbitrary: u pre rule: strstr.induct)
  case (2 c cs pat)
  show ?case
  proof (cases "strncmp_eq (c # cs) pat (length pat)")
    case True
    with "2.prems"(1) have "pre = []" by simp
    then show ?thesis by simp
  next
    case False
    with "2.prems"(1) obtain pre' where pre': "pre = c # pre'" "strstr cs pat = Some (pre', p)" by auto
    show ?thesis
    proof (cases u)
      case Nil
      with False "2.prems" show ?thesis by (auto simp: strncmp_eq_def)
    next
      case (Cons d u')
      with "2.IH" [OF False pre'(2), of u'] pre'(1) "2.prems"(2) show ?thesis by simp
    qed
  qed
qed (auto split: if_splits)

text \<open>The first occurrence of an option decides about the field it is in.\<close>

lemma first_field:
  assumes s: "strstr s opt = Some (pre, p)" and opt: "COMMA \<notin> set opt" and str: "cstring s"
    and e: "field_at (pre @ takeWhile (\<lambda>c. c \<noteq> COMMA) p) u e v" "gives opt e"
  shows "(pre = [] \<or> last pre = COMMA) \<and> cstr_hd (drop (length opt) p) \<in> {NUL, CHR ''='', COMMA}"
proof -
  let ?q = "takeWhile (\<lambda>c. c \<noteq> COMMA) p"
  define q' where "q' = dropWhile (\<lambda>c. c \<noteq> COMMA) p"
  have p: "p = ?q @ q'" "q' = [] \<or> hd q' = COMMA"
    using hd_dropWhile [of "\<lambda>c. c \<noteq> COMMA" p] by (simp_all add: q'_def) blast
  have sp: "s = pre @ p" using strstr_split [OF s] by simp
  obtain w where w: "e = opt @ w" "w = [] \<or> hd w = CHR ''='' \<and> w \<noteq> []" using e(2) by (auto simp: gives_def)
  have A: "pre @ ?q = u @ e @ v" using e(1) by (simp add: field_at_def)
  have "s = u @ opt @ (w @ v @ q')" using sp p(1) A w(1) by (metis append.assoc)
  from strstr_first [OF s this] have le: "length pre \<le> length u" .
  then obtain x where x: "u = pre @ x" "?q = x @ e @ v" using A by (auto simp: append_eq_append_conv2)
  have nocomma: "COMMA \<notin> set ?q" by (auto dest: set_takeWhileD)
  then have "COMMA \<notin> set x" "COMMA \<notin> set v" using x(2) by auto
  then have "x = []" using e(1) x(1) unfolding field_at_def by (metis append_is_Nil_conv last_appendR last_in_set)
  moreover have "v = []" using e(1) \<open>COMMA \<notin> set v\<close> unfolding field_at_def by (metis hd_in_set)
  ultimately have q: "?q = opt @ w" "u = pre" using x w(1) by auto
  have "drop (length opt) p = w @ q'" using p(1) q(1) by (metis append.assoc append_eq_conv_conj)
  moreover have "q' = [] \<or> cstr_hd q' = COMMA" using p(2) by (cases q') auto
  ultimately have "cstr_hd (drop (length opt) p) \<in> {NUL, CHR ''='', COMMA}"
    using w(2) by (cases w; cases q') auto
  with e(1) q(2) show ?thesis by (simp add: field_at_def)
qed

lemma hasopt_found:
  assumes s: "strstr s opt = Some (pre, p)" and opt: "COMMA \<notin> set opt" and str: "cstring s"
    and b: "pre = [] \<or> last pre = COMMA" "cstr_hd (drop (length opt) p) \<in> {NUL, CHR ''='', COMMA}"
  shows "\<exists>e \<in> set (fields s). gives opt e"
proof -
  let ?e = "takeWhile (\<lambda>c. c \<noteq> COMMA) p" and ?v = "dropWhile (\<lambda>c. c \<noteq> COMMA) p"
  have sp: "s = pre @ p" "take (length opt) p = opt" using strstr_split [OF s] by simp_all
  have "?v = [] \<or> hd ?v = COMMA" using hd_dropWhile [of "\<lambda>c. c \<noteq> COMMA" p] by blast
  then have f: "field_at s pre ?e ?v" using sp b(1) by (auto simp: field_at_def dest: set_takeWhileD)
  define r where "r = drop (length opt) p"
  have pr: "p = opt @ r" using sp(2) by (metis append_take_drop_id r_def)
  have e: "?e = opt @ takeWhile (\<lambda>c. c \<noteq> COMMA) r" using opt by (subst pr, intro takeWhile_append2) auto
  have "gives opt ?e"
  proof (cases r)
    case Nil
    with e show ?thesis by (simp add: gives_def)
  next
    case (Cons c r')
    then have "c \<noteq> NUL" using str sp(1) pr by (auto simp: cstring_def)
    with b(2) Cons have "c = CHR ''='' \<or> c = COMMA" by (simp flip: r_def)
    with e Cons show ?thesis by (auto simp: gives_def)
  qed
  with f show ?thesis using fields_iff by blast
qed

lemma hasopt_eq_fields:
  assumes opt: "COMMA \<notin> set opt" and str: "cstring s"
  shows "hasopt s opt \<longleftrightarrow> (\<exists>e \<in> set (fields s). gives opt e)"
  using str
proof (induction "length s" arbitrary: s rule: less_induct)
  case less
  note un = hasopt.simps [of s opt]
  show ?case
  proof (cases "strstr s opt")
    case None
    have "\<not> gives opt e" if mem: "e \<in> set (fields s)" for e
    proof
      assume "gives opt e"
      then obtain w where "e = opt @ w" by (auto simp: gives_def)
      moreover obtain u v where "s = u @ e @ v" using fields_iff [THEN iffD1, OF mem] by (auto simp: field_at_def)
      ultimately show False using strstr_None [OF None, of u "w @ v"] by simp
    qed
    with un None show ?thesis by auto
  next
    case (Some x)
    obtain pre p where x: "strstr s opt = Some (pre, p)" using Some by (cases x) auto
    have sp: "s = pre @ p" using strstr_split [OF x] by simp
    let ?b = "(pre = [] \<or> last pre = COMMA) \<and> cstr_hd (drop (length opt) p) \<in> {NUL, CHR ''='', COMMA}"
    let ?q = "takeWhile (\<lambda>c. c \<noteq> COMMA) p"
    show ?thesis
    proof (cases ?b)
      case True
      with un x hasopt_found [OF x opt less.prems] show ?thesis by auto
    next
      case False
      have none: "\<not> gives opt e" if "e \<in> set (fields (pre @ ?q))" for e
        using that fields_iff [of e "pre @ ?q"] first_field [OF x opt less.prems] False by blast
      show ?thesis
      proof (cases "strchr p COMMA")
        case n: None
        then have "?q = p" by (auto simp: strchr_None_iff takeWhile_eq_all_conv)
        with un x False n none sp show ?thesis by auto
      next
        case r: (Some r)
        then obtain a b where ab: "p = a @ COMMA # b" "r = COMMA # b" "COMMA \<notin> set a" using strchr_Some_decomp by blast
        then have "?q = a" by (simp add: takeWhile_stop)
        with none sp ab have "fields s = fields (pre @ ?q) @ fields b" by (simp flip: append_assoc add: fields_append)
        moreover have "hasopt s opt = hasopt b opt" using un x False r ab(2) by auto
        moreover have "length b < length s" "cstring b" using sp ab less.prems by (simp_all add: cstring_def)
        ultimately show ?thesis using less.hyps none by auto
      qed
    qed
  qed
qed

section \<open>Merging mount options\<close>

text \<open>What the options of a string override.\<close>

definition has :: "string \<Rightarrow> string \<Rightarrow> bool" where
  "has opts opt \<longleftrightarrow> (\<exists>e \<in> set (fields opts). gives opt e)"

definition negation :: "string \<Rightarrow> string" where
  "negation opt = (if take 2 opt = ''no'' then drop 2 opt else ''no'' @ opt)"

definition opposites :: "(string \<times> string) set" where
  "opposites = {(''rw'', ''ro''), (''ro'', ''rw''), (''bg'', ''fg''), (''fg'', ''bg''), (''soft'', ''hard''), (''hard'', ''soft'')}"

definition overridden :: "string \<Rightarrow> string \<Rightarrow> bool" where
  "overridden opts opt \<longleftrightarrow>
     (if CHR ''='' \<in> set opt then has opts (takeWhile (\<lambda>c. c \<noteq> CHR ''='') opt)
      else has opts opt \<or> has opts (negation opt) \<or> (\<exists>(a, b) \<in> opposites. opt = a \<and> has opts b))"

definition with_commas :: "string list \<Rightarrow> string" where
  "with_commas toks = concat (map (\<lambda>t. t @ '','') toks)"

lemma with_commas_simps [simp]:
  "with_commas [] = []" "with_commas (t # ts) = t @ '','' @ with_commas ts" "with_commas (a @ b) = with_commas a @ with_commas b"
  by (simp_all add: with_commas_def)

lemma strtok_tokens: "t \<in> set (strtok s acc) \<Longrightarrow> COMMA \<notin> set acc \<Longrightarrow> t \<noteq> [] \<and> COMMA \<notin> set t \<and> set t \<subseteq> set s \<union> set acc"
proof (induction s acc rule: strtok.induct)
  case (2 c cs acc)
  show ?case
  proof (cases "c = COMMA")
    case True
    with 2 show ?thesis by (auto split: if_splits)
  next
    case False
    with 2 show ?thesis by auto
  qed
qed (auto split: if_splits)

lemma strtok_length: "length (with_commas (strtok s acc)) \<le> length s + length acc + 1"
  by (induction s acc rule: strtok.induct) auto

lemma excluded_iff:
  assumes "cstring opts"
  shows "excluded opt opts \<longleftrightarrow> (\<exists>(a, b) \<in> opposites. opt = a \<and> has opts b)"
proof -
  have "hasopt opts ''ro'' = has opts ''ro''" "hasopt opts ''rw'' = has opts ''rw''" "hasopt opts ''fg'' = has opts ''fg''"
    "hasopt opts ''bg'' = has opts ''bg''" "hasopt opts ''hard'' = has opts ''hard''" "hasopt opts ''soft'' = has opts ''soft''"
    unfolding has_def by (rule hasopt_eq_fields [OF _ assms], simp)+
  then show ?thesis unfolding excluded_def opposites_def by simp
qed

text \<open>One option that is short enough: it is dropped when it is overridden, appended otherwise.\<close>

lemma merge_token_result:
  assumes o2: "cstring opts" and tok: "COMMA \<notin> set tok" "length tok + 2 \<le> MAX_OPTION_LEN"
    and len: "n \<le> length r" "length r + length tok + 1 \<le> MAX_OPTIONS_LEN"
  shows "if overridden opts tok then merge_token opts tok (r, n) = Inr (r, n)
    else merge_token opts tok (r, n) = Inr (r @ tok @ '','', if CHR ''='' \<in> set tok then n + length tok + 1 else length tok + 1)"
proof -
  let ?name = "takeWhile (\<lambda>c. c \<noteq> CHR ''='') tok"
  let ?opt = "if CHR ''='' \<in> set tok then ?name else tok"
  have nm: "COMMA \<notin> set ?name" "length ?name \<le> length tok" using tok(1) by (auto dest: set_takeWhileD simp: length_takeWhile_le)
  have opt: "COMMA \<notin> set ?opt" "length ?opt \<le> length tok" using nm tok by auto
  have neg: "COMMA \<notin> set (negation x)" "length (negation x) \<le> length x + 2" if "COMMA \<notin> set x" for x
    using that by (auto simp: negation_def dest: in_set_dropD)
  have h: "hasopt opts x = has opts x" if "COMMA \<notin> set x" for x using hasopt_eq_fields [OF that o2] by (simp add: has_def)
  have cat: "result_cat r (tok @ '','') = Inr (r @ tok @ '','')" using len(2) by (simp add: result_cat_def)
  have negeq: "(if strncmp_eq x ''no'' 2 then drop 2 x else ''no'' @ x) = negation x" for x
    by (simp add: negation_def strncmp_eq_def)
  show ?thesis
  proof (cases "CHR ''='' \<in> set tok \<and> \<not> has opts ?name")
    case True
    then have "merge_token opts tok (r, n) = Inr (r @ tok @ '','', n + length tok + 1)"
      using len nm h [OF nm(1)] cat by (simp add: merge_token_def)
    with True show ?thesis by (simp add: overridden_def)
  next
    case False
    have ln: "length (negation ?opt) \<le> MAX_OPTION_LEN" using neg(2) [OF opt(1)] opt(2) tok(2) by linarith
    have "merge_token opts tok (r, n) =
      (if excluded ?opt opts \<or> has opts (negation ?opt) \<or> has opts ?opt then Inr (r, n)
       else if n + length ?opt + 1 > MAX_OPTIONS_LEN then Inl MERGE_NULL
       else case result_cat r (?opt @ '','') of Inl e \<Rightarrow> Inl e | Inr s \<Rightarrow> Inr (s, length ?opt + 1))"
      using False ln h [OF nm(1)] h [OF opt(1)] h [OF neg(1) [OF opt(1)]]
      unfolding merge_token_def Let_def negeq by auto
    with False len cat excluded_iff [OF o2] show ?thesis by (auto simp: overridden_def)
  qed
qed

abbreviation kept :: "string \<Rightarrow> string list \<Rightarrow> string list" where
  "kept opts toks \<equiv> filter (\<lambda>t. \<not> overridden opts t) toks"

lemma merge_loop_result:
  assumes "cstring opts" and "\<forall>t \<in> set toks. COMMA \<notin> set t \<and> length t + 2 \<le> MAX_OPTION_LEN"
    and "n \<le> length r" and "length r + length (with_commas toks) \<le> MAX_OPTIONS_LEN"
  shows "\<exists>n'. merge_loop opts toks (r, n) = Inr (r @ with_commas (kept opts toks), n')
    \<and> n' \<le> length (r @ with_commas (kept opts toks))
    \<and> ((\<forall>t \<in> set toks. CHR ''='' \<notin> set t) \<longrightarrow> n' = (if kept opts toks = [] then n else length (last (kept opts toks)) + 1))"
  using assms(2-)
proof (induction toks arbitrary: r n)
  case (Cons t toks)
  from merge_token_result [OF assms(1), of t n r] Cons.prems
  have m: "if overridden opts t then merge_token opts t (r, n) = Inr (r, n)
    else merge_token opts t (r, n) = Inr (r @ t @ '','', if CHR ''='' \<in> set t then n + length t + 1 else length t + 1)"
    by simp
  show ?case
  proof (cases "overridden opts t")
    case True
    with m Cons.IH [of n r] Cons.prems show ?thesis by auto
  next
    case False
    let ?n = "if CHR ''='' \<in> set t then n + length t + 1 else length t + 1"
    from Cons.IH [of ?n "r @ t @ '',''"] Cons.prems False m show ?thesis
      by (auto simp: last_append)
  qed
qed simp

text \<open>
  C4: merge_options keeps exactly the options of the first string that the second does not
  override, in their order, and puts them before the second string: an option with a value
  is overridden when the second string gives that name, another one when the second string
  has it, its negation or its opposite. This holds as long as the strings fit the buffers.
\<close>

theorem merge_options_correct:
  assumes "cstring o2" and "o1 \<noteq> []" and "o2 \<noteq> []" and "o1 \<noteq> o2" and "last o2 \<noteq> COMMA"
    and "garbage \<le> MAX_OPTIONS_LEN" and "length o1 + 1 + length o2 \<le> MAX_OPTIONS_LEN"
    and "\<forall>t \<in> set (strtok o1 []). length t + 2 \<le> MAX_OPTION_LEN"
  shows "merge_options garbage True (Some o1) (Some o2) =
    Inr (with_commas (filter (\<lambda>t. \<not> overridden o2 t) (strtok o1 [])) @ o2)"
proof -
  let ?k = "with_commas (kept o2 (strtok o1 []))"
  have toks: "\<forall>t \<in> set (strtok o1 []). COMMA \<notin> set t \<and> length t + 2 \<le> MAX_OPTION_LEN"
    using strtok_tokens [of _ o1 "[]"] assms(8) by auto
  have len: "length (with_commas (strtok o1 [])) \<le> length o1 + 1" using strtok_length [of o1 "[]"] by simp
  then obtain n where n: "merge_loop o2 (strtok o1 []) ([], 0) = Inr (?k, n)" "n \<le> length ?k"
    using merge_loop_result [OF assms(1) toks, of 0 "[]"] assms(7) by auto
  have "length (with_commas (filter P ts)) \<le> length (with_commas ts)" for P ts by (induction ts) auto
  with len have "length ?k \<le> length o1 + 1" using le_trans by blast
  with n assms show ?thesis
    by (simp add: merge_options_def merge_dup_def result_cat_def)
qed

lemma has_plain: "COMMA \<notin> set opts \<Longrightarrow> has opts opt \<longleftrightarrow> gives opt opts"
  by (simp add: has_def fields_plain)

theorem merge_options_correct_witness:
  "merge_options 0 True (Some ''rw,soft,timeo=7,nosuid'') (Some ''ro,timeo=5'') = Inr (''soft,nosuid,ro,timeo=5'')"
proof -
  have st: "strtok ''rw,soft,timeo=7,nosuid'' [] = [''rw'', ''soft'', ''timeo=7'', ''nosuid'']" by simp
  have f: "fields ''ro,timeo=5'' = [''ro'', ''timeo=5'']" by simp
  have h: "has ''ro,timeo=5'' x \<longleftrightarrow> x = ''ro'' \<or> x = ''timeo'' \<or> x = ''timeo=5''" for x
    unfolding has_def f by (auto simp: gives_def Cons_eq_append_conv)
  have k: "filter (\<lambda>t. \<not> overridden ''ro,timeo=5'' t) [''rw'', ''soft'', ''timeo=7'', ''nosuid''] = [''soft'', ''nosuid'']"
    by (simp add: overridden_def h negation_def opposites_def)
  have "merge_options 0 True (Some ''rw,soft,timeo=7,nosuid'') (Some ''ro,timeo=5'') =
    Inr (with_commas (filter (\<lambda>t. \<not> overridden ''ro,timeo=5'' t) (strtok ''rw,soft,timeo=7,nosuid'' [])) @ ''ro,timeo=5'')"
    by (rule merge_options_correct) (simp_all add: st cstring_def NUL_def MAX_OPTIONS_LEN_def MAX_OPTION_LEN_def)
  then show ?thesis unfolding st k by simp
qed

text \<open>
  Strings that each fit can still overflow the buffer for the result: the length kept
  for it is that of the last option alone, so options that fit one by one are appended to a
  full buffer.
\<close>

theorem merge_options_overflow:
  assumes "cstring o2" and "o2 \<noteq> []" and "o1 \<noteq> o2" and "garbage \<le> MAX_OPTIONS_LEN" and "length o1 < MAX_OPTIONS_LEN"
    and "\<forall>t \<in> set (strtok o1 []). length t + 2 \<le> MAX_OPTION_LEN \<and> CHR ''='' \<notin> set t \<and> \<not> overridden o2 t"
    and "strtok o1 [] \<noteq> []" and "length (last (strtok o1 [])) + 1 + length o2 \<le> MAX_OPTIONS_LEN"
    and "length (with_commas (strtok o1 [])) + length o2 > MAX_OPTIONS_LEN"
  shows "merge_options garbage dup (Some o1) (Some o2) = Inl MERGE_OVERFLOW"
proof -
  have toks: "\<forall>t \<in> set (strtok o1 []). COMMA \<notin> set t \<and> length t + 2 \<le> MAX_OPTION_LEN"
    using strtok_tokens [of _ o1 "[]"] assms(6) by auto
  have k: "kept o2 (strtok o1 []) = strtok o1 []" using assms(6) by (auto intro: filter_True)
  have len: "length (with_commas (strtok o1 [])) \<le> MAX_OPTIONS_LEN" using strtok_length [of o1 "[]"] assms(5) by simp
  have "o1 \<noteq> []" using assms(7) by auto
  moreover obtain n where "merge_loop o2 (strtok o1 []) ([], 0) = Inr (with_commas (strtok o1 []), n)" "n = length (last (strtok o1 [])) + 1"
    using merge_loop_result [OF assms(1) toks, of 0 "[]"] len k assms(6,7) by auto
  ultimately show ?thesis
    using assms by (simp add: merge_options_def result_cat_def)
qed

theorem merge_options_overflow_witness:
  "merge_options 0 True (Some (concat (replicate 25 ''ab,''))) (Some (replicate 200 (CHR ''x''))) = Inl MERGE_OVERFLOW"
proof -
  let ?o2 = "replicate 200 (CHR ''x'')"
  have st: "strtok (concat (replicate n ''ab,'')) [] = replicate n ''ab''" for n by (induction n) simp_all
  have "\<not> has ?o2 opt" if "hd opt \<noteq> CHR ''x''" "opt \<noteq> []" for opt
  proof
    assume "has ?o2 opt"
    then obtain w where "?o2 = opt @ w" by (auto simp: has_plain gives_def)
    with that have "hd opt \<in> set ?o2" by (metis UnCI hd_in_set set_append)
    with that show False by simp
  qed
  then have "\<not> overridden ?o2 ''ab''" by (simp add: overridden_def negation_def opposites_def)
  moreover have "length (with_commas (replicate n ''ab'')) = 3 * n" for n by (induction n) simp_all
  ultimately show ?thesis
    by (intro merge_options_overflow)
      (simp_all add: st cstring_def NUL_def MAX_OPTIONS_LEN_def MAX_OPTION_LEN_def length_concat sum_list_replicate
        list_eq_iff_nth_eq)
qed

section \<open>Expanding amd map entries\<close>

lemma expandamd_iter_len: "expandamd_iter norm sys svc start squote ch src m = (l, out, r) \<Longrightarrow> l = length out"
  by (auto simp: expandamd_iter_def Let_def split: if_splits option.splits prod.splits list.splits)

lemma expandamd_loop_len: "expandamd_loop norm sys svc start squote src m = (l, out, m') \<Longrightarrow> l = length out"
proof (induction norm sys svc start squote src m arbitrary: l out m' rule: expandamd_loop.induct)
  case (2 norm sys svc start squote ch src m)
  then show ?case
    by (auto split: prod.splits option.splits dest: expandamd_iter_len)
qed simp

text \<open>While memory lasts the result does not depend on it.\<close>

lemma expandamd_iter_ample:
  assumes "mem_ample m" and "mem_ample m'" and "expandamd_iter norm sys svc start squote ch src m = (l, out, sq, rest, m1)"
  shows "mem_ample m1 \<and> (\<exists>m2. expandamd_iter norm sys svc start squote ch src m' = (l, out, sq, rest, m2) \<and> mem_ample m2)"
proof -
  from assms obtain n where n: "malloc m = (True, n)" "mem_ample n" by (blast elim: mem_ampleE)
  from assms obtain n' where n': "malloc m' = (True, n')" "mem_ample n'" by (blast elim: mem_ampleE)
  let ?name = "takeWhile (\<lambda>c. c \<noteq> CHR ''}'') (tl src)"
  let ?sv = "Option.bind (snd (amd_name ?name)) (\<lambda>n. macro_findvar sys svc n (length n))"
  show ?thesis
  proof (cases "ch = CHR ''$'' \<and> cstr_hd src = CHR ''{'' \<and> strchr (tl src) (CHR ''}'') \<noteq> None \<and> ?sv \<noteq> None")
    case True
    then obtain p sv where "strchr (tl src) (CHR ''}'') = Some p" "?sv = Some sv" by auto
    with True assms(3) n n' show ?thesis by (cases "amd_name ?name") (auto simp: expandamd_iter_def Let_def)
  next
    case False
    have "expandamd_iter norm sys svc start squote ch src x = (l, out, sq, rest, m1) \<Longrightarrow> m1 = x \<and>
        expandamd_iter norm sys svc start squote ch src y = (l, out, sq, rest, y)" for x y
    proof (cases "ch = CHR ''$'' \<and> cstr_hd src = CHR ''{''")
      case True
      with False show "expandamd_iter norm sys svc start squote ch src x = (l, out, sq, rest, m1) \<Longrightarrow> m1 = x \<and>
        expandamd_iter norm sys svc start squote ch src y = (l, out, sq, rest, y)"
        by (cases "strchr (tl src) (CHR ''}'')"; cases "amd_name ?name") (auto simp: expandamd_iter_def Let_def)
    next
      case other: False
      then show "expandamd_iter norm sys svc start squote ch src x = (l, out, sq, rest, m1) \<Longrightarrow> m1 = x \<and>
        expandamd_iter norm sys svc start squote ch src y = (l, out, sq, rest, y)"
        by (cases src) (auto simp: char_consts expandamd_iter_def Let_def split: if_split_asm)
    qed
    with assms show ?thesis by blast
  qed
qed

lemma expandamd_loop_ample:
  "mem_ample m \<Longrightarrow> mem_ample m' \<Longrightarrow> expandamd_loop norm sys svc start squote src m = (l, out, m1) \<Longrightarrow>
     mem_ample m1 \<and> (\<exists>m2. expandamd_loop norm sys svc start squote src m' = (l, out, m2) \<and> mem_ample m2)"
proof (induction norm sys svc start squote src m arbitrary: m' l out m1 rule: expandamd_loop.induct)
  case (2 norm sys svc start squote ch src m)
  obtain l0 o0 sq rest m0 where it: "expandamd_iter norm sys svc start squote ch src m = (l0, o0, sq, rest, m0)"
    by (cases "expandamd_iter norm sys svc start squote ch src m")
  from expandamd_iter_ample [OF "2.prems"(1,2) it] obtain n where
    n: "mem_ample m0" "expandamd_iter norm sys svc start squote ch src m' = (l0, o0, sq, rest, n)" "mem_ample n" by blast
  show ?case
  proof (cases rest)
    case None
    with it n "2.prems"(3) show ?thesis by auto
  next
    case (Some r)
    obtain l1 o1 m3 where rec: "expandamd_loop norm sys svc False sq r m0 = (l1, o1, m3)"
      by (cases "expandamd_loop norm sys svc False sq r m0")
    from "2.IH" [OF it [symmetric] refl refl refl Some n(1) n(3) rec] it n Some rec "2.prems"(3) show ?thesis by auto
  qed
qed simp

text \<open>
  While memory lasts the second pass of the expansion writes exactly the characters
  that the first pass counted, whatever the entry holds: the routine returns the expansion,
  or nothing when it is empty, and never writes behind the buffer.
\<close>

theorem expand_selectors_fits:
  assumes "mem_ample m"
  shows "fst (expand_selectors norm sys sv (Some src) m) =
    (case expandamdent norm sys sv src [] of (_, out, _) \<Rightarrow> if out = [] then Inl EXPAND_FAILED else Inr out)"
proof -
  obtain l out m0 where e: "expandamdent norm sys sv src [] = (l, out, m0)"
    by (cases "expandamdent norm sys sv src []")
  then have l: "l = length out" by (simp add: expandamdent_def expandamd_loop_len)
  have all: "\<exists>m''. expandamdent norm sys sv src m' = (l, out, m'') \<and> mem_ample m''" if "mem_ample m'" for m'
    using expandamd_loop_ample [of "[]" m'] that e unfolding expandamdent_def by fastforce
  from all [OF assms] obtain m1 where m1: "expandamdent norm sys sv src m = (l, out, m1)" "mem_ample m1" by blast
  from m1(2) obtain m2 where m2: "malloc m1 = (True, m2)" "mem_ample m2" by (rule mem_ampleE)
  from all [OF m2(2)] obtain m3 where "expandamdent norm sys sv src m2 = (l, out, m3)" by blast
  with e l m1 m2 show ?thesis by (simp add: expand_selectors_def)
qed

theorem expand_selectors_fits_witness:
  "fst (expand_selectors True [] [] (Some ''//fs//vol'') [True, True]) = Inr ''//fs/vol''"
  using expand_selectors_fits [of "[True, True]" True "[]" "[]" "''//fs//vol''"]
  by (simp add: mem_ample_def expandamdent_def expandamd_iter_def char_consts)

text \<open>Entries as sequences of plain text and macros.\<close>

datatype piece = Text string | Macro string

fun print_piece :: "piece \<Rightarrow> string" where
  "print_piece (Text s) = s"
| "print_piece (Macro n) = ''${'' @ n @ ''}''"

fun piece_ok :: "piece \<Rightarrow> bool" where
  "piece_ok (Text s) = (CHR ''$'' \<notin> set s)"
| "piece_ok (Macro n) = (n \<noteq> [] \<and> CHR ''}'' \<notin> set n \<and> hd n \<notin> {CHR ''/'', CHR ''.''} \<and> last n \<notin> {CHR ''/'', CHR ''.''})"

fun piece_value :: "subst_table \<Rightarrow> subst_table \<Rightarrow> piece \<Rightarrow> string" where
  "piece_value sys svc (Text s) = s"
| "piece_value sys svc (Macro n) =
     (case macro_findvar sys svc n (length n) of None \<Rightarrow> print_piece (Macro n) | Some sv \<Rightarrow> sv_val sv)"

definition expansion :: "nat \<times> string \<times> mem \<Rightarrow> string" where
  "expansion r = fst (snd r)"

lemma expand_text_char:
  "c \<noteq> CHR ''$'' \<Longrightarrow> expansion (expandamd_loop False sys svc st sq (c # s) m) =
     c # expansion (expandamd_loop False sys svc False (if c = SQUOTE then \<not> sq else sq) s m)"
  by (auto simp: expansion_def expandamd_iter_def char_consts split: prod.splits)

lemma expand_macro:
  assumes "piece_ok (Macro n)"
  shows "\<exists>m'. expansion (expandamd_loop False sys svc st sq (print_piece (Macro n) @ s) m) =
    piece_value sys svc (Macro n) @ expansion (expandamd_loop False sys svc False sq s m')"
proof -
  have p: "strchr (n @ CHR ''}'' # s) (CHR ''}'') = Some (CHR ''}'' # s)" using assms by (simp add: strchr_append)
  have n: "takeWhile (\<lambda>c. c \<noteq> CHR ''}'') (n @ CHR ''}'' # s) = n" using assms by (simp add: takeWhile_stop)
  have "amd_name n = (EXPAND_NONE, Some n)" using assms by (cases n) (auto simp: amd_name_def)
  with p n have it: "expandamd_iter False sys svc st sq (CHR ''$'') (CHR ''{'' # n @ CHR ''}'' # s) m =
    (length (piece_value sys svc (Macro n)), piece_value sys svc (Macro n), sq, Some s,
     if macro_findvar sys svc n (length n) = None then m else malloc_rest m)"
    by (auto simp: expandamd_iter_def expand_slash_or_dot_def Let_def split: prod.splits option.splits)
  show ?thesis
    by (intro exI [of _ "if macro_findvar sys svc n (length n) = None then m else malloc_rest m"])
      (simp add: it expansion_def split: prod.splits del: piece_value.simps)
qed

lemma expand_text:
  "CHR ''$'' \<notin> set t \<Longrightarrow> \<exists>st' sq'. expansion (expandamd_loop False sys svc st sq (t @ s) m) =
     t @ expansion (expandamd_loop False sys svc st' sq' s m)"
proof (induction t arbitrary: st sq)
  case Nil
  show ?case by (intro exI [of _ st] exI [of _ sq]) simp
next
  case (Cons c t)
  then have "c \<noteq> CHR ''$''" "CHR ''$'' \<notin> set t" by auto
  with Cons.IH [of False "if c = SQUOTE then \<not> sq else sq"] show ?case
    unfolding append_Cons expand_text_char [OF \<open>c \<noteq> CHR ''$''\<close>] by simp
qed

lemma expand_pieces:
  "\<forall>p \<in> set ps. piece_ok p \<Longrightarrow>
     expansion (expandamd_loop False sys svc st sq (concat (map print_piece ps)) m) = concat (map (piece_value sys svc) ps)"
proof (induction ps arbitrary: st sq m)
  case Nil
  show ?case by (simp add: expansion_def)
next
  case (Cons p ps)
  show ?case
  proof (cases p)
    case (Text t)
    with Cons.prems have "CHR ''$'' \<notin> set t" "\<forall>p \<in> set ps. piece_ok p" by auto
    with expand_text [of t sys svc st sq "concat (map print_piece ps)" m] Cons.IH Text show ?thesis by auto
  next
    case (Macro n)
    with Cons.prems have "piece_ok (Macro n)" by simp
    from expand_macro [OF this, of sys svc st sq "concat (map print_piece ps)" m] obtain m' where
      "expansion (expandamd_loop False sys svc st sq (print_piece (Macro n) @ concat (map print_piece ps)) m) =
        piece_value sys svc (Macro n) @ expansion (expandamd_loop False sys svc False sq (concat (map print_piece ps)) m')"
      by blast
    with Cons.IH [of False sq m'] Cons.prems Macro show ?thesis by (simp del: print_piece.simps piece_value.simps)
  qed
qed

text \<open>
  An entry made of plain text and macros expands to the text with every macro replaced
  by the value of the variable, and a macro without a variable kept as it is written (slashes
  not being normalised).
\<close>

theorem expand_selectors_substitutes:
  assumes "mem_ample m" and "\<forall>p \<in> set ps. piece_ok p" and "concat (map (piece_value sys svc) ps) \<noteq> []"
  shows "fst (expand_selectors False sys svc (Some (concat (map print_piece ps))) m) =
    Inr (concat (map (piece_value sys svc) ps))"
proof -
  let ?e = "expandamdent False sys svc (concat (map print_piece ps))"
  have out: "expansion (?e m') = concat (map (piece_value sys svc) ps)" for m'
    using expand_pieces [OF assms(2)] by (simp add: expandamdent_def)
  have len: "fst (?e m') = length (expansion (?e m'))" for m'
    using expandamd_loop_len [of False sys svc True False "concat (map print_piece ps)" m']
    by (cases "?e m'") (auto simp: expandamdent_def expansion_def)
  obtain l o1 m1 where e1: "?e m = (l, o1, m1)" by (cases "?e m")
  have "mem_ample m1" using expandamd_loop_ample [OF assms(1) assms(1)] e1 unfolding expandamdent_def by blast
  then obtain m2 where m2: "malloc m1 = (True, m2)" by (blast elim: mem_ampleE)
  obtain l' o2 m3 where e2: "?e m2 = (l', o2, m3)" by (cases "?e m2")
  from out [of m] out [of m2] len [of m] e1 e2 assms(3) m2 show ?thesis
    by (simp add: expand_selectors_def expansion_def)
qed

theorem expand_selectors_substitutes_witness:
  "fst (expand_selectors False [] [\<lparr>sv_def = ''rhost'', sv_val = ''fs1'', sv_readonly = False\<rparr>]
     (Some ''//${rhost}/vol/${nope}'') []) = Inr ''//fs1/vol/${nope}''"
  using expand_selectors_substitutes [of "[]" "[Text ''//'', Macro ''rhost'', Text ''/vol/'', Macro ''nope'']" "[]"
      "[\<lparr>sv_def = ''rhost'', sv_val = ''fs1'', sv_readonly = False\<rparr>]"]
  by (simp add: macro_findvar_def macro_match_def strncmp_eq_def cstr_at_def)

text \<open>
  The space for an expansion is counted with the value that the first pass copies and
  cuts; when the copy fails in the second pass the whole value is written, behind the end of
  the buffer whenever cutting it made it shorter.
\<close>

theorem expand_selectors_overrun:
  assumes "piece_ok (Macro n)" and "macro_findvar sys svc n (length n) = Some sv"
    and "length (basename (sv_val sv)) < length (sv_val sv)"
  shows "fst (expand_selectors norm sys svc (Some (''${/'' @ n @ ''}'')) [True, True, False]) = Inl EXPAND_OVERRUN"
proof -
  have "basename (sv_val sv) \<noteq> []"
    using hd_dropWhile [of "\<lambda>c. c = CHR ''/''" "rev (sv_val sv)"]
    by (auto simp: basename_def strip_slashes_def takeWhile_eq_Nil_iff)
  moreover have "amd_name (CHR ''/'' # n) = (EXPAND_LEADING_SLASH, Some n)"
    using assms(1) by (auto simp: amd_name_def)
  moreover have "strchr (CHR ''/'' # n @ ''}'') (CHR ''}'') = Some ''}''" using assms(1) by (simp add: strchr_append)
  moreover have "takeWhile (\<lambda>c. c \<noteq> CHR ''}'') (CHR ''/'' # n @ ''}'') = CHR ''/'' # n"
    using assms(1) takeWhile_stop [of "CHR ''}''" n "[]"] by simp
  ultimately show ?thesis
    using assms(2,3) by (simp add: expand_selectors_def expandamdent_def expandamd_iter_def expand_slash_or_dot_def Let_def)
qed

theorem expand_selectors_overrun_witness:
  "fst (expand_selectors False [] [\<lparr>sv_def = ''path'', sv_val = ''/vol/home'', sv_readonly = False\<rparr>]
     (Some ''${/path}'') [True, True, False]) = Inl EXPAND_OVERRUN"
  using expand_selectors_overrun [of "''path''" "[]" "[\<lparr>sv_def = ''path'', sv_val = ''/vol/home'', sv_readonly = False\<rparr>]"
      "\<lparr>sv_def = ''path'', sv_val = ''/vol/home'', sv_readonly = False\<rparr>" False]
  by (simp add: macro_findvar_def macro_match_def strncmp_eq_def cstr_at_def basename_def strip_slashes_def)

end
