(* ===== verification/Quoting.thy ===== *)
theory Quoting
  imports Parse_Subs
begin

text \<open>
  Properties of the routines of \<^verbatim>\<open>lib/parse_subs.c\<close> that take strings apart: removing quotes,
  cleaning up paths, splitting the command line of a program map and recognising the type
  and format in front of a map name.
\<close>

section \<open>Removing quotes\<close>

text \<open>A text with a backslash in front of every character.\<close>

definition escape :: "string \<Rightarrow> string" where
  "escape s = concat (map (\<lambda>c. [BSLASH, c]) s)"

lemma escape_simps [simp]: "escape [] = []" "escape (c # s) = BSLASH # c # escape s"
  by (simp_all add: escape_def)

lemma length_escape [simp]: "length (escape s) = 2 * length s"
  by (induction s) auto

lemma escape_snoc: "escape (s @ [c]) = escape s @ [BSLASH, c]"
  by (induction s) auto

lemma BSLASH_not_DQUOTE [simp]: "BSLASH \<noteq> DQUOTE" "DQUOTE \<noteq> BSLASH"
  by (simp_all add: char_consts)

lemma dequote_loop_escape: "dequote_loop (escape s) False False = (s, False)"
  by (induction s) auto

text \<open>Nothing is stripped from a text that ends in a character other than white space or in a protected one.\<close>

lemma dequote_strip_end:
  assumes "s \<noteq> []" and "\<not> isspace (last s) \<or> length s > 2 \<and> s ! (length s - 2) \<in> {BSLASH, DQUOTE}"
  shows "dequote_strip s (length s) = Some (length s)"
proof -
  obtain n where n: "length s = Suc n" using assms(1) by (cases s) auto
  then have "last s = s ! n" by (simp add: last_conv_nth assms(1))
  with n assms(2) show ?thesis by (auto simp: cstr_at_def numeral_2_eq_2)
qed

text \<open>
  Removing the quotes from a text with a backslash before every character, or from a text
  without double quotes put in double quotes, gives the text back. The exception is a single
  white space character behind a backslash, which the routine takes for the end of the line.
\<close>

theorem dequote_roundtrip:
  assumes "mem_ample m" and "s \<noteq> []"
  shows "(length s > 1 \<or> \<not> isspace (hd s) \<longrightarrow> fst (dequote (escape s) (length (escape s)) m) = Inr (Some s))
    \<and> (DQUOTE \<notin> set s \<longrightarrow> fst (dequote (DQUOTE # s @ [DQUOTE]) (length s + 2) m) = Inr (Some s))
    \<and> (isspace c \<longrightarrow> fst (dequote (escape [c]) 2 m) = Inr (Some []))"
proof -
  obtain m' where m: "malloc m = (True, m')" using assms(1) by (rule mem_ampleE)
  obtain s' c' where s: "s = s' @ [c']" using assms(2) by (cases s rule: rev_cases) auto
  have nth: "escape s ! (length (escape s) - 2) = BSLASH" by (simp add: s escape_snoc nth_append)
  have lst: "last (escape s) = c'" by (simp add: s escape_snoc)
  have esc: "fst (dequote (escape s) (length (escape s)) m) = Inr (Some s)" if "length s > 1 \<or> \<not> isspace (hd s)"
  proof -
    have "\<not> isspace (last (escape s)) \<or> length (escape s) > 2 \<and> escape s ! (length (escape s) - 2) \<in> {BSLASH, DQUOTE}"
      using that nth lst s by (cases s') auto
    moreover have "escape s \<noteq> []" using s by (cases s') auto
    ultimately have "dequote_strip (escape s) (length (escape s)) = Some (length (escape s))" by (intro dequote_strip_end)
    with m dequote_loop_escape [of s] show ?thesis by (simp add: dequote_def)
  qed
  have in_quotes: "DQUOTE \<notin> set t \<Longrightarrow> dequote_loop (t @ [DQUOTE]) False True = (t, False)" for t
    by (induction t) auto
  have quo: "fst (dequote (DQUOTE # s @ [DQUOTE]) (length s + 2) m) = Inr (Some s)" if "DQUOTE \<notin> set s"
  proof -
    have "dequote_strip (DQUOTE # s @ [DQUOTE]) (length (DQUOTE # s @ [DQUOTE])) = Some (length s + 2)"
      by (subst dequote_strip_end) (simp_all add: isspace_def DQUOTE_def)
    with m in_quotes [OF that] show ?thesis by (simp add: dequote_def)
  qed
  have "fst (dequote (escape [c]) 2 m) = Inr (Some [])" if "isspace c"
    using that m by (simp add: dequote_def numeral_2_eq_2 cstr_at_def) (simp add: isspace_def BSLASH_def)
  with esc quo show ?thesis by blast
qed

theorem dequote_roundtrip_witness:
  "fst (dequote (escape ''a '') 4 [True]) = Inr (Some ''a '') \<and> fst (dequote (DQUOTE # ''a b'' @ [DQUOTE]) 5 []) = Inr (Some ''a b'')
     \<and> fst (dequote (escape '' '') 2 []) = Inr (Some [])"
  using dequote_roundtrip [of "[True]" "''a ''"] dequote_roundtrip [of "[]" "''a b''" "CHR '' ''"]
  by (simp add: mem_ample_def DQUOTE_def isspace_def numeral_eq_Suc)

section \<open>Clean paths\<close>

text \<open>Runs of slashes become one slash.\<close>

fun squeeze :: "string \<Rightarrow> string" where
  "squeeze [] = []"
| "squeeze (c # s) = (if c = CHR ''/'' \<and> cstr_hd s = CHR ''/'' then squeeze s else c # squeeze s)"

definition unslash :: "string \<Rightarrow> string" where
  "unslash s = dropWhile (\<lambda>c. c = CHR ''/'') s"

lemma squeeze_slash: "squeeze (CHR ''/'' # s) = CHR ''/'' # squeeze (unslash s)"
proof (induction s)
  case (Cons c s)
  then show ?case by (cases "c = CHR ''/''") (auto simp: unslash_def NUL_def)
qed (simp add: unslash_def NUL_def)

text \<open>The characters that are only copied or compressed.\<close>

definition plain :: "string \<Rightarrow> bool" where
  "plain s \<longleftrightarrow> (\<forall>c \<in> set s. c \<noteq> DQUOTE \<and> c \<noteq> BSLASH \<and> 32 \<le> schar c)"

lemma sanitize_loop_plain:
  "plain s \<Longrightarrow> sanitize_loop s seen False False = Some (squeeze (if seen then unslash s else s), False)"
proof (induction s arbitrary: seen)
  case (Cons c s)
  then have IH: "sanitize_loop s b False False = Some (squeeze (if b then unslash s else s), False)" for b
    by (simp add: plain_def)
  show ?case
  proof (cases "c = CHR ''/''")
    case True
    then show ?thesis using IH [of True] squeeze_slash [of s] Cons.prems by (auto simp: unslash_def plain_def schar_def DQUOTE_def BSLASH_def)
  next
    case False
    then show ?thesis using IH [of False] Cons.prems by (auto simp: unslash_def plain_def)
  qed
qed (simp add: unslash_def)

lemma squeeze_hd [simp]: "cstr_hd (squeeze s) = cstr_hd s"
  by (induction s) auto

lemma squeeze_idem [simp]: "squeeze (squeeze s) = squeeze s"
  by (induction s) auto

lemma set_squeeze [simp]: "set (squeeze s) = set s"
proof (induction s)
  case (Cons c s)
  have "cstr_hd s = CHR ''/'' \<Longrightarrow> CHR ''/'' \<in> set s" by (cases s) (simp_all add: NUL_def)
  with Cons show ?case by (cases "c = CHR ''/'' \<and> cstr_hd s = CHR ''/''") (auto simp: insert_absorb)
qed simp

lemma squeeze_no_double: "squeeze s \<noteq> u @ CHR ''/'' # CHR ''/'' # v"
proof (induction s arbitrary: u)
  case (Cons c s)
  show ?case
  proof
    assume uv: "squeeze (c # s) = u @ CHR ''/'' # CHR ''/'' # v"
    show False
    proof (cases "c = CHR ''/'' \<and> cstr_hd s = CHR ''/''")
      case True
      with uv Cons show False by simp
    next
      case False
      with uv have "c # squeeze s = u @ CHR ''/'' # CHR ''/'' # v" by auto
      with False Cons [of "tl u"] show False by (cases u) (auto dest: arg_cong [of _ _ cstr_hd])
    qed
  qed
qed simp

text \<open>The kinds of path that a map of the given type accepts.\<close>

definition path_accepted :: "path_type \<Rightarrow> string \<Rightarrow> bool" where
  "path_accepted type p = (case type of PATH_INDIRECT \<Rightarrow> CHR ''/'' \<notin> set p | PATH_DIRECT \<Rightarrow> cstr_hd p = CHR ''/'' | PATH_ANY \<Rightarrow> True)"

lemma sanitize_path_plain:
  assumes "mem_ample m" and "plain p"
  shows "fst (sanitize_path p (length p) type m) = (if path_accepted type p then Some (squeeze p) else None)"
proof -
  obtain m' where m: "malloc m = (True, m')" using assms(1) by (rule mem_ampleE)
  have "cstr_hd p \<noteq> DQUOTE" using assms(2) by (cases p) (auto simp: plain_def char_consts)
  moreover have "cstr_hd p = CHR ''/'' \<Longrightarrow> CHR ''/'' \<in> set p" by (cases p) (auto simp: NUL_def)
  ultimately show ?thesis using m sanitize_loop_plain [OF assms(2), of False]
    by (cases type) (auto simp: sanitize_path_def path_accepted_def)
qed

text \<open>
  A path without quotes, backslashes and control characters is accepted according to the
  type of its map, and what comes back is the path with every run of slashes replaced by one
  slash; cleaning it again changes nothing. A slash at the end stays.
\<close>

theorem sanitize_path_squeezes:
  assumes "mem_ample m" and "plain p"
  shows "fst (sanitize_path p (length p) type m) = (if path_accepted type p then Some (squeeze p) else None)
    \<and> (path_accepted type p \<longrightarrow> fst (sanitize_path (squeeze p) (length (squeeze p)) type m) = Some (squeeze p))
    \<and> (\<nexists>u v. squeeze p = u @ ''//'' @ v)"
proof -
  have "plain (squeeze p)" using assms(2) by (simp add: plain_def)
  with sanitize_path_plain [OF assms] sanitize_path_plain [OF assms(1)] squeeze_no_double [of p] show ?thesis
    by (cases type) (simp_all add: path_accepted_def)
qed

theorem sanitize_path_squeezes_witness:
  "fst (sanitize_path ''/a//b///'' 8 PATH_DIRECT []) = Some ''/a/b/'' \<and> plain ''/a//b///''"
proof -
  have p: "plain ''/a//b///''" by (simp add: plain_def schar_def char_consts)
  with sanitize_path_squeezes [of "[]" "''/a//b///''" PATH_DIRECT] show ?thesis
    by (simp add: path_accepted_def numeral_eq_Suc NUL_def)
qed

section \<open>Command lines of program maps\<close>

fun unwords :: "string list \<Rightarrow> string" where
  "unwords [] = []"
| "unwords [w] = w"
| "unwords (w # v # ws) = w @ CHR '' '' # unwords (v # ws)"

definition word :: "string \<Rightarrow> bool" where
  "word w \<longleftrightarrow> w \<noteq> [] \<and> CHR '' '' \<notin> set w \<and> hd w \<noteq> SQUOTE"

lemma next_arg_word: "word w \<Longrightarrow> next_arg (unwords (w # ws)) = Some (w, unwords ws)"
proof -
  assume w: "word w"
  have "takeWhile (\<lambda>x. x \<noteq> CHR '' '') (w @ CHR '' '' # r) = w" "takeWhile (\<lambda>x. x \<noteq> CHR '' '') w = w" for r
    using w by (auto simp: word_def takeWhile_append takeWhile_eq_all_conv)
  with w show ?thesis by (cases ws; cases w) (auto simp: next_arg_def word_def Let_def)
qed

lemma add_argv_ample:
  assumes "mem_ample m"
  obtains m' where "add_argv v s m = (Inr (v @ [Some s]), m')" "mem_ample m'"
proof -
  from assms obtain m1 where "malloc m = (True, m1)" "mem_ample m1" by (rule mem_ampleE)
  moreover from dup_args_ample [OF this(2)] obtain m2 where "dup_args v m1 = (Inr v, m2)" "mem_ample m2" by blast
  moreover from this(2) obtain m3 where "malloc m2 = (True, m3)" "mem_ample m3" by (rule mem_ampleE)
  ultimately show thesis using that by (simp add: add_argv_def)
qed

lemma construct_loop_words:
  "mem_ample m \<Longrightarrow> \<forall>w \<in> set ws. word w \<Longrightarrow> fst (construct_loop (unwords ws) args m) = Inr (args @ map Some ws)"
proof (induction ws arbitrary: args m)
  case Nil
  show ?case by (subst construct_loop.simps) (simp add: next_arg_def)
next
  case (Cons w ws)
  obtain m' where "add_argv args w m = (Inr (args @ [Some w]), m')" "mem_ample m'" using Cons.prems(1) by (rule add_argv_ample)
  with Cons next_arg_word [of w ws] show ?case by (subst construct_loop.simps) simp
qed

text \<open>
  A command line of words separated by single spaces is split into its words. A program
  name in single quotes is taken whole, but the space behind the closing quote is not
  skipped and gives the program an empty first argument.
\<close>

theorem construct_argv_words:
  assumes "mem_ample m" and "word prog" and "\<forall>w \<in> set ws. word w" and "SQUOTE \<notin> set q"
  shows "fst (construct_argv (unwords (prog # ws)) m) = Inr (prog, map Some ws)
    \<and> fst (construct_argv (SQUOTE # q @ SQUOTE # CHR '' '' # unwords ws) m) = Inr (q, Some [] # map Some ws)"
proof -
  obtain m1 where m1: "malloc m = (True, m1)" "mem_ample m1" using assms(1) by (rule mem_ampleE)
  have plain: "fst (construct_loop (unwords ws) [] m1) = Inr (map Some ws)"
    using construct_loop_words [OF m1(2) assms(3), of "[]"] by simp
  obtain m2 where m2: "add_argv [] [] m1 = (Inr ([] @ [Some []]), m2)" "mem_ample m2" using m1(2) by (rule add_argv_ample)
  have "next_arg (CHR '' '' # unwords ws) = Some ([], unwords ws)" by (simp add: next_arg_def SQUOTE_def)
  then have quoted: "fst (construct_loop (CHR '' '' # unwords ws) [] m1) = Inr (Some [] # map Some ws)"
    using m2 construct_loop_words [OF m2(2) assms(3), of "[Some []]"] by (subst construct_loop.simps) simp
  have "takeWhile (\<lambda>x. x \<noteq> SQUOTE) (q @ SQUOTE # r) = q" for r
    using assms(4) by (induction q) auto
  then have "next_arg (SQUOTE # q @ SQUOTE # CHR '' '' # unwords ws) = Some (q, CHR '' '' # unwords ws)"
    by (simp add: next_arg_def Let_def)
  with plain quoted m1 next_arg_word [OF assms(2), of ws] show ?thesis
    by (auto simp: construct_argv_def split: prod.split sum.split)
qed

theorem construct_argv_words_witness:
  "fst (construct_argv ''mount -a'' []) = Inr (''mount'', [Some ''-a''])
     \<and> fst (construct_argv (SQUOTE # ''my mount'' @ SQUOTE # '' -a'') []) = Inr (''my mount'', [Some [], Some ''-a''])"
  using construct_argv_words [of "[]" "''mount''" "[''-a'']" "''my mount''"]
  by (simp add: word_def SQUOTE_def)

section \<open>Map types and formats\<close>

lemma zero_spaces_at:
  assumes "s = [] \<or> hd s \<noteq> CHR '' ''"
  shows "zero_spaces (pre @ s @ [NUL]) (length pre) = (pre @ s @ [NUL], length pre)"
  using assms by (cases s) (auto simp: zero_spaces_def NUL_def)

lemma parse_colon_at:
  assumes "s = [] \<or> hd s \<noteq> CHR '' ''"
  shows "parse_colon (pre @ CHR '':'' # s @ [NUL]) (length pre) = Some (pre @ NUL # s @ [NUL], Suc (length pre))"
  using zero_spaces_at [OF assms, of "pre @ [NUL]"]
  by (simp add: parse_colon_def zero_spaces_def list_update_append)

lemma cstr_from_at: "cstring s \<Longrightarrow> cstr_from (pre @ s @ NUL # r) (length pre) = s"
  by (auto simp: cstr_from_def cstring_def takeWhile_append)

lemma space_term_name: "NUL \<notin> set n \<Longrightarrow> CHR '' '' \<notin> set n \<Longrightarrow> BSLASH \<notin> set n \<Longrightarrow> space_term (n @ NUL # r) = Some (n @ NUL # r)"
  by (induction n) (auto simp: NUL_def)

lemma strdup_all_ample: "mem_ample m \<Longrightarrow> \<exists>m'. strdup_all n m = (True, m') \<and> mem_ample m'"
proof (induction n arbitrary: m)
  case (Suc n)
  then obtain m1 where "malloc m = (True, m1)" "mem_ample m1" by (blast elim: mem_ampleE)
  with Suc.IH show ?case by simp
qed simp

lemmas known_names = map_type_def format_type_def

lemma names_cstring: "t \<in> set map_type \<or> t \<in> set format_type \<Longrightarrow> NUL \<notin> set t \<and> CHR '' '' \<notin> set t \<and> BSLASH \<notin> set t"
  by (simp add: known_names) (elim disjE; simp add: char_consts)

lemma type_loop_colon:
  assumes "t \<in> set map_type" and "s = [] \<or> hd s \<noteq> CHR '' ''" and "cstring s"
  shows "type_loop map_type (t @ CHR '':'' # s @ [NUL]) False None None = Some (t @ NUL # s @ [NUL], True, None, Some (Suc (length t)))"
proof -
  have c: "cstr_from (t @ CHR '':'' # s @ [NUL]) 0 = t @ CHR '':'' # s"
    using assms cstr_from_at [of "t @ CHR '':'' # s" "[]" "[]"] names_cstring [of t] by (auto simp: cstring_def NUL_def)
  show ?thesis
    using assms(1) c parse_colon_at [OF assms(2), of t] unfolding map_type_def
    by (simp only: list.set insert_iff empty_iff simp_thms) (elim disjE; hypsubst; simp add: strncmp_eq_def)
qed

lemma format_loop_colon:
  assumes "f \<in> set format_type" and "s = [] \<or> hd s \<noteq> CHR '' ''" and "cstring s"
  shows "format_loop format_type (pre @ NUL # f @ CHR '':'' # s @ [NUL]) (Suc (length pre)) None =
    Some (pre @ NUL # f @ NUL # s @ [NUL], Some (Suc (length pre)), Some (Suc (Suc (length (pre @ f)))))"
proof -
  have c: "cstr_from (pre @ NUL # f @ CHR '':'' # s @ [NUL]) (Suc (length pre)) = f @ CHR '':'' # s"
    using assms cstr_from_at [of "f @ CHR '':'' # s" "pre @ [NUL]" "[]"] names_cstring [of f] by (auto simp: cstring_def NUL_def)
  have n: "(pre @ NUL # f @ CHR '':'' # s @ [NUL]) ! (Suc (length pre) + length f) = CHR '':''"
    by (simp add: nth_append)
  show ?thesis
    using assms(1) c n parse_colon_at [OF assms(2), of "pre @ NUL # f"] unfolding format_type_def
    by (simp only: list.set insert_iff empty_iff simp_thms) (elim disjE; hypsubst; simp add: strncmp_eq_def)
qed

lemma type_loop_format:
  assumes "t \<in> set map_type" and "f \<in> set format_type" and "s = [] \<or> hd s \<noteq> CHR '' ''" and "cstring s"
  shows "type_loop map_type (t @ CHR '','' # f @ CHR '':'' # s @ [NUL]) False None None =
    Some (t @ NUL # f @ NUL # s @ [NUL], True, Some (Suc (length t)), Some (Suc (Suc (length (t @ f)))))"
proof -
  have c: "cstr_from (t @ CHR '','' # f @ CHR '':'' # s @ [NUL]) 0 = t @ CHR '','' # f @ CHR '':'' # s"
    using assms cstr_from_at [of "t @ CHR '','' # f @ CHR '':'' # s" "[]" "[]"] names_cstring [of t] names_cstring [of f]
    by (auto simp: cstring_def NUL_def)
  have c': "cstr_from (t @ NUL # f @ NUL # s @ [NUL]) 0 = t"
    using cstr_from_at [of t "[]"] names_cstring [of t] assms(1) by (simp add: cstring_def)
  show ?thesis
    using assms(1) c c' format_loop_colon [OF assms(2-4), of t] unfolding map_type_def
    by (simp only: list.set insert_iff empty_iff simp_thms) (elim disjE; hypsubst; simp add: strncmp_eq_def del: format_loop.simps)
qed

lemma parse_typed:
  assumes "mem_ample m" and "CHR '':'' \<in> set str" and "type_loop map_type (str @ [NUL]) False None None = Some (b, True, fmt, map')"
    and "space_term b = Some b'"
  shows "fst (parse_map_type_info str m) =
    Inr (Some \<lparr>mi_type = Some (cstr_from b' 0), mi_format = map_option (cstr_from b') fmt, mi_map = map_option (cstr_from b') map'\<rparr>)"
proof -
  obtain m1 where m1: "strdup_all 2 m = (True, m1)" "mem_ample m1" using strdup_all_ample [OF assms(1)] by blast
  obtain g where dup: "\<And>k. strdup_all k m1 = (True, g k)" using strdup_all_ample [OF m1(2)] by metis
  show ?thesis using m1 assms(2-4) by (simp add: parse_map_type_info_def Let_def dup del: strdup_all.simps)
qed

lemma parse_untyped:
  assumes "mem_ample m" and "CHR '':'' \<notin> set str" and "str \<noteq> []" and "hd str \<noteq> CHR '' ''" and "space_term (str @ [NUL]) = Some b"
  shows "fst (parse_map_type_info str m) = Inr (Some \<lparr>mi_type = None, mi_format = None, mi_map = Some (cstr_from b 0)\<rparr>)"
proof -
  obtain m1 where m1: "strdup_all 2 m = (True, m1)" "mem_ample m1" using strdup_all_ample [OF assms(1)] by blast
  obtain g where dup: "\<And>k. strdup_all k m1 = (True, g k)" using strdup_all_ample [OF m1(2)] by metis
  show ?thesis using m1 assms(2-5) zero_spaces_at [of str "[]"] by (simp add: parse_map_type_info_def Let_def dup del: strdup_all.simps)
qed

lemma space_term_option:
  "NUL \<notin> set n \<Longrightarrow> CHR '' '' \<notin> set n \<Longrightarrow> BSLASH \<notin> set n \<Longrightarrow> space_term (n @ CHR '' '' # r) = Some (n @ NUL # r)"
  by (induction n) (auto simp: char_consts)

lemma type_loop_files:
  assumes "cstring n"
  shows "type_loop map_type ((''files:'' @ n) @ [NUL]) False None None = Some ((''files:'' @ n) @ [NUL], True, None, None)"
proof -
  have "cstr_from ((''files:'' @ n) @ [NUL]) 0 = ''files:'' @ n"
    using assms cstr_from_at [of "''files:'' @ n" "[]" "[]"] by (simp add: cstring_def NUL_def)
  then show ?thesis by (simp add: map_type_def strncmp_eq_def)
qed

text \<open>
  A known type in front of a colon, alone or followed by a known format, is split off and
  all the rest is the map name, local options behind a space included; without a colon the
  name ends at the first space. A name that only starts like a type is taken for a type
  and leaves no map.
\<close>

theorem parse_map_type_info_splits:
  assumes "mem_ample m" and "t \<in> set map_type" and "f \<in> set format_type" and "s = [] \<or> hd s \<noteq> CHR '' ''" and "cstring s"
    and "CHR '':'' \<notin> set n" and "CHR '' '' \<notin> set n" and "BSLASH \<notin> set n" and "NUL \<notin> set n" and "n \<noteq> []"
    and "cstring o'" and "CHR '':'' \<notin> set o'"
  shows "fst (parse_map_type_info (t @ CHR '':'' # s) m) = Inr (Some \<lparr>mi_type = Some t, mi_format = None, mi_map = Some s\<rparr>)
    \<and> fst (parse_map_type_info (t @ CHR '','' # f @ CHR '':'' # s) m) = Inr (Some \<lparr>mi_type = Some t, mi_format = Some f, mi_map = Some s\<rparr>)
    \<and> fst (parse_map_type_info (n @ CHR '' '' # o') m) = Inr (Some \<lparr>mi_type = None, mi_format = None, mi_map = Some n\<rparr>)
    \<and> fst (parse_map_type_info (''files:'' @ n) m) = Inr (Some \<lparr>mi_type = Some (''files:'' @ n), mi_format = None, mi_map = None\<rparr>)"
proof -
  note names = names_cstring [of t] names_cstring [of f]
  have "fst (parse_map_type_info (t @ CHR '':'' # s) m) = Inr (Some \<lparr>mi_type = Some t, mi_format = None, mi_map = Some s\<rparr>)"
    using parse_typed [OF assms(1), of "t @ CHR '':'' # s"] type_loop_colon [OF assms(2,4,5)] space_term_name [of t "s @ [NUL]"]
      names assms(2) cstr_from_at [of t "[]" "s @ [NUL]"] cstr_from_at [OF assms(5), of "t @ [NUL]" "[]"]
    by (simp add: cstring_def)
  moreover have "fst (parse_map_type_info (t @ CHR '','' # f @ CHR '':'' # s) m) =
      Inr (Some \<lparr>mi_type = Some t, mi_format = Some f, mi_map = Some s\<rparr>)"
    using parse_typed [OF assms(1), of "t @ CHR '','' # f @ CHR '':'' # s"] type_loop_format [OF assms(2-5)]
      space_term_name [of t "f @ NUL # s @ [NUL]"] names assms(2,3) cstr_from_at [of t "[]" "f @ NUL # s @ [NUL]"]
      cstr_from_at [of f "t @ [NUL]" "s @ [NUL]"] cstr_from_at [OF assms(5), of "t @ NUL # f @ [NUL]" "[]"]
    by (simp add: cstring_def)
  moreover have "fst (parse_map_type_info (n @ CHR '' '' # o') m) = Inr (Some \<lparr>mi_type = None, mi_format = None, mi_map = Some n\<rparr>)"
    using parse_untyped [OF assms(1), of "n @ CHR '' '' # o'" "n @ NUL # o' @ [NUL]"] space_term_option [of n "o' @ [NUL]"]
      assms(6-12) cstr_from_at [of n "[]" "o' @ [NUL]"]
    by (cases n) (auto simp: cstring_def)
  moreover have "fst (parse_map_type_info (''files:'' @ n) m) = Inr (Some \<lparr>mi_type = Some (''files:'' @ n), mi_format = None, mi_map = None\<rparr>)"
    using parse_typed [OF assms(1) _ type_loop_files, of n "''files:'' @ n @ [NUL]"] space_term_name [of "''files:'' @ n" "[]"] assms(7-9)
      cstr_from_at [of "''files:'' @ n" "[]" "[]"]
    by (simp add: cstring_def char_consts)
  ultimately show ?thesis by blast
qed

theorem parse_map_type_info_splits_witness:
  "fst (parse_map_type_info ''nis,amd:amd.home opts'' [])
      = Inr (Some \<lparr>mi_type = Some ''nis'', mi_format = Some ''amd'', mi_map = Some ''amd.home opts''\<rparr>)
    \<and> fst (parse_map_type_info ''auto.home rw'' []) = Inr (Some \<lparr>mi_type = None, mi_format = None, mi_map = Some ''auto.home''\<rparr>)"
  using parse_map_type_info_splits [of "[]" "''nis''" "''amd''" "''amd.home opts''" "''auto.home''" "''rw''"]
  by (simp add: known_names cstring_def char_consts)

end
