(* ===== verification/Defaults.thy ===== *)
theory Defaults
  imports Hash Args
begin

unbundle bit_operations_syntax

text \<open>
  The configuration of the daemon, \<^verbatim>\<open>lib/defaults.c\<close>: a hash table of options, each with a
  section, a name and a value, filled with the defaults and from the configuration file, and
  the functions through which the rest of the daemon asks for settings. Names are compared
  without regard to case. The state carries the table, the process environment, in which
  the defaults are published, and the outcomes of the allocations to come.
\<close>

section \<open>Names\<close>

text \<open>\<open>tolower\<close> in the C locale.\<close>

definition tolower :: "char \<Rightarrow> char" where
  "tolower c = (if 65 \<le> (of_char c :: nat) \<and> (of_char c :: nat) \<le> 90 then char_of ((of_char c :: nat) + 32) else c)"

definition lower :: "string \<Rightarrow> string" where
  "lower s = map tolower s"

text \<open>\<open>strcasecmp(a, b) == 0\<close> and \<open>strncasecmp(a, b, n) == 0\<close>.\<close>

definition strcase_eq :: "string \<Rightarrow> string \<Rightarrow> bool" where
  "strcase_eq a b \<longleftrightarrow> lower a = lower b"

definition strncase_eq :: "string \<Rightarrow> string \<Rightarrow> nat \<Rightarrow> bool" where
  "strncase_eq a b n \<longleftrightarrow> lower (take n a) = lower (take n b)"

section \<open>The table of options\<close>

record conf_option =
  co_section :: string
  co_name :: string
  co_value :: "string option"
  co_flags :: u64

record conf =
  cf_hash :: "conf_option list list"
  cf_modified :: time
  cf_env :: "string \<rightharpoonup> string"
  cf_mem :: mem

definition autofs_gbl_sec :: string where "autofs_gbl_sec = ''autofs''"
definition amd_gbl_sec :: string where "amd_gbl_sec = ''amd''"

definition CFG_TABLE_SIZE :: u32 where "CFG_TABLE_SIZE = 128"

definition CONF_NONE :: u64 where "CONF_NONE = 0"
definition CONF_ENV :: u64 where "CONF_ENV = 1"

text \<open>
  The status of an operation. \<open>CFG_FAULT\<close> stands for an option that enters the table without
  a name, because the result of \<open>strdup(key)\<close> is not tested; the next comparison on its
  chain dereferences \<open>NULL\<close>.
\<close>

datatype cfg_status = CFG_OK | CFG_FAIL | CFG_FAULT

definition cf_alloc :: "conf \<Rightarrow> bool \<times> conf" where
  "cf_alloc c = (case malloc (cf_mem c) of (ok, m) \<Rightarrow> (ok, c\<lparr>cf_mem := m\<rparr>))"

definition conf_init :: "(string \<rightharpoonup> string) \<Rightarrow> mem \<Rightarrow> conf option \<times> mem" where
  "conf_init env m =
     (case malloc m of
        (False, m1) \<Rightarrow> (None, m1)
      | (True, m1) \<Rightarrow>
          (case malloc m1 of
             (False, m2) \<Rightarrow> (None, m2)
           | (True, m2) \<Rightarrow>
               (Some \<lparr>cf_hash = replicate (unat CFG_TABLE_SIZE) [], cf_modified = 0, cf_env = env, cf_mem = m2\<rparr>, m2)))"

definition get_hash :: "string \<Rightarrow> nat" where
  "get_hash key = unat (hash (lower key) CFG_TABLE_SIZE)"

lemma get_hash_less [simp]: "get_hash key < 128"
  using unat_hash_less [of CFG_TABLE_SIZE "lower key"] by (simp add: get_hash_def CFG_TABLE_SIZE_def)

definition opt_match :: "string \<Rightarrow> string \<Rightarrow> conf_option \<Rightarrow> bool" where
  "opt_match section key co \<longleftrightarrow> strcase_eq section (co_section co) \<and> strcase_eq key (co_name co)"

definition cf_chain :: "conf \<Rightarrow> string \<Rightarrow> conf_option list" where
  "cf_chain c key = cf_hash c ! get_hash key"

definition set_chain :: "string \<Rightarrow> conf_option list \<Rightarrow> conf \<Rightarrow> conf" where
  "set_chain key os c = c\<lparr>cf_hash := (cf_hash c)[get_hash key := os]\<rparr>"

text \<open>\<open>setenv(key, value, 0)\<close> for an option with the flag \<open>CONF_ENV\<close>.\<close>

definition conf_setenv :: "string \<Rightarrow> string option \<Rightarrow> u64 \<Rightarrow> conf \<Rightarrow> conf" where
  "conf_setenv key value flags c =
     (case value of
        Some v \<Rightarrow> if flags AND CONF_ENV \<noteq> 0 \<and> cf_env c key = None then c\<lparr>cf_env := (cf_env c)(key \<mapsto> v)\<rparr> else c
      | None \<Rightarrow> c)"

text \<open>The value to store: the environment overrides the one given.\<close>

definition conf_value :: "conf \<Rightarrow> string \<Rightarrow> string option \<Rightarrow> u64 \<Rightarrow> string option" where
  "conf_value c key value flags =
     (if flags AND CONF_ENV \<noteq> 0 then (case cf_env c key of Some e \<Rightarrow> Some e | None \<Rightarrow> value) else value)"

definition dup_value :: "string option \<Rightarrow> conf \<Rightarrow> bool \<times> conf" where
  "dup_value v c = (if v = None then (True, c) else cf_alloc c)"

definition conf_add :: "string \<Rightarrow> string \<Rightarrow> string option \<Rightarrow> u64 \<Rightarrow> conf \<Rightarrow> cfg_status \<times> conf" where
  "conf_add section key value flags c =
     (let val = conf_value c key value flags
      in case dup_value val c of
           (False, c1) \<Rightarrow> (CFG_FAIL, c1)
         | (True, c1) \<Rightarrow>
             (case cf_alloc c1 of
                (name_ok, c2) \<Rightarrow>
                  (case cf_alloc c2 of
                     (False, c3) \<Rightarrow> (CFG_FAIL, c3)
                   | (True, c3) \<Rightarrow>
                       (case cf_alloc c3 of
                          (False, c4) \<Rightarrow> (CFG_FAIL, c4)
                        | (True, c4) \<Rightarrow>
                            if \<not> name_ok then (CFG_FAULT, c4)
                            else (CFG_OK,
                              set_chain key
                                (cf_chain c4 key @ [\<lparr>co_section = section, co_name = key, co_value = val, co_flags = flags\<rparr>])
                                (conf_setenv key value flags c4))))))"

text \<open>
  \<open>conf_delete\<close>. The pointer \<open>last\<close> moves only over options of the same section, so what is
  unlinked runs from the last of those to the option that is deleted.
\<close>

definition conf_unlink :: "string \<Rightarrow> string \<Rightarrow> conf_option list \<Rightarrow> conf_option list" where
  "conf_unlink section key os =
     (case chain_find (opt_match section key) os of
        [] \<Rightarrow> os
      | _ # rest \<Rightarrow>
          rev (dropWhile (\<lambda>o'. \<not> strcase_eq section (co_section o')) (rev (takeWhile (\<lambda>o'. \<not> opt_match section key o') os))) @ rest)"

definition conf_delete :: "string \<Rightarrow> string \<Rightarrow> conf \<Rightarrow> conf" where
  "conf_delete section key c = set_chain key (conf_unlink section key (cf_chain c key)) c"

definition conf_lookup_key :: "conf \<Rightarrow> string \<Rightarrow> string \<Rightarrow> conf_option option" where
  "conf_lookup_key c section key =
     (case chain_find (opt_match section key) (cf_chain c key) of [] \<Rightarrow> None | co # _ \<Rightarrow> Some co)"

definition DEFAULT_prefix :: string where "DEFAULT_prefix = ''DEFAULT_''"

text \<open>
  \<open>conf_lookup\<close>: the key under which the option is stored, with or without the prefix of
  the old names. A key of more than \<open>PATH_MAX - 8\<close> characters that is not found
  overflows the buffer for the old name (\<open>conf_lookup_overflow\<close>).
\<close>

definition other_key :: "string \<Rightarrow> string" where
  "other_key key = (if length key > 8 \<and> strncase_eq DEFAULT_prefix key 8 then drop 8 key else DEFAULT_prefix @ key)"

definition conf_lookup_name :: "conf \<Rightarrow> string \<Rightarrow> string \<Rightarrow> string option" where
  "conf_lookup_name c section key =
     (if length key > PATH_MAX then None
      else if conf_lookup_key c section key \<noteq> None then Some key
      else if conf_lookup_key c section (other_key key) \<noteq> None then Some (other_key key)
      else None)"

definition conf_lookup :: "conf \<Rightarrow> string \<Rightarrow> string \<Rightarrow> conf_option option" where
  "conf_lookup c section key = Option.bind (conf_lookup_name c section key) (conf_lookup_key c section)"

definition conf_lookup_overflow :: "conf \<Rightarrow> string \<Rightarrow> string \<Rightarrow> bool" where
  "conf_lookup_overflow c section key \<longleftrightarrow>
     length key \<le> PATH_MAX \<and> conf_lookup_key c section key = None
     \<and> \<not> (length key > 8 \<and> strncase_eq DEFAULT_prefix key 8) \<and> 8 + length key > PATH_MAX"

fun upd_first :: "('a \<Rightarrow> bool) \<Rightarrow> ('a \<Rightarrow> 'a) \<Rightarrow> 'a list \<Rightarrow> 'a list" where
  "upd_first P f [] = []"
| "upd_first P f (x # xs) = (if P x then f x # xs else x # upd_first P f xs)"

definition conf_update :: "string \<Rightarrow> string \<Rightarrow> string option \<Rightarrow> u64 \<Rightarrow> conf \<Rightarrow> cfg_status \<times> conf" where
  "conf_update section key value flags c =
     (case conf_lookup_name c section key of
        None \<Rightarrow> conf_add section key value flags c
      | Some k \<Rightarrow>
          (let val = conf_value c key value flags
           in case dup_value val c of
                (False, c1) \<Rightarrow> (CFG_FAIL, c1)
              | (True, c1) \<Rightarrow>
                  (CFG_OK,
                   conf_setenv key value flags
                     (set_chain k
                        (upd_first (opt_match section k)
                           (\<lambda>co. co\<lparr>co_value := val, co_flags := (if flags \<noteq> 0 then flags else co_flags co)\<rparr>) (cf_chain c1 k))
                        c1))))"

text \<open>\<open>while ((co = conf_lookup(sec, key))) conf_delete(co->section, co->name);\<close> The table has
  \<open>CFG_TABLE_SIZE\<close> chains from \<open>conf_init\<close> on; the loop ends because every round deletes an option.\<close>

lemma conf_unlink_shorter:
  assumes "chain_find (opt_match s k) os \<noteq> []"
  shows "length (conf_unlink s k os) < length os"
proof -
  let ?P = "\<lambda>o'. \<not> opt_match s k o'"
  obtain co rest where f: "chain_find (opt_match s k) os = co # rest" using assms by (cases "chain_find (opt_match s k) os") auto
  then have "length os = length (takeWhile ?P os) + Suc (length rest)"
    unfolding chain_find_def by (metis length_append length_Cons takeWhile_dropWhile_id)
  moreover have "length (dropWhile Q (rev (takeWhile ?P os))) \<le> length (takeWhile ?P os)" for Q
    using length_dropWhile_le [of Q "rev (takeWhile ?P os)"] by simp
  ultimately show ?thesis using f by (simp add: conf_unlink_def le_imp_less_Suc)
qed

lemma length_concat_update:
  "i < length xs \<Longrightarrow> length (concat (xs[i := c])) + length (xs ! i) = length (concat xs) + length c"
  by (metis mset_concat_update size_mset size_union)

lemma conf_lookup_match:
  assumes "conf_lookup c s k = Some co"
  shows "\<exists>n. strcase_eq s (co_section co) \<and> strcase_eq n (co_name co) \<and> get_hash n = get_hash (co_name co)
    \<and> co \<in> set (cf_chain c n)"
proof -
  obtain n where "conf_lookup_key c s n = Some co" using assms by (auto simp: conf_lookup_def bind_eq_Some_conv)
  then have "opt_match s n co" "co \<in> set (cf_chain c n)"
    by (auto simp: conf_lookup_key_def split: list.splits dest: chain_find_hd chain_find_set)
  then show ?thesis by (auto simp: opt_match_def strcase_eq_def get_hash_def)
qed

function conf_delete_all :: "string \<Rightarrow> string \<Rightarrow> conf \<Rightarrow> conf" where
  "conf_delete_all section key c =
     (if length (cf_hash c) \<noteq> unat CFG_TABLE_SIZE then c
      else case conf_lookup c section key of
             None \<Rightarrow> c
           | Some co \<Rightarrow> conf_delete_all section key (conf_delete (co_section co) (co_name co) c))"
  by pat_completeness auto
termination
proof (relation "measure (\<lambda>(s, k, c). length (concat (cf_hash c)))")
  fix sec key c co
  assume len: "\<not> length (cf_hash c) \<noteq> unat CFG_TABLE_SIZE" and "conf_lookup c sec key = Some co"
  then obtain n where n: "get_hash n = get_hash (co_name co)" "co \<in> set (cf_chain c n)"
    using conf_lookup_match by blast
  let ?k = "get_hash (co_name co)" and ?s = "co_section co"
  have "co \<in> set (cf_hash c ! ?k)" using n by (simp add: cf_chain_def)
  moreover have "opt_match ?s (co_name co) co" by (simp add: opt_match_def strcase_eq_def)
  ultimately have "chain_find (opt_match ?s (co_name co)) (cf_hash c ! ?k) \<noteq> []" by (auto simp: chain_find_Nil_iff)
  from conf_unlink_shorter [OF this] have "length (conf_unlink ?s (co_name co) (cf_hash c ! ?k)) < length (cf_hash c ! ?k)" .
  moreover have "?k < length (cf_hash c)" using len by (simp add: CFG_TABLE_SIZE_def)
  ultimately show "((sec, key, conf_delete ?s (co_name co) c), sec, key, c) \<in> measure (\<lambda>(s, k, c). length (concat (cf_hash c)))"
    using length_concat_update [of ?k "cf_hash c" "conf_unlink ?s (co_name co) (cf_hash c ! ?k)"]
    by (simp add: conf_delete_def set_chain_def cf_chain_def)
qed simp

declare conf_delete_all.simps [simp del]

section \<open>Defaults\<close>

text \<open>The options that \<open>conf_load_autofs_defaults\<close> sets, in its order; \<open>mapdir\<close> is \<open>AUTOFS_MAP_DIR\<close> of the build.\<close>

definition DEFAULT_AUTH_CONF_FILE :: "string \<Rightarrow> string" where
  "DEFAULT_AUTH_CONF_FILE mapdir = mapdir @ ''/autofs_ldap_auth.conf''"

definition autofs_defaults :: "string \<Rightarrow> (string \<times> string option) list" where
  "autofs_defaults mapdir =
     [(''open_file_limit'', Some ''20480''), (''timeout'', Some ''600''), (''master_wait'', Some ''10''),
      (''negative_timeout'', Some ''60''), (''browse_mode'', Some ''1''), (''logging'', Some ''none''),
      (''ldap_timeout'', Some ''-1''), (''ldap_network_timeout'', Some ''8''), (''append_options'', Some ''1''),
      (''mount_verbose'', Some ''0''), (''mount_wait'', Some ''-1''), (''umount_wait'', Some ''12''),
      (''auth_conf_file'', Some (DEFAULT_AUTH_CONF_FILE mapdir)), (''mount_nfs_default_protocol'', Some ''3''),
      (''use_hostname_for_mounts'', Some ''0''), (''disable_not_found_message'', Some ''0''),
      (''use_ignore_mount_option'', Some ''0''), (''sss_master_map_wait'', Some ''0''),
      (''use_mount_request_log_id'', Some ''0'')]"

fun conf_load :: "string \<Rightarrow> u64 \<Rightarrow> (string \<times> string option) list \<Rightarrow> conf \<Rightarrow> cfg_status \<times> conf" where
  "conf_load sec flags [] c = (CFG_OK, c)"
| "conf_load sec flags ((name, value) # os) c =
     (case conf_update sec name value flags c of
        (CFG_OK, c') \<Rightarrow> conf_load sec flags os c'
      | (status, c') \<Rightarrow> (status, c'))"

definition NAME_LDAP_URI :: string where "NAME_LDAP_URI = ''ldap_uri''"
definition NAME_SEARCH_BASE :: string where "NAME_SEARCH_BASE = ''search_base''"

definition conf_load_autofs_defaults :: "string \<Rightarrow> conf \<Rightarrow> cfg_status \<times> conf" where
  "conf_load_autofs_defaults mapdir c =
     (case conf_load autofs_gbl_sec CONF_ENV (autofs_defaults mapdir) c of
        (CFG_OK, c') \<Rightarrow>
          (CFG_OK, conf_delete_all autofs_gbl_sec NAME_SEARCH_BASE (conf_delete_all autofs_gbl_sec NAME_LDAP_URI c'))
      | (status, c') \<Rightarrow> (status, c'))"

text \<open>
  What \<open>uname\<close> returns and leaves in the structure. The test of its result is the wrong way
  round: the structure is used when the call fails.
\<close>

record utsname =
  sysname :: string
  release :: string
  machine :: string

definition amd_defaults :: "int \<Rightarrow> utsname \<Rightarrow> (string \<times> string option) list" where
  "amd_defaults uname_result uts =
     (let host = (\<lambda>field. if uname_result \<noteq> 0 then Some (field uts) else None);
          host_os_name = host sysname; host_os_version = host release; host_arch = host machine
      in [(''arch'', host_arch), (''karch'', host_arch), (''os'', host_os_name), (''osver'', host_os_version),
          (''auto_dir'', Some ''/a''), (''autofs_use_lofs'', Some ''/a''), (''browsable_dirs'', Some ''no''), (''cluster'', None),
          (''domain_strip'', Some ''yes''), (''exec_map_timeout'', Some ''10''), (''forced_unmounts'', Some ''no''),
          (''fully_qualified_hosts'', Some ''no''), (''full_os'', None), (''hesiod_base'', Some ''automount''),
          (''karch'', host_arch), (''ldap_base'', None), (''ldap_hostports'', None), (''local_domain'', None),
          (''localhost_address'', Some ''localhost''), (''log_options'', Some ''defaults''), (''map_defaults'', None),
          (''map_options'', None), (''map_type'', None), (''nis_domain'', None), (''normalize_hostnames'', Some ''no''),
          (''normalize_slashes'', Some ''yes''), (''os'', host_os_name), (''restart_mounts'', Some ''no''), (''search_path'', None),
          (''selectors_on_default'', Some ''no''), (''selectors_in_defaults'', Some ''no''), (''unmount_on_exit'', Some ''yes''),
          (''vendor'', Some ''unknown''), (''linux_ufs_mount_type'', Some ''ext3'')])"

definition conf_load_amd_defaults :: "int \<Rightarrow> utsname \<Rightarrow> conf \<Rightarrow> cfg_status \<times> conf" where
  "conf_load_amd_defaults uname_result uts c = conf_load amd_gbl_sec CONF_NONE (amd_defaults uname_result uts) c"

definition reset_defaults :: "string \<Rightarrow> int \<Rightarrow> utsname \<Rightarrow> conf \<Rightarrow> cfg_status \<times> conf" where
  "reset_defaults mapdir uname_result uts c =
     (case conf_load_autofs_defaults mapdir c of
        (CFG_OK, c') \<Rightarrow> conf_load_amd_defaults uname_result uts c'
      | (status, c') \<Rightarrow> (status, c'))"

section \<open>The configuration file\<close>

definition MAX_LINE_LEN :: nat where "MAX_LINE_LEN = 256"

text \<open>
  The lines that \<open>fgets(buf, MAX_LINE_LEN + 1, f)\<close> returns: none of them is longer than
  \<open>MAX_LINE_LEN\<close>, a longer line of the file comes in several pieces.
\<close>

function fgets_lines :: "string \<Rightarrow> string list" where
  "fgets_lines s =
     (if s = [] then []
      else let n = min MAX_LINE_LEN (length (takeWhile (\<lambda>ch. ch \<noteq> LF) s) + 1) in take n s # fgets_lines (drop n s))"
  by pat_completeness auto
termination
  by (relation "measure length") (auto simp: MAX_LINE_LEN_def)

declare fgets_lines.simps [simp del]

text \<open>The text without the characters at its end that satisfy \<open>P\<close>, which are overwritten with NUL.\<close>

definition strip_end :: "(char \<Rightarrow> bool) \<Rightarrow> string \<Rightarrow> string" where
  "strip_end P s = rev (dropWhile P (rev s))"

definition quote_or_blank :: "char \<Rightarrow> bool" where
  "quote_or_blank ch \<longleftrightarrow> ch = DQUOTE \<or> isblank ch"

datatype conf_line = LINE_IGNORED | LINE_SECTION string | LINE_OPTION string string

text \<open>
  \<open>parse_line\<close>. From a \<open>#\<close> on the value is cut off only when a blank or a quote stands in
  front of it.
\<close>

definition line_value :: "string \<Rightarrow> string" where
  "line_value s =
     (let s1 = dropWhile quote_or_blank s;
          val = (if s1 \<noteq> [] \<and> last s1 = LF then butlast s1 else s1);
          before = takeWhile (\<lambda>ch. ch \<noteq> CHR ''#'') val
      in if CHR ''#'' \<in> set val
         then if strip_end quote_or_blank before = before then val else strip_end quote_or_blank before
         else strip_end quote_or_blank val)"

definition parse_line :: "string \<Rightarrow> conf_line" where
  "parse_line line =
     (let ch = cstr_hd line
      in if ch = CHR ''#'' \<or> ch \<noteq> CHR ''['' \<and> \<not> isalpha ch then LINE_IGNORED
         else if ch = CHR ''['' then
           (let key = dropWhile (\<lambda>ch. ch = CHR ''['' \<or> isblank ch) line
            in if CHR '']'' \<notin> set key then LINE_IGNORED
               else LINE_SECTION (strip_end isblank (takeWhile (\<lambda>ch. ch \<noteq> CHR '']'') key)))
         else if CHR ''='' \<notin> set line then LINE_IGNORED
         else LINE_OPTION (strip_end isblank (takeWhile (\<lambda>ch. ch \<noteq> CHR ''='') line))
                (line_value (tl (dropWhile (\<lambda>ch. ch \<noteq> CHR ''='') line))))"

definition check_set_config_value :: "string option \<Rightarrow> string \<Rightarrow> string \<Rightarrow> conf \<Rightarrow> cfg_status \<times> conf" where
  "check_set_config_value sec res value c =
     (let sec' = (case sec of Some s \<Rightarrow> s | None \<Rightarrow> autofs_gbl_sec)
      in if strcase_eq res NAME_LDAP_URI \<or> strcase_eq res NAME_SEARCH_BASE then conf_add sec' res (Some value) 0 c
         else conf_update sec' res (Some value) 0 c)"

text \<open>The options of amd that \<open>read_config\<close> passes over with a message.\<close>

definition ignored_options :: "string list" where
  "ignored_options =
     [''mount_type'', ''pid_file'', ''restart_mounts'', ''use_tcpwrappers'', ''auto_attrcache'', ''print_pid'', ''print_version'',
      ''log_file'', ''preferred_amq_port'', ''truncate_log'', ''debug_mtab_file'', ''debug_options'', ''sun_map_syntax'',
      ''portmap_program'', ''nfs_vers'', ''nfs_vers_ping'', ''nfs_proto'', ''nfs_allow_any_interface'', ''nfs_allow_insecure_port'',
      ''nfs_retransmit_counter'', ''nfs_retransmit_counter_udp'', ''nfs_retransmit_counter_tcp'', ''nfs_retransmit_counter_toplvl'',
      ''nfs_retry_interval'', ''nfs_retry_interval_udp'', ''nfs_retry_interval_tcp'', ''nfs_retry_interval_toplvl'',
      ''ldap_cache_maxmem'', ''ldap_cache_seconds'', ''ldap_proto_version'', ''show_statfs_entries'', ''cache_duration'',
      ''map_reload_interval'', ''map_options'', ''plock'']"

text \<open>
  The body of the loop of \<open>read_config\<close> on one line, and the loop. The status of the
  updates is not looked at.
\<close>

definition read_config_line :: "string \<Rightarrow> string option \<times> conf \<Rightarrow> cfg_status \<times> string option \<times> conf" where
  "read_config_line res st =
     (let (new_sec, c) = st
      in if length res > MAX_LINE_LEN then (CFG_OK, new_sec, c)
         else (case parse_line res of
                 LINE_IGNORED \<Rightarrow> (CFG_OK, new_sec, c)
               | LINE_SECTION sec \<Rightarrow>
                   (case conf_update sec sec None 0 c of (status, c') \<Rightarrow> (status, Some sec, c'))
               | LINE_OPTION key value \<Rightarrow>
                   if \<exists>n \<in> set ignored_options. strcase_eq key n then (CFG_OK, new_sec, c)
                   else (case check_set_config_value new_sec key value c of (status, c') \<Rightarrow> (status, new_sec, c'))))"

fun read_config_loop :: "string list \<Rightarrow> string option \<times> conf \<Rightarrow> cfg_status \<times> string option \<times> conf" where
  "read_config_loop [] st = (CFG_OK, st)"
| "read_config_loop (line # lines) st =
     (case read_config_line line st of
        (CFG_FAULT, st') \<Rightarrow> (CFG_FAULT, st')
      | (_, st') \<Rightarrow> read_config_loop lines st')"

definition read_config :: "string \<Rightarrow> conf \<Rightarrow> cfg_status \<times> conf" where
  "read_config file c = (case read_config_loop (fgets_lines file) (None, c) of (status, _, c') \<Rightarrow> (status, c'))"

section \<open>Reading settings\<close>

definition conf_get_string :: "string \<Rightarrow> string \<Rightarrow> conf \<Rightarrow> string option \<times> conf" where
  "conf_get_string sec name c =
     (case Option.bind (conf_lookup c sec name) co_value of
        None \<Rightarrow> (None, c)
      | Some v \<Rightarrow> (case cf_alloc c of (ok, c') \<Rightarrow> (if ok then Some v else None, c')))"

text \<open>\<open>strtol(s, NULL, 10)\<close> with its limits; \<open>atol\<close> returns it and \<open>atoi\<close> its lower half.\<close>

definition digit_value :: "char \<Rightarrow> int" where
  "digit_value ch = int (of_char ch) - 48"

definition digits_value :: "string \<Rightarrow> int" where
  "digits_value s = foldl (\<lambda>n ch. 10 * n + digit_value ch) 0 (takeWhile isdigit s)"

definition strtol :: "string \<Rightarrow> int" where
  "strtol s =
     (let s1 = dropWhile isspace s;
          n = (if cstr_hd s1 = CHR ''-'' then - digits_value (tl s1)
               else if cstr_hd s1 = CHR ''+'' then digits_value (tl s1) else digits_value s1)
      in max (- (2 ^ 63)) (min (2 ^ 63 - 1) n))"

definition to_s32 :: "int \<Rightarrow> int" where
  "to_s32 n = sint (word_of_int n :: u32)"

definition atoi :: "string \<Rightarrow> int" where
  "atoi s = to_s32 (strtol s)"

definition conf_get_number :: "conf \<Rightarrow> string \<Rightarrow> string \<Rightarrow> int" where
  "conf_get_number c sec name =
     (case Option.bind (conf_lookup c sec name) co_value of None \<Rightarrow> - 1 | Some v \<Rightarrow> strtol v)"

definition conf_get_yesno :: "conf \<Rightarrow> string \<Rightarrow> string \<Rightarrow> int" where
  "conf_get_yesno c sec name =
     (case Option.bind (conf_lookup c sec name) co_value of
        None \<Rightarrow> - 1
      | Some v \<Rightarrow>
          if isdigit (cstr_hd v) then atoi v
          else if strcase_eq v ''yes'' then 1
          else if strcase_eq v ''no'' then 0 else - 1)"

text \<open>The settings of the automounter; the default applies when the option is missing or out of range.\<close>

definition number_or :: "(int \<Rightarrow> bool) \<Rightarrow> int \<Rightarrow> string \<Rightarrow> int" where
  "number_or bad n dflt = (if bad n then strtol dflt else n)"

definition defaults_get_master_map :: "conf \<Rightarrow> string option \<times> conf" where
  "defaults_get_master_map c =
     (case conf_get_string autofs_gbl_sec ''master_map_name'' c of
        (Some m, c') \<Rightarrow> (Some m, c')
      | (None, c') \<Rightarrow> (case cf_alloc c' of (ok, c'') \<Rightarrow> (if ok then Some ''auto.master'' else None, c'')))"

definition defaults_master_set :: "conf \<Rightarrow> bool" where
  "defaults_master_set c \<longleftrightarrow> conf_lookup c autofs_gbl_sec ''master_map_name'' \<noteq> None"

definition defaults_get_open_file_limit :: "conf \<Rightarrow> u64" where
  "defaults_get_open_file_limit c =
     word_of_int (number_or (\<lambda>n. n < 0) (conf_get_number c autofs_gbl_sec ''open_file_limit'') ''20480'')"

definition defaults_get_timeout :: "conf \<Rightarrow> u32" where
  "defaults_get_timeout c = word_of_int (number_or (\<lambda>n. n < 0) (conf_get_number c autofs_gbl_sec ''timeout'') ''600'')"

definition defaults_get_master_wait :: "conf \<Rightarrow> int" where
  "defaults_get_master_wait c = to_s32 (number_or (\<lambda>n. n < 0) (conf_get_number c autofs_gbl_sec ''master_wait'') ''10'')"

definition defaults_get_negative_timeout :: "conf \<Rightarrow> u32" where
  "defaults_get_negative_timeout c =
     word_of_int (number_or (\<lambda>n. n \<le> 0) (conf_get_number c autofs_gbl_sec ''negative_timeout'') ''60'')"

definition defaults_get_positive_timeout :: "conf \<Rightarrow> u32" where
  "defaults_get_positive_timeout c =
     word_of_int (number_or (\<lambda>n. n \<le> 0) (conf_get_number c autofs_gbl_sec ''positive_timeout'') ''120'')"

text \<open>Settings that are yes or no, or a number kept in an \<open>int\<close>.\<close>

definition yesno_or :: "conf \<Rightarrow> string \<Rightarrow> string \<Rightarrow> u32" where
  "yesno_or c name dflt = word_of_int (let res = conf_get_yesno c autofs_gbl_sec name in if res < 0 then atoi dflt else res)"

definition int_or :: "conf \<Rightarrow> string \<Rightarrow> string \<Rightarrow> u32" where
  "int_or c name dflt =
     word_of_int (let res = to_s32 (conf_get_number c autofs_gbl_sec name) in if res < 0 then atoi dflt else res)"

definition defaults_get_browse_mode :: "conf \<Rightarrow> u32" where
  "defaults_get_browse_mode c = yesno_or c ''browse_mode'' ''1''"

definition LOGOPT_NONE :: u32 where "LOGOPT_NONE = 0"
definition LOGOPT_DEBUG :: u32 where "LOGOPT_DEBUG = 1"
definition LOGOPT_VERBOSE :: u32 where "LOGOPT_VERBOSE = 2"

definition defaults_get_logging :: "conf \<Rightarrow> u32 \<times> conf" where
  "defaults_get_logging c =
     (case conf_get_string autofs_gbl_sec ''logging'' c of
        (None, c') \<Rightarrow> (LOGOPT_NONE, c')
      | (Some res, c') \<Rightarrow>
          (if strcase_eq res ''none'' then LOGOPT_NONE
           else (if strcase_eq res ''verbose'' then LOGOPT_VERBOSE else LOGOPT_NONE)
                OR (if strcase_eq res ''debug'' then LOGOPT_DEBUG else LOGOPT_NONE), c'))"

definition defaults_force_std_prog_map_env :: "conf \<Rightarrow> u32" where
  "defaults_force_std_prog_map_env c = yesno_or c ''force_standard_program_map_env'' ''0''"

definition defaults_get_ldap_timeout :: "conf \<Rightarrow> u32" where
  "defaults_get_ldap_timeout c = int_or c ''ldap_timeout'' ''-1''"

definition defaults_get_ldap_network_timeout :: "conf \<Rightarrow> u32" where
  "defaults_get_ldap_network_timeout c = int_or c ''ldap_network_timeout'' ''8''"

definition defaults_get_mount_nfs_default_proto :: "conf \<Rightarrow> u32" where
  "defaults_get_mount_nfs_default_proto c =
     word_of_int (let proto = to_s32 (conf_get_number c autofs_gbl_sec ''mount_nfs_default_protocol'')
                  in if proto < 2 \<or> proto > 4 then atoi ''3'' else proto)"

definition defaults_get_append_options :: "conf \<Rightarrow> u32" where
  "defaults_get_append_options c = yesno_or c ''append_options'' ''1''"

definition defaults_get_mount_verbose :: "conf \<Rightarrow> u32" where
  "defaults_get_mount_verbose c = yesno_or c ''mount_verbose'' ''0''"

definition defaults_get_mount_wait :: "conf \<Rightarrow> u32" where
  "defaults_get_mount_wait c = word_of_int (number_or (\<lambda>n. n < 0) (conf_get_number c autofs_gbl_sec ''mount_wait'') ''-1'')"

definition defaults_get_umount_wait :: "conf \<Rightarrow> u32" where
  "defaults_get_umount_wait c = word_of_int (number_or (\<lambda>n. n < 0) (conf_get_number c autofs_gbl_sec ''umount_wait'') ''12'')"

definition defaults_get_auth_conf_file :: "string \<Rightarrow> conf \<Rightarrow> string option \<times> conf" where
  "defaults_get_auth_conf_file mapdir c =
     (case conf_get_string autofs_gbl_sec ''auth_conf_file'' c of
        (Some f, c') \<Rightarrow> (Some f, c')
      | (None, c') \<Rightarrow> (case cf_alloc c' of (ok, c'') \<Rightarrow> (if ok then Some (DEFAULT_AUTH_CONF_FILE mapdir) else None, c'')))"

definition defaults_get_map_hash_table_size :: "conf \<Rightarrow> u32" where
  "defaults_get_map_hash_table_size c =
     word_of_int (number_or (\<lambda>n. n < 0) (conf_get_number c autofs_gbl_sec ''map_hash_table_size'') ''1024'')"

definition defaults_use_hostname_for_mounts :: "conf \<Rightarrow> u32" where
  "defaults_use_hostname_for_mounts c = yesno_or c ''use_hostname_for_mounts'' ''0''"

definition defaults_disable_not_found_message :: "conf \<Rightarrow> u32" where
  "defaults_disable_not_found_message c = yesno_or c ''disable_not_found_message'' ''0''"

definition defaults_get_use_ignore_mount_option :: "conf \<Rightarrow> u32" where
  "defaults_get_use_ignore_mount_option c = yesno_or c ''use_ignore_mount_option'' ''0''"

definition defaults_get_sss_master_map_wait :: "conf \<Rightarrow> u32" where
  "defaults_get_sss_master_map_wait c = yesno_or c ''sss_master_map_wait'' ''0''"

definition defaults_get_use_mount_request_log_id :: "conf \<Rightarrow> u32" where
  "defaults_get_use_mount_request_log_id c = yesno_or c ''use_mount_request_log_id'' ''0''"

section \<open>Settings for amd maps\<close>

definition conf_section_exists :: "conf \<Rightarrow> string option \<Rightarrow> bool" where
  "conf_section_exists c sec = (case sec of None \<Rightarrow> False | Some s \<Rightarrow> conf_lookup c s s \<noteq> None)"

definition conf_amd_mount_section_exists :: "conf \<Rightarrow> string option \<Rightarrow> bool" where
  "conf_amd_mount_section_exists c sec = conf_section_exists c sec"

text \<open>
  The sections whose names begin with a slash: the loops over the table list a section once
  for every run of its options in the order of the chains.
\<close>

definition mount_sections :: "conf \<Rightarrow> string list" where
  "mount_sections c = remdups_adj (filter (\<lambda>s. cstr_hd s = CHR ''/'') (map co_section (concat (cf_hash c))))"

fun dup_paths :: "string list \<Rightarrow> conf \<Rightarrow> bool \<times> conf" where
  "dup_paths [] c = (True, c)"
| "dup_paths (p # ps) c = (case cf_alloc c of (True, c') \<Rightarrow> dup_paths ps c' | (False, c') \<Rightarrow> (False, c'))"

definition conf_enumerate_amd_mount_sections :: "conf \<Rightarrow> string list option \<times> conf" where
  "conf_enumerate_amd_mount_sections c =
     (let paths = mount_sections c
      in if paths = [] then (None, c)
         else (case cf_alloc c of
                 (False, c') \<Rightarrow> (None, c')
               | (True, c') \<Rightarrow> (case dup_paths paths c' of (ok, c'') \<Rightarrow> (if ok then Some paths else None, c''))))"

definition conf_amd_get_mount_paths :: "conf \<Rightarrow> string list option \<times> conf" where
  "conf_amd_get_mount_paths c = conf_enumerate_amd_mount_sections c"

definition conf_amd_get_arch :: "conf \<Rightarrow> string option \<times> conf" where
  "conf_amd_get_arch c = conf_get_string amd_gbl_sec ''arch'' c"

definition conf_amd_get_karch :: "conf \<Rightarrow> string option \<times> conf" where
  "conf_amd_get_karch c =
     (case conf_get_string amd_gbl_sec ''karch'' c of (Some t, c') \<Rightarrow> (Some t, c') | (None, c') \<Rightarrow> conf_amd_get_arch c')"

definition conf_amd_get_os :: "conf \<Rightarrow> string option \<times> conf" where
  "conf_amd_get_os c = conf_get_string amd_gbl_sec ''os'' c"

definition conf_amd_get_os_ver :: "conf \<Rightarrow> string option \<times> conf" where
  "conf_amd_get_os_ver c = conf_get_string amd_gbl_sec ''osver'' c"

definition conf_amd_get_vendor :: "conf \<Rightarrow> string option \<times> conf" where
  "conf_amd_get_vendor c = conf_get_string amd_gbl_sec ''vendor'' c"

definition conf_amd_get_full_os :: "conf \<Rightarrow> string option \<times> conf" where
  "conf_amd_get_full_os c = conf_get_string amd_gbl_sec ''full_os'' c"

definition conf_amd_get_auto_dir :: "conf \<Rightarrow> string option \<times> conf" where
  "conf_amd_get_auto_dir c =
     (case conf_get_string amd_gbl_sec ''auto_dir'' c of
        (Some t, c') \<Rightarrow> (Some t, c')
      | (None, c') \<Rightarrow> (case cf_alloc c' of (ok, c'') \<Rightarrow> (if ok then Some ''/a'' else None, c'')))"

definition conf_amd_get_cluster :: "conf \<Rightarrow> string option \<times> conf" where
  "conf_amd_get_cluster c = conf_get_string amd_gbl_sec ''cluster'' c"

definition conf_amd_get_exec_map_timeout :: "conf \<Rightarrow> u32" where
  "conf_amd_get_exec_map_timeout c =
     word_of_int (number_or (\<lambda>n. n = - 1) (conf_get_number c amd_gbl_sec ''exec_map_timeout'') ''10'')"

definition conf_amd_get_hesiod_base :: "conf \<Rightarrow> string option \<times> conf" where
  "conf_amd_get_hesiod_base c = conf_get_string amd_gbl_sec ''hesiod_base'' c"

definition conf_amd_get_ldap_base :: "conf \<Rightarrow> string option \<times> conf" where
  "conf_amd_get_ldap_base c = conf_get_string amd_gbl_sec ''ldap_base'' c"

definition conf_amd_get_ldap_hostports :: "conf \<Rightarrow> string option \<times> conf" where
  "conf_amd_get_ldap_hostports c = conf_get_string amd_gbl_sec ''ldap_hostports'' c"

definition conf_amd_get_ldap_proto_version :: "conf \<Rightarrow> u32" where
  "conf_amd_get_ldap_proto_version c =
     word_of_int (number_or (\<lambda>n. n = - 1) (conf_get_number c amd_gbl_sec ''ldap_proto_version'') ''2'')"

definition conf_amd_get_sub_domain :: "conf \<Rightarrow> string option \<times> conf" where
  "conf_amd_get_sub_domain c = conf_get_string amd_gbl_sec ''local_domain'' c"

definition conf_amd_get_localhost_address :: "conf \<Rightarrow> string option \<times> conf" where
  "conf_amd_get_localhost_address c = conf_get_string amd_gbl_sec ''localhost_address'' c"

text \<open>The level of the most talkative word in the option; the priorities are those of \<^verbatim>\<open>syslog.h\<close>.\<close>

definition log_words :: "(string list \<times> int) list" where
  "log_words =
     [([''debug'', ''all''], 7), ([''info'', ''user''], 6), ([''notice''], 5),
      ([''warn'', ''map'', ''stats'', ''warning''], 4), ([''error''], 3), ([''fatal''], 2)]"

definition log_level :: "string \<Rightarrow> int" where
  "log_level tmp =
     fold (\<lambda>(words, level) l.
         if ((\<exists>w \<in> set words. strstr tmp w \<noteq> None) \<or> level = 6 \<and> tmp \<noteq> ''defaults'') \<and> l < level then level else l)
       log_words (- 1)"

definition conf_amd_get_log_options :: "conf \<Rightarrow> u32 \<times> conf" where
  "conf_amd_get_log_options c =
     (case conf_get_string amd_gbl_sec ''log_options'' c of
        (tmp, c') \<Rightarrow>
          (let level = (case tmp of None \<Rightarrow> - 1 | Some t \<Rightarrow> log_level t)
           in (word_of_int (if level = - 1 then 3 else level), c')))"

definition conf_amd_get_nis_domain :: "conf \<Rightarrow> string option \<times> conf" where
  "conf_amd_get_nis_domain c = conf_get_string amd_gbl_sec ''nis_domain'' c"

definition conf_amd_set_nis_domain :: "string option \<Rightarrow> conf \<Rightarrow> cfg_status \<times> conf" where
  "conf_amd_set_nis_domain domain c = conf_update amd_gbl_sec ''nis_domain'' domain CONF_NONE c"

text \<open>Settings of a mount section, with the global section to fall back to for some.\<close>

definition section_string :: "string option \<Rightarrow> string \<Rightarrow> conf \<Rightarrow> string option \<times> conf" where
  "section_string sec name c = (case sec of None \<Rightarrow> (None, c) | Some s \<Rightarrow> conf_get_string s name c)"

definition section_or_global :: "string option \<Rightarrow> string \<Rightarrow> conf \<Rightarrow> string option \<times> conf" where
  "section_or_global sec name c =
     (case section_string sec name c of (Some t, c') \<Rightarrow> (Some t, c') | (None, c') \<Rightarrow> conf_get_string amd_gbl_sec name c')"

definition conf_amd_get_map_defaults :: "string option \<Rightarrow> conf \<Rightarrow> string option \<times> conf" where
  "conf_amd_get_map_defaults sec c = section_or_global sec ''map_defaults'' c"

definition conf_amd_get_map_name :: "string option \<Rightarrow> conf \<Rightarrow> string option \<times> conf" where
  "conf_amd_get_map_name sec c = section_string sec ''map_name'' c"

definition conf_amd_get_map_options :: "string option \<Rightarrow> conf \<Rightarrow> string option \<times> conf" where
  "conf_amd_get_map_options sec c = section_string sec ''map_options'' c"

definition conf_amd_get_map_type :: "string option \<Rightarrow> conf \<Rightarrow> string option \<times> conf" where
  "conf_amd_get_map_type sec c = section_or_global sec ''map_type'' c"

definition conf_amd_get_search_path :: "string option \<Rightarrow> conf \<Rightarrow> string option \<times> conf" where
  "conf_amd_get_search_path sec c = section_or_global sec ''search_path'' c"

definition conf_amd_get_dismount_interval :: "string option \<Rightarrow> conf \<Rightarrow> u32" where
  "conf_amd_get_dismount_interval sec c =
     (let t1 = (case sec of None \<Rightarrow> - 1 | Some s \<Rightarrow> conf_get_number c s ''dismount_interval'');
          t2 = (if t1 = - 1 then conf_get_number c amd_gbl_sec ''dismount_interval'' else t1);
          t3 = (if t2 = - 1 then uint (defaults_get_timeout c) else t2);
          t4 = (if t3 = - 1 then atoi ''600'' else t3)
      in word_of_int t4)"

definition conf_amd_get_linux_ufs_mount_type :: "conf \<Rightarrow> string option \<times> conf" where
  "conf_amd_get_linux_ufs_mount_type c = conf_get_string amd_gbl_sec ''linux_ufs_mount_type'' c"

text \<open>
  \<open>conf_amd_get_flags\<close>: the variable \<open>tmp\<close> is unsigned, so the -1 for an option that is
  missing or neither yes nor no counts as yes.
\<close>

definition CONF_BROWSABLE_DIRS :: u64 where "CONF_BROWSABLE_DIRS = 0x8"
definition CONF_MOUNT_TYPE_AUTOFS :: u64 where "CONF_MOUNT_TYPE_AUTOFS = 0x10"
definition CONF_SELECTORS_IN_DEFAULTS :: u64 where "CONF_SELECTORS_IN_DEFAULTS = 0x20"
definition CONF_NORMALIZE_HOSTNAMES :: u64 where "CONF_NORMALIZE_HOSTNAMES = 0x40"
definition CONF_RESTART_EXISTING_MOUNTS :: u64 where "CONF_RESTART_EXISTING_MOUNTS = 0x100"
definition CONF_FULLY_QUALIFIED_HOSTS :: u64 where "CONF_FULLY_QUALIFIED_HOSTS = 0x400"
definition CONF_UNMOUNT_ON_EXIT :: u64 where "CONF_UNMOUNT_ON_EXIT = 0x800"
definition CONF_AUTOFS_USE_LOFS :: u64 where "CONF_AUTOFS_USE_LOFS = 0x1000"
definition CONF_DOMAIN_STRIP :: u64 where "CONF_DOMAIN_STRIP = 0x2000"
definition CONF_NORMALIZE_SLASHES :: u64 where "CONF_NORMALIZE_SLASHES = 0x4000"
definition CONF_FORCED_UNMOUNTS :: u64 where "CONF_FORCED_UNMOUNTS = 0x8000"

definition amd_flag :: "conf \<Rightarrow> string option \<Rightarrow> string \<Rightarrow> u64 \<Rightarrow> u64" where
  "amd_flag c sec name flag =
     (let t1 = (case sec of None \<Rightarrow> - 1 | Some s \<Rightarrow> conf_get_yesno c s name);
          t2 = (if t1 = - 1 then conf_get_yesno c amd_gbl_sec name else t1)
      in if t2 \<noteq> 0 then flag else 0)"

definition conf_amd_get_flags :: "string option \<Rightarrow> conf \<Rightarrow> u64" where
  "conf_amd_get_flags sec c =
     CONF_MOUNT_TYPE_AUTOFS
     OR amd_flag c sec ''browsable_dirs'' CONF_BROWSABLE_DIRS
     OR amd_flag c sec ''selectors_in_defaults'' CONF_SELECTORS_IN_DEFAULTS
     OR amd_flag c None ''normalize_hostnames'' CONF_NORMALIZE_HOSTNAMES
     OR amd_flag c None ''restart_mounts'' CONF_RESTART_EXISTING_MOUNTS
     OR amd_flag c None ''fully_qualified_hosts'' CONF_FULLY_QUALIFIED_HOSTS
     OR amd_flag c None ''unmount_on_exit'' CONF_UNMOUNT_ON_EXIT
     OR amd_flag c sec ''autofs_use_lofs'' CONF_AUTOFS_USE_LOFS
     OR amd_flag c None ''domain_strip'' CONF_DOMAIN_STRIP
     OR amd_flag c None ''normalize_slashes'' CONF_NORMALIZE_SLASHES
     OR amd_flag c None ''forced_unmounts'' CONF_FORCED_UNMOUNTS"

section \<open>Options that may be given several times\<close>

text \<open>The words of a string, as \<open>strtok_r(str, " ", &ptr)\<close> returns them.\<close>

fun words :: "string \<Rightarrow> string \<Rightarrow> string list" where
  "words [] acc = (if acc = [] then [] else [rev acc])"
| "words (ch # s) acc =
     (if ch = CHR '' '' then (if acc = [] then words s [] else rev acc # words s []) else words s (ch # acc))"

text \<open>
  The loop of \<open>add_uris\<close>: when no memory is left for an entry the loop tries the same word
  again, until there is; a word that cannot be copied is left out.
\<close>

function add_uris_loop :: "string list \<Rightarrow> mem \<Rightarrow> string list \<times> mem" where
  "add_uris_loop [] m = ([], m)"
| "add_uris_loop (tok # toks) m =
     (case m of
        False # m1 \<Rightarrow> add_uris_loop (tok # toks) m1
      | _ \<Rightarrow> (case malloc (malloc_rest m) of
                (uri_ok, m2) \<Rightarrow> (case add_uris_loop toks m2 of (uris, m3) \<Rightarrow> (if uri_ok then tok # uris else uris, m3))))"
  by pat_completeness auto
termination
  by (relation "measures [\<lambda>(toks, m). length toks, \<lambda>(toks, m). length m]") auto

definition add_uris :: "string \<Rightarrow> mem \<Rightarrow> string list \<times> mem" where
  "add_uris value m = (case malloc m of (False, m1) \<Rightarrow> ([], m1) | (True, m1) \<Rightarrow> add_uris_loop (words value []) m1)"

text \<open>
  The option that was found and the options behind it on its chain. The loops below go to the
  end of the chain and look at the names only, not at the sections.
\<close>

definition conf_lookup_tail :: "conf \<Rightarrow> string \<Rightarrow> string \<Rightarrow> conf_option list" where
  "conf_lookup_tail c sec key =
     (case conf_lookup_name c sec key of None \<Rightarrow> [] | Some k \<Rightarrow> chain_find (opt_match sec k) (cf_chain c k))"

fun collect_uris :: "conf_option list \<Rightarrow> mem \<Rightarrow> string list \<times> mem" where
  "collect_uris [] m = ([], m)"
| "collect_uris (co # cos) m =
     (case (if strcase_eq (co_name co) NAME_LDAP_URI then (case co_value co of Some v \<Rightarrow> add_uris v m | None \<Rightarrow> ([], m)) else ([], m)) of
        (uris, m1) \<Rightarrow> (case collect_uris cos m1 of (rest, m2) \<Rightarrow> (uris @ rest, m2)))"

fun collect_searchdns :: "conf_option list \<Rightarrow> mem \<Rightarrow> string list option \<times> mem" where
  "collect_searchdns [] m = (Some [], m)"
| "collect_searchdns (co # cos) m =
     (case co_value co of
        None \<Rightarrow> collect_searchdns cos m
      | Some v \<Rightarrow>
          if \<not> strcase_eq (co_name co) NAME_SEARCH_BASE then collect_searchdns cos m
          else (case malloc m of
                  (False, m1) \<Rightarrow> (None, m1)
                | (True, m1) \<Rightarrow>
                    (case malloc m1 of
                       (False, m2) \<Rightarrow> (None, m2)
                     | (True, m2) \<Rightarrow>
                         (case collect_searchdns cos m2 of (sdns, m3) \<Rightarrow> (map_option ((#) v) sdns, m3)))))"

text \<open>\<open>defaults_get_uris\<close> and \<open>defaults_get_searchdns\<close> after the configuration was read; \<open>None\<close> for \<open>NULL\<close>.\<close>

definition defaults_get_uris :: "conf \<Rightarrow> string list option \<times> conf" where
  "defaults_get_uris c =
     (case collect_uris (conf_lookup_tail c autofs_gbl_sec NAME_LDAP_URI) (cf_mem c) of
        (uris, m) \<Rightarrow> (if uris = [] then None else Some uris, c\<lparr>cf_mem := m\<rparr>))"

definition defaults_get_searchdns :: "conf \<Rightarrow> string list option \<times> conf" where
  "defaults_get_searchdns c =
     (case collect_searchdns (conf_lookup_tail c autofs_gbl_sec NAME_SEARCH_BASE) (cf_mem c) of
        (sdns, m) \<Rightarrow> (case sdns of Some (s # ss) \<Rightarrow> Some (s # ss) | _ \<Rightarrow> None, c\<lparr>cf_mem := m\<rparr>))"

record ldap_schema =
  map_class :: string
  map_attr :: string
  entry_class :: string
  entry_attr :: string
  value_attr :: string

definition schema_of :: "string list \<Rightarrow> ldap_schema" where
  "schema_of vs = \<lparr>map_class = vs ! 0, map_attr = vs ! 1, entry_class = vs ! 2, entry_attr = vs ! 3, value_attr = vs ! 4\<rparr>"

definition default_schema :: "string list" where
  "default_schema = [''nisMap'', ''nisMapName'', ''nisObject'', ''cn'', ''nisMapEntry'']"

definition defaults_get_default_schema :: "conf \<Rightarrow> ldap_schema option \<times> conf" where
  "defaults_get_default_schema c =
     (case dup_paths default_schema c of
        (False, c1) \<Rightarrow> (None, c1)
      | (True, c1) \<Rightarrow> (case cf_alloc c1 of (ok, c2) \<Rightarrow> (if ok then Some (schema_of default_schema) else None, c2)))"

fun conf_get_strings :: "string \<Rightarrow> string list \<Rightarrow> conf \<Rightarrow> string list option \<times> conf" where
  "conf_get_strings sec [] c = (Some [], c)"
| "conf_get_strings sec (n # ns) c =
     (case conf_get_string sec n c of
        (None, c1) \<Rightarrow> (None, c1)
      | (Some v, c1) \<Rightarrow> (case conf_get_strings sec ns c1 of (vs, c2) \<Rightarrow> (map_option ((#) v) vs, c2)))"

definition defaults_get_schema :: "conf \<Rightarrow> ldap_schema option \<times> conf" where
  "defaults_get_schema c =
     (case conf_get_strings autofs_gbl_sec
             [''map_object_class'', ''map_attribute'', ''entry_object_class'', ''entry_attribute'', ''value_attribute''] c of
        (None, c1) \<Rightarrow> (None, c1)
      | (Some vs, c1) \<Rightarrow> (case cf_alloc c1 of (ok, c2) \<Rightarrow> (if ok then Some (schema_of vs) else None, c2)))"

section \<open>Reading the configuration\<close>

text \<open>
  \<open>save_ldap_option_list\<close> takes the options of a name out of their chain, on the pointers as
  the source moves them: the options of the chain are numbered, \<open>lw_head\<close> is the entry of the
  hash table, \<open>lw_next\<close> the \<open>next\<close> pointers, \<open>lw_list\<close> and \<open>lw_this\<close> the first and the last
  option of the new list. The loop visits the options in their order.
\<close>

record ldap_walk =
  lw_head :: "nat option"
  lw_next :: "nat option list"
  lw_last :: "nat option"
  lw_list :: "nat option"
  lw_this :: "nat option"

definition set_next :: "nat option \<Rightarrow> nat option \<Rightarrow> ldap_walk \<Rightarrow> ldap_walk" where
  "set_next p q w = (case p of None \<Rightarrow> w | Some i \<Rightarrow> w\<lparr>lw_next := (lw_next w)[i := q]\<rparr>)"

definition save_step :: "string \<Rightarrow> conf_option list \<Rightarrow> nat \<Rightarrow> ldap_walk \<Rightarrow> ldap_walk" where
  "save_step key os co w =
     (if \<not> strcase_eq autofs_gbl_sec (co_section (os ! co)) then w\<lparr>lw_last := Some co\<rparr>
      else if strcase_eq (co_name (os ! co)) key then
        (let next = lw_next w ! co;
             w1 = (if lw_head w = Some co then w\<lparr>lw_head := next\<rparr> else set_next (lw_last w) next w);
             w2 = set_next (Some co) None (w1\<lparr>lw_last := next\<rparr>);
             w3 = set_next (lw_this w2) (Some co) w2
         in w3\<lparr>lw_this := Some co, lw_list := (if lw_list w3 = None then Some co else lw_list w3)\<rparr>)
      else w)"

definition save_walk :: "string \<Rightarrow> conf_option list \<Rightarrow> ldap_walk" where
  "save_walk key os =
     fold (save_step key os) [0..<length os]
       \<lparr>lw_head = (if os = [] then None else Some 0),
        lw_next = map (\<lambda>i. if Suc i < length os then Some (Suc i) else None) [0..<length os],
        lw_last = (if os = [] then None else Some 0), lw_list = None, lw_this = None\<rparr>"

fun follow :: "nat option list \<Rightarrow> nat option \<Rightarrow> nat \<Rightarrow> nat list" where
  "follow next p 0 = []"
| "follow next None (Suc n) = []"
| "follow next (Some i) (Suc n) = i # follow next (next ! i) n"

text \<open>
  The options saved; \<open>None\<close> when the list and the chain end up with a common option, which
  is then freed twice or closes the chain to a circle.
\<close>

definition save_ldap_option_list :: "string \<Rightarrow> conf \<Rightarrow> conf_option list option \<times> conf" where
  "save_ldap_option_list key c =
     (let os = cf_chain c key; w = save_walk key os;
          kept = follow (lw_next w) (lw_head w) (length os);
          saved = follow (lw_next w) (lw_list w) (length os)
      in if set kept \<inter> set saved \<noteq> {} then (None, c)
         else (Some (map ((!) os) saved), set_chain key (map ((!) os) kept) c))"

definition restore_ldap_option_list :: "conf_option list \<Rightarrow> conf \<Rightarrow> conf" where
  "restore_ldap_option_list list c =
     (case list of [] \<Rightarrow> c | co # _ \<Rightarrow> set_chain (co_name co) (list @ cf_chain c (co_name co)) c)"

definition clean_ldap_multi_option :: "string \<Rightarrow> conf \<Rightarrow> conf" where
  "clean_ldap_multi_option key c = conf_delete_all autofs_gbl_sec key c"

definition save_and_clean :: "string \<Rightarrow> conf \<Rightarrow> conf_option list option \<times> conf" where
  "save_and_clean key c =
     (case save_ldap_option_list key c of
        (None, c1) \<Rightarrow> (None, c1)
      | (Some list, c1) \<Rightarrow> (Some list, if list = [] then c1 else clean_ldap_multi_option key c1))"

text \<open>After the old file was read: the lookup is in the section of amd.\<close>

definition free_or_restore :: "string \<Rightarrow> conf_option list \<Rightarrow> conf \<Rightarrow> conf" where
  "free_or_restore key list c =
     (if list = [] \<or> conf_lookup c amd_gbl_sec key \<noteq> None then c else restore_ldap_option_list list c)"

definition read_old_config :: "string \<Rightarrow> conf \<Rightarrow> cfg_status \<times> conf" where
  "read_old_config file c =
     (case save_and_clean NAME_SEARCH_BASE c of
        (None, c1) \<Rightarrow> (CFG_FAULT, c1)
      | (Some search_base, c1) \<Rightarrow>
          (case save_and_clean NAME_LDAP_URI c1 of
             (None, c2) \<Rightarrow> (CFG_FAULT, c2)
           | (Some uris, c2) \<Rightarrow>
               (case read_config file c2 of
                  (CFG_FAULT, c3) \<Rightarrow> (CFG_FAULT, c3)
                | (_, c3) \<Rightarrow> (CFG_OK, free_or_restore NAME_LDAP_URI uris (free_or_restore NAME_SEARCH_BASE search_base c3)))))"

text \<open>
  A file that was opened: its text, the result of \<open>fstat\<close>, and what the structure holds when
  \<open>fstat\<close> fails. \<open>stat\<close> and \<open>oldstat\<close> are the variables of the source, with the values that
  its comparisons give them.
\<close>

record conf_file =
  cfl_text :: string
  cfl_stat :: bool
  cfl_mtime :: time

definition defaults_read_config ::
  "string \<Rightarrow> int \<Rightarrow> utsname \<Rightarrow> conf_file option \<Rightarrow> conf_file option \<Rightarrow> conf \<Rightarrow> cfg_status \<times> conf" where
  "defaults_read_config mapdir uname_result uts file oldfile c =
     (let both = (file \<noteq> None \<and> oldfile \<noteq> None);
          stat = (if both then (if cfl_stat (the file) then 1 else 0) else - 1 :: int);
          tested = (both \<and> stat = 1 \<and> cfl_mtime (the file) \<le> cf_modified c);
          oldstat = (if tested then (if cfl_stat (the oldfile) then 0 else 1) else - 1 :: int)
      in if tested \<and> oldstat = 1 \<and> cfl_mtime (the oldfile) \<le> cf_modified c then (CFG_OK, c)
         else (case (if file \<noteq> None \<or> oldfile \<noteq> None then reset_defaults mapdir uname_result uts c else (CFG_OK, c)) of
                 (CFG_OK, c1) \<Rightarrow>
                   (let c2 = (if stat = - 1 then c1
                              else c1\<lparr>cf_modified := (if oldstat = - 1 then cfl_mtime (the file)
                                                       else min (cfl_mtime (the oldfile)) (cfl_mtime (the file)))\<rparr>)
                    in case (case file of None \<Rightarrow> (CFG_OK, c2) | Some f \<Rightarrow> read_config (cfl_text f) c2) of
                         (CFG_FAULT, c3) \<Rightarrow> (CFG_FAULT, c3)
                       | (_, c3) \<Rightarrow> (case oldfile of None \<Rightarrow> (CFG_OK, c3) | Some f \<Rightarrow> read_old_config (cfl_text f) c3))
               | (status, c1) \<Rightarrow> (status, c1)))"

end
