(* ===== verification/Defaults_Props.thy ===== *)
theory Defaults_Props
  imports Defaults
begin

text \<open>
  Properties of the configuration: where the options stand in the table, what an update
  changes, the meaning of a configuration file, the values that the getters return, and what
  \<open>conf_delete\<close> and the reset of the defaults do beyond their purpose.
\<close>

section \<open>The options of a key\<close>

definition opts :: "conf \<Rightarrow> string \<Rightarrow> string \<Rightarrow> conf_option list" where
  "opts c s n = filter (opt_match s n) (cf_chain c n)"

lemma strcase_eq_refl [simp]: "strcase_eq a a"
  by (simp add: strcase_eq_def)

lemma strcase_eq_sym: "strcase_eq a b \<Longrightarrow> strcase_eq b a"
  by (simp add: strcase_eq_def)

lemma strcase_eq_hash: "strcase_eq a b \<Longrightarrow> get_hash a = get_hash b"
  by (simp add: strcase_eq_def get_hash_def)

lemma strcase_eq_match: "strcase_eq s s' \<Longrightarrow> strcase_eq n n' \<Longrightarrow> opt_match s n = opt_match s' n'"
  by (auto simp: opt_match_def strcase_eq_def fun_eq_iff)

lemma opts_cong: "strcase_eq s s' \<Longrightarrow> strcase_eq n n' \<Longrightarrow> opts c s n = opts c s' n'"
  using strcase_eq_match strcase_eq_hash by (simp add: opts_def cf_chain_def)

lemma conf_find_filter: "(case chain_find P xs of [] \<Rightarrow> None | x # _ \<Rightarrow> Some x) = (case filter P xs of [] \<Rightarrow> None | x # _ \<Rightarrow> Some x)"
  by (induction xs) auto

lemma lookup_key_opts: "conf_lookup_key c s n = (case opts c s n of [] \<Rightarrow> None | co # _ \<Rightarrow> Some co)"
  by (simp add: conf_lookup_key_def opts_def conf_find_filter)

lemma cf_chain_set_chain [simp]:
  "length (cf_hash c) = 128 \<Longrightarrow> cf_chain (set_chain k os c) n = (if get_hash n = get_hash k then os else cf_chain c n)"
  by (simp add: cf_chain_def set_chain_def)

lemma length_set_chain [simp]: "length (cf_hash (set_chain k os c)) = length (cf_hash c)"
  by (simp add: set_chain_def)

section \<open>What the operations leave alone\<close>

lemma cf_alloc_frame: "cf_alloc c = (ok, c') \<Longrightarrow> \<exists>m. c' = c\<lparr>cf_mem := m\<rparr>"
  by (auto simp: cf_alloc_def split: prod.splits)

lemma cf_chain_frame [simp]: "cf_chain (c\<lparr>cf_mem := m\<rparr>) n = cf_chain c n" "cf_chain (c\<lparr>cf_env := e\<rparr>) n = cf_chain c n"
  "cf_chain (c\<lparr>cf_modified := t\<rparr>) n = cf_chain c n"
  by (simp_all add: cf_chain_def)

lemma conf_setenv_frame [simp]: "cf_hash (conf_setenv k v f c) = cf_hash c" "cf_mem (conf_setenv k v f c) = cf_mem c"
  "cf_chain (conf_setenv k v f c) n = cf_chain c n"
  by (simp_all add: conf_setenv_def cf_chain_def split: option.split)

lemma dup_value_frame: "dup_value v c = (ok, c') \<Longrightarrow> \<exists>m. c' = c\<lparr>cf_mem := m\<rparr>"
proof -
  assume "dup_value v c = (ok, c')"
  then have "c' = c\<lparr>cf_mem := cf_mem c\<rparr> \<or> cf_alloc c = (ok, c')" by (auto simp: dup_value_def split: if_splits)
  then show ?thesis using cf_alloc_frame by blast
qed

definition new_option :: "conf \<Rightarrow> string \<Rightarrow> string \<Rightarrow> string option \<Rightarrow> u64 \<Rightarrow> conf_option" where
  "new_option c sec key value flags = \<lparr>co_section = sec, co_name = key, co_value = conf_value c key value flags, co_flags = flags\<rparr>"

lemma conf_add_result:
  assumes "conf_add s k v f c = (status, c')"
  shows "\<exists>m. c' = (if status = CFG_OK then set_chain k (cf_chain c k @ [new_option c s k v f]) (conf_setenv k v f (c\<lparr>cf_mem := m\<rparr>))
    else c\<lparr>cf_mem := m\<rparr>)"
proof -
  obtain ok c1 where 1: "dup_value (conf_value c k v f) c = (ok, c1)" by fastforce
  obtain ok2 c2 where 2: "cf_alloc c1 = (ok2, c2)" by fastforce
  obtain ok3 c3 where 3: "cf_alloc c2 = (ok3, c3)" by fastforce
  obtain ok4 c4 where 4: "cf_alloc c3 = (ok4, c4)" by fastforce
  obtain m where m: "c1 = c\<lparr>cf_mem := m\<rparr>" using dup_value_frame [OF 1] by blast
  obtain m2 where m2: "c2 = c\<lparr>cf_mem := m2\<rparr>" using cf_alloc_frame [OF 2] m by auto
  obtain m3 where m3: "c3 = c\<lparr>cf_mem := m3\<rparr>" using cf_alloc_frame [OF 3] m2 by auto
  obtain m4 where m4: "c4 = c\<lparr>cf_mem := m4\<rparr>" using cf_alloc_frame [OF 4] m3 by auto
  consider "\<not> ok" | "ok" "\<not> ok3" | "ok" "ok3" "\<not> ok4" | "ok" "ok3" "ok4" by blast
  then show ?thesis
  proof cases
    case 1
    with assms \<open>dup_value _ _ = _\<close> m show ?thesis by (intro exI [of _ m]) (auto simp: conf_add_def)
  next
    case 2
    with assms 1 \<open>cf_alloc c1 = _\<close> 3 m3 show ?thesis by (intro exI [of _ m3]) (auto simp: conf_add_def)
  next
    case 3
    with assms 1 2 \<open>cf_alloc c2 = _\<close> 4 m4 show ?thesis by (intro exI [of _ m4]) (auto simp: conf_add_def)
  next
    case 4
    with assms 1 2 3 \<open>cf_alloc c3 = _\<close> m4 show ?thesis
      by (intro exI [of _ m4]) (auto simp: conf_add_def new_option_def split: if_splits)
  qed
qed

definition upd_option :: "conf \<Rightarrow> string \<Rightarrow> string option \<Rightarrow> u64 \<Rightarrow> conf_option \<Rightarrow> conf_option" where
  "upd_option c key value flags co =
     co\<lparr>co_value := conf_value c key value flags, co_flags := (if flags \<noteq> 0 then flags else co_flags co)\<rparr>"

lemma conf_update_result:
  assumes "conf_update s k v f c = (status, c')"
  shows "\<exists>m. c' = (if status \<noteq> CFG_OK then c\<lparr>cf_mem := m\<rparr>
    else case conf_lookup_name c s k of
           None \<Rightarrow> set_chain k (cf_chain c k @ [new_option c s k v f]) (conf_setenv k v f (c\<lparr>cf_mem := m\<rparr>))
         | Some n \<Rightarrow> conf_setenv k v f (set_chain n (upd_first (opt_match s n) (upd_option c k v f) (cf_chain c n)) (c\<lparr>cf_mem := m\<rparr>)))"
proof (cases "conf_lookup_name c s k")
  case None
  with assms conf_add_result [of s k v f c status c'] show ?thesis by (cases "status = CFG_OK") (simp_all add: conf_update_def)
next
  case (Some n)
  obtain ok c1 where 1: "dup_value (conf_value c k v f) c = (ok, c1)" by fastforce
  obtain m where m: "c1 = c\<lparr>cf_mem := m\<rparr>" using dup_value_frame [OF 1] by blast
  have "(\<lambda>co. co\<lparr>co_value := conf_value c k v f, co_flags := (if f \<noteq> 0 then f else co_flags co)\<rparr>) = upd_option c k v f"
    by (simp add: upd_option_def fun_eq_iff)
  with Some assms 1 m show ?thesis
    by (intro exI [of _ m]) (auto simp: conf_update_def split: bool.splits)
qed

section \<open>Updates\<close>

lemma opt_match_upd [simp]: "opt_match s n (upd_option c k v f co) = opt_match s n co"
  by (simp add: upd_option_def opt_match_def)

lemma opt_match_same: "opt_match s n co \<Longrightarrow> opt_match s' n' co \<Longrightarrow> strcase_eq s s' \<and> strcase_eq n n'"
  by (auto simp: opt_match_def strcase_eq_def)

lemma filter_upd_first_other: "(\<And>x. P x \<Longrightarrow> \<not> Q x \<and> \<not> Q (f x)) \<Longrightarrow> filter Q (upd_first P f xs) = filter Q xs"
  by (induction xs) auto

lemma filter_upd_first_same:
  "(\<And>x. P x \<Longrightarrow> P (f x)) \<Longrightarrow> filter P (upd_first P f xs) = (case filter P xs of [] \<Rightarrow> [] | y # ys \<Rightarrow> f y # ys)"
  by (induction xs) auto

lemma opts_set_chain:
  assumes "length (cf_hash c) = 128"
  shows "opts (set_chain k os c) s n = (if get_hash n = get_hash k then filter (opt_match s n) os else opts c s n)"
  using assms by (simp add: opts_def)

lemma opts_frame [simp]:
  "opts (c\<lparr>cf_mem := m\<rparr>) s n = opts c s n" "opts (conf_setenv k v f c) s n = opts c s n" "opts (c\<lparr>cf_modified := t\<rparr>) s n = opts c s n"
  by (simp_all add: opts_def)

text \<open>The name under which an update stores its value.\<close>

definition stored_name :: "conf \<Rightarrow> string \<Rightarrow> string \<Rightarrow> string" where
  "stored_name c s k = (case conf_lookup_name c s k of None \<Rightarrow> k | Some n \<Rightarrow> n)"

definition same_key :: "string \<Rightarrow> string \<Rightarrow> string \<Rightarrow> string \<Rightarrow> bool" where
  "same_key s n s' n' \<longleftrightarrow> strcase_eq s s' \<and> strcase_eq n n'"

lemma opts_append:
  assumes "length (cf_hash c) = 128"
  shows "opts (set_chain k (cf_chain c k @ [co]) c) s' n' =
    opts c s' n' @ (if get_hash n' = get_hash k \<and> opt_match s' n' co then [co] else [])"
proof (cases "get_hash n' = get_hash k")
  case True
  then have "cf_chain c n' = cf_chain c k" by (simp add: cf_chain_def)
  with True assms show ?thesis by (simp add: opts_set_chain) (simp add: opts_def)
qed (use assms in \<open>simp add: opts_set_chain\<close>)

lemma opts_new_option:
  assumes "length (cf_hash c) = 128"
  shows "opts (set_chain k (cf_chain c k @ [new_option c0 s k v f]) c) s' n' =
    opts c s' n' @ (if same_key s k s' n' then [new_option c0 s k v f] else [])"
  using assms strcase_eq_hash [of k n']
  by (auto simp: opts_append new_option_def opt_match_def same_key_def dest: strcase_eq_sym strcase_eq_hash)

lemma opts_upd_first:
  assumes "length (cf_hash c) = 128"
  shows "opts (set_chain n (upd_first (opt_match s n) (upd_option c0 k v f) (cf_chain c n)) c) s' n' =
    (if same_key s n s' n' then (case opts c s n of [] \<Rightarrow> [] | co # cos \<Rightarrow> upd_option c0 k v f co # cos) else opts c s' n')"
proof (cases "same_key s n s' n'")
  case True
  then have "get_hash n' = get_hash n" "opt_match s' n' = opt_match s n"
    using strcase_eq_hash strcase_eq_match by (auto simp: same_key_def)
  with True assms show ?thesis by (simp add: opts_set_chain filter_upd_first_same) (simp add: opts_def)
next
  case False
  have "filter (opt_match s' n') (upd_first (opt_match s n) (upd_option c0 k v f) (cf_chain c n)) = filter (opt_match s' n') (cf_chain c n)"
    by (rule filter_upd_first_other) (use False opt_match_same in \<open>auto simp: same_key_def\<close>)
  moreover have "get_hash n' = get_hash n \<Longrightarrow> cf_chain c n = cf_chain c n'" by (simp add: cf_chain_def)
  ultimately show ?thesis using False assms by (auto simp: opts_set_chain opts_def)
qed

lemma conf_lookup_name_Some: "conf_lookup_name c s k = Some n \<Longrightarrow> opts c s n \<noteq> []"
  by (auto simp: conf_lookup_name_def lookup_key_opts split: if_splits list.splits)

lemma conf_update_opts:
  assumes "length (cf_hash c) = 128" and "length k \<le> PATH_MAX" and "conf_update s k v f c = (CFG_OK, c')"
  shows "opts c' s' n' =
    (if same_key s (stored_name c s k) s' n'
     then (case opts c s (stored_name c s k) of [] \<Rightarrow> [new_option c s k v f] | co # cos \<Rightarrow> upd_option c k v f co # cos)
     else opts c s' n')"
proof -
  obtain m where c': "c' = (case conf_lookup_name c s k of
      None \<Rightarrow> set_chain k (cf_chain c k @ [new_option c s k v f]) (conf_setenv k v f (c\<lparr>cf_mem := m\<rparr>))
    | Some n \<Rightarrow> conf_setenv k v f (set_chain n (upd_first (opt_match s n) (upd_option c k v f) (cf_chain c n)) (c\<lparr>cf_mem := m\<rparr>)))"
    using conf_update_result [OF assms(3)] by auto
  show ?thesis
  proof (cases "conf_lookup_name c s k")
    case None
    with assms(2) have "opts c s k = []"
      by (auto simp: conf_lookup_name_def lookup_key_opts split: if_splits list.splits)
    moreover have "opts c' s' n' = opts c s' n' @ (if same_key s k s' n' then [new_option c s k v f] else [])"
      using opts_new_option [of "conf_setenv k v f (c\<lparr>cf_mem := m\<rparr>)" k c s v f s' n'] c' None assms(1) by simp
    moreover have "same_key s k s' n' \<Longrightarrow> opts c s' n' = opts c s k"
      using opts_cong [of s s' k n' c] by (simp add: same_key_def)
    ultimately show ?thesis using None by (simp add: stored_name_def)
  next
    case (Some n)
    have "opts c' s' n' = (if same_key s n s' n' then (case opts c s n of [] \<Rightarrow> [] | co # cos \<Rightarrow> upd_option c k v f co # cos) else opts c s' n')"
      using opts_upd_first [of "c\<lparr>cf_mem := m\<rparr>" n s c k v f s' n'] c' Some assms(1) by simp
    with Some conf_lookup_name_Some [OF Some] show ?thesis by (auto simp: stored_name_def split: list.split)
  qed
qed

text \<open>While memory lasts an update succeeds.\<close>

lemma cf_alloc_ample:
  assumes "mem_ample (cf_mem c)"
  obtains m where "cf_alloc c = (True, c\<lparr>cf_mem := m\<rparr>)" "mem_ample m"
proof -
  from assms obtain m where "malloc (cf_mem c) = (True, m)" "mem_ample m" by (rule mem_ampleE)
  then show thesis using that by (simp add: cf_alloc_def)
qed

lemma dup_value_ample:
  assumes "mem_ample (cf_mem c)"
  obtains m where "dup_value v c = (True, c\<lparr>cf_mem := m\<rparr>)" "mem_ample m"
proof (cases "v = None")
  case True
  then show thesis using that [of "cf_mem c"] assms by (simp add: dup_value_def)
next
  case False
  from cf_alloc_ample [OF assms] obtain m where "cf_alloc c = (True, c\<lparr>cf_mem := m\<rparr>)" "mem_ample m" .
  then show thesis using that False by (auto simp: dup_value_def)
qed

lemma conf_add_ample:
  assumes "mem_ample (cf_mem c)"
  obtains c' where "conf_add s k v f c = (CFG_OK, c')" "mem_ample (cf_mem c')"
proof -
  from dup_value_ample [OF assms] obtain m1 where 1: "dup_value (conf_value c k v f) c = (True, c\<lparr>cf_mem := m1\<rparr>)" "mem_ample m1" .
  from 1(2) cf_alloc_ample [of "c\<lparr>cf_mem := m1\<rparr>"] obtain m2 where 2: "cf_alloc (c\<lparr>cf_mem := m1\<rparr>) = (True, c\<lparr>cf_mem := m2\<rparr>)" "mem_ample m2" by auto
  from 2(2) cf_alloc_ample [of "c\<lparr>cf_mem := m2\<rparr>"] obtain m3 where 3: "cf_alloc (c\<lparr>cf_mem := m2\<rparr>) = (True, c\<lparr>cf_mem := m3\<rparr>)" "mem_ample m3" by auto
  from 3(2) cf_alloc_ample [of "c\<lparr>cf_mem := m3\<rparr>"] obtain m4 where 4: "cf_alloc (c\<lparr>cf_mem := m3\<rparr>) = (True, c\<lparr>cf_mem := m4\<rparr>)" "mem_ample m4" by auto
  show thesis using that 1 2 3 4 by (simp add: conf_add_def set_chain_def)
qed

lemma conf_update_ample:
  assumes "mem_ample (cf_mem c)"
  obtains c' where "conf_update s k v f c = (CFG_OK, c')" "mem_ample (cf_mem c')"
proof (cases "conf_lookup_name c s k")
  case None
  from conf_add_ample [OF assms] obtain c' where "conf_add s k v f c = (CFG_OK, c')" "mem_ample (cf_mem c')" .
  with None show thesis using that by (simp add: conf_update_def)
next
  case (Some n)
  from dup_value_ample [OF assms] obtain m where "dup_value (conf_value c k v f) c = (True, c\<lparr>cf_mem := m\<rparr>)" "mem_ample m" .
  with Some show thesis using that by (simp add: conf_update_def set_chain_def)
qed

lemma length_conf_update: "conf_update s k v f c = (status, c') \<Longrightarrow> length (cf_hash c') = length (cf_hash c)"
  using conf_update_result [of s k v f c status c'] by (auto split: if_splits option.splits)

text \<open>The value that a reader gets for a key.\<close>

definition conf_read :: "conf \<Rightarrow> string \<Rightarrow> string \<Rightarrow> string option" where
  "conf_read c s k = Option.bind (conf_lookup c s k) co_value"

lemma stored_name_cases: "conf_lookup_name c s k = None \<and> stored_name c s k = k \<or> conf_lookup_name c s k = Some (stored_name c s k)"
  by (cases "conf_lookup_name c s k") (simp_all add: stored_name_def)

lemma conf_update_correct_aux:
  assumes "length (cf_hash c) = 128" and "length k \<le> PATH_MAX" and u: "conf_update s k v f c = (CFG_OK, c')"
  shows "conf_read c' s k = conf_value c k v f"
proof -
  note o = conf_update_opts [OF assms]
  let ?n = "stored_name c s k"
  have at_n: "\<exists>co cos. opts c' s ?n = co # cos \<and> co_value co = conf_value c k v f"
    using o [of s ?n] by (auto simp: same_key_def new_option_def upd_option_def split: list.splits)
  show ?thesis
  proof (cases "conf_lookup_key c' s k")
    case None
    then have "opts c' s k = []" by (simp add: lookup_key_opts split: list.splits)
    moreover have "?n = k \<or> ?n = other_key k"
      by (simp add: stored_name_def conf_lookup_name_def split: option.split)
    ultimately have "?n = other_key k" using at_n by auto
    with None at_n assms(2) show ?thesis
      by (auto simp: conf_read_def conf_lookup_def conf_lookup_name_def lookup_key_opts)
  next
    case (Some co)
    then have k: "opts c' s k \<noteq> []" by (auto simp: lookup_key_opts)
    have "same_key s ?n s k"
    proof (rule ccontr)
      assume diff: "\<not> same_key s ?n s k"
      then have "opts c s k \<noteq> []" using k o [of s k] by simp
      then have "conf_lookup_name c s k = Some k"
        using assms(2) by (simp add: conf_lookup_name_def lookup_key_opts split: list.splits)
      then show False using diff by (simp add: stored_name_def same_key_def)
    qed
    then have "opts c' s k = opts c' s ?n" using opts_cong [of s s ?n k c'] by (simp add: same_key_def)
    with at_n Some assms(2) show ?thesis
      by (auto simp: conf_read_def conf_lookup_def conf_lookup_name_def lookup_key_opts)
  qed
qed

text \<open>
  C37: After a successful update of an option the option is found, with the value given or, for
  an option that the environment may override, with the value from the environment; the
  options of every other key are the same as before. While memory lasts the update
  succeeds. The key is the one under which the option was stored before, which may be
  its name with or without the prefix of the old configuration files.
\<close>

theorem conf_update_correct:
  assumes "length (cf_hash c) = 128" and "length k \<le> PATH_MAX"
  shows "(mem_ample (cf_mem c) \<longrightarrow> fst (conf_update s k v f c) = CFG_OK)
    \<and> (conf_update s k v f c = (CFG_OK, c') \<longrightarrow>
         conf_read c' s k = conf_value c k v f
         \<and> (\<forall>s' n'. \<not> same_key s (stored_name c s k) s' n' \<longrightarrow> opts c' s' n' = opts c s' n'))"
proof (intro conjI impI)
  show "fst (conf_update s k v f c) = CFG_OK" if "mem_ample (cf_mem c)"
    using conf_update_ample [OF that, of s k v f] by fastforce
next
  assume u: "conf_update s k v f c = (CFG_OK, c')"
  note o = conf_update_opts [OF assms u]
  show "\<forall>s' n'. \<not> same_key s (stored_name c s k) s' n' \<longrightarrow> opts c' s' n' = opts c s' n'" by (simp add: o)
  show "conf_read c' s k = conf_value c k v f" by (rule conf_update_correct_aux [OF assms u])
qed

theorem conf_update_correct_witness:
  "\<exists>c c'. fst (conf_init Map.empty []) = Some c \<and> conf_update ''autofs'' ''TIMEOUT'' (Some ''300'') 0 c = (CFG_OK, c')
     \<and> conf_read c' ''autofs'' ''TIMEOUT'' = Some ''300''"
proof -
  let ?c = "\<lparr>cf_hash = replicate (unat CFG_TABLE_SIZE) [], cf_modified = 0, cf_env = Map.empty, cf_mem = []\<rparr>"
  have "fst (conf_init Map.empty []) = Some ?c" by (simp add: conf_init_def)
  moreover obtain c' where "conf_update ''autofs'' ''TIMEOUT'' (Some ''300'') 0 ?c = (CFG_OK, c')"
    using conf_update_ample [of ?c "''autofs''" "''TIMEOUT''" "Some ''300''" 0] by auto
  moreover have "length (cf_hash ?c) = 128" by (simp add: CFG_TABLE_SIZE_def)
  ultimately show ?thesis
    using conf_update_correct [of ?c "''TIMEOUT''" "''autofs''" "Some ''300''" 0 c'] by (auto simp: PATH_MAX_def conf_value_def)
qed

section \<open>The invariant of the table\<close>

definition multi_option :: "string \<Rightarrow> bool" where
  "multi_option n \<longleftrightarrow> strcase_eq n NAME_LDAP_URI \<or> strcase_eq n NAME_SEARCH_BASE"

text \<open>
  Every option stands in the chain of its name, and only the options that may be given several
  times are there more than once.
\<close>

definition conf_ok :: "conf \<Rightarrow> bool" where
  "conf_ok c \<longleftrightarrow> length (cf_hash c) = 128
     \<and> (\<forall>i < 128. \<forall>co \<in> set (cf_hash c ! i). get_hash (co_name co) = i)
     \<and> (\<forall>s n. \<not> multi_option n \<and> length n \<le> PATH_MAX \<longrightarrow> length (opts c s n) \<le> 1)"

lemma conf_ok_length [simp]: "conf_ok c \<Longrightarrow> length (cf_hash c) = 128"
  by (simp add: conf_ok_def)

lemma conf_ok_frame [simp]:
  "conf_ok (c\<lparr>cf_mem := m\<rparr>) = conf_ok c" "conf_ok (conf_setenv k v f c) = conf_ok c" "conf_ok (c\<lparr>cf_modified := t\<rparr>) = conf_ok c"
  by (simp_all add: conf_ok_def)

lemma conf_ok_set_chain:
  assumes "conf_ok c" and "\<forall>co \<in> set os. get_hash (co_name co) = get_hash k"
    and "\<And>s n. get_hash n = get_hash k \<Longrightarrow> \<not> multi_option n \<Longrightarrow> length n \<le> PATH_MAX \<Longrightarrow> length (filter (opt_match s n) os) \<le> 1"
  shows "conf_ok (set_chain k os c)"
proof -
  have "\<forall>i < 128. \<forall>co \<in> set (cf_hash (set_chain k os c) ! i). get_hash (co_name co) = i"
    using assms(1,2) by (auto simp: conf_ok_def set_chain_def nth_list_update)
  moreover have "length (opts (set_chain k os c) s n) \<le> 1" if "\<not> multi_option n" "length n \<le> PATH_MAX" for s n
    using assms(1,3) that by (auto simp: opts_set_chain conf_ok_def)
  ultimately show ?thesis using assms(1) by (simp add: conf_ok_def)
qed

lemma conf_ok_chain: "conf_ok c \<Longrightarrow> co \<in> set (cf_chain c k) \<Longrightarrow> get_hash (co_name co) = get_hash k"
  by (simp add: conf_ok_def cf_chain_def)

text \<open>Taking options out of a chain keeps the invariant.\<close>

lemma conf_ok_fewer:
  assumes "conf_ok c" and "mset os \<subseteq># mset (cf_chain c k)"
  shows "conf_ok (set_chain k os c)"
proof (rule conf_ok_set_chain [OF assms(1)])
  have "set os \<subseteq> set (cf_chain c k)" using assms(2) by (metis set_mset_mono set_mset_mset)
  then show "\<forall>co \<in> set os. get_hash (co_name co) = get_hash k" using conf_ok_chain [OF assms(1)] by blast
next
  fix s n assume n: "get_hash n = get_hash k" "\<not> multi_option n" "length n \<le> PATH_MAX"
  have "length (filter (opt_match s n) os) = size (filter_mset (opt_match s n) (mset os))" by (metis mset_filter size_mset)
  also have "\<dots> \<le> size (filter_mset (opt_match s n) (mset (cf_chain c k)))"
    by (rule size_mset_mono) (rule multiset_filter_mono [OF assms(2)])
  also have "\<dots> = length (opts c s n)" using n(1) by (simp add: opts_def cf_chain_def flip: mset_filter)
  also have "\<dots> \<le> 1" using assms(1) n by (simp add: conf_ok_def)
  finally show "length (filter (opt_match s n) os) \<le> 1" .
qed

lemma mset_dropWhile: "mset (dropWhile P xs) \<subseteq># mset xs"
  by (metis mset_append mset_subset_eq_add_right takeWhile_dropWhile_id)

lemma mset_conf_unlink: "mset (conf_unlink s k os) \<subseteq># mset os"
proof (cases "chain_find (opt_match s k) os")
  case (Cons co rest)
  let ?t = "takeWhile (\<lambda>o'. \<not> opt_match s k o') os"
  have os: "os = ?t @ co # rest" using Cons unfolding chain_find_def by (metis takeWhile_dropWhile_id)
  have "mset (dropWhile Q (rev ?t)) + mset rest \<subseteq># mset ?t + add_mset co (mset rest)" for Q
    by (rule subset_mset.add_mono) (use mset_dropWhile [of Q "rev ?t"] in simp_all)
  moreover have "mset os = mset ?t + add_mset co (mset rest)" by (subst os) simp
  ultimately show ?thesis using Cons by (simp add: conf_unlink_def)
qed (simp add: conf_unlink_def)

lemma conf_ok_delete: "conf_ok c \<Longrightarrow> conf_ok (conf_delete s k c)"
  unfolding conf_delete_def by (rule conf_ok_fewer) (auto simp: mset_conf_unlink)

lemma conf_ok_delete_all: "conf_ok c \<Longrightarrow> conf_ok (conf_delete_all s k c)"
proof (induction s k c rule: conf_delete_all.induct)
  case (1 s k c)
  then show ?case by (subst conf_delete_all.simps) (auto simp: conf_ok_delete split: option.split)
qed

lemma conf_ok_append:
  assumes "conf_ok c" and "multi_option k \<or> opts c s k = [] \<or> length k > PATH_MAX"
  shows "conf_ok (set_chain k (cf_chain c k @ [new_option c0 s k v f]) c)"
proof (rule conf_ok_set_chain [OF assms(1)])
  show "\<forall>co \<in> set (cf_chain c k @ [new_option c0 s k v f]). get_hash (co_name co) = get_hash k"
    using conf_ok_chain [OF assms(1)] by (auto simp: new_option_def)
next
  fix s' n assume n: "get_hash n = get_hash k" "\<not> multi_option n" "length n \<le> PATH_MAX"
  then have "length (opts c s' n) \<le> 1" using assms(1) by (simp add: conf_ok_def)
  moreover have "opts c s' n = []" if "opt_match s' n (new_option c0 s k v f)"
  proof -
    from that have eq: "strcase_eq s' s" "strcase_eq n k" by (auto simp: opt_match_def new_option_def)
    then have "\<not> multi_option k" "length k \<le> PATH_MAX" using n
      by (auto simp: multi_option_def strcase_eq_def lower_def dest: arg_cong [of _ _ length])
    with assms(2) opts_cong [OF eq, of c] show ?thesis by simp
  qed
  ultimately show "length (filter (opt_match s' n) (cf_chain c k @ [new_option c0 s k v f])) \<le> 1"
    using n(1) by (auto simp: opts_def cf_chain_def)
qed

lemma conf_ok_update:
  assumes "conf_ok c" and "conf_update s k v f c = (status, c')"
  shows "conf_ok c'"
proof -
  obtain m where c': "c' = (if status \<noteq> CFG_OK then c\<lparr>cf_mem := m\<rparr>
    else case conf_lookup_name c s k of
           None \<Rightarrow> set_chain k (cf_chain c k @ [new_option c s k v f]) (conf_setenv k v f (c\<lparr>cf_mem := m\<rparr>))
         | Some n \<Rightarrow> conf_setenv k v f (set_chain n (upd_first (opt_match s n) (upd_option c k v f) (cf_chain c n)) (c\<lparr>cf_mem := m\<rparr>)))"
    using conf_update_result [OF assms(2)] by blast
  let ?c = "conf_setenv k v f (c\<lparr>cf_mem := m\<rparr>)"
  show ?thesis
  proof (cases "conf_lookup_name c s k")
    case None
    then have "opts ?c s k = [] \<or> length k > PATH_MAX"
      by (auto simp: conf_lookup_name_def lookup_key_opts split: if_splits list.splits)
    from conf_ok_append [of ?c k s c v f] this assms(1) None c' show ?thesis by auto
  next
    case (Some n)
    let ?u = "upd_first (opt_match s n) (upd_option c k v f) (cf_chain c n)"
    have names: "map co_name (upd_first P (upd_option c k v f) os) = map co_name os" for P os
      by (induction os) (auto simp: upd_option_def)
    have "conf_ok (set_chain n ?u (c\<lparr>cf_mem := m\<rparr>))"
    proof (rule conf_ok_set_chain)
      have "\<forall>x \<in> set (map co_name ?u). get_hash x = get_hash n" using conf_ok_chain [OF assms(1)] by (auto simp: names)
      then show "\<forall>co \<in> set ?u. get_hash (co_name co) = get_hash n" by simp
    next
      fix s' n' assume n': "get_hash n' = get_hash n" "\<not> multi_option n'" "length n' \<le> PATH_MAX"
      have "length (filter P (upd_first Q g os)) = length (filter P os)" if "\<And>x. P (g x) = P x" for P Q g and os :: "conf_option list"
        using that by (induction os) auto
      then have "length (filter (opt_match s' n') ?u) = length (opts c s' n')" using n'(1) by (simp add: opts_def cf_chain_def)
      also have "\<dots> \<le> 1" using assms(1) n' by (simp add: conf_ok_def)
      finally show "length (filter (opt_match s' n') ?u) \<le> 1" .
    qed (use assms(1) in simp)
    with Some c' assms(1) show ?thesis by auto
  qed
qed

lemma conf_ok_add:
  assumes "conf_ok c" and "multi_option k" and "conf_add s k v f c = (status, c')"
  shows "conf_ok c'"
  using conf_add_result [OF assms(3)] conf_ok_append [of "conf_setenv k v f (c\<lparr>cf_mem := m\<rparr>)" k s c v f for m] assms(1,2)
  by fastforce

subsection \<open>Files and defaults\<close>

lemma conf_ok_load: "conf_ok c \<Longrightarrow> conf_load s f os c = (status, c') \<Longrightarrow> conf_ok c'"
proof (induction os arbitrary: c)
  case (Cons o' os)
  obtain n v where o': "o' = (n, v)" by (cases o')
  obtain st c1 where u: "conf_update s n v f c = (st, c1)" by fastforce
  with Cons o' conf_ok_update [OF Cons.prems(1) u] show ?case by (cases st) auto
qed simp

lemma conf_ok_check_set:
  assumes "conf_ok c" and "check_set_config_value sec k v c = (status, c')"
  shows "conf_ok c'"
proof -
  define sec' where "sec' = (case sec of Some s \<Rightarrow> s | None \<Rightarrow> autofs_gbl_sec)"
  show ?thesis
  proof (cases "multi_option k")
    case True
    with assms(2) have "conf_add sec' k (Some v) 0 c = (status, c')"
      by (simp add: check_set_config_value_def multi_option_def sec'_def)
    with conf_ok_add [OF assms(1) True] show ?thesis by blast
  next
    case False
    with assms(2) have "conf_update sec' k (Some v) 0 c = (status, c')"
      by (simp add: check_set_config_value_def multi_option_def sec'_def)
    with conf_ok_update [OF assms(1)] show ?thesis by blast
  qed
qed

lemma conf_ok_read_line:
  assumes "conf_ok (snd st)" and "read_config_line line st = (status, st')"
  shows "conf_ok (snd st')"
proof (cases "parse_line line")
  case LINE_IGNORED
  with assms show ?thesis by (cases st) (auto simp: read_config_line_def split: if_splits)
next
  case (LINE_SECTION sec)
  obtain s1 c1 where u: "conf_update sec sec None 0 (snd st) = (s1, c1)" by (cases "conf_update sec sec None 0 (snd st)")
  with LINE_SECTION assms conf_ok_update [OF assms(1) u] show ?thesis
    by (cases st) (auto simp: read_config_line_def split: if_splits)
next
  case (LINE_OPTION k v)
  obtain s1 c1 where u: "check_set_config_value (fst st) k v (snd st) = (s1, c1)"
    by (cases "check_set_config_value (fst st) k v (snd st)")
  with LINE_OPTION assms conf_ok_check_set [OF assms(1) u] show ?thesis
    by (cases st) (auto simp: read_config_line_def split: if_splits)
qed

lemma conf_ok_read_loop: "conf_ok (snd st) \<Longrightarrow> read_config_loop lines st = (status, st') \<Longrightarrow> conf_ok (snd st')"
proof (induction lines arbitrary: st)
  case (Cons l ls)
  obtain s1 st1 where l: "read_config_line l st = (s1, st1)" by (cases "read_config_line l st")
  with Cons conf_ok_read_line [OF Cons.prems(1) l] show ?case by (cases s1) auto
qed auto

lemma conf_ok_read_config: "conf_ok c \<Longrightarrow> read_config file c = (status, c') \<Longrightarrow> conf_ok c'"
  using conf_ok_read_loop [of "(None, c)" "fgets_lines file"] by (auto simp: read_config_def split: prod.splits)

lemma conf_ok_reset: "conf_ok c \<Longrightarrow> reset_defaults mapdir u uts c = (status, c') \<Longrightarrow> conf_ok c'"
  using conf_ok_load conf_ok_delete_all
  by (auto simp: reset_defaults_def conf_load_autofs_defaults_def conf_load_amd_defaults_def split: prod.splits cfg_status.splits)
    (metis conf_ok_load conf_ok_delete_all)+

text \<open>The pointers of \<open>save_ldap_option_list\<close> lead forward, and from a saved option to saved options only.\<close>

definition saved_at :: "string \<Rightarrow> conf_option list \<Rightarrow> nat \<Rightarrow> bool" where
  "saved_at key os i \<longleftrightarrow> strcase_eq autofs_gbl_sec (co_section (os ! i)) \<and> strcase_eq (co_name (os ! i)) key"

definition walk_ok :: "string \<Rightarrow> conf_option list \<Rightarrow> nat \<Rightarrow> ldap_walk \<Rightarrow> bool" where
  "walk_ok key os k w \<longleftrightarrow>
     length (lw_next w) = length os
     \<and> (\<forall>i < length os. \<forall>j. lw_next w ! i = Some j \<longrightarrow> i < j \<and> j < length os)
     \<and> (\<forall>i < length os. k \<le> i \<longrightarrow> lw_next w ! i = (if Suc i < length os then Some (Suc i) else None))
     \<and> (\<forall>l. lw_last w = Some l \<longrightarrow> l < length os \<and> l \<le> k \<and> (saved_at key os l \<longrightarrow> l = k))
     \<and> (\<forall>t. lw_this w = Some t \<longrightarrow> t < k \<and> saved_at key os t)
     \<and> (\<forall>h. lw_list w = Some h \<longrightarrow> h < k \<and> saved_at key os h)
     \<and> (\<forall>h. lw_head w = Some h \<longrightarrow> h < length os)
     \<and> (\<forall>i < k. \<forall>j. saved_at key os i \<and> lw_next w ! i = Some j \<longrightarrow> saved_at key os j)"

lemma walk_okD:
  assumes "walk_ok key os k w"
  shows "length (lw_next w) = length os"
    and "\<And>i j. i < length os \<Longrightarrow> lw_next w ! i = Some j \<Longrightarrow> i < j \<and> j < length os"
    and "\<And>i. i < length os \<Longrightarrow> k \<le> i \<Longrightarrow> lw_next w ! i = (if Suc i < length os then Some (Suc i) else None)"
    and "\<And>l. lw_last w = Some l \<Longrightarrow> l < length os \<and> l \<le> k \<and> (saved_at key os l \<longrightarrow> l = k)"
    and "\<And>t. lw_this w = Some t \<Longrightarrow> t < k \<and> saved_at key os t"
    and "\<And>h. lw_list w = Some h \<Longrightarrow> h < k \<and> saved_at key os h"
    and "\<And>h. lw_head w = Some h \<Longrightarrow> h < length os"
    and "\<And>i j. i < k \<Longrightarrow> saved_at key os i \<Longrightarrow> lw_next w ! i = Some j \<Longrightarrow> saved_at key os j"
  using assms unfolding walk_ok_def by blast+

lemma walk_ok_skip:
  assumes "walk_ok key os k w" and "k < length os" and "\<not> saved_at key os k"
    and "\<And>l'. l = Some l' \<Longrightarrow> l' < length os \<and> l' \<le> k \<and> \<not> saved_at key os l'"
  shows "walk_ok key os (Suc k) (w\<lparr>lw_last := l\<rparr>)"
proof -
  note d = walk_okD [OF assms(1)]
  have lt: "i < k" if "i < Suc k" "saved_at key os i" for i using that assms(3) by (auto simp: less_Suc_eq)
  have "\<forall>l'. l = Some l' \<longrightarrow> l' < length os \<and> l' \<le> Suc k \<and> (saved_at key os l' \<longrightarrow> l' = Suc k)"
    using assms(4) le_SucI by blast
  moreover have "\<forall>t. lw_this w = Some t \<longrightarrow> t < Suc k \<and> saved_at key os t" using d(5) less_SucI by blast
  moreover have "\<forall>h. lw_list w = Some h \<longrightarrow> h < Suc k \<and> saved_at key os h" using d(6) less_SucI by blast
  moreover have "\<forall>i < length os. \<forall>j. lw_next w ! i = Some j \<longrightarrow> i < j \<and> j < length os" using d(2) by blast
  moreover have "\<forall>i < length os. Suc k \<le> i \<longrightarrow> lw_next w ! i = (if Suc i < length os then Some (Suc i) else None)"
    using d(3) Suc_leD by blast
  moreover have "\<forall>h. lw_head w = Some h \<longrightarrow> h < length os" using d(7) by blast
  moreover have "\<forall>i < Suc k. \<forall>j. saved_at key os i \<and> lw_next w ! i = Some j \<longrightarrow> saved_at key os j" using d(8) lt by blast
  moreover have eqs: "lw_next (w\<lparr>lw_last := l\<rparr>) = lw_next w" "lw_last (w\<lparr>lw_last := l\<rparr>) = l" "lw_this (w\<lparr>lw_last := l\<rparr>) = lw_this w"
    "lw_list (w\<lparr>lw_last := l\<rparr>) = lw_list w" "lw_head (w\<lparr>lw_last := l\<rparr>) = lw_head w" by simp_all
  ultimately show ?thesis unfolding walk_ok_def eqs using d(1) by blast
qed

lemma save_step_saved:
  assumes "walk_ok key os k w" and "k < length os" and "saved_at key os k"
  defines "w' \<equiv> save_step key os k w" and "nx \<equiv> (if Suc k < length os then Some (Suc k) else None)"
  shows "length (lw_next w') = length os"
    and "\<And>i. i < length os \<Longrightarrow> lw_next w' ! i =
      (if lw_this w = Some i then Some k else if i = k then None
       else if lw_head w \<noteq> Some k \<and> lw_last w = Some i then nx else lw_next w ! i)"
    and "lw_last w' = nx" and "lw_this w' = Some k" and "lw_list w' = (if lw_list w = None then Some k else lw_list w)"
    and "lw_head w' = (if lw_head w = Some k then nx else lw_head w)"
proof -
  note d = walk_okD [OF assms(1)]
  define w1 where "w1 = (if lw_head w = Some k then w\<lparr>lw_head := nx\<rparr> else set_next (lw_last w) nx w)"
  define w2 where "w2 = set_next (Some k) None (w1\<lparr>lw_last := nx\<rparr>)"
  define w3 where "w3 = set_next (lw_this w2) (Some k) w2"
  have nx: "lw_next w ! k = nx" using d(3) [of k] assms(2) by (simp add: nx_def)
  have step: "w' = w3\<lparr>lw_this := Some k, lw_list := (if lw_list w3 = None then Some k else lw_list w3)\<rparr>"
    using assms(3) nx by (simp add: w'_def save_step_def saved_at_def w3_def w2_def w1_def Let_def)
  have this2: "lw_this w2 = lw_this w" "lw_list w3 = lw_list w" "lw_last w3 = nx"
    "lw_head w3 = (if lw_head w = Some k then nx else lw_head w)"
    by (auto simp: w3_def w2_def w1_def set_next_def split: option.split)
  have len: "length (lw_next w1) = length os" using d(1) by (auto simp: w1_def set_next_def split: option.split)
  have next1: "lw_next w1 ! i = (if lw_head w \<noteq> Some k \<and> lw_last w = Some i then nx else lw_next w ! i)" if "i < length os" for i
    using that d(1) by (auto simp: w1_def set_next_def nth_list_update split: option.split)
  show "lw_next w' ! i = (if lw_this w = Some i then Some k else if i = k then None
       else if lw_head w \<noteq> Some k \<and> lw_last w = Some i then nx else lw_next w ! i)" if "i < length os" for i
    using that len this2(1) next1 [OF that] by (auto simp: step w3_def w2_def set_next_def nth_list_update split: option.split)
  show "length (lw_next w') = length os" using len by (auto simp: step w3_def w2_def set_next_def split: option.split)
  show "lw_last w' = nx" "lw_this w' = Some k" "lw_list w' = (if lw_list w = None then Some k else lw_list w)"
    "lw_head w' = (if lw_head w = Some k then nx else lw_head w)"
    using this2 by (simp_all add: step)
qed

lemma walk_ok_step:
  assumes "walk_ok key os k w" and "k < length os"
  shows "walk_ok key os (Suc k) (save_step key os k w)"
proof (cases "saved_at key os k")
  case False
  show ?thesis
  proof (cases "strcase_eq autofs_gbl_sec (co_section (os ! k))")
    case True
    with False have "save_step key os k w = w\<lparr>lw_last := lw_last w\<rparr>" by (auto simp: save_step_def saved_at_def)
    moreover have "walk_ok key os (Suc k) (w\<lparr>lw_last := lw_last w\<rparr>)"
      by (rule walk_ok_skip [OF assms False]) (use walk_okD(4) [OF assms(1)] False in blast)
    ultimately show ?thesis by simp
  next
    case other: False
    then have "save_step key os k w = w\<lparr>lw_last := Some k\<rparr>" by (simp add: save_step_def)
    moreover have "walk_ok key os (Suc k) (w\<lparr>lw_last := Some k\<rparr>)"
      by (rule walk_ok_skip [OF assms False]) (use assms(2) False in auto)
    ultimately show ?thesis by simp
  qed
next
  case True
  note d = walk_okD [OF assms(1)] and st = save_step_saved [OF assms True]
  let ?w = "save_step key os k w"
  have from_w: "lw_this w = Some i \<and> j = k \<or> i \<noteq> k \<and> lw_last w = Some i \<and> j = Suc k \<and> Suc k < length os \<or> i \<noteq> k \<and> lw_next w ! i = Some j"
    if "i < length os" "lw_next ?w ! i = Some j" for i j
    using st(2) [OF that(1)] that(2) by (auto split: if_splits)
  have "i < j \<and> j < length os" if "i < length os" "lw_next ?w ! i = Some j" for i j
    using from_w [OF that] d(2) [OF that(1)] d(4) [of i] d(5) [of i] assms(2) by auto
  then have "\<forall>i < length os. \<forall>j. lw_next ?w ! i = Some j \<longrightarrow> i < j \<and> j < length os" by blast
  moreover have "lw_next ?w ! i = (if Suc i < length os then Some (Suc i) else None)" if "i < length os" "Suc k \<le> i" for i
    using st(2) [OF that(1)] d(3) [OF that(1)] d(4) [of i] d(5) [of i] that by auto
  then have "\<forall>i < length os. Suc k \<le> i \<longrightarrow> lw_next ?w ! i = (if Suc i < length os then Some (Suc i) else None)" by blast
  moreover have "saved_at key os j" if "i < Suc k" "saved_at key os i" "lw_next ?w ! i = Some j" for i j
    using from_w [of i j] d(4) [of i] d(8) [of i j] that assms(2) True by auto
  then have "\<forall>i < Suc k. \<forall>j. saved_at key os i \<and> lw_next ?w ! i = Some j \<longrightarrow> saved_at key os j" by blast
  moreover have "\<forall>h. lw_list ?w = Some h \<longrightarrow> h < Suc k \<and> saved_at key os h"
    using st(5) d(6) True less_SucI by (auto split: if_splits)
  moreover have "\<forall>h. lw_head ?w = Some h \<longrightarrow> h < length os" using st(6) d(7) by (auto split: if_splits)
  moreover have "\<forall>l. lw_last ?w = Some l \<longrightarrow> l < length os \<and> l \<le> Suc k \<and> (saved_at key os l \<longrightarrow> l = Suc k)"
    using st(3) by auto
  moreover have "\<forall>t. lw_this ?w = Some t \<longrightarrow> t < Suc k \<and> saved_at key os t" using st(4) True by simp
  ultimately show ?thesis unfolding walk_ok_def using st(1) by blast
qed

lemma walk_ok_save: "walk_ok key os (length os) (save_walk key os)"
proof -
  let ?w0 = "\<lparr>lw_head = (if os = [] then None else Some 0),
        lw_next = map (\<lambda>i. if Suc i < length os then Some (Suc i) else None) [0..<length os],
        lw_last = (if os = [] then None else Some 0), lw_list = None, lw_this = None\<rparr>"
  have "k \<le> length os \<Longrightarrow> walk_ok key os k (fold (save_step key os) [0..<k] ?w0)" for k
  proof (induction k)
    case 0
    show ?case by (auto simp: walk_ok_def split: if_splits)
  next
    case (Suc k)
    then show ?case using walk_ok_step [of key os k] by simp
  qed
  then show ?thesis by (simp add: save_walk_def)
qed

lemma follow_increasing:
  assumes "\<And>i j. i < n \<Longrightarrow> next ! i = Some j \<Longrightarrow> i < j \<and> j < n"
  shows "(\<And>i. p = Some i \<Longrightarrow> i < n \<and> b \<le> i) \<Longrightarrow>
    distinct (follow next p f) \<and> set (follow next p f) \<subseteq> {b..<n}"
proof (induction f arbitrary: p b)
  case (Suc f)
  show ?case
  proof (cases p)
    case (Some i)
    with Suc.prems have i: "i < n" "b \<le> i" by auto
    have "\<And>j. next ! i = Some j \<Longrightarrow> j < n \<and> Suc i \<le> j" using assms [OF i(1)] by auto
    then have "distinct (follow next (next ! i) f) \<and> set (follow next (next ! i) f) \<subseteq> {Suc i..<n}"
      by (rule Suc.IH)
    with i Some show ?thesis by auto
  qed simp
qed simp

lemma mset_map_nth:
  assumes "distinct is" and "set is \<subseteq> {0..<length xs}"
  shows "mset (map ((!) xs) is) \<subseteq># mset xs"
proof -
  have "mset is \<subseteq># mset [0..<length xs]"
    using assms by (simp add: mset_set_set [symmetric] subset_imp_msubset_mset_set)
  then have "image_mset ((!) xs) (mset is) \<subseteq># image_mset ((!) xs) (mset [0..<length xs])" by (rule image_mset_subseteq_mono)
  then show ?thesis by (metis map_nth mset_map)
qed

lemma follow_saved:
  assumes "\<And>i j. P i \<Longrightarrow> next ! i = Some j \<Longrightarrow> P j"
  shows "(\<And>i. p = Some i \<Longrightarrow> P i) \<Longrightarrow> \<forall>i \<in> set (follow next p f). P i"
proof (induction f arbitrary: p)
  case (Suc f)
  show ?case
  proof (cases p)
    case (Some i)
    with Suc.prems have "P i" by simp
    have "\<forall>j \<in> set (follow next (next ! i) f). P j" by (rule Suc.IH) (rule assms [OF \<open>P i\<close>])
    with \<open>P i\<close> Some show ?thesis by simp
  qed simp
qed simp

lemma save_ldap_ok:
  assumes "conf_ok c" and "save_ldap_option_list key c = (Some list, c')"
  shows "conf_ok c'" and "\<forall>co \<in> set list. strcase_eq (co_name co) key"
proof -
  let ?os = "cf_chain c key"
  let ?w = "save_walk key ?os"
  note d = walk_okD [OF walk_ok_save [of key ?os]]
  from assms(2) have c': "c' = set_chain key (map ((!) ?os) (follow (lw_next ?w) (lw_head ?w) (length ?os))) c"
    and list: "list = map ((!) ?os) (follow (lw_next ?w) (lw_list ?w) (length ?os))"
    by (auto simp: save_ldap_option_list_def Let_def split: if_splits)
  have "distinct (follow (lw_next ?w) (lw_head ?w) (length ?os)) \<and> set (follow (lw_next ?w) (lw_head ?w) (length ?os)) \<subseteq> {0..<length ?os}"
    by (rule follow_increasing) (use d(2) d(7) in blast)+
  then show "conf_ok c'" unfolding c' by (intro conf_ok_fewer assms(1) mset_map_nth) blast+
  have "\<forall>i \<in> set (follow (lw_next ?w) (lw_list ?w) (length ?os)). i < length ?os \<and> saved_at key ?os i"
  proof (rule follow_saved)
    show "j < length ?os \<and> saved_at key ?os j" if "i < length ?os \<and> saved_at key ?os i" "lw_next ?w ! i = Some j" for i j
      using d(2) [of i j] d(8) [of i j] that by blast
    show "i < length ?os \<and> saved_at key ?os i" if "lw_list ?w = Some i" for i using d(6) [OF that] .
  qed
  then show "\<forall>co \<in> set list. strcase_eq (co_name co) key" unfolding list by (auto simp: saved_at_def)
qed

lemma conf_ok_restore:
  assumes "conf_ok c" and "\<forall>co \<in> set list. strcase_eq (co_name co) key" and "multi_option key"
  shows "conf_ok (free_or_restore key' list c)"
proof (cases "list = [] \<or> conf_lookup c amd_gbl_sec key' \<noteq> None")
  case False
  then obtain co cos where list: "list = co # cos" by (cases list) auto
  have h: "get_hash (co_name x) = get_hash (co_name co)" if "x \<in> set list" for x
    using that assms(2) list strcase_eq_hash by (metis list.set_intros(1))
  have "conf_ok (set_chain (co_name co) (list @ cf_chain c (co_name co)) c)"
  proof (rule conf_ok_set_chain [OF assms(1)])
    show "\<forall>x \<in> set (list @ cf_chain c (co_name co)). get_hash (co_name x) = get_hash (co_name co)"
      using h conf_ok_chain [OF assms(1)] by auto
  next
    fix s n assume n: "get_hash n = get_hash (co_name co)" "\<not> multi_option n" "length n \<le> PATH_MAX"
    have "\<not> opt_match s n x" if "x \<in> set list" for x
      using that assms(2,3) n(2) by (auto simp: opt_match_def multi_option_def strcase_eq_def)
    then have "filter (opt_match s n) list = []" by (simp add: filter_empty_conv)
    then have "length (filter (opt_match s n) (list @ cf_chain c (co_name co))) = length (opts c s n)"
      using n(1) by (simp add: opts_def cf_chain_def)
    with assms(1) n show "length (filter (opt_match s n) (list @ cf_chain c (co_name co))) \<le> 1" by (simp add: conf_ok_def)
  qed
  with False list show ?thesis by (simp add: free_or_restore_def restore_ldap_option_list_def)
qed (use assms(1) in \<open>auto simp: free_or_restore_def\<close>)

lemma save_and_clean_ok:
  assumes "conf_ok c" and "save_and_clean key c = (Some list, c')"
  shows "conf_ok c'" and "\<forall>co \<in> set list. strcase_eq (co_name co) key"
  using assms save_ldap_ok [OF assms(1)] conf_ok_delete_all
  by (auto simp: save_and_clean_def clean_ldap_multi_option_def split: prod.splits option.splits)

lemma multi_options [simp]: "multi_option NAME_LDAP_URI" "multi_option NAME_SEARCH_BASE"
  by (simp_all add: multi_option_def)

lemma conf_ok_read_old:
  assumes "conf_ok c" and "read_old_config file c = (CFG_OK, c')"
  shows "conf_ok c'"
proof -
  from assms(2) obtain sb c1 where 1: "save_and_clean NAME_SEARCH_BASE c = (Some sb, c1)"
    by (auto simp: read_old_config_def split: prod.splits option.splits)
  with assms(2) obtain uris c2 where 2: "save_and_clean NAME_LDAP_URI c1 = (Some uris, c2)"
    by (auto simp: read_old_config_def split: prod.splits option.splits)
  obtain st c3 where 3: "read_config file c2 = (st, c3)" by (cases "read_config file c2")
  have c': "c' = free_or_restore NAME_LDAP_URI uris (free_or_restore NAME_SEARCH_BASE sb c3)"
    using assms(2) 1 2 3 by (cases st) (auto simp: read_old_config_def)
  note ok1 = save_and_clean_ok [OF assms(1) 1]
  note ok2 = save_and_clean_ok [OF ok1(1) 2]
  have "conf_ok c3" using conf_ok_read_config [OF ok2(1) 3] .
  then have "conf_ok (free_or_restore NAME_SEARCH_BASE sb c3)" using ok1(2) by (rule conf_ok_restore [where key = NAME_SEARCH_BASE]) simp_all
  then show ?thesis unfolding c' using ok2(2) by (rule conf_ok_restore [where key = NAME_LDAP_URI]) simp_all
qed

lemma conf_ok_defaults_read_config:
  assumes "conf_ok c" and "defaults_read_config mapdir u uts file oldfile c = (status, c')" and "status \<noteq> CFG_FAULT"
  shows "conf_ok c'"
proof -
  define r where "r = (if file \<noteq> None \<or> oldfile \<noteq> None then reset_defaults mapdir u uts c else (CFG_OK, c))"
  obtain st c1 where r: "r = (st, c1)" by (cases r)
  have c1: "conf_ok c1" using conf_ok_reset [OF assms(1)] assms(1) r by (auto simp: r_def split: if_splits)
  have rd: "conf_ok c3" if "(case file of None \<Rightarrow> (CFG_OK, c2) | Some f \<Rightarrow> read_config (cfl_text f) c2) = (s3, c3)" "conf_ok c2" for c2 s3 c3
    using that conf_ok_read_config by (auto split: option.splits)
  have rest: "conf_ok c'"
    if "(case (case file of None \<Rightarrow> (CFG_OK, c2) | Some f \<Rightarrow> read_config (cfl_text f) c2) of
           (CFG_FAULT, c3) \<Rightarrow> (CFG_FAULT, c3)
         | (_, c3) \<Rightarrow> (case oldfile of None \<Rightarrow> (CFG_OK, c3) | Some f \<Rightarrow> read_old_config (cfl_text f) c3)) = (status, c')"
      and "conf_ok c2" for c2
  proof -
    obtain s3 c3 where 3: "(case file of None \<Rightarrow> (CFG_OK, c2) | Some f \<Rightarrow> read_config (cfl_text f) c2) = (s3, c3)"
      by (cases "case file of None \<Rightarrow> (CFG_OK, c2) | Some f \<Rightarrow> read_config (cfl_text f) c2")
    then have c3: "conf_ok c3" using that(2) rd by blast
    show ?thesis
    proof (cases oldfile)
      case None
      with that(1) 3 c3 show ?thesis by (cases s3) auto
    next
      case (Some f)
      have "status = CFG_OK" if "read_old_config (cfl_text f) c3 = (status, c')" "status \<noteq> CFG_FAULT"
        using that by (auto simp: read_old_config_def split: prod.splits option.splits cfg_status.splits)
      with Some that(1) 3 c3 assms(3) conf_ok_read_old show ?thesis by (cases s3) auto
    qed
  qed
  show ?thesis
    using assms(1,2) c1 r rest unfolding defaults_read_config_def r_def [symmetric] Let_def
    by (cases st) (auto split: if_splits)
qed

section \<open>The states of the configuration\<close>

datatype conf_event = Conf_Read | Conf_Set_Nis | Conf_Get

inductive conf_step :: "conf \<Rightarrow> conf_event \<Rightarrow> conf \<Rightarrow> bool" where
  conf_step_read: "defaults_read_config mapdir u uts file oldfile c = (status, c') \<Longrightarrow> status \<noteq> CFG_FAULT \<Longrightarrow> conf_step c Conf_Read c'"
| conf_step_nis: "conf_amd_set_nis_domain domain c = (status, c') \<Longrightarrow> status \<noteq> CFG_FAULT \<Longrightarrow> conf_step c Conf_Set_Nis c'"
| conf_step_get: "conf_get_string sec name c = (value, c') \<Longrightarrow> conf_step c Conf_Get c'"

definition conf_start :: "conf \<Rightarrow> bool" where
  "conf_start c \<longleftrightarrow> (\<exists>env m. fst (conf_init env m) = Some c)"

lemma conf_ok_init: "conf_start c \<Longrightarrow> conf_ok c"
proof -
  assume "conf_start c"
  then obtain env m where "fst (conf_init env m) = Some c" by (auto simp: conf_start_def)
  then have "cf_hash c = replicate 128 []"
    by (cases "malloc m"; cases "malloc (snd (malloc m))") (auto simp: conf_init_def CFG_TABLE_SIZE_def split: bool.splits)
  then show ?thesis by (simp add: conf_ok_def opts_def cf_chain_def)
qed

interpretation conf_sys: transition_system conf_start conf_step conf_ok
proof
  fix c e c' assume "conf_ok c" "conf_step c e c'"
  from \<open>conf_step c e c'\<close> show "conf_ok c'"
  proof cases
    case (conf_step_get sec name val)
    then have "\<exists>m. c' = c\<lparr>cf_mem := m\<rparr>" using cf_alloc_frame
      by (cases "Option.bind (conf_lookup c sec name) co_value"; cases "cf_alloc c") (auto simp: conf_get_string_def intro: exI [of _ "cf_mem c"])
    with \<open>conf_ok c\<close> show ?thesis by auto
  qed (use \<open>conf_ok c\<close> in \<open>auto simp: conf_amd_set_nis_domain_def intro: conf_ok_defaults_read_config conf_ok_update\<close>)
qed (rule conf_ok_init)



end
