(* ===== verification/Config_File.thy ===== *)
theory Config_File
  imports Defaults_Props
begin

text \<open>
  What the configuration file means: its lines as a list of section headers and settings, the
  values in force after the defaults were set and after a file was read, the numbers the
  getters make of them, and settings that get lost.
\<close>

section \<open>Lines\<close>

datatype conf_item = Section string | Setting string string

fun print_item :: "conf_item \<Rightarrow> string" where
  "print_item (Section s) = CHR ''['' # s @ [CHR '']'', LF]"
| "print_item (Setting n v) = n @ '' = '' @ DQUOTE # v @ [DQUOTE, LF]"

fun item_ok :: "conf_item \<Rightarrow> bool" where
  "item_ok (Section s) \<longleftrightarrow> s \<noteq> [] \<and> CHR '']'' \<notin> set s \<and> LF \<notin> set s \<and> hd s \<noteq> CHR ''['' \<and> \<not> isblank (hd s) \<and> \<not> isblank (last s)
     \<and> length s + 3 \<le> MAX_LINE_LEN"
| "item_ok (Setting n v) \<longleftrightarrow> n \<noteq> [] \<and> isalpha (hd n) \<and> CHR ''='' \<notin> set n \<and> LF \<notin> set n \<and> \<not> isblank (last n)
     \<and> LF \<notin> set v \<and> CHR ''#'' \<notin> set v \<and> (v = [] \<or> \<not> quote_or_blank (hd v) \<and> \<not> quote_or_blank (last v))
     \<and> length n + length v + 6 \<le> MAX_LINE_LEN"

lemma strip_end_keep: "s = [] \<or> \<not> P (last s) \<Longrightarrow> strip_end P s = s"
  by (cases s rule: rev_cases) (auto simp: strip_end_def)

lemma strip_end_drop: "\<forall>ch \<in> set t. P ch \<Longrightarrow> strip_end P (s @ t) = strip_end P s"
  using dropWhile_append2 [of "rev t" P "rev s"] by (simp add: strip_end_def)

lemma takeWhile_until: "ch \<notin> set a \<Longrightarrow> takeWhile (\<lambda>x. x \<noteq> ch) (a @ ch # b) = a" "ch \<notin> set a \<Longrightarrow> dropWhile (\<lambda>x. x \<noteq> ch) (a @ ch # b) = ch # b"
  by (induction a) auto

lemma parse_section: "item_ok (Section s) \<Longrightarrow> parse_line (print_item (Section s)) = LINE_SECTION s"
proof -
  assume ok: "item_ok (Section s)"
  then have "dropWhile (\<lambda>ch. ch = CHR ''['' \<or> isblank ch) (print_item (Section s)) = s @ [CHR '']'', LF]"
    by (cases s) (auto simp: isblank_def)
  with ok show ?thesis by (simp add: parse_line_def takeWhile_until strip_end_keep)
qed

lemma blank_space [simp]: "isblank (CHR '' '')" "quote_or_blank DQUOTE" "quote_or_blank (CHR '' '')" "\<not> quote_or_blank LF"
  by (simp_all add: isblank_def quote_or_blank_def char_consts)

lemma line_value_quoted:
  assumes "v = [] \<or> \<not> quote_or_blank (hd v) \<and> \<not> quote_or_blank (last v)" and "CHR ''#'' \<notin> set v" and "LF \<notin> set v"
  shows "line_value ('' '' @ DQUOTE # v @ [DQUOTE, LF]) = v"
proof (cases "v = []")
  case True
  then show ?thesis by (simp add: line_value_def strip_end_def)
next
  case False
  then have "dropWhile quote_or_blank ('' '' @ DQUOTE # v @ [DQUOTE, LF]) = v @ [DQUOTE, LF]"
    using assms(1) by (cases v) auto
  moreover have "butlast (v @ [DQUOTE, LF]) = v @ [DQUOTE]" by (simp add: butlast_append)
  moreover have "strip_end quote_or_blank (v @ [DQUOTE]) = v" using strip_end_drop [of "[DQUOTE]" quote_or_blank v] strip_end_keep [of v quote_or_blank] assms(1) by auto
  ultimately show ?thesis using assms(2) by (simp add: line_value_def Let_def char_consts)
qed

lemma parse_setting: "item_ok (Setting n v) \<Longrightarrow> parse_line (print_item (Setting n v)) = LINE_OPTION n v"
proof -
  assume ok: "item_ok (Setting n v)"
  have eq: "CHR ''='' \<notin> set (n @ '' '')" using ok by simp
  have split: "print_item (Setting n v) = (n @ '' '') @ CHR ''='' # ('' '' @ DQUOTE # v @ [DQUOTE, LF])" by simp
  have "cstr_hd (print_item (Setting n v)) = hd n" using ok by (cases n) auto
  moreover have "isalpha (hd n)" "hd n \<noteq> CHR ''#''" "hd n \<noteq> CHR ''[''" using ok by (auto simp: isalpha_def)
  moreover have "strip_end isblank (n @ '' '') = n" using strip_end_drop [of "'' ''" isblank n] strip_end_keep ok by simp
  moreover have "line_value ('' '' @ DQUOTE # v @ [DQUOTE, LF]) = v" by (rule line_value_quoted) (use ok in simp_all)
  ultimately show ?thesis
    unfolding parse_line_def split using takeWhile_until [OF eq] by simp
qed

lemma fgets_line:
  assumes "LF \<notin> set l" and "length l < MAX_LINE_LEN"
  shows "fgets_lines (l @ LF # rest) = (l @ [LF]) # fgets_lines rest"
proof -
  have "length (takeWhile (\<lambda>ch. ch \<noteq> LF) (l @ LF # rest)) = length l" using takeWhile_until(1) [OF assms(1)] by simp
  with assms(2) show ?thesis by (subst fgets_lines.simps) simp
qed

lemma print_item_line: "item_ok i \<Longrightarrow> \<exists>l. print_item i = l @ [LF] \<and> LF \<notin> set l \<and> length l < MAX_LINE_LEN"
proof (cases i)
  case (Section s)
  assume "item_ok i"
  with Section show ?thesis by (intro exI [of _ "CHR ''['' # s @ '']''"]) (auto simp: char_consts)
next
  case (Setting n v)
  assume "item_ok i"
  with Setting show ?thesis by (intro exI [of _ "n @ '' = '' @ DQUOTE # v @ [DQUOTE]"]) (auto simp: char_consts)
qed

lemma fgets_items: "\<forall>i \<in> set is. item_ok i \<Longrightarrow> fgets_lines (concat (map print_item is)) = map print_item is"
proof (induction "is")
  case Nil
  show ?case by (simp add: fgets_lines.simps)
next
  case (Cons i "is")
  then obtain l where "print_item i = l @ [LF]" "LF \<notin> set l" "length l < MAX_LINE_LEN" using print_item_line [of i] by auto
  with Cons fgets_line [of l "concat (map print_item is)"] show ?case by simp
qed

section \<open>Files\<close>

text \<open>What the items of a file do, with the section they are in.\<close>

fun run_item :: "conf_item \<Rightarrow> string option \<times> conf \<Rightarrow> cfg_status \<times> string option \<times> conf" where
  "run_item (Section s) (sec, c) = (case conf_update s s None 0 c of (st, c') \<Rightarrow> (st, Some s, c'))"
| "run_item (Setting n v) (sec, c) =
     (if \<exists>i \<in> set ignored_options. strcase_eq n i then (CFG_OK, sec, c)
      else case check_set_config_value sec n v c of (st, c') \<Rightarrow> (st, sec, c'))"

fun run_items :: "conf_item list \<Rightarrow> string option \<times> conf \<Rightarrow> cfg_status \<times> string option \<times> conf" where
  "run_items [] st = (CFG_OK, st)"
| "run_items (i # is) st =
     (case run_item i st of (CFG_FAULT, st') \<Rightarrow> (CFG_FAULT, st') | (_, st') \<Rightarrow> run_items is st')"

lemma read_line_item: "item_ok i \<Longrightarrow> read_config_line (print_item i) st = run_item i st"
proof -
  assume ok: "item_ok i"
  have len: "\<not> length (print_item i) > MAX_LINE_LEN" using print_item_line [OF ok] by auto
  show ?thesis
  proof (cases i)
    case (Section s)
    with ok len parse_section [of s] show ?thesis by (cases st) (simp add: read_config_line_def)
  next
    case (Setting n v)
    with ok len parse_setting [of n v] show ?thesis by (cases st) (simp add: read_config_line_def)
  qed
qed

lemma read_loop_items: "\<forall>i \<in> set is. item_ok i \<Longrightarrow> read_config_loop (map print_item is) st = run_items is st"
proof (induction "is" arbitrary: st)
  case (Cons i "is")
  then show ?case by (simp add: read_line_item split: prod.split cfg_status.split)
qed simp

lemma run_items_append:
  "run_items (is @ js) st = (case run_items is st of (CFG_FAULT, st') \<Rightarrow> (CFG_FAULT, st') | (_, st') \<Rightarrow> run_items js st')"
proof (induction "is" arbitrary: st)
  case Nil
  show ?case by simp
next
  case (Cons i "is")
  then show ?case by (simp split: prod.split cfg_status.split)
qed

fun section_of :: "conf_item list \<Rightarrow> string option \<Rightarrow> string option" where
  "section_of [] sec = sec"
| "section_of (Section s # is) sec = section_of is (Some s)"
| "section_of (Setting n v # is) sec = section_of is sec"

lemma check_set_ample:
  assumes "mem_ample (cf_mem c)"
  obtains c' where "check_set_config_value sec n v c = (CFG_OK, c')" "mem_ample (cf_mem c')"
proof -
  define sec' where "sec' = (case sec of Some s \<Rightarrow> s | None \<Rightarrow> autofs_gbl_sec)"
  obtain c1 where 1: "conf_add sec' n (Some v) 0 c = (CFG_OK, c1)" "mem_ample (cf_mem c1)" using conf_add_ample [OF assms] by blast
  obtain c2 where 2: "conf_update sec' n (Some v) 0 c = (CFG_OK, c2)" "mem_ample (cf_mem c2)" using conf_update_ample [OF assms] by blast
  show thesis
    using that [of c1] that [of c2] 1 2
    by (cases "strcase_eq n NAME_LDAP_URI \<or> strcase_eq n NAME_SEARCH_BASE") (auto simp: check_set_config_value_def sec'_def)
qed

lemma length_check_set: "check_set_config_value sec n v c = (st, c') \<Longrightarrow> length (cf_hash c') = length (cf_hash c)"
  using length_conf_update conf_add_result
  by (fastforce simp: check_set_config_value_def Let_def split: if_splits)

lemma run_item_ample:
  assumes "mem_ample (cf_mem c)"
  obtains c' where "run_item i (sec, c) = (CFG_OK, section_of [i] sec, c')" "mem_ample (cf_mem c')" "length (cf_hash c') = length (cf_hash c)"
proof (cases i)
  case (Section s)
  obtain c' where u: "conf_update s s None 0 c = (CFG_OK, c')" "mem_ample (cf_mem c')" using conf_update_ample [OF assms] by blast
  with Section that [of c'] length_conf_update [OF u(1)] show thesis by simp
next
  case (Setting n v)
  obtain c' where u: "check_set_config_value sec n v c = (CFG_OK, c')" "mem_ample (cf_mem c')" using check_set_ample [OF assms] by blast
  show thesis
  proof (cases "\<exists>i \<in> set ignored_options. strcase_eq n i")
    case True
    then have "run_item i (sec, c) = (CFG_OK, section_of [i] sec, c)" by (simp add: Setting)
    then show thesis using that assms by blast
  next
    case False
    then have "run_item i (sec, c) = (CFG_OK, section_of [i] sec, c')" using u(1) by (simp add: Setting)
    then show thesis using that u(2) length_check_set [OF u(1)] by blast
  qed
qed

lemma section_of_Cons: "section_of (i # is) sec = section_of is (section_of [i] sec)"
  by (cases i) auto

lemma run_items_ample:
  "mem_ample (cf_mem c) \<Longrightarrow> \<exists>c'. run_items is (sec, c) = (CFG_OK, section_of is sec, c') \<and> mem_ample (cf_mem c') \<and> length (cf_hash c') = length (cf_hash c)"
proof (induction "is" arbitrary: sec c)
  case (Cons i "is")
  obtain c1 where 1: "run_item i (sec, c) = (CFG_OK, section_of [i] sec, c1)" "mem_ample (cf_mem c1)" "length (cf_hash c1) = length (cf_hash c)"
    using run_item_ample [OF Cons.prems] by blast
  from Cons.IH [OF 1(2), of "section_of [i] sec"] 1 show ?case by (subst section_of_Cons) (auto simp del: section_of.simps)
qed simp

text \<open>
  C36: Reading a file of section headers and quoted settings does exactly what its items say,
  one after the other: a header opens a section, a setting updates the option in the section
  it is in, the option \<open>autofs\<close> section before the first header, and the options that
  the reader is told to ignore change nothing. After the file, its last setting is in force.
\<close>

theorem read_config_items:
  assumes "mem_ample (cf_mem c)" and "length (cf_hash c) = 128" and "\<forall>i \<in> set is. item_ok i"
  shows "read_config (concat (map print_item is)) c = (CFG_OK, snd (snd (run_items is (None, c))))
    \<and> (is = js @ [Setting n v] \<and> \<not> multi_option n \<and> \<not> (\<exists>i \<in> set ignored_options. strcase_eq n i) \<longrightarrow>
         conf_read (snd (read_config (concat (map print_item is)) c))
           (case section_of js None of None \<Rightarrow> autofs_gbl_sec | Some s \<Rightarrow> s) n = Some v)"
proof -
  obtain c' where c': "run_items is (None, c) = (CFG_OK, section_of is None, c')" using run_items_ample [OF assms(1)] by blast
  then have read: "read_config (concat (map print_item is)) c = (CFG_OK, c')"
    using read_loop_items [OF assms(3)] fgets_items [OF assms(3)] by (simp add: read_config_def)
  have "conf_read c' sec n = Some v"
    if "is = js @ [Setting n v]" "\<not> multi_option n" "\<not> (\<exists>i \<in> set ignored_options. strcase_eq n i)"
      and sec: "sec = (case section_of js None of None \<Rightarrow> autofs_gbl_sec | Some s \<Rightarrow> s)" for sec
  proof -
    obtain c1 where c1: "run_items js (None, c) = (CFG_OK, section_of js None, c1)" "mem_ample (cf_mem c1)" "length (cf_hash c1) = 128"
      using run_items_ample [OF assms(1), of js None] assms(2) by auto
    obtain c2 where c2: "conf_update sec n (Some v) 0 c1 = (CFG_OK, c2)" using conf_update_ample [OF c1(2)] by blast
    have "check_set_config_value (section_of js None) n v c1 = (CFG_OK, c2)"
      using that(2) c2 sec by (simp add: check_set_config_value_def multi_option_def)
    with that(1,3) c1 c' have "c' = c2" by (simp add: run_items_append)
    moreover have "length n \<le> PATH_MAX"
      using assms(3) that(1) by (simp add: MAX_LINE_LEN_def PATH_MAX_def)
    ultimately show ?thesis using conf_update_correct_aux [OF c1(3) _ c2] by (simp add: conf_value_def)
  qed
  then have "is = js @ [Setting n v] \<and> \<not> multi_option n \<and> \<not> (\<exists>i \<in> set ignored_options. strcase_eq n i) \<longrightarrow>
      conf_read c' (case section_of js None of None \<Rightarrow> autofs_gbl_sec | Some s \<Rightarrow> s) n = Some v" by blast
  then show ?thesis unfolding read c' snd_conv by blast
qed

theorem read_config_items_witness:
  "\<exists>c. fst (conf_init Map.empty []) = Some c \<and>
     conf_read (snd (read_config (concat (map print_item [Section ''amd'', Setting ''map_type'' ''nis'', Setting ''cluster'' ''east''])) c))
       ''amd'' ''cluster'' = Some ''east''"
proof -
  let ?c = "\<lparr>cf_hash = replicate (unat CFG_TABLE_SIZE) [], cf_modified = 0, cf_env = Map.empty, cf_mem = []\<rparr>"
  let ?is = "[Section ''amd'', Setting ''map_type'' ''nis'', Setting ''cluster'' ''east'']"
  have "\<forall>i \<in> set ?is. item_ok i" by (simp add: char_consts isblank_def isalpha_def quote_or_blank_def MAX_LINE_LEN_def)
  moreover have "\<not> multi_option ''cluster''" by (simp add: multi_option_def strcase_eq_def lower_def NAME_LDAP_URI_def NAME_SEARCH_BASE_def tolower_def)
  moreover have "\<not> (\<exists>i \<in> set ignored_options. strcase_eq ''cluster'' i)" by (simp add: ignored_options_def strcase_eq_def lower_def tolower_def)
  moreover have "mem_ample (cf_mem ?c)" "length (cf_hash ?c) = 128" by (simp_all add: CFG_TABLE_SIZE_def)
  moreover have "?is = [Section ''amd'', Setting ''map_type'' ''nis''] @ [Setting ''cluster'' ''east'']" by simp
  ultimately have "conf_read (snd (read_config (concat (map print_item ?is)) ?c))
      (case section_of [Section ''amd'', Setting ''map_type'' ''nis''] None of None \<Rightarrow> autofs_gbl_sec | Some s \<Rightarrow> s) ''cluster'' = Some ''east''"
    using read_config_items [of ?c ?is "[Section ''amd'', Setting ''map_type'' ''nis'']" "''cluster''" "''east''"] by blast
  moreover have "fst (conf_init Map.empty []) = Some ?c" by (simp add: conf_init_def)
  ultimately show ?thesis by (intro exI [of _ ?c]) (simp del: print_item.simps)
qed

section \<open>The defaults in force\<close>

lemma conf_read_opts:
  "conf_read c s k = (if length k > PATH_MAX then None
     else case opts c s k of co # _ \<Rightarrow> co_value co
        | [] \<Rightarrow> (case opts c s (other_key k) of co # _ \<Rightarrow> co_value co | [] \<Rightarrow> None))"
  by (simp add: conf_read_def conf_lookup_def conf_lookup_name_def lookup_key_opts split: list.split)

lemma conf_read_cong:
  "opts c' s n = opts c s n \<Longrightarrow> opts c' s (other_key n) = opts c s (other_key n) \<Longrightarrow> conf_read c' s n = conf_read c s n"
  by (simp add: conf_read_opts cong: list.case_cong)

text \<open>Two names neither of which is the other one, in the form of the old or the new files.\<close>

definition apart :: "string \<Rightarrow> string \<Rightarrow> bool" where
  "apart a b \<longleftrightarrow> \<not> strcase_eq a b \<and> \<not> strcase_eq a (other_key b) \<and> \<not> strcase_eq (other_key a) b \<and> \<not> strcase_eq (other_key a) (other_key b)"

lemma apart_sym: "apart a b \<Longrightarrow> apart b a"
  by (auto simp: apart_def strcase_eq_def)

lemma stored_name_eq: "stored_name c s k = k \<or> stored_name c s k = other_key k"
  by (simp add: stored_name_def conf_lookup_name_def split: option.split)

lemma conf_read_update_apart:
  assumes "length (cf_hash c) = 128" and "length k \<le> PATH_MAX" and "conf_update s k v f c = (CFG_OK, c')" and "apart k n"
  shows "conf_read c' s n = conf_read c s n"
proof -
  have "\<not> same_key s (stored_name c s k) s x" if "x = n \<or> x = other_key n" for x
    using stored_name_eq [of c s k] assms(4) that by (auto simp: same_key_def apart_def)
  with conf_update_opts [OF assms(1-3)] have "opts c' s n = opts c s n" "opts c' s (other_key n) = opts c s (other_key n)" by simp_all
  then show ?thesis by (rule conf_read_cong)
qed

lemma cf_env_update:
  "conf_update s k v f c = (CFG_OK, c') \<Longrightarrow> cf_env c' = (if f AND CONF_ENV \<noteq> 0 \<and> cf_env c k = None \<and> v \<noteq> None then (cf_env c)(k := v) else cf_env c)"
  using conf_update_result [of s k v f c CFG_OK c']
  by (auto simp: conf_setenv_def set_chain_def split: option.splits if_splits)

text \<open>A list of options, in which a name that occurs twice has the same value both times.\<close>

definition settings_apart :: "(string \<times> 'v) list \<Rightarrow> bool" where
  "settings_apart os \<longleftrightarrow> (\<forall>x \<in> set os. length (fst x) \<le> PATH_MAX \<and> (\<forall>y \<in> set os. x = y \<or> apart (fst x) (fst y)))"

lemma settings_apartD:
  assumes "settings_apart os" and "(n, v) \<in> set os" and "(n', v') \<in> set os"
  shows "n = n' \<and> v = v' \<or> apart n n'"
proof -
  have "(n, v) = (n', v') \<or> apart (fst (n, v)) (fst (n', v'))" using assms unfolding settings_apart_def by blast
  then show ?thesis by simp
qed

lemma conf_load_read:
  assumes "settings_apart all" and "set os \<subseteq> set all" and "mem_ample (cf_mem c)" and "length (cf_hash c) = 128"
  shows "\<exists>c'. conf_load s f os c = (CFG_OK, c') \<and> mem_ample (cf_mem c') \<and> length (cf_hash c') = 128
    \<and> (\<forall>(n, v) \<in> set os. conf_read c' s n = conf_value c n v f)
    \<and> (\<forall>n. (\<forall>(n', v) \<in> set os. apart n' n) \<longrightarrow> conf_read c' s n = conf_read c s n)"
  using assms(2-4)
proof (induction os arbitrary: c)
  case (Cons o' os)
  obtain k w where o': "o' = (k, w)" by (cases o')
  have k: "length k \<le> PATH_MAX" "(k, w) \<in> set all" using assms(1) Cons.prems(1) o' by (auto simp: settings_apart_def)
  obtain c1 where u: "conf_update s k w f c = (CFG_OK, c1)" "mem_ample (cf_mem c1)" using conf_update_ample [OF Cons.prems(2)] by blast
  have len: "length (cf_hash c1) = 128" using length_conf_update [OF u(1)] Cons.prems(3) by simp
  have "set os \<subseteq> set all" using Cons.prems(1) by simp
  from Cons.IH [OF this u(2) len] obtain c' where c': "conf_load s f os c1 = (CFG_OK, c')" "mem_ample (cf_mem c')"
      "length (cf_hash c') = 128"
    and os': "\<forall>(n, v) \<in> set os. conf_read c' s n = conf_value c1 n v f"
    and out: "\<forall>n. (\<forall>(n', v) \<in> set os. apart n' n) \<longrightarrow> conf_read c' s n = conf_read c1 s n" by blast
  have os: "conf_read c' s n = conf_value c1 n v f" if "(n, v) \<in> set os" for n v using os' that by blast
  have env: "conf_value c1 n v f = conf_value c n v f" if "(n, v) \<in> set all" for n v
  proof (cases "n = k \<and> v = w")
    case True
    then show ?thesis using cf_env_update [OF u(1)] by (auto simp: conf_value_def split: option.split)
  next
    case False
    with settings_apartD [OF assms(1) that k(2)] have "apart n k" by blast
    then have "n \<noteq> k" by (auto simp: apart_def)
    then show ?thesis using cf_env_update [OF u(1)] by (simp add: conf_value_def split: option.split)
  qed
  have head: "conf_read c1 s k = conf_value c k w f" by (rule conf_update_correct_aux [OF Cons.prems(3) k(1) u(1)])
  have "conf_read c' s n = conf_value c n v f" if "(n, v) \<in> set (o' # os)" for n v
  proof (cases "(n, v) \<in> set os")
    case True
    with os env Cons.prems(1) show ?thesis by force
  next
    case False
    with that o' have nv: "n = k" "v = w" by auto
    have "apart n' k" if "(n', v') \<in> set os" for n' v'
      using settings_apartD [OF assms(1) _ k(2), of n' v'] that Cons.prems(1) False nv by auto
    then have "\<forall>(n', v') \<in> set os. apart n' k" by blast
    then have "conf_read c' s k = conf_read c1 s k" using out by blast
    with head nv show ?thesis by simp
  qed
  moreover have "conf_read c' s n = conf_read c s n" if "\<forall>(n', v) \<in> set (o' # os). apart n' n" for n
    using out conf_read_update_apart [OF Cons.prems(3) k(1) u(1), of n] that o' by auto
  moreover have "conf_load s f (o' # os) c = (CFG_OK, c')" using o' u(1) c'(1) by simp
  ultimately show ?case using c' by blast
qed simp

text \<open>Deleting an option leaves the other options of its section alone.\<close>

lemma filter_unlink_section:
  assumes "strcase_eq s s'" and "\<not> strcase_eq n k"
  shows "filter (opt_match s n) (conf_unlink s' k os) = filter (opt_match s n) os"
proof (cases "chain_find (opt_match s' k) os")
  case (Cons co rest)
  let ?t = "takeWhile (\<lambda>o'. \<not> opt_match s' k o') os" and ?Q = "\<lambda>o'. \<not> strcase_eq s' (co_section o')"
  have os: "os = ?t @ co # rest" using Cons unfolding chain_find_def by (metis takeWhile_dropWhile_id)
  have co: "\<not> opt_match s n co" using chain_find_hd [OF Cons] assms opt_match_same [of s' k co s n] by (auto simp: strcase_eq_def)
  have "filter (opt_match s n) (takeWhile ?Q xs) = []" for xs
    using assms(1) by (induction xs) (auto simp: opt_match_def strcase_eq_def)
  then have "filter (opt_match s n) (dropWhile ?Q xs) = filter (opt_match s n) xs" for xs
    by (metis append_Nil filter_append takeWhile_dropWhile_id)
  then have "filter (opt_match s n) (rev (dropWhile ?Q (rev ?t))) = filter (opt_match s n) ?t" by (simp flip: rev_filter)
  then have "filter (opt_match s n) (conf_unlink s' k os) = filter (opt_match s n) (?t @ co # rest)"
    using Cons co by (simp add: conf_unlink_def)
  with os show ?thesis by simp
qed (simp add: conf_unlink_def)

lemma opts_delete_section:
  assumes "length (cf_hash c) = 128" and "strcase_eq s s'" and "\<not> strcase_eq n k"
  shows "opts (conf_delete s' k c) s n = opts c s n"
  using filter_unlink_section [OF assms(2,3)] assms(1)
  by (simp add: conf_delete_def opts_set_chain) (simp add: opts_def cf_chain_def)

lemma conf_delete_all_result:
  "length (cf_hash c) = 128 \<Longrightarrow> conf_lookup (conf_delete_all s k c) s k = None
     \<and> (\<forall>n. \<not> strcase_eq n k \<and> \<not> strcase_eq n (other_key k) \<longrightarrow> opts (conf_delete_all s k c) s n = opts c s n)
     \<and> length (cf_hash (conf_delete_all s k c)) = 128"
proof (induction s k c rule: conf_delete_all.induct)
  case (1 s k c)
  show ?case
  proof (cases "conf_lookup c s k")
    case None
    then show ?thesis using "1.prems" by (subst (1 2 3) conf_delete_all.simps) simp
  next
    case (Some co)
    let ?d = "conf_delete (co_section co) (co_name co) c"
    have eq: "conf_delete_all s k c = conf_delete_all s k ?d"
      using Some "1.prems" by (subst conf_delete_all.simps) (simp add: CFG_TABLE_SIZE_def)
    from Some obtain n where "conf_lookup_key c s n = Some co" "n = k \<or> n = other_key k"
      by (auto simp: conf_lookup_def conf_lookup_name_def bind_eq_Some_conv split: if_splits)
    then have m: "strcase_eq s (co_section co)" "strcase_eq k (co_name co) \<or> strcase_eq (other_key k) (co_name co)"
      by (auto simp: conf_lookup_key_def opt_match_def split: list.splits dest: chain_find_hd)
    have "length (cf_hash ?d) = 128" using "1.prems" by (simp add: conf_delete_def)
    moreover have "opts ?d s n = opts c s n" if "\<not> strcase_eq n k" "\<not> strcase_eq n (other_key k)" for n
      by (rule opts_delete_section [OF "1.prems" m(1)]) (use m(2) that in \<open>auto simp: strcase_eq_def\<close>)
    ultimately show ?thesis using "1.IH" [OF _ Some] "1.prems" unfolding eq by (simp add: CFG_TABLE_SIZE_def)
  qed
qed

lemma conf_read_delete_all:
  assumes "length (cf_hash c) = 128" and "apart n k"
  shows "conf_read (conf_delete_all s k c) s n = conf_read c s n"
  using conf_delete_all_result [OF assms(1), of s k] assms(2) by (intro conf_read_cong) (simp_all add: apart_def)

text \<open>Names in lower case without the prefix are apart when they are different.\<close>

definition plain_name :: "string \<Rightarrow> bool" where
  "plain_name n \<longleftrightarrow> lower n = n \<and> take 8 n \<noteq> ''default_'' \<and> length n \<le> PATH_MAX"

lemma lower_prefix: "lower DEFAULT_prefix = ''default_''"
  by code_simp

lemma lower_take: "lower (take k n) = take k (lower n)"
  by (simp add: lower_def take_map)

lemma lower_append: "lower (a @ b) = lower a @ lower b"
  by (simp add: lower_def)

lemma plain_other_key: "plain_name n \<Longrightarrow> other_key n = DEFAULT_prefix @ n"
  using lower_prefix by (auto simp: other_key_def strncase_eq_def plain_name_def lower_take DEFAULT_prefix_def)

lemma plain_apart:
  assumes "plain_name a" and "plain_name b" and "a \<noteq> b"
  shows "apart a b"
proof -
  have "a \<noteq> ''default_'' @ x" "b \<noteq> ''default_'' @ x" for x using assms(1,2) by (auto simp: plain_name_def)
  moreover have "lower a = a" "lower b = b" using assms(1,2) by (simp_all add: plain_name_def)
  ultimately show ?thesis
    using plain_other_key [OF assms(1)] plain_other_key [OF assms(2)] assms(3) lower_prefix
    by (auto simp: apart_def strcase_eq_def lower_append)
qed

lemma settings_apartI:
  assumes "set os = set xs" and "distinct (map fst xs)" and "\<forall>x \<in> set xs. plain_name (fst x)"
  shows "settings_apart os"
proof -
  have "x = y \<or> apart (fst x) (fst y)" if "x \<in> set xs" "y \<in> set xs" for x y
    using that assms(2,3) plain_apart [of "fst x" "fst y"] by (metis distinct_map inj_on_def)
  with assms(1,3) show ?thesis unfolding settings_apart_def plain_name_def by blast
qed

lemmas plain_simps = plain_name_def lower_def tolower_def PATH_MAX_def

lemma autofs_defaults_plain: "\<forall>x \<in> set (autofs_defaults mapdir). plain_name (fst x)"
  by (simp add: autofs_defaults_def plain_simps)

lemma autofs_defaults_apart: "settings_apart (autofs_defaults mapdir)"
  by (rule settings_apartI [OF refl _ autofs_defaults_plain]) (simp add: autofs_defaults_def)

lemma ldap_names: "plain_name NAME_LDAP_URI" "plain_name NAME_SEARCH_BASE" "NAME_LDAP_URI \<noteq> NAME_SEARCH_BASE"
  by (simp_all add: NAME_LDAP_URI_def NAME_SEARCH_BASE_def plain_simps)

lemma ldap_names_apart:
  assumes "(n, v) \<in> set (autofs_defaults mapdir)"
  shows "apart n NAME_LDAP_URI \<and> apart n NAME_SEARCH_BASE"
proof -
  have "NAME_LDAP_URI \<notin> fst ` set (autofs_defaults mapdir)" "NAME_SEARCH_BASE \<notin> fst ` set (autofs_defaults mapdir)"
    by (simp_all add: autofs_defaults_def NAME_LDAP_URI_def NAME_SEARCH_BASE_def)
  with assms autofs_defaults_plain [of mapdir] ldap_names plain_apart show ?thesis by (metis fst_conv imageI)
qed

lemma ldap_uri_search_base_apart: "apart NAME_LDAP_URI NAME_SEARCH_BASE"
  by (rule plain_apart [OF ldap_names])

lemma conf_lookup_cong:
  "opts c' s n = opts c s n \<Longrightarrow> opts c' s (other_key n) = opts c s (other_key n) \<Longrightarrow> conf_lookup c' s n = conf_lookup c s n"
proof -
  assume "opts c' s n = opts c s n" "opts c' s (other_key n) = opts c s (other_key n)"
  then have "conf_lookup_key c' s n = conf_lookup_key c s n" "conf_lookup_key c' s (other_key n) = conf_lookup_key c s (other_key n)"
    by (simp_all add: lookup_key_opts)
  then show ?thesis by (simp add: conf_lookup_def conf_lookup_name_def)
qed

text \<open>
  While memory lasts, loading the defaults succeeds whatever the table held before: every
  option of the automounter then has its default, or the value of the environment variable
  of its name, and no LDAP server or search base is left from an earlier file.
\<close>

theorem conf_load_autofs_defaults_values:
  assumes "mem_ample (cf_mem c)" and "length (cf_hash c) = 128"
  shows "\<exists>c'. conf_load_autofs_defaults mapdir c = (CFG_OK, c')
    \<and> (\<forall>(n, v) \<in> set (autofs_defaults mapdir). conf_read c' autofs_gbl_sec n = (case cf_env c n of Some e \<Rightarrow> Some e | None \<Rightarrow> v))
    \<and> conf_lookup c' autofs_gbl_sec NAME_LDAP_URI = None \<and> conf_lookup c' autofs_gbl_sec NAME_SEARCH_BASE = None"
proof -
  let ?s = autofs_gbl_sec
  obtain c1 where c1: "conf_load ?s CONF_ENV (autofs_defaults mapdir) c = (CFG_OK, c1)" "length (cf_hash c1) = 128"
    and vals: "\<forall>(n, v) \<in> set (autofs_defaults mapdir). conf_read c1 ?s n = conf_value c n v CONF_ENV"
    using conf_load_read [OF autofs_defaults_apart subset_refl assms, of ?s CONF_ENV] by blast
  let ?c2 = "conf_delete_all ?s NAME_LDAP_URI c1"
  let ?c3 = "conf_delete_all ?s NAME_SEARCH_BASE ?c2"
  have len2: "length (cf_hash ?c2) = 128" using conf_delete_all_result [OF c1(2)] by blast
  have read: "conf_read ?c3 ?s n = conf_value c n v CONF_ENV" if "(n, v) \<in> set (autofs_defaults mapdir)" for n v
  proof -
    have "conf_read c1 ?s n = conf_value c n v CONF_ENV" using vals that by blast
    then show ?thesis
      using conf_read_delete_all [OF c1(2), of n NAME_LDAP_URI ?s] conf_read_delete_all [OF len2, of n NAME_SEARCH_BASE ?s]
        ldap_names_apart [OF that] by simp
  qed
  have uri: "conf_lookup ?c2 ?s NAME_LDAP_URI = None" using conf_delete_all_result [OF c1(2)] by blast
  have same: "opts ?c3 ?s NAME_LDAP_URI = opts ?c2 ?s NAME_LDAP_URI" "opts ?c3 ?s (other_key NAME_LDAP_URI) = opts ?c2 ?s (other_key NAME_LDAP_URI)"
    using conf_delete_all_result [OF len2, of ?s NAME_SEARCH_BASE] ldap_uri_search_base_apart by (auto simp: apart_def)
  have "conf_lookup ?c3 ?s NAME_LDAP_URI = None" using conf_lookup_cong [OF same] uri by simp
  moreover have "conf_lookup ?c3 ?s NAME_SEARCH_BASE = None" using conf_delete_all_result [OF len2] by blast
  moreover have "conf_load_autofs_defaults mapdir c = (CFG_OK, ?c3)" by (simp add: conf_load_autofs_defaults_def c1(1))
  moreover have env: "conf_value c n v CONF_ENV = (case cf_env c n of Some e \<Rightarrow> Some e | None \<Rightarrow> v)" for n v
    by (simp add: conf_value_def CONF_ENV_def split: option.split)
  have "\<forall>(n, v) \<in> set (autofs_defaults mapdir). conf_read ?c3 ?s n = (case cf_env c n of Some e \<Rightarrow> Some e | None \<Rightarrow> v)"
    using read by (simp only: env split: prod.split) blast
  ultimately show ?thesis by blast
qed

theorem conf_load_autofs_defaults_values_witness:
  "\<exists>c c'. fst (conf_init [''timeout'' \<mapsto> ''30''] []) = Some c \<and> conf_load_autofs_defaults ''/etc'' c = (CFG_OK, c')
     \<and> conf_read c' autofs_gbl_sec ''timeout'' = Some ''30'' \<and> conf_read c' autofs_gbl_sec ''master_wait'' = Some ''10''"
proof -
  let ?c = "\<lparr>cf_hash = replicate (unat CFG_TABLE_SIZE) [], cf_modified = 0, cf_env = [''timeout'' \<mapsto> ''30''], cf_mem = []\<rparr>"
  have init: "fst (conf_init [''timeout'' \<mapsto> ''30''] []) = Some ?c" by (simp add: conf_init_def)
  obtain c' where c': "conf_load_autofs_defaults ''/etc'' ?c = (CFG_OK, c')"
    and v: "\<forall>(n, v) \<in> set (autofs_defaults ''/etc''). conf_read c' autofs_gbl_sec n = (case cf_env ?c n of Some e \<Rightarrow> Some e | None \<Rightarrow> v)"
    using conf_load_autofs_defaults_values [of ?c "''/etc''"] by (auto simp: CFG_TABLE_SIZE_def)
  have "(''timeout'', Some ''600'') \<in> set (autofs_defaults ''/etc'')" "(''master_wait'', Some ''10'') \<in> set (autofs_defaults ''/etc'')"
    by (simp_all add: autofs_defaults_def)
  with v have "conf_read c' autofs_gbl_sec ''timeout'' = Some ''30'' \<and> conf_read c' autofs_gbl_sec ''master_wait'' = Some ''10''" by auto
  with init c' show ?thesis by blast
qed

lemma amd_defaults_apart: "settings_apart (amd_defaults u uts)"
proof (rule settings_apartI)
  show "set (amd_defaults u uts) = set (remdups (amd_defaults u uts))" by simp
  have "\<forall>x \<in> set (amd_defaults u uts). plain_name (fst x)" by (simp add: amd_defaults_def Let_def plain_simps)
  then show "\<forall>x \<in> set (remdups (amd_defaults u uts)). plain_name (fst x)" by simp
  show "distinct (map fst (remdups (amd_defaults u uts)))" by (simp add: amd_defaults_def Let_def)
qed

text \<open>
  When uname succeeds, the defaults of the amd section for the architecture and the name
  and release of the operating system are left without a value: what uname reported is
  used only when it fails.
\<close>

theorem amd_host_defaults_missing:
  assumes "mem_ample (cf_mem c)" and "length (cf_hash c) = 128"
  shows "\<exists>c'. conf_load_amd_defaults 0 uts c = (CFG_OK, c')
    \<and> (\<forall>n \<in> {''arch'', ''karch'', ''os'', ''osver''}. conf_read c' amd_gbl_sec n = None)
    \<and> fst (conf_amd_get_arch c') = None \<and> fst (conf_amd_get_os c') = None \<and> fst (conf_amd_get_os_ver c') = None"
proof -
  obtain c1 where c1: "conf_load amd_gbl_sec CONF_NONE (amd_defaults 0 uts) c = (CFG_OK, c1)"
    and vals: "\<forall>(n, v) \<in> set (amd_defaults 0 uts). conf_read c1 amd_gbl_sec n = conf_value c n v CONF_NONE"
    using conf_load_read [OF amd_defaults_apart subset_refl assms, of amd_gbl_sec CONF_NONE] by blast
  have none: "\<forall>n \<in> {''arch'', ''karch'', ''os'', ''osver''}. conf_read c1 amd_gbl_sec n = None"
  proof
    fix n assume "n \<in> {''arch'', ''karch'', ''os'', ''osver''}"
    then have "(n, None) \<in> set (amd_defaults 0 uts)" by (auto simp: amd_defaults_def)
    with bspec [OF vals this] show "conf_read c1 amd_gbl_sec n = None" by (simp add: conf_value_def CONF_NONE_def)
  qed
  then have "fst (conf_amd_get_arch c1) = None \<and> fst (conf_amd_get_os c1) = None \<and> fst (conf_amd_get_os_ver c1) = None"
    by (simp add: conf_amd_get_arch_def conf_amd_get_os_def conf_amd_get_os_ver_def conf_get_string_def conf_read_def)
  with none c1 show ?thesis unfolding conf_load_amd_defaults_def by blast
qed

theorem amd_host_defaults_missing_witness:
  "\<exists>c c'. fst (conf_init Map.empty []) = Some c
     \<and> conf_load_amd_defaults 0 \<lparr>sysname = ''Linux'', release = ''6.1'', machine = ''x86_64''\<rparr> c = (CFG_OK, c')
     \<and> fst (conf_amd_get_arch c') = None"
proof -
  let ?c = "\<lparr>cf_hash = replicate (unat CFG_TABLE_SIZE) [], cf_modified = 0, cf_env = Map.empty, cf_mem = []\<rparr>"
  have "fst (conf_init Map.empty []) = Some ?c" by (simp add: conf_init_def)
  with amd_host_defaults_missing [of ?c "\<lparr>sysname = ''Linux'', release = ''6.1'', machine = ''x86_64''\<rparr>"] show ?thesis
    by (fastforce simp: CFG_TABLE_SIZE_def)
qed

section \<open>Options that get lost\<close>

text \<open>
  Deleting an option also unlinks every option of another section that stands in front of it
  on the chain, back to the nearest option of its own section: when there is none of these
  the chain afterwards holds only what stood behind the deleted option.
\<close>

theorem conf_delete_drops:
  assumes "length (cf_hash c) = 128" and "cf_chain c k = pre @ co # rest" and "opt_match s k co"
    and "\<forall>o' \<in> set pre. \<not> strcase_eq s (co_section o')"
  shows "cf_chain (conf_delete s k c) k = rest"
proof -
  have pre: "\<forall>o' \<in> set pre. \<not> opt_match s k o'" using assms(4) by (auto simp: opt_match_def)
  then have "chain_find (opt_match s k) (pre @ co # rest) = co # rest" using assms(3) by (induction pre) auto
  moreover have "takeWhile (\<lambda>o'. \<not> opt_match s k o') (pre @ co # rest) = pre" using pre assms(3) by (simp add: takeWhile_append2)
  moreover have "dropWhile (\<lambda>o'. \<not> strcase_eq s (co_section o')) (rev pre) = []" using assms(4) by simp
  ultimately show ?thesis using assms(1,2) by (simp add: conf_delete_def conf_unlink_def)
qed

theorem conf_delete_drops_witness:
  "\<exists>c amd_uri uri. cf_chain c ''ldap_uri'' = [amd_uri, uri] \<and> co_section amd_uri = ''amd'' \<and> co_section uri = ''autofs''
     \<and> cf_chain (conf_delete ''autofs'' ''ldap_uri'' c) ''ldap_uri'' = []"
proof -
  let ?a = "\<lparr>co_section = ''amd'', co_name = ''ldap_uri'', co_value = Some ''ldap://a'', co_flags = 0\<rparr>"
  let ?b = "\<lparr>co_section = ''autofs'', co_name = ''ldap_uri'', co_value = Some ''ldap://b'', co_flags = 0\<rparr>"
  let ?c = "set_chain ''ldap_uri'' [?a, ?b] \<lparr>cf_hash = replicate 128 [], cf_modified = 0, cf_env = Map.empty, cf_mem = []\<rparr>"
  have "cf_chain ?c ''ldap_uri'' = [] @ [?a] @ ?b # []" by simp
  moreover have "cf_chain (conf_delete ''autofs'' ''ldap_uri'' ?c) ''ldap_uri'' = []"
    using conf_delete_drops [of ?c "''ldap_uri''" "[?a]" ?b "[]" "''autofs''"] by (simp add: opt_match_def strcase_eq_def lower_def tolower_def)
  ultimately show ?thesis by (intro exI [of _ ?c] exI [of _ ?a] exI [of _ ?b]) simp
qed

section \<open>Numbers\<close>

text \<open>A number in decimal digits.\<close>

fun dec :: "nat \<Rightarrow> string" where
  "dec n = (if n < 10 then [char_of (48 + n)] else dec (n div 10) @ [char_of (48 + n mod 10)])"

declare dec.simps [simp del]

lemma digit_char: "d < 10 \<Longrightarrow> isdigit (char_of (48 + d :: nat)) \<and> digit_value (char_of (48 + d)) = int d"
  by (simp add: isdigit_def digit_value_def)

lemma dec_digits: "dec n \<noteq> [] \<and> (\<forall>ch \<in> set (dec n). isdigit ch)"
proof (induction n rule: dec.induct)
  case (1 n)
  then show ?case using digit_char [of n] digit_char [of "n mod 10"] by (subst (1 2) dec.simps) auto
qed

lemma dec_value: "foldl (\<lambda>k ch. 10 * k + digit_value ch) 0 (dec n) = int n"
proof (induction n rule: dec.induct)
  case (1 n)
  show ?case
  proof (cases "n < 10")
    case True
    then show ?thesis using digit_char [of n] by (subst dec.simps) simp
  next
    case False
    moreover have "10 * int (n div 10) + int (n mod 10) = int n" by presburger
    ultimately show ?thesis using 1 digit_char [of "n mod 10"] by (subst dec.simps) simp
  qed
qed

lemma strtol_dec: "n < 2 ^ 63 \<Longrightarrow> strtol (dec n) = int n"
proof -
  assume n: "n < 2 ^ 63"
  obtain ch s where s: "dec n = ch # s" using dec_digits [of n] by (cases "dec n") auto
  then have ch: "isdigit ch" using dec_digits [of n] by simp
  then have "\<not> isspace ch" "ch \<noteq> CHR ''-''" "ch \<noteq> CHR ''+''" by (auto simp: isdigit_def isspace_def)
  then have "dropWhile isspace (dec n) = dec n" "cstr_hd (dec n) \<noteq> CHR ''-''" "cstr_hd (dec n) \<noteq> CHR ''+''" using s by auto
  moreover have "digits_value (dec n) = int n"
    using dec_digits [of n] dec_value [of n] unfolding digits_value_def by (simp add: takeWhile_eq_all_conv [THEN iffD2])
  ultimately have "strtol (dec n) = max (- (2 ^ 63)) (min (2 ^ 63 - 1) (int n))" by (simp add: strtol_def)
  moreover have "int n \<le> 2 ^ 63 - 1" using n by simp
  ultimately show ?thesis by simp
qed

lemma conf_get_number_read: "conf_get_number c s n = (case conf_read c s n of None \<Rightarrow> - 1 | Some v \<Rightarrow> strtol v)"
  by (simp add: conf_get_number_def conf_read_def)

lemma strtol_default: "strtol ''60'' = 60" "strtol ''3'' = 3" "strtol ''600'' = 600"
  by code_simp+

text \<open>
  The default NFS version is 2, 3 or 4 whatever the configuration says. The expire timeout
  and the timeout for failed mounts are the numbers configured modulo 2 to the 32, so that a
  multiple of 2 to the 32 gives the timeout 0; without a setting, and for the second
  one also for a setting of 0, the default applies.
\<close>

theorem configured_numbers:
  "uint (defaults_get_mount_nfs_default_proto c) \<in> {2, 3, 4}
   \<and> (n < 2 ^ 63 \<and> conf_read c autofs_gbl_sec ''timeout'' = Some (dec n) \<longrightarrow> uint (defaults_get_timeout c) = int n mod 2 ^ 32)
   \<and> (n < 2 ^ 63 \<and> conf_read c autofs_gbl_sec ''negative_timeout'' = Some (dec n) \<longrightarrow>
        uint (defaults_get_negative_timeout c) = (if n = 0 then 60 else int n mod 2 ^ 32))
   \<and> (conf_read c autofs_gbl_sec ''timeout'' = None \<longrightarrow> uint (defaults_get_timeout c) = 600)"
proof -
  let ?p = "to_s32 (conf_get_number c autofs_gbl_sec ''mount_nfs_default_protocol'')"
  have "atoi ''3'' = 3" by (simp add: atoi_def strtol_default to_s32_def)
  then have "(if ?p < 2 \<or> ?p > 4 then atoi ''3'' else ?p) \<in> {2, 3, 4}" by auto
  then have "uint (defaults_get_mount_nfs_default_proto c) \<in> {2, 3, 4}"
    by (auto simp: defaults_get_mount_nfs_default_proto_def Let_def)
  moreover have "uint (word_of_nat k :: u32) = int k mod 2 ^ 32" for k by (simp add: unsigned_of_nat take_bit_eq_mod zmod_int)
  ultimately show ?thesis
    by (simp add: defaults_get_timeout_def defaults_get_negative_timeout_def number_or_def conf_get_number_read strtol_dec strtol_default)
qed

theorem configured_numbers_witness:
  "\<exists>c. conf_read c autofs_gbl_sec ''timeout'' = Some (dec 300) \<and> uint (defaults_get_timeout c) = 300"
proof -
  let ?co = "\<lparr>co_section = autofs_gbl_sec, co_name = ''timeout'', co_value = Some (dec 300), co_flags = 0\<rparr>"
  let ?c = "set_chain ''timeout'' [?co] \<lparr>cf_hash = replicate 128 [], cf_modified = 0, cf_env = Map.empty, cf_mem = []\<rparr>"
  have "conf_read ?c autofs_gbl_sec ''timeout'' = Some (dec 300)"
    by (simp add: conf_read_opts opts_def opt_match_def PATH_MAX_def)
  with configured_numbers [of ?c 300] show ?thesis by auto
qed

end
