(* ===== verification/Map_File.thy ===== *)
theory Map_File
  imports Parse_Subs
begin

text \<open>
  The reader for map files, \<^verbatim>\<open>read_one\<close> of \<^verbatim>\<open>modules/lookup_file.c\<close>: a state machine over the
  characters of the file that finds the next key and its map entry. A file is the list of the
  characters still to be read (map files are text and hold no NUL); \<open>getc\<close> takes the first,
  and a character read ahead with \<open>getc\<close> and given back with \<open>ungetc\<close> is looked at only. A
  read error ends the file. \<open>key_len\<close> and \<open>mapent_len\<close> always are the numbers of characters
  written to the two buffers since they were cleared, and \<open>p\<close> is not \<open>NULL\<close> from the first
  character of the map entry on, so the model keeps the texts alone. A write behind the key
  buffer ends the model with \<open>READ_OVERRUN\<close>.
\<close>

section \<open>The state machine\<close>

definition KEY_MAX_LEN :: nat where "KEY_MAX_LEN = 255"
definition MAPENT_MAX_LEN :: nat where "MAPENT_MAX_LEN = 16384"

datatype lookup_state = st_begin | st_compare | st_star | st_badent | st_entspc | st_getent

datatype found_state = got_nothing | got_star | got_real | got_plus

datatype escapes = esc_none | esc_char | esc_val | esc_all

record reader =
  rd_state :: lookup_state
  rd_getting :: found_state
  rd_gotten :: found_state
  rd_escape :: escapes
  rd_key :: string
  rd_mapent :: string

text \<open>
  Where control goes after a character: to the next round of the loop, to the label \<open>got_it\<close>
  or \<open>next\<close>, or nowhere after a write behind the buffer of the key.
\<close>

datatype jump = Stay reader | Got_it reader | Next reader | Overrun

datatype read_result = READ_ENTRY string string string | READ_EOF | READ_OVERRUN

text \<open>Writing characters at \<open>kptr\<close>; the buffer has room for \<open>KEY_MAX_LEN + 1\<close> of them.\<close>

definition put_key :: "string \<Rightarrow> reader \<Rightarrow> jump" where
  "put_key s st =
     (if length (rd_key st) + length s > KEY_MAX_LEN + 1 then Overrun
      else Stay (st\<lparr>rd_key := rd_key st @ s\<rparr>))"

text \<open>The switch over \<open>escape\<close>, for a character that starts no continuation line.\<close>

fun escape_step :: "char \<Rightarrow> escapes \<Rightarrow> escapes" where
  "escape_step ch esc_none = (if ch = BSLASH then esc_char else if ch = DQUOTE then esc_all else esc_none)"
| "escape_step ch esc_char = esc_val"
| "escape_step ch esc_val = esc_none"
| "escape_step ch esc_all = (if ch = DQUOTE then esc_none else esc_all)"

definition next_blank :: "string \<Rightarrow> bool" where
  "next_blank f \<longleftrightarrow> f \<noteq> [] \<and> isblank (hd f)"

definition have_entry :: "reader \<Rightarrow> bool" where
  "have_entry st \<longleftrightarrow> rd_gotten st = got_real \<or> rd_gotten st = rd_getting st"

text \<open>The switch over \<open>state\<close>; \<open>f\<close> is what follows the character.\<close>

fun state_step :: "char \<Rightarrow> string \<Rightarrow> lookup_state \<Rightarrow> reader \<Rightarrow> jump" where
  "state_step ch f st_begin st =
     (if rd_escape st = esc_none then
        if isspace ch then Stay st
        else if ch = CHR ''#'' then Stay (st\<lparr>rd_state := st_badent\<rparr>)
        else if ch = CHR ''*'' then put_key [ch] (st\<lparr>rd_state := st_star\<rparr>)
        else put_key [ch] (st\<lparr>rd_state := st_compare,
               rd_gotten := (if ch = CHR ''+'' then got_plus else rd_gotten st)\<rparr>)
      else if rd_escape st = esc_all then put_key [ch] (st\<lparr>rd_state := st_compare\<rparr>)
      else if rd_escape st = esc_char then Stay st
      else Stay (st\<lparr>rd_state := st_badent\<rparr>))"
| "state_step ch f st_compare st =
     (if ch = LF then
        (let st' = st\<lparr>rd_state := st_begin\<rparr>
         in if rd_gotten st = got_plus then Got_it st'
            else if rd_escape st = esc_all then Next st'
            else if rd_escape st \<noteq> esc_val then Got_it st'
            else Stay st')
      else if isspace ch \<and> rd_escape st = esc_none then
        (let st' = st\<lparr>rd_getting := got_real, rd_state := st_entspc\<rparr>
         in if rd_gotten st = got_plus then Got_it st' else Stay st')
      else if rd_escape st = esc_char then Stay st
      else if length (rd_key st) = KEY_MAX_LEN then Stay (st\<lparr>rd_state := st_badent, rd_gotten := got_nothing\<rparr>)
      else put_key ((if rd_escape st = esc_val then [BSLASH] else []) @ [ch]) st)"
| "state_step ch f st_star st =
     (if ch = LF then Stay (st\<lparr>rd_state := st_begin\<rparr>)
      else if isspace ch \<and> rd_gotten st = got_nothing \<and> rd_escape st = esc_none
        then Stay (st\<lparr>rd_getting := got_star, rd_state := st_entspc\<rparr>)
      else if rd_escape st \<noteq> esc_char then Stay (st\<lparr>rd_state := st_badent\<rparr>)
      else Stay st)"
| "state_step ch f st_badent st =
     (if ch = LF then
        if next_blank f then Stay st
        else (let st' = st\<lparr>rd_state := st_begin\<rparr> in if have_entry st then Got_it st' else Next st')
      else if \<not> isblank ch then Stay (st\<lparr>rd_gotten := got_nothing\<rparr>)
      else Stay st)"
| "state_step ch f st_entspc st =
     (if ch = LF then Stay (st\<lparr>rd_state := st_begin\<rparr>)
      else if \<not> isspace ch \<or> rd_escape st \<noteq> esc_none then
        if rd_escape st = esc_char then Stay st
        else if rd_escape st \<noteq> esc_none \<and> (of_char ch :: nat) \<le> 32
          then Stay (st\<lparr>rd_getting := got_nothing, rd_state := st_badent\<rparr>)
        else Stay (st\<lparr>rd_mapent := (if rd_escape st = esc_val then [BSLASH, ch] else [ch]),
               rd_state := st_getent, rd_gotten := rd_getting st\<rparr>)
      else Stay st)"
| "state_step ch f st_getent st =
     (if ch = LF then
        if rd_escape st = esc_all then Next (st\<lparr>rd_state := st_begin\<rparr>)
        else if next_blank f then Stay (st\<lparr>rd_state := st_badent\<rparr>)
        else (let st' = st\<lparr>rd_state := st_begin\<rparr> in if have_entry st then Got_it st' else Stay st')
      else if length (rd_mapent st) < MAPENT_MAX_LEN then
        (let st' = (if rd_mapent st \<noteq> [] then st\<lparr>rd_mapent := rd_mapent st @ [ch]\<rparr> else st)
         in if f = [] \<and> have_entry st then Got_it st' else Stay st')
      else Stay (st\<lparr>rd_state := st_badent\<rparr>))"

text \<open>The statements behind the label \<open>next\<close>: everything but the state starts afresh.\<close>

definition read_reset :: "lookup_state \<Rightarrow> reader" where
  "read_reset s = \<lparr>rd_state = s, rd_getting = got_nothing, rd_gotten = got_nothing, rd_escape = esc_none,
     rd_key = [], rd_mapent = []\<rparr>"

text \<open>
  The loop of \<open>read_one\<close>. A backslash in front of a newline is skipped with it, unless quotes
  or an earlier backslash are in force.
\<close>

definition continuation :: "char \<Rightarrow> string \<Rightarrow> reader \<Rightarrow> bool" where
  "continuation ch f st \<longleftrightarrow> rd_escape st = esc_none \<and> ch = BSLASH \<and> f \<noteq> [] \<and> hd f = LF"

function read_loop :: "string \<Rightarrow> reader \<Rightarrow> read_result" where
  "read_loop [] st = READ_EOF"
| "read_loop (ch # f) st =
     (if continuation ch f st then read_loop (tl f) st
      else
        (case state_step ch f (rd_state st) (st\<lparr>rd_escape := escape_step ch (rd_escape st)\<rparr>) of
           Stay st' \<Rightarrow> read_loop f st'
         | Got_it st' \<Rightarrow>
             if rd_gotten st' = got_nothing then read_loop f (read_reset (rd_state st'))
             else READ_ENTRY (rd_key st') (rd_mapent st') f
         | Next st' \<Rightarrow> read_loop f (read_reset (rd_state st'))
         | Overrun \<Rightarrow> READ_OVERRUN))"
  by pat_completeness auto
termination by (relation "measure (\<lambda>(f, st). length f)") auto

definition read_one :: "string \<Rightarrow> read_result" where
  "read_one f = read_loop f (read_reset st_begin)"

text \<open>What an entry leaves to be read is shorter than what was there.\<close>

lemma read_loop_shorter: "read_loop f st = READ_ENTRY k e r \<Longrightarrow> length r < length f"
proof (induction "length f" arbitrary: f st rule: less_induct)
  case less
  show ?case
  proof (cases f)
    case (Cons ch g)
    have IH: "read_loop g' s = READ_ENTRY k e r \<Longrightarrow> length g' \<le> length g \<Longrightarrow> length r < Suc (length g)" for g' s
      using less.hyps [of g' s] Cons by fastforce
    from less.prems show ?thesis unfolding Cons
      by (auto split: if_splits jump.splits intro: IH simp del: state_step.simps)
  qed (use less.prems in simp)
qed

lemma read_one_shorter: "read_one f = READ_ENTRY k e r \<Longrightarrow> length r < length f"
  unfolding read_one_def by (rule read_loop_shorter)

text \<open>All entries of a file, as the callers' loops see them one by one; \<open>None\<close> after an overrun.\<close>

function read_entries :: "string \<Rightarrow> (string \<times> string) list option" where
  "read_entries f =
     (case read_one f of
        READ_EOF \<Rightarrow> Some []
      | READ_OVERRUN \<Rightarrow> None
      | READ_ENTRY k e r \<Rightarrow> map_option (\<lambda>es. (k, e) # es) (read_entries r))"
  by pat_completeness auto
termination by (relation "measure length") (auto dest: read_one_shorter)

declare read_entries.simps [simp del]

section \<open>Files of well-formed lines\<close>

text \<open>
  A line with a key, white space and a map entry, a line for the wildcard key, a comment, an
  empty line. Keys and entries are taken as they stand, with their quotes and backslashes:
  both are removed only later, by the callers.
\<close>

datatype map_line = Line string string string | Wild string string | Comment string | Empty

fun print_line :: "map_line \<Rightarrow> string" where
  "print_line (Line k ws e) = k @ ws @ e @ [LF]"
| "print_line (Wild ws e) = CHR ''*'' # ws @ e @ [LF]"
| "print_line (Comment t) = CHR ''#'' # t @ [LF]"
| "print_line Empty = [LF]"

fun line_entry :: "map_line \<Rightarrow> (string \<times> string) list" where
  "line_entry (Line k ws e) = [(k, e)]"
| "line_entry (Wild ws e) = [(''*'', e)]"
| "line_entry (Comment t) = []"
| "line_entry Empty = []"

definition esc_run :: "escapes \<Rightarrow> string \<Rightarrow> escapes" where
  "esc_run e s = fold escape_step s e"

text \<open>White space in a key has to stand between quotes or behind a backslash.\<close>

fun key_scan :: "escapes \<Rightarrow> string \<Rightarrow> bool" where
  "key_scan e [] \<longleftrightarrow> e = esc_none \<or> e = esc_val"
| "key_scan e (c # cs) \<longleftrightarrow>
     c \<noteq> LF \<and> (isspace c \<longrightarrow> escape_step c e \<noteq> esc_none) \<and> key_scan (escape_step c e) cs"

definition key_ok :: "string \<Rightarrow> bool" where
  "key_ok k \<longleftrightarrow> k \<noteq> [] \<and> \<not> isspace (hd k) \<and> hd k \<noteq> CHR ''#'' \<and> hd k \<noteq> CHR ''*'' \<and> hd k \<noteq> CHR ''+''
     \<and> hd k \<noteq> BSLASH \<and> length k \<le> KEY_MAX_LEN \<and> key_scan (escape_step (hd k) esc_none) (tl k)"

definition sep_ok :: "string \<Rightarrow> bool" where
  "sep_ok ws \<longleftrightarrow> ws \<noteq> [] \<and> (\<forall>c \<in> set ws. isspace c \<and> c \<noteq> LF)"

definition entry_ok :: "string \<Rightarrow> bool" where
  "entry_ok e \<longleftrightarrow> e \<noteq> [] \<and> LF \<notin> set e \<and> \<not> isspace (hd e) \<and> length e \<le> MAPENT_MAX_LEN
     \<and> (hd e = BSLASH \<longrightarrow> 2 \<le> length e \<and> 32 < (of_char (e ! 1) :: nat))
     \<and> esc_run esc_none e \<noteq> esc_all \<and> esc_run esc_none e \<noteq> esc_char"

fun line_ok :: "map_line \<Rightarrow> bool" where
  "line_ok (Line k ws e) \<longleftrightarrow> key_ok k \<and> sep_ok ws \<and> entry_ok e"
| "line_ok (Wild ws e) \<longleftrightarrow> sep_ok ws \<and> entry_ok e"
| "line_ok (Comment t) \<longleftrightarrow> LF \<notin> set t \<and> esc_run esc_none t \<noteq> esc_char"
| "line_ok Empty \<longleftrightarrow> True"

lemma esc_run_simps [simp]:
  "esc_run e [] = e"
  "esc_run e (c # cs) = esc_run (escape_step c e) cs"
  by (simp_all add: esc_run_def)

lemma special_chars [simp]:
  "LF \<noteq> BSLASH" "LF \<noteq> DQUOTE" "BSLASH \<noteq> LF" "DQUOTE \<noteq> LF" "isspace LF" "\<not> isspace BSLASH" "\<not> isspace DQUOTE"
  "\<not> isblank LF" "BSLASH \<noteq> DQUOTE" "DQUOTE \<noteq> BSLASH" "\<not> isspace (CHR ''#'')" "\<not> isspace (CHR ''*'')"
  "LF \<noteq> CHR ''#''" "LF \<noteq> CHR ''*''" "\<not> isblank (CHR ''#'')" "\<not> isblank (CHR ''*'')"
  by (simp_all add: char_consts isspace_def isblank_def)

lemma isblank_isspace: "isblank c \<Longrightarrow> isspace c"
  by (auto simp: isblank_def isspace_def)

lemma space_special: "isspace c \<Longrightarrow> c \<noteq> BSLASH \<and> c \<noteq> DQUOTE"
  by auto

lemma getent_run:
  assumes "rd_state st = st_getent" and "rd_mapent st \<noteq> []" and "have_entry st" and "rd_gotten st \<noteq> got_nothing"
    and "LF \<notin> set e" and "length (rd_mapent st) + length e \<le> MAPENT_MAX_LEN"
    and "esc_run (rd_escape st) e \<noteq> esc_all" and "esc_run (rd_escape st) e \<noteq> esc_char" and "\<not> next_blank r"
  shows "read_loop (e @ LF # r) st = READ_ENTRY (rd_key st) (rd_mapent st @ e) r"
  using assms
proof (induction e arbitrary: st)
  case Nil
  then show ?case by (cases "rd_escape st") (auto simp: continuation_def have_entry_def Let_def)
next
  case (Cons c e)
  let ?st = "st\<lparr>rd_escape := escape_step c (rd_escape st), rd_mapent := rd_mapent st @ [c]\<rparr>"
  have "\<not> continuation c (e @ LF # r) st"
    using Cons.prems by (cases e) (auto simp: continuation_def)
  moreover have "c \<noteq> LF" using Cons.prems(5) by auto
  ultimately have "read_loop ((c # e) @ LF # r) st = read_loop (e @ LF # r) ?st"
    using Cons.prems by (simp add: Let_def)
  with Cons.IH [of ?st] Cons.prems show ?case by (simp add: have_entry_def)
qed

lemma entspc_run:
  assumes "rd_state st = st_entspc" and "rd_escape st = esc_none" and "rd_getting st \<noteq> got_nothing"
    and "entry_ok e" and "\<not> next_blank r" and "\<forall>c \<in> set ws. isspace c \<and> c \<noteq> LF"
  shows "read_loop (ws @ e @ LF # r) st = READ_ENTRY (rd_key st) e r"
  using assms(6)
proof (induction ws)
  case Nil
  from assms(4) obtain c e' where e: "e = c # e'" by (cases e) (auto simp: entry_ok_def)
  show ?case
  proof (cases "c = BSLASH")
    case True
    with e assms(4) obtain d e'' where e': "e' = d # e''" "32 < (of_char d :: nat)" "d \<noteq> LF"
      by (cases e') (auto simp: entry_ok_def)
    let ?st = "st\<lparr>rd_escape := esc_val, rd_mapent := [BSLASH, d], rd_state := st_getent, rd_gotten := rd_getting st\<rparr>"
    have "read_loop (e @ LF # r) st = read_loop (e'' @ LF # r) ?st"
      using True e e' assms by (simp add: continuation_def)
    with getent_run [of ?st e'' r] True e e' assms show ?thesis by (simp add: have_entry_def entry_ok_def)
  next
    case False
    let ?st = "st\<lparr>rd_escape := escape_step c esc_none, rd_mapent := [c], rd_state := st_getent, rd_gotten := rd_getting st\<rparr>"
    have "c = DQUOTE \<Longrightarrow> \<not> (of_char c :: nat) \<le> 32" by (simp add: DQUOTE_def)
    with False e assms have "read_loop (e @ LF # r) st = read_loop (e' @ LF # r) ?st"
      by (auto simp: continuation_def entry_ok_def)
    with getent_run [of ?st e' r] e assms show ?thesis by (simp add: have_entry_def entry_ok_def)
  qed
next
  case (Cons c ws)
  then have "st\<lparr>rd_escape := escape_step c (rd_escape st)\<rparr> = st" using assms(2) by (auto dest: space_special)
  with Cons assms show ?case by (auto simp: continuation_def dest: space_special)
qed

lemma compare_run:
  assumes "rd_state st = st_compare" and "rd_gotten st = got_nothing" and "key_scan (rd_escape st) k"
    and "length (rd_key st) + length k + (if rd_escape st = esc_char then 1 else 0) \<le> KEY_MAX_LEN"
    and "isspace s" and "s \<noteq> LF"
  shows "read_loop (k @ s # f) st =
    read_loop f (st\<lparr>rd_state := st_entspc, rd_getting := got_real, rd_escape := esc_none,
      rd_key := rd_key st @ (if rd_escape st = esc_char then [BSLASH] else []) @ k\<rparr>)"
  using assms(1-4)
proof (induction k arbitrary: st)
  case Nil
  with assms(5,6) space_special [OF assms(5)] show ?case by (cases st) (auto simp: continuation_def Let_def)
next
  case (Cons c k)
  let ?e = "escape_step c (rd_escape st)"
  let ?st = "st\<lparr>rd_escape := ?e, rd_key := rd_key st @ (if rd_escape st = esc_char then [BSLASH] else [])
                @ (if ?e = esc_char then [] else [c])\<rparr>"
  have "\<not> continuation c (k @ s # f) st"
    using Cons.prems assms(6) by (cases k) (auto simp: continuation_def)
  moreover have "rd_escape st \<noteq> esc_char" if "?e = esc_char" using that by auto
  moreover have "?e = esc_val \<longleftrightarrow> rd_escape st = esc_char" by (cases "rd_escape st") auto
  ultimately have "read_loop ((c # k) @ s # f) st = read_loop (k @ s # f) ?st"
    using Cons.prems by (auto simp: put_key_def)
  moreover have "?e = esc_char \<Longrightarrow> c = BSLASH" by (cases "rd_escape st") (auto split: if_splits)
  ultimately show ?case using Cons.IH [of ?st] Cons.prems by (cases st; cases "?e = esc_char") auto
qed

lemma key_first:
  assumes "key_ok k" and "rd_state st = st_begin" and "rd_gotten st = got_nothing" and "rd_escape st = esc_none"
    and "length (rd_key st) + length k \<le> KEY_MAX_LEN" and "isspace s" and "s \<noteq> LF"
  shows "read_loop (k @ s # f) st =
    read_loop f (st\<lparr>rd_state := st_entspc, rd_getting := got_real, rd_escape := esc_none, rd_key := rd_key st @ k\<rparr>)"
proof -
  from assms(1) obtain c k' where k: "k = c # k'" by (cases k) (auto simp: key_ok_def)
  let ?st = "st\<lparr>rd_state := st_compare, rd_escape := escape_step c esc_none, rd_key := rd_key st @ [c]\<rparr>"
  have "\<not> continuation c (k' @ s # f) st" using assms(1) k by (simp add: continuation_def key_ok_def)
  with assms k have 1: "read_loop (k @ s # f) st = read_loop (k' @ s # f) ?st"
    by (cases st) (auto simp: key_ok_def put_key_def)
  have esc: "escape_step c esc_none \<noteq> esc_char" using assms(1) k by (simp add: key_ok_def)
  then have "read_loop (k' @ s # f) ?st = read_loop f (?st\<lparr>rd_state := st_entspc, rd_getting := got_real,
      rd_escape := esc_none, rd_key := rd_key ?st @ k'\<rparr>)"
    using compare_run [of ?st k' s f] assms k by (simp add: key_ok_def del: escape_step.simps)
  with 1 k show ?thesis by (cases st) simp
qed

lemma read_line:
  assumes "key_ok k" and "sep_ok ws" and "entry_ok e" and "\<not> next_blank r"
  shows "read_one (k @ ws @ e @ LF # r) = READ_ENTRY k e r"
proof -
  from assms(2) obtain s ws' where ws: "ws = s # ws'" by (cases ws) (auto simp: sep_ok_def)
  with key_first [OF assms(1), of "read_reset st_begin" s "ws' @ e @ LF # r"] assms(1,2)
    entspc_run [of _ e r ws', OF _ _ _ assms(3,4)]
  show ?thesis by (simp add: read_one_def read_reset_def sep_ok_def key_ok_def)
qed

lemma read_wild:
  assumes "sep_ok ws" and "entry_ok e" and "\<not> next_blank r"
  shows "read_one (CHR ''*'' # ws @ e @ LF # r) = READ_ENTRY ''*'' e r"
proof -
  from assms(1) obtain s ws' where ws: "ws = s # ws'" by (cases ws) (auto simp: sep_ok_def)
  have "CHR ''*'' \<noteq> BSLASH" "CHR ''*'' \<noteq> DQUOTE" by (simp_all add: char_consts)
  with ws assms(1) space_special [of s] entspc_run [of _ e r ws', OF _ _ _ assms(2,3)] show ?thesis
    by (simp add: read_one_def read_reset_def sep_ok_def continuation_def put_key_def)
qed

lemma badent_run:
  assumes "rd_state st = st_badent" and "rd_gotten st = got_nothing" and "rd_getting st = got_nothing"
    and "LF \<notin> set t" and "esc_run (rd_escape st) t \<noteq> esc_char" and "\<not> next_blank r"
  shows "read_loop (t @ LF # r) st = read_one r"
  using assms
proof (induction t arbitrary: st)
  case Nil
  then show ?case by (cases "rd_escape st") (auto simp: continuation_def have_entry_def Let_def read_one_def)
next
  case (Cons c t)
  have "\<not> continuation c (t @ LF # r) st" "c \<noteq> LF"
    using Cons.prems by (cases t; auto simp: continuation_def)+
  moreover have "st\<lparr>rd_escape := e, rd_gotten := got_nothing\<rparr> = st\<lparr>rd_escape := e\<rparr>" for e
    using Cons.prems(2) by (cases st) simp
  ultimately show ?case using Cons.prems Cons.IH by simp
qed

lemma read_comment:
  assumes "LF \<notin> set t" and "esc_run esc_none t \<noteq> esc_char" and "\<not> next_blank r"
  shows "read_one (CHR ''#'' # t @ LF # r) = read_one r"
proof -
  have "CHR ''#'' \<noteq> BSLASH" "CHR ''#'' \<noteq> DQUOTE" by (simp_all add: char_consts)
  with badent_run [of "read_reset st_begin\<lparr>rd_state := st_badent\<rparr>" t r] assms show ?thesis
    by (simp add: read_one_def read_reset_def continuation_def)
qed

lemma read_empty: "read_one (LF # r) = read_one r"
  by (simp add: read_one_def read_reset_def continuation_def)

lemma lines_not_blank: "\<forall>l \<in> set ls. line_ok l \<Longrightarrow> \<not> next_blank (concat (map print_line ls))"
proof (cases ls)
  case (Cons l ls')
  assume "\<forall>l \<in> set ls. line_ok l"
  with Cons have "line_ok l" by simp
  then show ?thesis using Cons
    by (cases l) (auto simp: next_blank_def key_ok_def hd_append dest: isblank_isspace)
qed (simp add: next_blank_def)

lemma read_entries_entry:
  "read_one f = READ_ENTRY k e r \<Longrightarrow> read_entries f = map_option (\<lambda>es. (k, e) # es) (read_entries r)"
  by (simp add: read_entries.simps [of f])

lemma read_entries_cong: "read_one f = read_one g \<Longrightarrow> read_entries f = read_entries g"
  by (simp add: read_entries.simps [of f] read_entries.simps [of g])

lemma read_one_Nil [simp]: "read_one [] = READ_EOF"
  by (simp add: read_one_def)

text \<open>
  C13: Reading a file made of well-formed lines gives the keys and map entries of its lines, in
  their order and as they stand, quotes and escapes included: comments and empty lines are
  left out, nothing is lost and nothing is written behind the buffer of the key.
\<close>

theorem read_entries_lines:
  assumes "\<forall>l \<in> set ls. line_ok l"
  shows "read_entries (concat (map print_line ls)) = Some (concat (map line_entry ls))"
  using assms
proof (induction ls)
  case Nil
  then show ?case by (simp add: read_entries.simps [of "[]"])
next
  case (Cons l ls)
  let ?r = "concat (map print_line ls)"
  have nb: "\<not> next_blank ?r" using Cons.prems by (intro lines_not_blank) simp
  have IH: "read_entries ?r = Some (concat (map line_entry ls))" using Cons by simp
  have ok: "line_ok l" using Cons.prems by simp
  show ?case
  proof (cases l)
    case (Line k ws e)
    with ok nb have "read_one (concat (map print_line (l # ls))) = READ_ENTRY k e ?r" using read_line by simp
    with IH Line show ?thesis by (simp add: read_entries_entry)
  next
    case (Wild ws e)
    with ok nb have "read_one (concat (map print_line (l # ls))) = READ_ENTRY ''*'' e ?r" using read_wild by simp
    with IH Wild show ?thesis by (simp add: read_entries_entry)
  next
    case (Comment t)
    with ok nb have "read_one (concat (map print_line (l # ls))) = read_one ?r" using read_comment by simp
    from read_entries_cong [OF this] IH Comment show ?thesis by simp
  next
    case Empty
    then show ?thesis using IH read_entries_cong [OF read_empty, of ?r] by simp
  qed
qed

theorem read_entries_lines_witness:
  "read_entries (''# homes'' @ [LF] @ ''al -rw srv:/home/al'' @ [LF, LF] @ ''* srv:/home/&'' @ [LF])
     = Some [(''al'', ''-rw srv:/home/al''), (''*'', ''srv:/home/&'')]"
  using read_entries_lines [of "[Comment '' homes'', Line ''al'' '' '' ''-rw srv:/home/al'', Empty, Wild '' '' ''srv:/home/&'']"]
  by (simp add: key_ok_def sep_ok_def entry_ok_def isspace_def char_consts KEY_MAX_LEN_def MAPENT_MAX_LEN_def)

section \<open>Lines that are read wrongly\<close>

lemma key_then_newline:
  assumes "key_ok k" and "isspace s" and "s \<noteq> LF"
  shows "read_one (k @ s # LF # f) = read_loop f ((read_reset st_begin)\<lparr>rd_getting := got_real, rd_key := k\<rparr>)"
  using key_first [OF assms(1), of "read_reset st_begin" s "LF # f"] assms
  by (simp add: read_one_def read_reset_def key_ok_def continuation_def)

text \<open>
  A key followed by white space but no map entry is not dropped: the buffer of the key is not
  cleared at the end of the line, and the entry of the next line is stored under the
  concatenation of the two keys. The second key is lost.
\<close>

theorem key_without_entry_merges:
  assumes "key_ok k1" and "key_ok k2" and "length k1 + length k2 \<le> KEY_MAX_LEN"
    and "sep_ok ws" and "entry_ok e"
  shows "read_entries (k1 @ '' '' @ [LF] @ print_line (Line k2 ws e)) = Some [(k1 @ k2, e)]"
proof -
  from assms(4) obtain s ws' where ws: "ws = s # ws'" "isspace s" "s \<noteq> LF" "\<forall>c \<in> set ws'. isspace c \<and> c \<noteq> LF"
    by (cases ws) (auto simp: sep_ok_def)
  let ?st = "(read_reset st_begin)\<lparr>rd_getting := got_real, rd_key := k1\<rparr>"
  have "isspace (CHR '' '')" "CHR '' '' \<noteq> LF" by (simp_all add: isspace_def char_consts)
  then have "read_one (k1 @ '' '' @ [LF] @ k2 @ s # ws' @ e @ [LF]) = read_loop (k2 @ s # ws' @ e @ [LF]) ?st"
    using key_then_newline [OF assms(1), of "CHR '' ''" "k2 @ s # ws' @ e @ [LF]"] by simp
  also have "\<dots> = READ_ENTRY (k1 @ k2) e []"
    using key_first [OF assms(2), of ?st s "ws' @ e @ [LF]"] assms(3) ws
      entspc_run [of _ e "[]" ws', OF _ _ _ assms(5) _ ws(4)]
    by (simp add: read_reset_def next_blank_def)
  finally show ?thesis using ws by (simp add: read_entries_entry read_entries.simps [of "[]"])
qed

theorem key_without_entry_merges_witness:
  "read_entries (''a '' @ [LF] @ ''b srv:/b'' @ [LF]) = Some [(''ab'', ''srv:/b'')]"
  using key_without_entry_merges [of "''a''" "''b''" "'' ''" "''srv:/b''"]
  by (simp add: key_ok_def sep_ok_def entry_ok_def isspace_def char_consts KEY_MAX_LEN_def MAPENT_MAX_LEN_def)

lemma compare_step_plain:
  assumes "rd_state st = st_compare" and "rd_escape st = esc_none" and "\<not> isspace c" and "c \<noteq> BSLASH" and "c \<noteq> DQUOTE"
    and "length (rd_key st) < KEY_MAX_LEN"
  shows "read_loop (c # f) st = read_loop f (st\<lparr>rd_key := rd_key st @ [c]\<rparr>)"
  using assms by (cases st) (auto simp: continuation_def put_key_def)

lemma compare_run_plain:
  assumes "rd_state st = st_compare" and "rd_escape st = esc_none"
    and "\<forall>c \<in> set k. \<not> isspace c \<and> c \<noteq> BSLASH \<and> c \<noteq> DQUOTE" and "length (rd_key st) + length k \<le> KEY_MAX_LEN"
  shows "read_loop (k @ f) st = read_loop f (st\<lparr>rd_key := rd_key st @ k\<rparr>)"
  using assms
proof (induction k arbitrary: st)
  case (Cons c k)
  let ?st = "st\<lparr>rd_key := rd_key st @ [c]\<rparr>"
  have "read_loop ((c # k) @ f) st = read_loop (k @ f) ?st"
    using compare_step_plain [of st c "k @ f"] Cons.prems by simp
  with Cons.IH [of ?st] Cons.prems show ?case by simp
qed simp

text \<open>
  The length of a key is tested before one or two characters are written. A key of
  \<open>KEY_MAX_LEN - 1\<close> characters that goes on with an escaped character passes the limit without
  meeting it, and the next character is written behind the buffer.
\<close>

theorem escaped_key_overruns:
  assumes "\<forall>c \<in> set (a # k). \<not> isspace c \<and> c \<noteq> BSLASH \<and> c \<noteq> DQUOTE" and "a \<notin> set ''#*+''"
    and "length (a # k) = KEY_MAX_LEN - 1" and "c \<noteq> LF" and "\<not> isspace d"
  shows "read_one (a # k @ BSLASH # c # d # f) = READ_OVERRUN"
proof -
  let ?st = "\<lparr>rd_state = st_compare, rd_getting = got_nothing, rd_gotten = got_nothing, rd_escape = esc_none,
      rd_key = [a], rd_mapent = []\<rparr>"
  have "read_one (a # k @ BSLASH # c # d # f) = read_loop (k @ BSLASH # c # d # f) ?st"
    using assms(1,2) by (simp add: read_one_def read_reset_def continuation_def put_key_def)
  also have "\<dots> = read_loop (BSLASH # c # d # f) (?st\<lparr>rd_key := a # k\<rparr>)"
    using compare_run_plain [of ?st k] assms(1,3) by (simp add: KEY_MAX_LEN_def)
  also have "\<dots> = READ_OVERRUN"
    using assms(3-5) by (auto simp: continuation_def put_key_def KEY_MAX_LEN_def)
  finally show ?thesis .
qed

theorem escaped_key_overruns_witness:
  "read_one (replicate 254 (CHR ''k'') @ BSLASH # ''ab'') = READ_OVERRUN"
proof -
  have "replicate 254 (CHR ''k'') = CHR ''k'' # replicate 253 (CHR ''k'')" by (simp add: replicate_eq_replicate numeral_eq_Suc)
  with escaped_key_overruns [of "CHR ''k''" "replicate 253 (CHR ''k'')" "CHR ''a''" "CHR ''b''" "[]"] show ?thesis
    by (simp add: isspace_def char_consts KEY_MAX_LEN_def)
qed

lemma state_step_mapent:
  assumes "length (rd_mapent st) \<le> MAPENT_MAX_LEN"
    and "state_step ch f s st = Stay st' \<or> state_step ch f s st = Got_it st'"
  shows "length (rd_mapent st') \<le> MAPENT_MAX_LEN"
  using assms by (cases s) (auto simp: put_key_def Let_def MAPENT_MAX_LEN_def split: if_splits)

lemma state_step_key:
  assumes "length (rd_key st) \<le> KEY_MAX_LEN + 1"
    and "state_step ch f s st = Stay st' \<or> state_step ch f s st = Got_it st'"
  shows "length (rd_key st') \<le> KEY_MAX_LEN + 1"
  using assms by (cases s) (auto simp: put_key_def Let_def split: if_splits)

end
