(* ===== verification/Lookup_File.thy ===== *)
theory Lookup_File
  imports Map_File Cache_Props Quoting
begin

text \<open>
  The lookup module for map files, \<^verbatim>\<open>modules/lookup_file.c\<close>: reading a whole map into the cache,
  looking up one key or the wildcard in the file, deciding whether the file has to be read,
  and the lookup of a mount request, with \<^verbatim>\<open>match_cached_key\<close> of \<^verbatim>\<open>lib/parse_subs.c\<close> and
  \<^verbatim>\<open>lookup_source_mapent\<close> of \<^verbatim>\<open>daemon/lookup.c\<close>. A map that the file includes with \<open>+\<close> is
  read by the lookup dispatcher, which calls a lookup module for it; its effect on the cache,
  which it shares with the including map, is an argument of the definitions. The clocks and
  the file are arguments too. Map files hold no NUL.
\<close>

section \<open>Data\<close>

datatype nss_status = NSS_STATUS_UNKNOWN | NSS_STATUS_SUCCESS | NSS_STATUS_NOTFOUND | NSS_STATUS_UNAVAIL
  | NSS_STATUS_TRYAGAIN | NSS_STATUS_COMPLETED

text \<open>The fields of \<open>struct map_source\<close> that the module uses; \<open>src_instance\<close> tells whether there is one.\<close>

record map_source =
  src_id :: addr
  src_amd :: bool
  src_type :: "string option"
  src_age :: time
  src_stale :: bool
  src_recurse :: bool
  src_depth :: nat
  src_instance :: bool

record mount_point =
  mp_indirect :: bool
  mp_remount :: bool
  mp_pref :: "string option"
  mp_negative_timeout :: time

definition mp_type :: "mount_point \<Rightarrow> path_type" where
  "mp_type ap = (if mp_indirect ap then PATH_INDIRECT else PATH_DIRECT)"

datatype map_file = File string | No_entry | Open_error

definition MAX_INCLUDE_DEPTH :: nat where "MAX_INCLUDE_DEPTH = 16"

text \<open>
  What can go wrong in C beyond a status: a write behind the key buffer or a key without its
  terminator, a read behind a string, a pointer to an entry that was freed, a cache operation
  that does not return.
\<close>

datatype fault = KEY_OVERRUN | KEY_OVERREAD | WILD_POINTER | NO_RETURN

text \<open>An entry read from the file whose key is a C string: a key that fills its buffer has no terminator.\<close>

definition next_entry :: "string \<Rightarrow> read_result" where
  "next_entry f =
     (case read_one f of
        READ_ENTRY k e r \<Rightarrow> if length k > KEY_MAX_LEN then READ_OVERRUN else READ_ENTRY k e r
      | res \<Rightarrow> res)"

lemma next_entry_shorter: "next_entry f = READ_ENTRY k e r \<Longrightarrow> length r < length f"
  by (auto simp: next_entry_def split: read_result.splits if_splits dest: read_one_shorter)

definition returned :: "'a option \<Rightarrow> fault + 'a" where
  "returned x = (case x of None \<Rightarrow> Inl NO_RETURN | Some y \<Rightarrow> Inr y)"

section \<open>Reading the whole map\<close>

text \<open>The key as it is stored: \<open>None\<close> when \<open>sanitize_path\<close> refuses it.\<close>

definition sanitized :: "path_type \<Rightarrow> string \<Rightarrow> mapent_cache \<Rightarrow> string option \<times> mapent_cache" where
  "sanitized type key mc =
     (case sanitize_path key (length key) type (mc_mem mc) of (s_key, m) \<Rightarrow> (s_key, mc\<lparr>mc_mem := m\<rparr>))"

definition read_map_entry :: "mount_point \<Rightarrow> map_source \<Rightarrow> time \<Rightarrow> string \<Rightarrow> string \<Rightarrow> mapent_cache \<Rightarrow> mapent_cache option" where
  "read_map_entry ap source age key mapent mc =
     (if src_amd source \<and> key = ''/defaults'' then map_option snd (cache_update mc (src_id source) key (Some mapent) age)
      else
        (case sanitized (if src_amd source then PATH_ANY else mp_type ap) key mc of
           (None, mc1) \<Rightarrow> Some mc1
         | (Some s_key, mc1) \<Rightarrow> map_option snd (cache_update mc1 (src_id source) s_key (Some mapent) age)))"

function read_map_loop ::
  "(string \<Rightarrow> mapent_cache \<Rightarrow> mapent_cache option) \<Rightarrow> mount_point \<Rightarrow> map_source \<Rightarrow> time \<Rightarrow> string \<Rightarrow> mapent_cache
     \<Rightarrow> fault + mapent_cache" where
  "read_map_loop read_included ap source age f mc =
     (case next_entry f of
        READ_EOF \<Rightarrow> Inr mc
      | READ_OVERRUN \<Rightarrow> Inl KEY_OVERRUN
      | READ_ENTRY key mapent r \<Rightarrow>
          (case (if cstr_hd key = CHR ''+'' then read_included key mc else read_map_entry ap source age key mapent mc) of
             None \<Rightarrow> Inl NO_RETURN
           | Some mc1 \<Rightarrow> read_map_loop read_included ap source age r mc1))"
  by pat_completeness auto
termination
  by (relation "measure (\<lambda>(inc, ap, s, a, f, mc). length f)") (auto dest: next_entry_shorter)

declare read_map_loop.simps [simp del]

text \<open>The status, the source and the new \<open>last_read\<close> of the context, if the file was read.\<close>

definition lookup_read_map ::
  "(string \<Rightarrow> mapent_cache \<Rightarrow> mapent_cache option) \<Rightarrow> mount_point \<Rightarrow> map_source \<Rightarrow> time \<Rightarrow> time \<Rightarrow> map_file \<Rightarrow> mapent_cache
     \<Rightarrow> fault + nss_status \<times> map_source \<times> time option \<times> mapent_cache" where
  "lookup_read_map read_included ap source age now file mc =
     (if src_recurse source then Inr (NSS_STATUS_TRYAGAIN, source, None, mc)
      else if src_depth source > MAX_INCLUDE_DEPTH then Inr (NSS_STATUS_UNKNOWN, source, None, mc)
      else (case file of
              No_entry \<Rightarrow> Inr (NSS_STATUS_NOTFOUND, source, None, mc)
            | Open_error \<Rightarrow> Inr (NSS_STATUS_UNKNOWN, source, None, mc)
            | File f \<Rightarrow>
                (case read_map_loop read_included ap source age f mc of
                   Inl e \<Rightarrow> Inl e
                 | Inr mc1 \<Rightarrow> Inr (NSS_STATUS_SUCCESS, source\<lparr>src_age := age\<rparr>, Some now, mc1))))"

section \<open>Looking up a key in the file\<close>

text \<open>\<open>strrchr\<close> and the cut: what stands before the last slash.\<close>

definition before_slash :: "string \<Rightarrow> string option" where
  "before_slash s =
     (if CHR ''/'' \<in> set s then Some (rev (tl (dropWhile (\<lambda>c. c \<noteq> CHR ''/'') (rev s)))) else None)"

lemma before_slash_length: "before_slash s = Some p \<Longrightarrow> length p < length s"
proof -
  assume "before_slash s = Some p"
  then have "CHR ''/'' \<in> set (rev s)" and p: "p = rev (tl (dropWhile (\<lambda>c. c \<noteq> CHR ''/'') (rev s)))"
    by (auto simp: before_slash_def split: if_splits)
  then have "dropWhile (\<lambda>c. c \<noteq> CHR ''/'') (rev s) \<noteq> []" by (simp add: dropWhile_eq_Nil_conv)
  with p show ?thesis using length_dropWhile_le [of "\<lambda>c. c \<noteq> CHR ''/''" "rev s"]
    by (cases "dropWhile (\<lambda>c. c \<noteq> CHR ''/'') (rev s)") auto
qed

text \<open>
  The loop of \<open>match_key\<close> over the directories of the key. \<open>map_key[len + 1]\<close> lies behind the
  terminator when the key of the map is the directory itself.
\<close>

function wild_prefix :: "string \<Rightarrow> string \<Rightarrow> fault + bool" where
  "wild_prefix map_key lkp_key =
     (case before_slash lkp_key of
        None \<Rightarrow> Inr False
      | Some prefix \<Rightarrow>
          if strncmp_eq map_key prefix (length prefix) then
            (case cstr_at map_key (length prefix + 1) of
               None \<Rightarrow> Inl KEY_OVERREAD
             | Some c \<Rightarrow> if c = CHR ''*'' then Inr True else wild_prefix map_key prefix)
          else wild_prefix map_key prefix)"
  by pat_completeness auto
termination by (relation "measure (\<lambda>(m, l). length l)") (auto dest: before_slash_length)

declare wild_prefix.simps [simp del]

definition match_key ::
  "map_source \<Rightarrow> time \<Rightarrow> string \<Rightarrow> string \<Rightarrow> string \<Rightarrow> mapent_cache \<Rightarrow> fault + che \<times> mapent_cache" where
  "match_key source age map_key key mapent mc =
     (if map_key = key then returned (cache_update mc (src_id source) key (Some mapent) age)
      else if \<not> src_amd source then Inr (CHE_FAIL, mc)
      else
        (case malloc (mc_mem mc) of
           (False, m) \<Rightarrow> Inr (CHE_FAIL, mc\<lparr>mc_mem := m\<rparr>)
         | (True, m) \<Rightarrow>
             (let mc1 = mc\<lparr>mc_mem := m\<rparr>
              in if length map_key > length key + 2 then Inr (CHE_FAIL, mc1)
                 else (case wild_prefix map_key key of
                         Inl e \<Rightarrow> Inl e
                       | Inr False \<Rightarrow> Inr (CHE_FAIL, mc1)
                       | Inr True \<Rightarrow> returned (cache_update mc1 (src_id source) map_key (Some mapent) age)))))"

text \<open>One entry of the loop in \<open>lookup_one\<close>: \<open>CHE_FAIL\<close> makes it continue.\<close>

definition lookup_one_entry ::
  "mount_point \<Rightarrow> map_source \<Rightarrow> time \<Rightarrow> string \<Rightarrow> string \<Rightarrow> string \<Rightarrow> mapent_cache \<Rightarrow> fault + che \<times> mapent_cache" where
  "lookup_one_entry ap source age key mkey mapent mc =
     (if src_amd source \<and> mkey = ''/defaults'' then
        (case cache_update mc (src_id source) mkey (Some mapent) age of
           None \<Rightarrow> Inl NO_RETURN
         | Some (_, mc1) \<Rightarrow> Inr (CHE_FAIL, mc1))
      else
        (case sanitized (if src_amd source then PATH_ANY else mp_type ap) mkey mc of
           (None, mc1) \<Rightarrow> Inr (CHE_FAIL, mc1)
         | (Some s_key, mc1) \<Rightarrow>
             if \<not> src_amd source \<and> length key \<noteq> length s_key then Inr (CHE_FAIL, mc1)
             else match_key source age s_key key mapent mc1))"

function lookup_one_loop ::
  "(string \<Rightarrow> mapent_cache \<Rightarrow> (bool \<times> mapent_cache) option) \<Rightarrow> mount_point \<Rightarrow> map_source \<Rightarrow> time \<Rightarrow> string \<Rightarrow> string
     \<Rightarrow> mapent_cache \<Rightarrow> fault + che \<times> mapent_cache" where
  "lookup_one_loop mount_included ap source age key f mc =
     (case next_entry f of
        READ_EOF \<Rightarrow> Inr (CHE_MISSING, mc)
      | READ_OVERRUN \<Rightarrow> Inl KEY_OVERRUN
      | READ_ENTRY mkey mapent r \<Rightarrow>
          if cstr_hd mkey = CHR ''+'' then
            (case mount_included mkey mc of
               None \<Rightarrow> Inl NO_RETURN
             | Some (True, mc1) \<Rightarrow> Inr (CHE_COMPLETED, mc1)
             | Some (False, mc1) \<Rightarrow> lookup_one_loop mount_included ap source age key r mc1)
          else
            (case lookup_one_entry ap source age key mkey mapent mc of
               Inl e \<Rightarrow> Inl e
             | Inr (ret, mc1) \<Rightarrow>
                 if ret = CHE_FAIL then lookup_one_loop mount_included ap source age key r mc1
                 else Inr (ret, mc1)))"
  by pat_completeness auto
termination
  by (relation "measure (\<lambda>(inc, ap, s, a, k, f, mc). length f)") (auto dest: next_entry_shorter)

declare lookup_one_loop.simps [simp del]

definition lookup_one ::
  "(string \<Rightarrow> mapent_cache \<Rightarrow> (bool \<times> mapent_cache) option) \<Rightarrow> mount_point \<Rightarrow> map_source \<Rightarrow> time \<Rightarrow> string \<Rightarrow> map_file
     \<Rightarrow> mapent_cache \<Rightarrow> fault + che \<times> mapent_cache" where
  "lookup_one mount_included ap source age key file mc =
     (case file of
        File f \<Rightarrow> lookup_one_loop mount_included ap source age key f mc
      | _ \<Rightarrow> Inr (CHE_FAIL, mc))"

function lookup_wild_loop :: "map_source \<Rightarrow> time \<Rightarrow> string \<Rightarrow> mapent_cache \<Rightarrow> fault + che \<times> mapent_cache" where
  "lookup_wild_loop source age f mc =
     (case read_one f of
        READ_EOF \<Rightarrow> Inr (CHE_MISSING, mc)
      | READ_OVERRUN \<Rightarrow> Inl KEY_OVERRUN
      | READ_ENTRY mkey mapent r \<Rightarrow>
          if cstr_hd mkey = CHR ''*'' \<and> length mkey = 1
          then returned (cache_update mc (src_id source) ''*'' (Some mapent) age)
          else lookup_wild_loop source age r mc)"
  by pat_completeness auto
termination
  by (relation "measure (\<lambda>(s, a, f, mc). length f)") (auto dest: read_one_shorter)

declare lookup_wild_loop.simps [simp del]

definition lookup_wild :: "map_source \<Rightarrow> time \<Rightarrow> map_file \<Rightarrow> mapent_cache \<Rightarrow> fault + che \<times> mapent_cache" where
  "lookup_wild source age file mc =
     (case file of File f \<Rightarrow> lookup_wild_loop source age f mc | _ \<Rightarrow> Inr (CHE_FAIL, mc))"

section \<open>Looking up a key in the cache\<close>

text \<open>
  \<open>match_cached_key\<close>. The result is the pointer to an entry (a suffix of its chain) and the
  cache after the entry that a wildcard match adds for the key.
\<close>

function wild_dir :: "string \<Rightarrow> mapent_cache \<Rightarrow> chain" where
  "wild_dir lkp_key mc =
     (case before_slash lkp_key of
        None \<Rightarrow> cache_lookup_distinct mc (Some ''*'')
      | Some prefix \<Rightarrow>
          (case cache_partial_match_wild mc prefix of
             [] \<Rightarrow> wild_dir prefix mc
           | me # r \<Rightarrow> me # r))"
  by pat_completeness auto
termination by (relation "measure (\<lambda>(l, mc). length l)") (auto dest: before_slash_length)

declare wild_dir.simps [simp del]

definition stale_or_foreign :: "map_source \<Rightarrow> mapent \<Rightarrow> bool" where
  "stale_or_foreign source me \<longleftrightarrow>
     me_mapent me = None \<or> (me_source me \<noteq> src_id source \<and> cstr_hd (me_key me) \<noteq> CHR ''/'')"

definition match_cached_key ::
  "mount_point \<Rightarrow> map_source \<Rightarrow> time \<Rightarrow> string \<Rightarrow> mapent_cache \<Rightarrow> fault + chain \<times> mapent_cache" where
  "match_cached_key ap source now key mc =
     (if src_amd source then
        (case malloc (mc_mem mc) of
           (False, m) \<Rightarrow> Inr ([], mc\<lparr>mc_mem := m\<rparr>)
         | (True, m) \<Rightarrow>
             Inr (case cache_lookup_distinct mc (Some key) of me # r \<Rightarrow> me # r | [] \<Rightarrow> wild_dir key mc, mc\<lparr>mc_mem := m\<rparr>))
      else
        (case (case cache_lookup mc (Some key) of
                 [] \<Rightarrow> Some []
               | me # r \<Rightarrow>
                   if stale_or_foreign source me then
                     Option.bind (Option.bind (cache_lookup_key_next (me # r)) (find_source (src_id source)))
                       (\<lambda>next. if next \<noteq> [] then Some next
                               else (case cache_lookup_distinct mc (Some ''*'') of
                                       [] \<Rightarrow> Some []
                                     | we # wr \<Rightarrow> Some (if me_source we \<noteq> src_id source then [] else we # wr)))
                   else Some (me # r)) of
           None \<Rightarrow> Inl NO_RETURN
         | Some [] \<Rightarrow> Inr ([], mc)
         | Some (me # r) \<Rightarrow>
             if \<not> mp_remount ap \<and> mp_indirect ap \<and> cstr_hd (me_key me) = CHR ''*'' then
               (case cache_update mc (src_id source) key (me_mapent me) now of
                  None \<Rightarrow> Inl NO_RETURN
                | Some (ret, mc1) \<Rightarrow> Inr (if ret \<in> {CHE_OK, CHE_UPDATED} then me # r else [], mc1))
             else Inr (me # r, mc)))"

section \<open>Indirect maps\<close>

text \<open>Forgetting the map entry of a key that the map no longer has.\<close>

definition forget_mapent :: "map_source \<Rightarrow> che \<Rightarrow> chain \<Rightarrow> mapent_cache \<Rightarrow> mapent_cache" where
  "forget_mapent source ret exists mc =
     (case exists of
        [] \<Rightarrow> mc
      | me # _ \<Rightarrow>
          if me_source me = src_id source \<and> ret = CHE_MISSING \<and> me_mapent me \<noteq> None
          then upd_entry (me_id me) (\<lambda>x. x\<lparr>me_mapent := None, me_status := 0\<rparr>) mc
          else mc)"

definition forget_wild :: "map_source \<Rightarrow> che \<Rightarrow> mapent_cache \<Rightarrow> mapent_cache" where
  "forget_wild source wild mc =
     (case cache_lookup_distinct mc (Some ''*'') of
        [] \<Rightarrow> mc
      | we # _ \<Rightarrow> if me_source we = src_id source \<and> wild = CHE_MISSING then snd (cache_delete mc ''*'') else mc)"

definition check_map_indirect ::
  "(string \<Rightarrow> mapent_cache \<Rightarrow> (bool \<times> mapent_cache) option) \<Rightarrow> mount_point \<Rightarrow> map_source \<Rightarrow> time \<Rightarrow> string \<Rightarrow> map_file
     \<Rightarrow> mapent_cache \<Rightarrow> fault + nss_status \<times> mapent_cache" where
  "check_map_indirect mount_included ap source now key file mc =
     (case lookup_one mount_included ap source now key file mc of
        Inl e \<Rightarrow> Inl e
      | Inr (ret, mc1) \<Rightarrow>
          if ret = CHE_COMPLETED then Inr (NSS_STATUS_COMPLETED, mc1)
          else if ret = CHE_FAIL then Inr (NSS_STATUS_NOTFOUND, mc1)
          else
            (case (if src_amd source then match_cached_key ap source now key mc1
                   else Inr (cache_lookup_distinct mc1 (Some key), mc1)) of
               Inl e \<Rightarrow> Inl e
             | Inr (exists, mc2) \<Rightarrow>
                 (let mc3 = forget_mapent source ret exists mc2
                  in if ret \<noteq> CHE_MISSING then Inr (NSS_STATUS_SUCCESS, mc3)
                     else
                       (case lookup_wild source now file mc3 of
                          Inl e \<Rightarrow> Inl e
                        | Inr (wild, mc4) \<Rightarrow>
                            Inr (if wild \<in> {CHE_OK, CHE_UPDATED} then NSS_STATUS_SUCCESS else NSS_STATUS_NOTFOUND,
                                 forget_wild source wild mc4)))))"

text \<open>
  \<open>map_update_needed\<close>: the modification time of the file is \<open>None\<close> when \<open>stat\<close> fails. The
  source is marked stale when the file is newer than the last read.
\<close>

definition map_update_needed :: "time option \<Rightarrow> time \<Rightarrow> map_source \<Rightarrow> int \<times> map_source" where
  "map_update_needed mtime last_read source =
     (case mtime of
        None \<Rightarrow> (- 1, source)
      | Some mt \<Rightarrow>
          if mt \<le> last_read then
            (if \<not> src_instance source \<and> src_type source \<noteq> None \<and> src_type source \<noteq> Some ''multi'' then 0 else 1, source)
          else (1, source\<lparr>src_stale := True\<rparr>))"

section \<open>Mount requests\<close>

text \<open>\<open>lookup_source_mapent\<close> with \<open>LKP_DISTINCT\<close>: the first of the sources' caches that has the key.\<close>

fun lookup_source_mapent :: "mapent_cache list \<Rightarrow> string \<Rightarrow> (nat \<times> mapent) option" where
  "lookup_source_mapent [] key = None"
| "lookup_source_mapent (mc # mcs) key =
     (case cache_lookup_distinct mc (Some key) of
        me # _ \<Rightarrow> Some (0, me)
      | [] \<Rightarrow> map_option (\<lambda>(i, me). (Suc i, me)) (lookup_source_mapent mcs key))"

text \<open>
  The check for a mount that failed before: the caches after a look at the negative timeout,
  and whether the request fails at once.
\<close>

definition check_negative :: "time \<Rightarrow> string \<Rightarrow> mapent_cache list \<Rightarrow> bool \<times> mapent_cache list" where
  "check_negative now key mcs =
     (case lookup_source_mapent mcs key of
        None \<Rightarrow> (False, mcs)
      | Some (i, me) \<Rightarrow>
          (case cache_lookup_negative now (mcs ! i) me key of (ret, mc') \<Rightarrow> (ret = CHE_UNAVAIL, mcs[i := mc'])))"

text \<open>
  The key of a request: the name itself, or the name with the macros of the system expanded
  for amd maps; too long a key is refused.
\<close>

definition request_key ::
  "bool \<Rightarrow> subst_table \<Rightarrow> map_source \<Rightarrow> string \<Rightarrow> mem \<Rightarrow> fault + string option \<times> mem" where
  "request_key norm sys source name m =
     (if \<not> src_amd source then Inr (if length name > KEY_MAX_LEN then None else Some name, m)
      else
        (case expandamdent norm sys [] name m of
           (key_len, _, m1) \<Rightarrow>
             if key_len > KEY_MAX_LEN then Inr (None, m1)
             else (case expandamdent norm sys [] name m1 of
                     (_, key, m2) \<Rightarrow> if length key > KEY_MAX_LEN then Inl KEY_OVERRUN else Inr (Some key, m2))))"

definition prefixed :: "mount_point \<Rightarrow> string \<Rightarrow> string" where
  "prefixed ap key = (case mp_pref ap of None \<Rightarrow> key | Some p \<Rightarrow> p @ key)"

text \<open>
  The key to look up in the file: the key of the multi-mount that a cached key is an offset
  of, and otherwise the key of the request behind the prefix of a submount. \<open>None\<close> when the root
  of the multi-mount was freed.
\<close>

definition root_key :: "mount_point \<Rightarrow> string \<Rightarrow> mapent_cache \<Rightarrow> string option" where
  "root_key ap key mc =
     (case cache_lookup_distinct mc (Some key) of
        [] \<Rightarrow> Some (prefixed ap key)
      | me # _ \<Rightarrow>
          (case me_mm_root me of
             None \<Rightarrow> Some (prefixed ap key)
           | Some root \<Rightarrow>
               (case chain_find (\<lambda>x. me_id x = root) (concat (mc_hash mc) @ concat (mc_lost mc)) of
                  [] \<Rightarrow> None
                | r # _ \<Rightarrow> Some (me_key r))))"

text \<open>
  The part of \<open>lookup_mount\<close> in front of \<open>do_cache_lookup\<close>, for an indirect map whose file may
  have changed: a status with which the request ends, or \<open>None\<close> to go on with the cache.
\<close>

definition refresh_key ::
  "(string \<Rightarrow> mapent_cache \<Rightarrow> (bool \<times> mapent_cache) option) \<Rightarrow> mount_point \<Rightarrow> map_source \<Rightarrow> time \<Rightarrow> string \<Rightarrow> map_file
     \<Rightarrow> mapent_cache \<Rightarrow> fault + nss_status option \<times> mapent_cache" where
  "refresh_key mount_included ap source now key file mc =
     (case root_key ap key mc of
        None \<Rightarrow> Inl WILD_POINTER
      | Some lkp_key \<Rightarrow>
          (case malloc (mc_mem mc) of
             (False, m) \<Rightarrow> Inr (Some NSS_STATUS_UNKNOWN, mc\<lparr>mc_mem := m\<rparr>)
           | (True, m) \<Rightarrow>
               (case check_map_indirect mount_included ap source now lkp_key file (mc\<lparr>mc_mem := m\<rparr>) of
                  Inl e \<Rightarrow> Inl e
                | Inr (NSS_STATUS_SUCCESS, mc1) \<Rightarrow> Inr (None, mc1)
                | Inr (NSS_STATUS_COMPLETED, mc1) \<Rightarrow> Inr (Some NSS_STATUS_SUCCESS, mc1)
                | Inr (_, mc1) \<Rightarrow> Inr (Some NSS_STATUS_NOTFOUND, mc1))))"

text \<open>The part from \<open>do_cache_lookup\<close> to the call of the parser: a status or the map entry.\<close>

definition find_mapent ::
  "mount_point \<Rightarrow> map_source \<Rightarrow> time \<Rightarrow> string \<Rightarrow> mapent_cache \<Rightarrow> fault + (nss_status + string) \<times> mapent_cache" where
  "find_mapent ap source now key mc =
     (case malloc (mc_mem mc) of
        (False, m) \<Rightarrow> Inr (Inl NSS_STATUS_UNKNOWN, mc\<lparr>mc_mem := m\<rparr>)
      | (True, m) \<Rightarrow>
          (case match_cached_key ap source now (prefixed ap key) (mc\<lparr>mc_mem := m\<rparr>) of
             Inl e \<Rightarrow> Inl e
           | Inr ([], mc1) \<Rightarrow> Inr (Inl NSS_STATUS_NOTFOUND, mc1)
           | Inr (me # _, mc1) \<Rightarrow>
               (case me_mapent me of
                  Some mapent \<Rightarrow>
                    if me_source me = src_id source \<or> cstr_hd (me_key me) = CHR ''/''
                    then Inr (Inr mapent, mc1) else Inr (Inl NSS_STATUS_TRYAGAIN, mc1)
                | None \<Rightarrow> Inr (Inl NSS_STATUS_TRYAGAIN, mc1))))"

text \<open>
  \<open>lookup_mount\<close> for the source whose cache is \<open>mcs ! n\<close>. \<open>parse_mount\<close> is the parser module that
  was loaded for the map: what it returns (\<open>True\<close> for a failed mount) and makes of the cache.
\<close>

definition lookup_mount ::
  "(string \<Rightarrow> mapent_cache \<Rightarrow> (bool \<times> mapent_cache) option) \<Rightarrow> (string \<Rightarrow> string \<Rightarrow> mapent_cache \<Rightarrow> bool \<times> mapent_cache)
     \<Rightarrow> bool \<Rightarrow> subst_table \<Rightarrow> mount_point \<Rightarrow> map_source \<Rightarrow> time \<Rightarrow> time option \<Rightarrow> time \<Rightarrow> map_file \<Rightarrow> string
     \<Rightarrow> nat \<Rightarrow> mapent_cache list \<Rightarrow> fault + nss_status \<times> map_source \<times> mapent_cache list" where
  "lookup_mount mount_included parse_mount norm sys ap source now mtime last_read file name n mcs =
     (if src_recurse source then Inr (NSS_STATUS_UNAVAIL, source, mcs)
      else if src_depth source > MAX_INCLUDE_DEPTH then Inr (NSS_STATUS_SUCCESS, source, mcs)
      else
        (case request_key norm sys source name (mc_mem (mcs ! n)) of
           Inl e \<Rightarrow> Inl e
         | Inr (None, m) \<Rightarrow> Inr (NSS_STATUS_NOTFOUND, source, mcs[n := (mcs ! n)\<lparr>mc_mem := m\<rparr>])
         | Inr (Some key, m) \<Rightarrow>
             (case check_negative now key (mcs[n := (mcs ! n)\<lparr>mc_mem := m\<rparr>]) of
                (True, mcs1) \<Rightarrow> Inr (NSS_STATUS_NOTFOUND, source, mcs1)
              | (False, mcs1) \<Rightarrow>
                  (let indirect = (mp_indirect ap \<and> cstr_hd key \<noteq> CHR ''/'');
                       (need, source1) = (if indirect then map_update_needed mtime last_read source else (0, source))
                   in case (if need = 1 then refresh_key mount_included ap source1 now key file (mcs1 ! n)
                            else Inr (None, mcs1 ! n)) of
                        Inl e \<Rightarrow> Inl e
                      | Inr (Some status, mc) \<Rightarrow> Inr (status, source1, mcs1[n := mc])
                      | Inr (None, mc) \<Rightarrow>
                          (case find_mapent ap source1 now key mc of
                             Inl e \<Rightarrow> Inl e
                           | Inr (Inl status, mc1) \<Rightarrow> Inr (status, source1, mcs1[n := mc1])
                           | Inr (Inr mapent, mc1) \<Rightarrow>
                               (case parse_mount key mapent mc1 of
                                  (False, mc2) \<Rightarrow> Inr (NSS_STATUS_SUCCESS, source1, mcs1[n := mc2])
                                | (True, mc2) \<Rightarrow>
                                    if mp_remount ap then Inr (NSS_STATUS_TRYAGAIN, source1, mcs1[n := mc2])
                                    else
                                      (case cache_update_negative now mc2 (src_id source) key (mp_negative_timeout ap) of
                                         None \<Rightarrow> Inl NO_RETURN
                                       | Some mc3 \<Rightarrow> Inr (NSS_STATUS_TRYAGAIN, source1, mcs1[n := mc3]))))))))"

end
