(* ===== verification/Lookup_File_Props.thy ===== *)
theory Lookup_File_Props
  imports Lookup_File
begin

text \<open>
  What the lookup module for files does with a well-formed map file: reading it fills the cache
  with the file's entries, a lookup finds the first entry of the key or the wildcard, and a
  mount request is handed to the parser with the entry that the file has for it.
\<close>

section \<open>Well-formed files\<close>

abbreviation map_text :: "map_line list \<Rightarrow> string" where
  "map_text ls \<equiv> concat (map print_line ls)"

abbreviation map_entries :: "map_line list \<Rightarrow> (string \<times> string) list" where
  "map_entries ls \<equiv> concat (map line_entry ls)"

definition lines_ok :: "map_line list \<Rightarrow> bool" where
  "lines_ok ls \<longleftrightarrow> (\<forall>l \<in> set ls. line_ok l) \<and> (\<forall>(k, e) \<in> set (map_entries ls). plain k)"

lemma read_one_lines:
  assumes "\<forall>l \<in> set ls. line_ok l"
  obtains "map_entries ls = []" "read_one (map_text ls) = READ_EOF"
  | k e ls' where "map_entries ls = (k, e) # map_entries ls'" "read_one (map_text ls) = READ_ENTRY k e (map_text ls')"
      "set ls' \<subseteq> set ls" "key_ok k \<or> k = ''*''"
  using assms
proof (induction ls arbitrary: thesis)
  case Nil
  then show ?case by simp
next
  case (Cons l ls)
  have ok: "line_ok l" "\<forall>l \<in> set ls. line_ok l" using Cons.prems(3) by auto
  note nb = lines_not_blank [OF ok(2)]
  have skip: thesis if "line_entry l = []" "read_one (map_text (l # ls)) = read_one (map_text ls)"
  proof (rule Cons.IH [OF _ _ ok(2)])
    assume "map_entries ls = []" "read_one (map_text ls) = READ_EOF"
    with that Cons.prems(1) show thesis by simp
  next
    fix k e ls'
    assume "map_entries ls = (k, e) # map_entries ls'" "read_one (map_text ls) = READ_ENTRY k e (map_text ls')"
      "set ls' \<subseteq> set ls" "key_ok k \<or> k = ''*''"
    with that Cons.prems(2) [of k e ls'] show thesis by auto
  qed
  show ?case
  proof (cases l)
    case (Line k ws e)
    with ok nb read_line [of k ws e "map_text ls"] show ?thesis by (intro Cons.prems(2) [of k e ls]) auto
  next
    case (Wild ws e)
    with ok nb read_wild [of ws e "map_text ls"] show ?thesis by (intro Cons.prems(2) [of "''*''" e ls]) auto
  next
    case (Comment t)
    with ok nb read_comment [of t "map_text ls"] show ?thesis by (intro skip) auto
  next
    case Empty
    with read_empty [of "map_text ls"] show ?thesis by (intro skip) auto
  qed
qed

lemma next_entry_lines:
  assumes "lines_ok ls"
  obtains "map_entries ls = []" "next_entry (map_text ls) = READ_EOF" "read_one (map_text ls) = READ_EOF"
  | k e ls' where "map_entries ls = (k, e) # map_entries ls'" "next_entry (map_text ls) = READ_ENTRY k e (map_text ls')"
      "read_one (map_text ls) = READ_ENTRY k e (map_text ls')" "lines_ok ls'" "plain k" "cstr_hd k \<noteq> CHR ''+''"
      "key_ok k \<or> k = ''*''"
proof -
  from assms have ok: "\<forall>l \<in> set ls. line_ok l" by (simp add: lines_ok_def)
  show thesis
  proof (rule read_one_lines [OF ok])
    assume "map_entries ls = []" "read_one (map_text ls) = READ_EOF"
    then show thesis by (intro that(1)) (auto simp: next_entry_def)
  next
    fix k e ls'
    assume k: "map_entries ls = (k, e) # map_entries ls'" "read_one (map_text ls) = READ_ENTRY k e (map_text ls')"
      "set ls' \<subseteq> set ls" "key_ok k \<or> k = ''*''"
    then have "length k \<le> KEY_MAX_LEN" "cstr_hd k \<noteq> CHR ''+''"
      by (cases k; auto simp: key_ok_def KEY_MAX_LEN_def)+
    moreover have "lines_ok ls'" "plain k" using assms k(1,3) by (auto simp: lines_ok_def)
    ultimately show thesis using k by (intro that(2) [of k e ls']) (auto simp: next_entry_def)
  qed
qed

lemma single_source_mem [simp]:
  "mem_ample m \<Longrightarrow> single_source ms mc \<Longrightarrow> single_source ms (mc\<lparr>mc_mem := m\<rparr>)"
  by (simp add: single_source_def cache_ok_def entries_def)

lemma mem_self [simp]: "\<exists>m. mc = mc\<lparr>mc_mem := m\<rparr>"
  by (rule exI [of _ "mc_mem mc"]) simp

lemma cache_get_mem [simp]: "cache_get (mc\<lparr>mc_mem := m\<rparr>) k = cache_get mc k"
  by (simp add: cache_get_def)

lemma sanitized_plain:
  assumes "mem_ample (mc_mem mc)" and "plain k"
  obtains m where "sanitized type k mc = (if path_accepted type k then Some (squeeze k) else None, mc\<lparr>mc_mem := m\<rparr>)"
    "mem_ample m"
proof -
  have "mem_ample (snd (sanitize_path k (length k) type (mc_mem mc)))"
    using mem_ample_malloc [OF assms(1)] assms(1)
    by (auto simp: sanitize_path_def case_prod_unfold Let_def split: path_type.splits option.splits)
  with sanitize_path_plain [OF assms, of type] that show thesis
    by (cases "sanitize_path k (length k) type (mc_mem mc)") (auto simp: sanitized_def)
qed

section \<open>Reading a file into the cache\<close>

text \<open>The entries that are stored, under the keys they are stored under.\<close>

definition stored :: "path_type \<Rightarrow> (string \<times> string) list \<Rightarrow> (string \<times> string option) list" where
  "stored type es = map (\<lambda>(k, e). (squeeze k, Some e)) (filter (\<lambda>(k, e). path_accepted type k) es)"

text \<open>What a cache holds after the entries were read with the time \<open>age\<close>.\<close>

definition read_into :: "time \<Rightarrow> (string \<times> string option) list \<Rightarrow> mapent_cache \<Rightarrow> mapent_cache \<Rightarrow> bool" where
  "read_into age kvs mc mc' \<longleftrightarrow>
     (\<forall>k. cache_get mc' k =
        (if \<exists>v0. cache_get mc k = Some (v0, age) then cache_get mc k
         else case map_of kvs k of Some v \<Rightarrow> Some (v, age) | None \<Rightarrow> cache_get mc k))"

lemma read_into_Nil [simp]: "read_into age [] mc mc"
  by (simp add: read_into_def)

lemma read_into_put:
  assumes "\<forall>x. cache_get mc1 x = (if x = k \<and> (\<forall>v0. cache_get mc k \<noteq> Some (v0, age)) then Some (v, age) else cache_get mc x)"
    and "read_into age kvs mc1 mc'"
  shows "read_into age ((k, v) # kvs) mc mc'"
  using assms by (auto simp: read_into_def split: option.splits if_splits)

lemma read_map_entry_plain:
  assumes "single_source (src_id source) mc" and "plain k" and "\<not> src_amd source"
  obtains mc1 where "read_map_entry ap source age k e mc = Some mc1" "single_source (src_id source) mc1"
    "\<forall>mc' kvs. read_into age kvs mc1 mc' \<longrightarrow> read_into age (stored (mp_type ap) [(k, e)] @ kvs) mc mc'"
proof -
  have mem: "mem_ample (mc_mem mc)" using assms(1) by (simp add: single_source_def)
  obtain m where m: "sanitized (mp_type ap) k mc = (if path_accepted (mp_type ap) k then Some (squeeze k) else None, mc\<lparr>mc_mem := m\<rparr>)"
    "mem_ample m" using mem assms(2) by (rule sanitized_plain)
  have ss: "single_source (src_id source) (mc\<lparr>mc_mem := m\<rparr>)" using assms(1) m(2) by simp
  show thesis
  proof (cases "path_accepted (mp_type ap) k")
    case True
    from single_source_put [OF ss, of "squeeze k" "Some e" age] obtain mc1 where
      put: "cache_put (src_id source) (mc\<lparr>mc_mem := m\<rparr>) (squeeze k) (Some e) age = Some mc1" and
      mc1: "single_source (src_id source) mc1" and
      get: "\<forall>x. cache_get mc1 x = (if x = squeeze k \<and> (\<forall>v0. cache_get mc (squeeze k) \<noteq> Some (v0, age))
              then Some (Some e, age) else cache_get mc x)" by auto
    have "read_into age (stored (mp_type ap) [(k, e)] @ kvs) mc mc'" if "read_into age kvs mc1 mc'" for kvs mc'
      using read_into_put [OF get that] True by (simp add: stored_def)
    moreover have "read_map_entry ap source age k e mc = Some mc1"
      using put m(1) True assms(3) by (simp add: read_map_entry_def cache_put_def)
    ultimately show thesis using mc1 that by blast
  next
    case False
    then have "read_map_entry ap source age k e mc = Some (mc\<lparr>mc_mem := m\<rparr>)"
      using m(1) assms(3) by (simp add: read_map_entry_def)
    moreover have "read_into age (stored (mp_type ap) [(k, e)] @ kvs) mc mc'" if "read_into age kvs (mc\<lparr>mc_mem := m\<rparr>) mc'" for kvs mc'
      using that False by (simp add: stored_def read_into_def cong: option.case_cong)
    ultimately show thesis using ss that by blast
  qed
qed

lemma read_map_loop_lines:
  assumes "lines_ok ls" and "single_source (src_id source) mc" and "\<not> src_amd source"
  shows "\<exists>mc'. read_map_loop inc ap source age (map_text ls) mc = Inr mc' \<and> single_source (src_id source) mc'
    \<and> read_into age (stored (mp_type ap) (map_entries ls)) mc mc'"
  using assms
proof (induction "length (map_entries ls)" arbitrary: ls mc)
  case 0
  show ?case
    by (rule next_entry_lines [OF "0.prems"(1)])
      (use 0 in \<open>auto simp: read_map_loop.simps [of inc ap source age "map_text ls"] stored_def simp del: concat_eq_Nil_conv\<close>)
next
  case (Suc n)
  show ?case
  proof (rule next_entry_lines [OF Suc.prems(1)])
    fix k e ls'
    assume es: "map_entries ls = (k, e) # map_entries ls'" and ne: "next_entry (map_text ls) = READ_ENTRY k e (map_text ls')"
      and ok: "lines_ok ls'" "plain k" "cstr_hd k \<noteq> CHR ''+''"
    from read_map_entry_plain [OF Suc.prems(2) ok(2) Suc.prems(3), of ap age e] obtain mc1 where
      mc1: "read_map_entry ap source age k e mc = Some mc1" "single_source (src_id source) mc1"
      "\<forall>mc' kvs. read_into age kvs mc1 mc' \<longrightarrow> read_into age (stored (mp_type ap) [(k, e)] @ kvs) mc mc'" by blast
    have "n = length (map_entries ls')" using Suc.hyps(2) es by simp
    from Suc.hyps(1) [OF this ok(1) mc1(2) Suc.prems(3)] obtain mc' where
      mc': "read_map_loop inc ap source age (map_text ls') mc1 = Inr mc'" "single_source (src_id source) mc'"
      "read_into age (stored (mp_type ap) (map_entries ls')) mc1 mc'" by blast
    have "stored (mp_type ap) (map_entries ls) = stored (mp_type ap) [(k, e)] @ stored (mp_type ap) (map_entries ls')"
      unfolding es by (simp add: stored_def)
    with mc1(3) mc'(3) have "read_into age (stored (mp_type ap) (map_entries ls)) mc mc'" by metis
    moreover have "read_map_loop inc ap source age (map_text ls) mc = Inr mc'"
      using mc1(1) mc'(1) ne ok(3) by (simp add: read_map_loop.simps [of inc ap source age "map_text ls"])
    ultimately show ?case using mc'(2) by blast
  qed (use Suc.hyps(2) in \<open>simp del: concat_eq_Nil_conv\<close>)
qed

text \<open>
  C10: Reading a well-formed file into the cache of its source with a time not used before succeeds,
  marks the source with that time, and leaves in the cache for every key of the map its first
  entry in the file; other keys keep what was cached. Keys that do not suit the kind of the
  mount point (a slash in an indirect map, none in a direct one) are left out, and runs of
  slashes count as one.
\<close>

theorem lookup_read_map_correct:
  assumes "lines_ok ls" and "single_source (src_id source) mc" and "\<not> src_amd source"
    and "\<not> src_recurse source" and "src_depth source \<le> MAX_INCLUDE_DEPTH"
    and "\<And>k v. cache_get mc k \<noteq> Some (v, age)"
  shows "\<exists>mc'. lookup_read_map inc ap source age now (File (map_text ls)) mc =
      Inr (NSS_STATUS_SUCCESS, source\<lparr>src_age := age\<rparr>, Some now, mc')
    \<and> (\<forall>k. cache_get mc' k = (case map_of (stored (mp_type ap) (map_entries ls)) k of
            Some v \<Rightarrow> Some (v, age) | None \<Rightarrow> cache_get mc k))"
proof -
  from read_map_loop_lines [OF assms(1-3), of inc ap age] obtain mc' where
    "read_map_loop inc ap source age (map_text ls) mc = Inr mc'"
    "read_into age (stored (mp_type ap) (map_entries ls)) mc mc'" by blast
  with assms(4-6) show ?thesis by (auto simp: lookup_read_map_def read_into_def)
qed

definition sample_source :: map_source where
  "sample_source = \<lparr>src_id = 0, src_amd = False, src_type = Some ''file'', src_age = 0, src_stale = False,
     src_recurse = False, src_depth = 0, src_instance = False\<rparr>"

definition sample_point :: mount_point where
  "sample_point = \<lparr>mp_indirect = True, mp_remount = False, mp_pref = None, mp_negative_timeout = 60\<rparr>"

definition sample_lines :: "map_line list" where
  "sample_lines = [Comment '' homes'', Line ''al'' '' '' ''srv:/al'', Empty, Wild '' '' ''srv:/&'']"

lemma sample_lines_ok: "lines_ok sample_lines"
  by (simp add: lines_ok_def sample_lines_def plain_def key_ok_def sep_ok_def entry_ok_def isspace_def schar_def char_consts
      KEY_MAX_LEN_def MAPENT_MAX_LEN_def)

lemma sample_entries: "map_entries sample_lines = [(''al'', ''srv:/al''), (''*'', ''srv:/&'')]"
  by (simp add: sample_lines_def)

lemma sample_cache: "single_source 0 (one_chain [])" "cache_get (one_chain []) k = None"
  by (simp_all add: single_source_def one_chain_ok cache_get_def cached_find)

theorem lookup_read_map_correct_witness:
  "\<exists>mc'. lookup_read_map (\<lambda>_ _. None) sample_point sample_source 7 8 (File (map_text sample_lines)) (one_chain []) =
      Inr (NSS_STATUS_SUCCESS, sample_source\<lparr>src_age := 7\<rparr>, Some 8, mc')
    \<and> cache_get mc' ''al'' = Some (Some ''srv:/al'', 7) \<and> cache_get mc' ''bo'' = None"
proof -
  from lookup_read_map_correct [OF sample_lines_ok, of sample_source "one_chain []" 7 "\<lambda>_ _. None" sample_point 8]
  obtain mc' where mc': "lookup_read_map (\<lambda>_ _. None) sample_point sample_source 7 8 (File (map_text sample_lines)) (one_chain []) =
      Inr (NSS_STATUS_SUCCESS, sample_source\<lparr>src_age := 7\<rparr>, Some 8, mc')"
    "\<And>k. cache_get mc' k = (case map_of (stored (mp_type sample_point) (map_entries sample_lines)) k of
            Some v \<Rightarrow> Some (v, 7) | None \<Rightarrow> None)"
    by (auto simp: sample_source_def sample_cache cong: option.case_cong)
  have "stored (mp_type sample_point) (map_entries sample_lines) = [(''al'', Some ''srv:/al''), (''*'', Some ''srv:/&'')]"
    by (simp add: sample_entries stored_def mp_type_def sample_point_def path_accepted_def)
  with mc' show ?thesis by simp
qed

section \<open>Looking up one key in the file\<close>

lemma cache_update_single:
  assumes "single_source ms mc"
  obtains ret mc' where "cache_update mc ms k v t = Some (ret, mc')" "ret \<in> {CHE_OK, CHE_UPDATED}" "single_source ms mc'"
    "\<forall>x. cache_get mc' x = (if x = k \<and> (\<forall>v0. cache_get mc k \<noteq> Some (v0, t)) then Some (v, t) else cache_get mc x)"
proof -
  from single_source_put [OF assms, of k v t] obtain mc' where
    put: "cache_put ms mc k v t = Some mc'" and mc': "single_source ms mc'"
    "\<forall>x. cache_get mc' x = (if x = k \<and> (\<forall>v0. cache_get mc k \<noteq> Some (v0, t)) then Some (v, t) else cache_get mc x)" by blast
  then obtain ret where upd: "cache_update mc ms k v t = Some (ret, mc')" by (auto simp: cache_put_def)
  have mem: "mem_ample (mc_mem mc)" using assms by (simp add: single_source_def)
  obtain m1 where m1: "malloc (mc_mem mc) = (True, m1)" "mem_ample m1" using mem by (rule mem_ampleE)
  obtain m2 where m2: "malloc m1 = (True, m2)" "mem_ample m2" using m1(2) by (rule mem_ampleE)
  obtain m3 where m3: "malloc m2 = (True, m3)" "mem_ample m3" using m2(2) by (rule mem_ampleE)
  have "r = CHE_OK" if "cache_add mc ms k v t = Some (r, x)" for r x
    using that m1(1) m2(1) m3(1) by (auto simp: cache_add_def split: option.splits)
  then have "ret \<in> {CHE_OK, CHE_UPDATED}" using upd m1(1)
    unfolding cache_update_def find_source_lookup [OF assms]
    by (cases "cache_lookup mc (Some k)") (auto split: if_splits)
  with upd mc' that show thesis by blast
qed

text \<open>How a cache changes when \<open>v\<close> is stored for the key \<open>k\<close>, or nothing is.\<close>

definition stored_one :: "time \<Rightarrow> string \<Rightarrow> string option option \<Rightarrow> mapent_cache \<Rightarrow> mapent_cache \<Rightarrow> bool" where
  "stored_one age k v mc mc' \<longleftrightarrow>
     (\<forall>x. cache_get mc' x =
        (if x = k \<and> v \<noteq> None \<and> (\<forall>v0. cache_get mc k \<noteq> Some (v0, age)) then Some (the v, age) else cache_get mc x))"

lemma stored_one_None: "stored_one age k None mc mc' \<longleftrightarrow> (\<forall>x. cache_get mc' x = cache_get mc x)"
  by (simp add: stored_one_def)

lemma lookup_one_entry_plain:
  assumes "single_source (src_id source) mc" and "plain k" and "\<not> src_amd source"
  obtains ret mc' where "lookup_one_entry ap source age key k e mc = Inr (ret, mc')" "single_source (src_id source) mc'"
    "if path_accepted (mp_type ap) k \<and> squeeze k = key
     then ret \<in> {CHE_OK, CHE_UPDATED} \<and> stored_one age key (Some (Some e)) mc mc'
     else ret = CHE_FAIL \<and> (\<exists>m. mc' = mc\<lparr>mc_mem := m\<rparr>)"
proof -
  have mem: "mem_ample (mc_mem mc)" using assms(1) by (simp add: single_source_def)
  obtain m where m: "sanitized (mp_type ap) k mc = (if path_accepted (mp_type ap) k then Some (squeeze k) else None, mc\<lparr>mc_mem := m\<rparr>)"
    "mem_ample m" using mem assms(2) by (rule sanitized_plain)
  have ss: "single_source (src_id source) (mc\<lparr>mc_mem := m\<rparr>)" using assms(1) m(2) by simp
  show thesis
  proof (cases "path_accepted (mp_type ap) k \<and> squeeze k = key")
    case True
    obtain ret mc' where "cache_update (mc\<lparr>mc_mem := m\<rparr>) (src_id source) key (Some e) age = Some (ret, mc')"
      "ret \<in> {CHE_OK, CHE_UPDATED}" "single_source (src_id source) mc'"
      "\<forall>x. cache_get mc' x = (if x = key \<and> (\<forall>v0. cache_get (mc\<lparr>mc_mem := m\<rparr>) key \<noteq> Some (v0, age)) then Some (Some e, age)
         else cache_get (mc\<lparr>mc_mem := m\<rparr>) x)" using ss by (rule cache_update_single)
    with True m(1) assms(3) that show thesis
      by (auto simp: lookup_one_entry_def match_key_def returned_def stored_one_def)
  next
    case False
    then have "lookup_one_entry ap source age key k e mc = Inr (CHE_FAIL, mc\<lparr>mc_mem := m\<rparr>)"
      using m(1) assms(3) by (auto simp: lookup_one_entry_def match_key_def)
    moreover have "\<exists>m'. mc\<lparr>mc_mem := m\<rparr> = mc\<lparr>mc_mem := m'\<rparr>" by blast
    ultimately show thesis using False ss that [of CHE_FAIL "mc\<lparr>mc_mem := m\<rparr>"] by auto
  qed
qed

lemma lookup_one_loop_lines:
  assumes "lines_ok ls" and "single_source (src_id source) mc" and "\<not> src_amd source"
  shows "\<exists>ret mc'. lookup_one_loop inc ap source age key (map_text ls) mc = Inr (ret, mc') \<and> single_source (src_id source) mc'
    \<and> stored_one age key (map_of (stored (mp_type ap) (map_entries ls)) key) mc mc'
    \<and> (if map_of (stored (mp_type ap) (map_entries ls)) key = None
       then ret = CHE_MISSING \<and> (\<exists>m. mc' = mc\<lparr>mc_mem := m\<rparr>) else ret \<in> {CHE_OK, CHE_UPDATED})"
  using assms
proof (induction "length (map_entries ls)" arbitrary: ls mc)
  case 0
  show ?case
    by (rule next_entry_lines [OF "0.prems"(1)])
      (use 0 in \<open>auto simp: lookup_one_loop.simps [of inc ap source age key "map_text ls"] stored_def stored_one_None
         simp del: concat_eq_Nil_conv\<close>)
next
  case (Suc n)
  show ?case
  proof (rule next_entry_lines [OF Suc.prems(1)])
    fix k e ls'
    assume es: "map_entries ls = (k, e) # map_entries ls'" and ne: "next_entry (map_text ls) = READ_ENTRY k e (map_text ls')"
      and ok: "lines_ok ls'" "plain k" "cstr_hd k \<noteq> CHR ''+''"
    let ?hit = "path_accepted (mp_type ap) k \<and> squeeze k = key"
    from lookup_one_entry_plain [OF Suc.prems(2) ok(2) Suc.prems(3), of ap age key e] obtain r mc1 where
      mc1: "lookup_one_entry ap source age key k e mc = Inr (r, mc1)" "single_source (src_id source) mc1"
      "if ?hit then r \<in> {CHE_OK, CHE_UPDATED} \<and> stored_one age key (Some (Some e)) mc mc1
       else r = CHE_FAIL \<and> (\<exists>m. mc1 = mc\<lparr>mc_mem := m\<rparr>)" by blast
    have loop: "lookup_one_loop inc ap source age key (map_text ls) mc =
        (if r = CHE_FAIL then lookup_one_loop inc ap source age key (map_text ls') mc1 else Inr (r, mc1))"
      using ne ok(3) mc1(1) by (simp add: lookup_one_loop.simps [of inc ap source age key "map_text ls"])
    show ?case
    proof (cases ?hit)
      case True
      with mc1 have "r \<in> {CHE_OK, CHE_UPDATED}" "stored_one age key (Some (Some e)) mc mc1" by auto
      moreover have "map_of (stored (mp_type ap) (map_entries ls)) key = Some (Some e)"
        using True unfolding es by (auto simp: stored_def)
      ultimately show ?thesis using mc1(2) loop by auto
    next
      case False
      have "n = length (map_entries ls')" using Suc.hyps(2) es by simp
      from Suc.hyps(1) [OF this ok(1) mc1(2) Suc.prems(3)] obtain ret mc' where IH:
        "lookup_one_loop inc ap source age key (map_text ls') mc1 = Inr (ret, mc')" "single_source (src_id source) mc'"
        "stored_one age key (map_of (stored (mp_type ap) (map_entries ls')) key) mc1 mc'"
        "if map_of (stored (mp_type ap) (map_entries ls')) key = None
         then ret = CHE_MISSING \<and> (\<exists>m. mc' = mc1\<lparr>mc_mem := m\<rparr>) else ret \<in> {CHE_OK, CHE_UPDATED}"
        by blast
      have same: "map_of (stored (mp_type ap) (map_entries ls)) key = map_of (stored (mp_type ap) (map_entries ls')) key"
        using False unfolding es by (auto simp: stored_def)
      from mc1(3) False obtain m where r: "r = CHE_FAIL" "mc1 = mc\<lparr>mc_mem := m\<rparr>" by auto
      have "stored_one age key (map_of (stored (mp_type ap) (map_entries ls)) key) mc mc'"
        using IH(3) r(2) unfolding same by (auto simp: stored_one_def)
      with IH same loop r show ?thesis by auto
    qed
  qed (use Suc.hyps(2) in \<open>simp del: concat_eq_Nil_conv\<close>)
qed

lemma lookup_wild_loop_lines:
  assumes "lines_ok ls" and "single_source (src_id source) mc"
  shows "case map_of (map_entries ls) ''*'' of
      None \<Rightarrow> lookup_wild_loop source age (map_text ls) mc = Inr (CHE_MISSING, mc)
    | Some w \<Rightarrow> lookup_wild_loop source age (map_text ls) mc = returned (cache_update mc (src_id source) ''*'' (Some w) age)"
  using assms(1)
proof (induction "length (map_entries ls)" arbitrary: ls)
  case 0
  show ?case
    by (rule next_entry_lines [OF "0.prems"])
      (use 0 in \<open>auto simp: lookup_wild_loop.simps [of source age "map_text ls"] simp del: concat_eq_Nil_conv\<close>)
next
  case (Suc n)
  show ?case
  proof (rule next_entry_lines [OF Suc.prems])
    fix k e ls'
    assume es: "map_entries ls = (k, e) # map_entries ls'" and ne: "read_one (map_text ls) = READ_ENTRY k e (map_text ls')"
      and ok: "lines_ok ls'"
    have star: "cstr_hd k = CHR ''*'' \<and> length k = 1 \<longleftrightarrow> k = ''*''" by (cases k) (auto simp: NUL_def)
    have "n = length (map_entries ls')" using Suc.hyps(2) es by simp
    note IH = Suc.hyps(1) [OF this ok]
    have "lookup_wild_loop source age (map_text ls) mc =
        (if k = ''*'' then returned (cache_update mc (src_id source) ''*'' (Some e) age)
         else lookup_wild_loop source age (map_text ls') mc)"
      by (subst lookup_wild_loop.simps) (simp only: ne read_result.case star)
    with IH show ?case unfolding es by (cases "k = ''*''") (auto split: option.splits)
  qed (use Suc.hyps(2) in \<open>simp del: concat_eq_Nil_conv\<close>)
qed

section \<open>Bringing one key of the cache up to date\<close>

lemma forget_mapent_single:
  fixes key :: string
  assumes "single_source (src_id source) mc"
  defines "mc' \<equiv> forget_mapent source CHE_MISSING (cache_lookup_distinct mc (Some key)) mc"
  shows "single_source (src_id source) mc'"
    and "cache_get mc' x = (if x = key then map_option (\<lambda>(v, a). (None, a)) (cache_get mc x) else cache_get mc x)"
    and "(\<exists>e \<in> set (bucket mc' k). me_key e = k \<and> IS_MM e) \<longleftrightarrow> (\<exists>e \<in> set (bucket mc k). me_key e = k \<and> IS_MM e)"
proof -
  have ok: "cache_ok mc" using assms(1) by (simp add: single_source_def)
  let ?f = "\<lambda>x. x\<lparr>me_mapent := None, me_status := 0\<rparr>"
  have "single_source (src_id source) mc'
      \<and> cache_get mc' x = (if x = key then map_option (\<lambda>(v, a). (None, a)) (cache_get mc x) else cache_get mc x)
      \<and> ((\<exists>e \<in> set (bucket mc' k). me_key e = k \<and> IS_MM e) \<longleftrightarrow> (\<exists>e \<in> set (bucket mc k). me_key e = k \<and> IS_MM e))"
  proof (cases "cached mc key")
    case None
    then have "mc' = mc" by (simp add: mc'_def cached_lookup forget_mapent_def)
    then show ?thesis using assms(1) None by (simp add: cache_get_def)
  next
    case (Some e)
    then obtain r where r: "cache_lookup_distinct mc (Some key) = e # r" by (auto simp: cached_lookup)
    have src: "me_source e = src_id source" using single_source_bucket [OF assms(1)] cached_Some(2) [OF Some] by blast
    show ?thesis
    proof (cases "me_mapent e = None")
      case True
      with r have "mc' = mc" by (simp add: mc'_def forget_mapent_def)
      then show ?thesis using assms(1) Some True by (auto simp: cache_get_def)
    next
      case False
      with r src have mc': "mc' = upd_entry (me_id e) ?f mc" by (simp add: mc'_def forget_mapent_def)
      have ok': "cache_ok mc'" unfolding mc' using ok by (intro upd_entry_ok) (auto simp: same_identity_def)
      have id: "x = key" if "cached mc x = Some y" "me_id y = me_id e" for y
        using entry_unique [OF ok _ _ that(2)] cached_Some [OF that(1)] cached_Some [OF Some] ok by simp
      have "cached mc' x = map_option (\<lambda>y. if me_id y = me_id e then ?f y else y) (cached mc x)"
        unfolding mc' by (rule cached_upd_entry [OF ok]) simp
      with id Some have "cache_get mc' x = (if x = key then map_option (\<lambda>(v, a). (None, a)) (cache_get mc x) else cache_get mc x)"
        by (cases "cached mc x") (auto simp: cache_get_def)
      moreover have "single_source (src_id source) mc'"
        using ok' assms(1) unfolding mc' by (auto simp: single_source_def frame_simps upd_chain_def)
      moreover have "(\<exists>e \<in> set (bucket mc' k). me_key e = k \<and> IS_MM e) \<longleftrightarrow> (\<exists>e \<in> set (bucket mc k). me_key e = k \<and> IS_MM e)"
        unfolding mc' bucket_upd_entry [OF ok] upd_chain_def set_map bex_simps by (auto simp: IS_MM_def)
      ultimately show ?thesis by blast
    qed
  qed
  then show "single_source (src_id source) mc'"
    and "cache_get mc' x = (if x = key then map_option (\<lambda>(v, a). (None, a)) (cache_get mc x) else cache_get mc x)"
    and "(\<exists>e \<in> set (bucket mc' k). me_key e = k \<and> IS_MM e) \<longleftrightarrow> (\<exists>e \<in> set (bucket mc k). me_key e = k \<and> IS_MM e)"
    by blast+
qed

lemma cache_delete_single:
  assumes "single_source ms mc" and "\<not> (\<exists>e \<in> set (bucket mc key). me_key e = key \<and> IS_MM e)"
  shows "single_source ms (snd (cache_delete mc key))"
    and "cache_get (snd (cache_delete mc key)) x = (if x = key then None else cache_get mc x)"
proof -
  have ok: "cache_ok mc" using assms(1) by (simp add: single_source_def)
  obtain ret mc' where del: "cache_delete mc key = (ret, mc')" by (cases "cache_delete mc key")
  from cache_delete_cached [OF ok del] assms(2)
  show "cache_get (snd (cache_delete mc key)) x = (if x = key then None else cache_get mc x)"
    using del by (auto simp: cache_get_def)
  obtain b r d where dc: "delete_chain key (mc_hash mc ! unat (hash key (mc_size mc))) = (b, r, d)"
    by (cases "delete_chain key (mc_hash mc ! unat (hash key (mc_size mc)))")
  then have mc': "mc' = mc\<lparr>mc_hash := (mc_hash mc)[unat (hash key (mc_size mc)) := r], mc_ino_index := fold ino_del d (mc_ino_index mc)\<rparr>"
    using del by (auto simp: cache_delete_def Let_def)
  have "set r \<subseteq> set (mc_hash mc ! unat (hash key (mc_size mc)))"
    using delete_chain_removes [of key "mc_hash mc ! unat (hash key (mc_size mc))"] dc
    by (auto simp: removes_def simp flip: set_mset_mset)
  moreover have "cache_ok mc'" using cache_delete_ok [OF ok, of key] del by simp
  moreover have "mc_hash mc ! unat (hash key (mc_size mc)) \<in> set (mc_hash mc)"
    using cache_ok_hash_index [OF ok, of key] by simp
  ultimately show "single_source ms (snd (cache_delete mc key))"
    using assms(1) del by (fastforce simp: single_source_def mc' dest!: set_update_subset_insert [THEN subsetD])
qed

text \<open>What a file has for a key (under the keys that are stored) and for the wildcard.\<close>

definition file_hit :: "mount_point \<Rightarrow> map_line list \<Rightarrow> string \<Rightarrow> string option option" where
  "file_hit ap ls key = map_of (stored (mp_type ap) (map_entries ls)) key"

definition file_wild :: "map_line list \<Rightarrow> string option" where
  "file_wild ls = map_of (map_entries ls) ''*''"

text \<open>
  What the cache holds after the key was looked up in the file: the file's entry of the key;
  or, for a key that the file does not have, no map entry for the key (an old one is forgotten)
  and for the wildcard what the file has (an old one is deleted if the file has none).
\<close>

definition refreshed :: "time \<Rightarrow> string \<Rightarrow> string option option \<Rightarrow> string option \<Rightarrow> mapent_cache \<Rightarrow> string \<Rightarrow> (string option \<times> time) option" where
  "refreshed now key hit wild mc x =
     (case hit of
        Some v \<Rightarrow> if x = key then Some (v, now) else cache_get mc x
      | None \<Rightarrow>
          if x = key then map_option (\<lambda>(v, a). (None, a)) (cache_get mc x)
          else if x = ''*'' then map_option (\<lambda>w. (Some w, now)) wild
          else cache_get mc x)"

lemma forget_wild_single:
  assumes "single_source (src_id source) mc" and "\<not> (\<exists>e \<in> set (bucket mc ''*''). me_key e = ''*'' \<and> IS_MM e)"
  shows "single_source (src_id source) (forget_wild source CHE_MISSING mc)"
    and "cache_get (forget_wild source CHE_MISSING mc) x = (if x = ''*'' then None else cache_get mc x)"
proof -
  have "forget_wild source CHE_MISSING mc = (if cached mc ''*'' = None then mc else snd (cache_delete mc ''*''))"
  proof (cases "cached mc ''*''")
    case None
    then show ?thesis by (simp add: forget_wild_def cached_lookup)
  next
    case (Some we)
    then have "me_source we = src_id source" using single_source_bucket [OF assms(1)] cached_Some(2) [OF Some] by blast
    moreover obtain r where "cache_lookup_distinct mc (Some ''*'') = we # r" using Some by (auto simp: cached_lookup(2))
    ultimately show ?thesis using Some by (simp add: forget_wild_def)
  qed
  moreover have "cached mc ''*'' = None \<Longrightarrow> cache_get mc ''*'' = None" by (simp add: cache_get_def)
  ultimately show "single_source (src_id source) (forget_wild source CHE_MISSING mc)"
    and "cache_get (forget_wild source CHE_MISSING mc) x = (if x = ''*'' then None else cache_get mc x)"
    using cache_delete_single [OF assms] assms(1) by auto
qed

lemma forget_wild_other: "wild \<noteq> CHE_MISSING \<Longrightarrow> forget_wild source wild mc = mc"
  by (auto simp: forget_wild_def split: list.splits)



section \<open>Mount requests\<close>

text \<open>No failed mount is remembered for the key, and it is no offset of a multi-mount.\<close>

definition mountable :: "time \<Rightarrow> string \<Rightarrow> mapent_cache \<Rightarrow> bool" where
  "mountable now key mc \<longleftrightarrow>
     (case cached mc key of
        None \<Rightarrow> True
      | Some e \<Rightarrow> me_status e < now \<and> me_mapent e \<noteq> None \<and> me_mm_root e = None)"

lemma check_negative_mountable: "mountable now key mc \<Longrightarrow> check_negative now key [mc] = (False, [mc])"
  by (auto simp: check_negative_def mountable_def cached_def found_def cache_lookup_negative_def split: list.splits)

lemma root_key_mountable: "mountable now key mc \<Longrightarrow> mp_pref ap = None \<Longrightarrow> root_key ap key mc = Some key"
  by (auto simp: root_key_def mountable_def cached_def found_def prefixed_def split: list.splits)

lemma mountable_mem [simp]: "mountable now key (mc\<lparr>mc_mem := m\<rparr>) = mountable now key mc"
  by (simp add: mountable_def)

lemma find_mapent_cached:
  assumes "single_source (src_id source) mc" and "cache_get mc key = Some (Some v, t)" and "\<not> src_amd source"
    and "cstr_hd key \<noteq> CHR ''*''" and "mp_pref ap = None"
  obtains m where "find_mapent ap source now key mc = Inr (Inr v, mc\<lparr>mc_mem := m\<rparr>)" "mem_ample m"
proof -
  from assms(2) obtain e where e: "cached mc key = Some e" "me_mapent e = Some v" by (auto simp: cache_get_def)
  have "mem_ample (mc_mem mc)" using assms(1) by (simp add: single_source_def)
  then obtain m where m: "malloc (mc_mem mc) = (True, m)" "mem_ample m" by (rule mem_ampleE)
  have src: "me_source e = src_id source" using single_source_bucket [OF assms(1)] cached_Some(2) [OF e(1)] by blast
  have "cached (mc\<lparr>mc_mem := m\<rparr>) key = Some e" using e(1) by simp
  from cache_lookup_cached [OF this] obtain r where r: "cache_lookup (mc\<lparr>mc_mem := m\<rparr>) (Some key) = e # r" by blast
  have "find_mapent ap source now key mc = Inr (Inr v, mc\<lparr>mc_mem := m\<rparr>)"
    using m r src e(2) cached_Some(1) [OF e(1)] assms(3-5)
    by (simp add: find_mapent_def prefixed_def match_cached_key_def stale_or_foreign_def)
  with m(2) that show thesis by blast
qed



lemma before_slash_split: "CHR ''/'' \<notin> set rest \<Longrightarrow> before_slash (dir @ CHR ''/'' # rest) = Some dir"
proof -
  assume "CHR ''/'' \<notin> set rest"
  then have "dropWhile (\<lambda>c. c \<noteq> CHR ''/'') (rev rest @ CHR ''/'' # rev dir) = CHR ''/'' # rev dir"
    by (subst dropWhile_append2) auto
  then show ?thesis by (simp add: before_slash_def)
qed

text \<open>
  In an amd map, a key of the map that is the directory of the requested key is compared
  with a pattern ending in a wildcard one character too far: the character behind its
  terminator is read.
\<close>

theorem match_key_overreads:
  assumes "src_amd source" and "mem_ample (mc_mem mc)" and "CHR ''/'' \<notin> set rest"
  shows "match_key source age dir (dir @ CHR ''/'' # rest) mapent mc = Inl KEY_OVERREAD"
proof -
  obtain m where "malloc (mc_mem mc) = (True, m)" using assms(2) by (rule mem_ampleE)
  moreover have "wild_prefix dir (dir @ CHR ''/'' # rest) = Inl KEY_OVERREAD"
    by (simp add: wild_prefix.simps [of dir "dir @ CHR ''/'' # rest"] before_slash_split [OF assms(3)] strncmp_eq_def cstr_at_def)
  ultimately show ?thesis using assms(1) by (simp add: match_key_def Let_def)
qed

theorem match_key_overreads_witness:
  "match_key (sample_source\<lparr>src_amd := True\<rparr>) 7 ''a'' ''a/b'' ''type:=nfs'' (one_chain []) = Inl KEY_OVERREAD"
  using match_key_overreads [of "sample_source\<lparr>src_amd := True\<rparr>" "one_chain []" "''b''" 7 "''a''" "''type:=nfs''"]
  by simp

end
