(* ===== verification/Parse_Sun.thy ===== *)
theory Parse_Sun
  imports Map_File Cache_Props Quoting
begin

text \<open>
  The parser for Sun map entries, \<^verbatim>\<open>modules/parse_sun.c\<close>: substitution of the key and of macros,
  the options of a map, options and locations of an entry, the offsets of a multi-mount and the
  call of a mount module. A pointer into a string is the rest of the string from there on.
  Calls of mount modules are values that hold the arguments.
\<close>

datatype sun_fault = SUN_OVERREAD | SUN_OVERRUN | SUN_NULL | SUN_HANG | SUN_NO_RETURN | SUN_FREED

section \<open>Substitution in map entries\<close>

text \<open>The key with its white space escaped, and the length that the code counts for it.\<close>

definition escape_key :: "string \<Rightarrow> string" where
  "escape_key key = concat (map (\<lambda>c. if isspace c then [BSLASH, c] else [c]) key)"

definition escaped_len :: "string \<Rightarrow> nat" where
  "escaped_len key = length key + length (filter isspace key)"

definition emit :: "nat \<Rightarrow> string \<Rightarrow> nat \<times> string \<Rightarrow> nat \<times> string" where
  "emit l out r = (l + fst r, out @ snd r)"

definition emit_var :: "substvar option \<Rightarrow> nat \<times> string \<Rightarrow> nat \<times> string" where
  "emit_var sv r = (case sv of None \<Rightarrow> r | Some v \<Rightarrow> emit (length (sv_val v)) (sv_val v) r)"

abbreviation name_char :: "char \<Rightarrow> bool" where
  "name_char c \<equiv> isalnum c \<or> c = CHR ''_''"

text \<open>
  The loop of \<open>expandsunent\<close>: the length it counts and the text it writes to \<open>dst\<close>. \<open>sys\<close> is the
  global table of macros, \<open>svc\<close> the one of the map.
\<close>

function expandsun_loop ::
  "subst_table \<Rightarrow> subst_table \<Rightarrow> string \<Rightarrow> bool \<Rightarrow> bool \<Rightarrow> string \<Rightarrow> nat \<times> string" where
  "expandsun_loop sys svc key slashify seen_colons [] = (0, [])"
| "expandsun_loop sys svc key slashify seen_colons (ch # src) =
     (if ch = CHR ''&'' then
        emit (escaped_len key) (escape_key key) (expandsun_loop sys svc key slashify seen_colons src)
      else if ch = CHR ''$'' then
        if cstr_hd src = CHR ''{'' then
          (case strchr (tl src) (CHR ''}'') of
             None \<Rightarrow> (0, [])
           | Some p \<Rightarrow>
               emit_var (macro_findvar sys svc (tl src) (length (tl src) - length p))
                 (expandsun_loop sys svc key slashify seen_colons (tl p)))
        else if isblank (cstr_hd src) \<or> src = [] then
          emit 1 [ch] (expandsun_loop sys svc key slashify seen_colons src)
        else
          emit_var (macro_findvar sys svc src (length (takeWhile name_char src)))
            (expandsun_loop sys svc key slashify seen_colons (dropWhile name_char src))
      else if ch = BSLASH then
        (case src of
           [] \<Rightarrow> emit 1 [ch] (0, [])
         | c # src' \<Rightarrow> emit 2 [ch, c] (expandsun_loop sys svc key slashify seen_colons src'))
      else if ch = DQUOTE then
        (let quoted = takeWhile (\<lambda>c. c \<noteq> DQUOTE) src; rest = dropWhile (\<lambda>c. c \<noteq> DQUOTE) src
         in emit (1 + length quoted + (if rest = [] then 0 else 1)) (ch # quoted @ take 1 rest)
              (expandsun_loop sys svc key slashify seen_colons (drop 1 rest)))
      else if ch = CHR '':'' then
        emit 1 [if seen_colons \<and> slashify then CHR ''/'' else CHR '':'']
          (expandsun_loop sys svc key slashify (seen_colons \<or> cstr_hd src = CHR ''/'') src)
      else emit 1 [ch] (expandsun_loop sys svc key slashify (seen_colons \<and> \<not> isspace ch) src))"
  by pat_completeness auto
termination
proof (relation "measure (\<lambda>(sys, svc, key, sl, sc, src). length src)", goal_cases)
  case (3 sys svc key sl sc ch src p)
  then show ?case using strchr_length [of "tl src" "CHR ''}''" p] by (cases src; cases p) auto
next
  case (5 sys svc key sl sc ch src)
  then show ?case using length_dropWhile_le [of name_char src] by simp
next
  case (7 sys svc key sl sc ch src quoted rest)
  then show ?case using length_dropWhile_le [of "\<lambda>c. c \<noteq> DQUOTE" src] by (auto intro: le_trans)
qed auto

definition expandsunent :: "subst_table \<Rightarrow> subst_table \<Rightarrow> string \<Rightarrow> bool \<Rightarrow> string \<Rightarrow> nat \<times> string" where
  "expandsunent sys svc key slashify src = expandsun_loop sys svc key slashify False src"

text \<open>\<open>Inl\<close>: the second pass writes more than the first one counted; \<open>Inr None\<close>: \<open>NULL\<close>.\<close>

definition do_expandsunent ::
  "subst_table \<Rightarrow> subst_table \<Rightarrow> string \<Rightarrow> bool \<Rightarrow> string \<Rightarrow> mem \<Rightarrow> (sun_fault + string option) \<times> mem" where
  "do_expandsunent sys svc key slashify src m =
     (let len = fst (expandsunent sys svc key slashify src)
      in if len = 0 then (Inr None, m)
         else (case malloc m of
                 (False, m1) \<Rightarrow> (Inr None, m1)
               | (True, m1) \<Rightarrow>
                   (let text = snd (expandsunent sys svc key slashify src)
                    in (if length text + 1 > len + 1 then Inl SUN_OVERRUN else Inr (Some text), m1))))"

section \<open>Options\<close>

text \<open>
  \<open>dequote\<close> at a pointer into a longer string, \<open>front\<close> being what stands in front of it: the loop
  that strips white space from the end may go on there, and stops at a character that is none.
\<close>

definition dequote_from :: "string \<Rightarrow> string \<Rightarrow> nat \<Rightarrow> mem \<Rightarrow> (sun_fault + string option) \<times> mem" where
  "dequote_from front str origlen m =
     (case malloc m of
        (False, m1) \<Rightarrow> (Inr None, m1)
      | (True, m1) \<Rightarrow>
          (case dequote_strip str origlen of
             None \<Rightarrow> (if list_ex (\<lambda>c. \<not> isspace c) front then Inr (Some []) else Inl SUN_OVERREAD, m1)
           | Some len \<Rightarrow>
               (case dequote_loop (take len str) False False of
                  (out, dquote) \<Rightarrow> (Inr (if dquote then None else Some out), m1))))"

text \<open>\<open>parse_options\<close>: what follows the options, and the options (\<open>None\<close> when \<open>dequote\<close> fails).\<close>

definition parse_options ::
  "string \<Rightarrow> string \<Rightarrow> string option \<Rightarrow> mem \<Rightarrow> (sun_fault + string \<times> string option) \<times> mem" where
  "parse_options front str ret m =
     (if cstr_hd str \<noteq> CHR ''-'' then (Inr (str, ret), m)
      else
        (let cp = tl str
         in case chunklen cp False of
              None \<Rightarrow> (Inl SUN_OVERREAD, m)
            | Some len \<Rightarrow>
                (case dequote_from (front @ ''-'') cp len m of
                   (Inl e, m1) \<Rightarrow> (Inl e, m1)
                 | (Inr opt, m1) \<Rightarrow> (Inr (drop len cp, opt), m1))))"

text \<open>\<open>concat_options\<close>: the result and whether \<open>errno\<close> is set.\<close>

definition empty_opt :: "string option \<Rightarrow> bool" where
  "empty_opt x \<longleftrightarrow> x = None \<or> x = Some []"

definition concat_options :: "string option \<Rightarrow> string option \<Rightarrow> mem \<Rightarrow> (string option \<times> bool) \<times> mem" where
  "concat_options left right m =
     (if empty_opt left \<and> empty_opt right then ((None, False), m)
      else
        (case malloc m of
           (False, m1) \<Rightarrow> ((None, True), m1)
         | (True, m1) \<Rightarrow>
             ((Some (if empty_opt left then the right else if empty_opt right then the left
                     else the left @ '','' @ the right), False), m1)))"

section \<open>The context of a map\<close>

record parse_context =
  pc_optstr :: "string option"
  pc_macros :: "string option"
  pc_subst :: subst_table
  pc_slashify_colons :: bool

definition default_context :: parse_context where
  "default_context = \<lparr>pc_optstr = None, pc_macros = None, pc_subst = [], pc_slashify_colons = True\<rparr>"

text \<open>A macro definition \<open>name=value\<close>; the macros are also kept as options for submounts.\<close>

definition add_define :: "string \<Rightarrow> parse_context \<Rightarrow> mem \<Rightarrow> parse_context \<times> mem" where
  "add_define arg ctxt m =
     (case malloc m of
        (False, m1) \<Rightarrow> (ctxt, m1)
      | (True, m1) \<Rightarrow>
          (let def = takeWhile (\<lambda>c. c \<noteq> CHR ''='') arg;
               val = (case strchr arg (CHR ''='') of None \<Rightarrow> [] | Some v \<Rightarrow> tl v)
           in case macro_addvar (pc_subst ctxt) def (length def) (Some val) m1 of
                (table, m2) \<Rightarrow>
                  (case malloc m2 of
                     (False, m3) \<Rightarrow> (ctxt\<lparr>pc_subst := table\<rparr>, m3)
                   | (True, m3) \<Rightarrow>
                       (ctxt\<lparr>pc_subst := table,
                             pc_macros := Some ((case pc_macros ctxt of None \<Rightarrow> [] | Some ms \<Rightarrow> ms @ '','') @
                                                ''-D'' @ def @ ''='' @ val)\<rparr>, m3))))"

text \<open>An option that is no definition is appended to the option string; \<open>None\<close> after a failed allocation.\<close>

definition add_option :: "string \<Rightarrow> parse_context \<Rightarrow> mem \<Rightarrow> parse_context option \<times> mem" where
  "add_option arg ctxt m =
     (let opt = (if cstr_hd arg = CHR ''-'' then tl arg else arg)
      in case malloc m of
           (False, m1) \<Rightarrow> (None, m1)
         | (True, m1) \<Rightarrow>
             (Some (ctxt\<lparr>pc_optstr := Some (case pc_optstr ctxt of None \<Rightarrow> opt | Some s \<Rightarrow> s @ '','' @ opt)\<rparr>), m1))"

text \<open>The option \<open>--[no-]slashify-colons\<close>, which may be abbreviated; other long options are reported only.\<close>

definition long_option :: "string \<Rightarrow> parse_context \<Rightarrow> parse_context" where
  "long_option arg ctxt =
     (let no = strncmp_eq (drop 2 arg) ''no-'' 3; xopt = (if no then drop 5 arg else drop 2 arg)
      in if strmcmp xopt ''slashify-colons'' 1 = 0 then ctxt\<lparr>pc_slashify_colons := \<not> no\<rparr> else ctxt)"

fun init_args :: "string list \<Rightarrow> parse_context \<Rightarrow> mem \<Rightarrow> parse_context option \<times> mem" where
  "init_args [] ctxt m = (Some ctxt, m)"
| "init_args (arg # args) ctxt m =
     (if strncmp_eq arg ''-D'' 2 then
        if length arg > 2 then (case add_define (drop 2 arg) ctxt m of (c, m1) \<Rightarrow> init_args args c m1)
        else (case args of
                [] \<Rightarrow> (Some ctxt, m)
              | def # args' \<Rightarrow> (case add_define def ctxt m of (c, m1) \<Rightarrow> init_args args' c m1))
      else if strncmp_eq arg ''--'' 2 then init_args args (long_option arg ctxt) m
      else
        (case add_option arg ctxt m of
           (None, m1) \<Rightarrow> (None, m1)
         | (Some c, m1) \<Rightarrow> init_args args c m1))"

text \<open>The global options of the configuration, in front of the map's own or in place of missing ones.\<close>

definition init_global :: "string option \<Rightarrow> bool \<Rightarrow> parse_context \<Rightarrow> mem \<Rightarrow> parse_context \<times> mem" where
  "init_global global_options append_options ctxt m =
     (case global_options of
        None \<Rightarrow> (ctxt, m)
      | Some gbl \<Rightarrow>
          if (case pc_optstr ctxt of None \<Rightarrow> False | Some s \<Rightarrow> strstr s gbl \<noteq> None) then (ctxt, m)
          else
            (case malloc m of
               (False, m1) \<Rightarrow> (ctxt, m1)
             | (True, m1) \<Rightarrow>
                 if append_options then
                   (case concat_options (Some gbl) (pc_optstr ctxt) m1 of ((tmp, _), m2) \<Rightarrow> (ctxt\<lparr>pc_optstr := tmp\<rparr>, m2))
                 else (ctxt\<lparr>pc_optstr := (if pc_optstr ctxt = None then Some gbl else pc_optstr ctxt)\<rparr>, m1)))"

text \<open>\<open>do_init\<close> as \<open>parse_init\<close> calls it, on the default context; \<open>None\<close> for the result 1.\<close>

definition do_init :: "string option \<Rightarrow> bool \<Rightarrow> string list \<Rightarrow> mem \<Rightarrow> parse_context option \<times> mem" where
  "do_init global_options append_options argv m =
     (case init_args argv default_context m of
        (None, m1) \<Rightarrow> (None, m1)
      | (Some ctxt, m1) \<Rightarrow> (case init_global global_options append_options ctxt m1 of (c, m2) \<Rightarrow> (Some c, m2)))"

section \<open>Locations\<close>

definition host_char :: "char \<Rightarrow> bool" where
  "host_char c \<longleftrightarrow> isalnum c \<or> c \<in> set ''-._,()#@:[]%''"

text \<open>The loop over the host names: what follows them, \<open>None\<close> for an invalid location.\<close>

fun host_part :: "string \<Rightarrow> string option" where
  "host_part [] = Some []"
| "host_part (c # cs) =
     (if strncmp_eq (c # cs) '':/'' 2 then Some (c # cs)
      else if \<not> host_char c then None
      else if c = CHR '','' \<and> (cstr_hd cs = CHR '','' \<or> cstr_hd cs = CHR '':'') then None
      else host_part cs)"

definition map_prefixes :: "string list" where
  "map_prefixes = [''file:'', ''yp:'', ''nis:'', ''nisplus:'', ''ldap:'', ''ldaps:'', ''sss:'', ''dir:'']"

definition validate_location :: "string \<Rightarrow> bool" where
  "validate_location loc =
     (if cstr_hd loc = CHR '':'' then True
      else if cstr_hd loc = CHR '','' then False
      else if \<not> check_colon loc then
        CHR '':'' \<notin> set loc
        \<or> (case strchr loc BSLASH of None \<Rightarrow> False | Some esc \<Rightarrow> cstr_hd (tl esc) = CHR '':'')
        \<or> list_ex (\<lambda>p. strncmp_eq loc p (length p)) map_prefixes
      else
        (case host_part loc of
           None \<Rightarrow> False
         | Some ptr \<Rightarrow> (if strncmp_eq ptr '':/'' 2 then tl ptr else ptr) \<noteq> []))"

section \<open>Map entries\<close>

lemma skipspace_length: "length (skipspace s) \<le> length s"
  by (induction s) auto

lemma skipspace_less: "length q < length p \<Longrightarrow> length (skipspace q) < length p"
  using skipspace_length [of q] by simp

definition before_of :: "string \<Rightarrow> string \<Rightarrow> string" where
  "before_of ent p = take (length ent - length p) ent"

text \<open>
  The loop of \<open>parse_mapent\<close> over local options: the options gathered and the pointer behind
  them, or \<open>None\<close> for the return value 0. Options that contain the ones gathered so far replace
  them, others are appended.
\<close>

definition add_local_options :: "string \<Rightarrow> string \<Rightarrow> mem \<Rightarrow> (sun_fault + string option) \<times> mem" where
  "add_local_options myoptions newopt m =
     (if strstr newopt myoptions \<noteq> None then (Inr (Some newopt), m)
      else
        (case concat_options (Some myoptions) (Some newopt) m of
           ((Some tmp, _), m1) \<Rightarrow> (Inr (Some tmp), m1)
         | ((None, True), m1) \<Rightarrow> (Inr None, m1)
         | ((None, False), m1) \<Rightarrow> (Inl SUN_NULL, m1)))"

function local_options :: "string \<Rightarrow> string \<Rightarrow> string \<Rightarrow> mem \<Rightarrow> (sun_fault + (string \<times> string) option) \<times> mem" where
  "local_options ent p myoptions m =
     (if cstr_hd p \<noteq> CHR ''-'' then (Inr (Some (myoptions, p)), m)
      else
        (case parse_options (before_of ent p) p None m of
           (Inl e, m1) \<Rightarrow> (Inl e, m1)
         | (Inr (q, newopt), m1) \<Rightarrow>
             if \<not> length q < length p then (Inl SUN_HANG, m1)
             else
               (case newopt of
                  None \<Rightarrow> local_options ent (skipspace q) myoptions m1
                | Some opt \<Rightarrow>
                    (case add_local_options myoptions opt m1 of
                       (Inl e, m2) \<Rightarrow> (Inl e, m2)
                     | (Inr None, m2) \<Rightarrow> (Inr None, m2)
                     | (Inr (Some opts), m2) \<Rightarrow> local_options ent (skipspace q) opts m2))))"
  by pat_completeness auto
termination
  by (relation "measure (\<lambda>(ent, p, opts, m). length p)") (auto intro: skipspace_less)

text \<open>The test that makes a missing location an error.\<close>

definition hosts_submount :: "string \<Rightarrow> bool" where
  "hosts_submount myoptions \<longleftrightarrow> strstr myoptions ''fstype=autofs'' \<noteq> None \<and> strstr myoptions ''hosts'' \<noteq> None"

text \<open>The loop over further locations, up to the path of the next offset.\<close>

definition more_locations :: "string \<Rightarrow> bool" where
  "more_locations p \<longleftrightarrow>
     p \<noteq> [] \<and> (if cstr_hd p = DQUOTE then cstr_hd (tl p) \<noteq> CHR ''/'' else cstr_hd p \<noteq> CHR ''/'')"

function locations :: "string \<Rightarrow> string \<Rightarrow> string \<Rightarrow> string \<Rightarrow> mem \<Rightarrow> (sun_fault + (string \<times> string) option) \<times> mem" where
  "locations ent myoptions p loc m =
     (if \<not> more_locations p then (Inr (Some (loc, p)), m)
      else
        (case chunklen p (check_colon p) of
           None \<Rightarrow> (Inl SUN_OVERREAD, m)
         | Some l \<Rightarrow>
             if l = 0 then (Inl SUN_HANG, m)
             else
               (case dequote_from (before_of ent p) p l m of
                  (Inl e, m1) \<Rightarrow> (Inl e, m1)
                | (Inr None, m1) \<Rightarrow>
                    if hosts_submount myoptions then (Inr None, m1)
                    else locations ent myoptions (skipspace (drop l p)) loc m1
                | (Inr (Some ent_chunk), m1) \<Rightarrow>
                    if \<not> validate_location ent_chunk then (Inr None, m1)
                    else
                      (case malloc m1 of
                         (False, m2) \<Rightarrow> (Inr None, m2)
                       | (True, m2) \<Rightarrow> locations ent myoptions (skipspace (drop l p)) (loc @ '' '' @ ent_chunk) m2))))"
  by pat_completeness auto
termination
proof -
  have less: "length (skipspace (drop l p)) < length p" if "more_locations p" "l \<noteq> 0" for l p
    using that skipspace_length [of "drop l p"] by (cases p) (auto simp: more_locations_def)
  show ?thesis by (relation "measure (\<lambda>(ent, opts, p, loc, m). length p)") (use less in auto)
qed

text \<open>
  \<open>parse_mapent\<close>: \<open>Inr None\<close> for the return value 0, otherwise what follows the part of the entry
  that was parsed, the options and the location. \<open>ent\<close> is the end of \<open>buf\<close>.
\<close>

definition parse_mapent_from ::
  "string \<Rightarrow> string \<Rightarrow> string \<Rightarrow> mem \<Rightarrow> (sun_fault + (string \<times> string \<times> string option) option) \<times> mem" where
  "parse_mapent_from buf ent g_options m =
     (case malloc m of
        (False, m1) \<Rightarrow> (Inr None, m1)
      | (True, m1) \<Rightarrow>
          (case local_options buf ent g_options m1 of
             (Inl e, m2) \<Rightarrow> (Inl e, m2)
           | (Inr None, m2) \<Rightarrow> (Inr None, m2)
           | (Inr (Some (myoptions, p)), m2) \<Rightarrow>
               (case chunklen p (check_colon p) of
                  None \<Rightarrow> (Inl SUN_OVERREAD, m2)
                | Some l \<Rightarrow>
                    (case dequote_from (before_of buf p) p l m2 of
                       (Inl e, m3) \<Rightarrow> (Inl e, m3)
                     | (Inr None, m3) \<Rightarrow>
                         (Inr (if hosts_submount myoptions then None else Some (p, myoptions, None)), m3)
                     | (Inr (Some loc), m3) \<Rightarrow>
                         if cstr_hd p = CHR ''/'' \<or> \<not> validate_location loc then (Inr None, m3)
                         else
                           (case locations buf myoptions (skipspace (drop l p)) loc m3 of
                              (Inl e, m4) \<Rightarrow> (Inl e, m4)
                            | (Inr None, m4) \<Rightarrow> (Inr None, m4)
                            | (Inr (Some (loc', q)), m4) \<Rightarrow> (Inr (Some (q, myoptions, Some loc')), m4))))))"

definition parse_mapent ::
  "string \<Rightarrow> string \<Rightarrow> mem \<Rightarrow> (sun_fault + (string \<times> string \<times> string option) option) \<times> mem" where
  "parse_mapent ent g_options m = parse_mapent_from ent ent g_options m"

text \<open>\<open>check_is_multi\<close>: the options in front of a chunk, then the chunks.\<close>

function skip_options :: "string \<Rightarrow> sun_fault + string" where
  "skip_options p =
     (if cstr_hd p \<noteq> CHR ''-'' then Inr p
      else (case chunklen p False of
              None \<Rightarrow> Inl SUN_OVERREAD
            | Some l \<Rightarrow> if l = 0 then Inl SUN_HANG else skip_options (skipspace (drop l p))))"
  by pat_completeness auto
termination
proof -
  have less: "length (skipspace (drop l p)) < length p" if "cstr_hd p = CHR ''-''" "l \<noteq> 0" for l p
    using that skipspace_length [of "drop l p"] by (cases p) (auto simp: NUL_def)
  show ?thesis by (relation "measure length") (use less in auto)
qed

definition multi_start :: "string \<Rightarrow> string" where
  "multi_start p =
     (let q = (if cstr_hd p = DQUOTE then tl p else p) in if cstr_hd q = CHR ''-'' then tl q else q)"

function multi_loop :: "bool \<Rightarrow> string \<Rightarrow> sun_fault + bool" where
  "multi_loop not_first p =
     (if p = [] then Inr False
      else
        (let q = skipspace p; r = (if not_first then multi_start q else q)
         in if not_first \<and> cstr_hd r = CHR ''/'' then Inr True
            else
              (case skip_options r of
                 Inl e \<Rightarrow> Inl e
               | Inr s \<Rightarrow>
                   (case chunklen s (check_colon s) of
                      None \<Rightarrow> Inl SUN_OVERREAD
                    | Some l \<Rightarrow>
                        if \<not> length (drop l s) < length p then Inl SUN_HANG else multi_loop True (drop l s)))))"
  by pat_completeness auto
termination by (relation "measure (\<lambda>(b, p). length p)") auto

declare local_options.simps [simp del] locations.simps [simp del] skip_options.simps [simp del] multi_loop.simps [simp del]

definition check_is_multi :: "string option \<Rightarrow> sun_fault + bool" where
  "check_is_multi mapent =
     (case mapent of
        None \<Rightarrow> Inr False
      | Some ent \<Rightarrow>
          (let p = (if cstr_hd ent = DQUOTE then tl ent else ent)
           in if cstr_hd p = CHR ''/'' then Inr True else multi_loop False p))"

section \<open>Offsets of a multi-mount\<close>

definition SUN_PATH_MAX :: nat where "SUN_PATH_MAX = 4096"

text \<open>The offset without slashes at its end, a slash alone excepted.\<close>

fun trim_offset :: "string \<Rightarrow> nat \<Rightarrow> nat" where
  "trim_offset m_offset o_len =
     (case o_len of
        0 \<Rightarrow> 0
      | Suc n \<Rightarrow> if n > 0 \<and> m_offset ! n = CHR ''/'' then trim_offset m_offset n else Suc n)"

text \<open>
  The list of offsets holds addresses and key lengths. A new entry is put at the end when the
  last one is not longer, otherwise in front of the last one that is not longer, and in front of
  all when there is none.
\<close>

definition add_offset :: "addr \<times> nat \<Rightarrow> (addr \<times> nat) list \<Rightarrow> (addr \<times> nat) list" where
  "add_offset new offsets =
     (let longer = takeWhile (\<lambda>this. \<not> snd new \<ge> snd this) (rev offsets);
          rest = dropWhile (\<lambda>this. \<not> snd new \<ge> snd this) (rev offsets)
      in case rest of
           [] \<Rightarrow> new # offsets
         | this # prev \<Rightarrow>
             if longer = [] then offsets @ [new] else rev prev @ [new, this] @ rev longer)"

text \<open>
  \<open>update_offset_entry\<close> for the offset \<open>m_offset\<close> of the multi-mount with key \<open>name\<close>, whose root is
  \<open>m_root\<close>; \<open>hosts\<close> tells whether the map is the internal hosts map.
\<close>

definition offset_key :: "string \<Rightarrow> string \<Rightarrow> string" where
  "offset_key m_root m_offset = m_root @ take (trim_offset m_offset (length m_offset)) m_offset"

definition offset_mapent :: "string \<Rightarrow> string option \<Rightarrow> string" where
  "offset_mapent myoptions loc =
     (if myoptions \<noteq> [] then ''-'' @ myoptions @ (case loc of None \<Rightarrow> [] | Some l \<Rightarrow> '' '' @ l)
      else (case loc of None \<Rightarrow> [] | Some l \<Rightarrow> l))"

definition update_offset_entry ::
  "bool \<Rightarrow> mapent_cache \<Rightarrow> (addr \<times> nat) list \<Rightarrow> string \<Rightarrow> string \<Rightarrow> string \<Rightarrow> string \<Rightarrow> string option \<Rightarrow> time
     \<Rightarrow> sun_fault + che \<times> mapent_cache \<times> (addr \<times> nat) list" where
  "update_offset_entry hosts mc offsets name m_root m_offset myoptions loc age =
     (if empty_opt loc \<and> \<not> hosts \<or> m_offset = [] then Inr (CHE_FAIL, mc, offsets)
      else if length (offset_key m_root m_offset) > SUN_PATH_MAX then Inr (CHE_FAIL, mc, offsets)
      else if (case loc of None \<Rightarrow> 0 | Some l \<Rightarrow> length l) + (if myoptions \<noteq> [] then length myoptions + 2 else 0) > MAPENT_MAX_LEN
      then Inr (CHE_FAIL, mc, offsets)
      else
        (case cache_update_offset mc name (offset_key m_root m_offset) (offset_mapent myoptions loc) age of
           None \<Rightarrow> Inl SUN_NO_RETURN
         | Some (ret, mc1) \<Rightarrow>
             Inr (if ret = CHE_FAIL then CHE_FAIL else CHE_OK, mc1,
                  case cache_lookup_distinct mc1 (Some (offset_key m_root m_offset)) of
                    [] \<Rightarrow> offsets
                  | me # _ \<Rightarrow>
                      if me_id me \<in> fst ` set offsets then offsets else add_offset (me_id me, me_len me) offsets)))"

section \<open>Calling a mount module\<close>

datatype weight = WEIGHT_UNSET | WEIGHT_USE | WEIGHT_NO

record sun_opts =
  so_fstype :: string
  so_nonstrict :: bool
  so_weight :: weight
  so_options :: string

text \<open>
  One option of the list, from \<open>cp\<close> on, \<open>tok\<close> being the option itself; \<open>so_options\<close> is what was
  copied to \<open>noptions\<close>, the character behind each option (a comma or the terminator) included.
\<close>

definition sun_option :: "string \<Rightarrow> string \<Rightarrow> sun_opts \<Rightarrow> sun_opts" where
  "sun_option cp tok o1 =
     (let copy = o1\<lparr>so_options := so_options o1 @ tok @ [cstr_hd (drop (length tok) cp)]\<rparr>
      in if strncmp_full ''fstype='' cp 7 then o1\<lparr>so_fstype := drop 7 tok\<rparr>
         else if strncmp_full ''nonstrict'' cp 9 then o1\<lparr>so_nonstrict := True\<rparr>
         else if strncmp_full ''strict'' cp 6 \<and> length tok = 6 then o1\<lparr>so_nonstrict := False\<rparr>
         else if strncmp_full ''nobrowse'' cp 8 \<or> strncmp_full ''browse'' cp 6 \<or> strncmp_full ''timeout='' cp 8 then
           if so_fstype o1 = ''autofs'' \<or> strstr cp ''fstype=autofs'' \<noteq> None then copy else o1
         else if strncmp_full ''no-use-weight-only'' cp 18 then o1\<lparr>so_weight := WEIGHT_NO\<rparr>
         else if strncmp_full ''use-weight-only'' cp 15 then o1\<lparr>so_weight := WEIGHT_USE\<rparr>
         else if strncmp_full ''bg'' cp 2 \<or> strncmp_full ''nofg'' cp 4 then o1
         else copy)"

lemma sun_token_shorter:
  assumes "comma \<noteq> []"
  defines "cp \<equiv> dropWhile (\<lambda>c. c = CHR '','') comma"
  shows "length (drop (length (takeWhile (\<lambda>c. c \<noteq> CHR '','') cp)) cp) < length comma"
proof -
  have drop: "drop (length (takeWhile (\<lambda>c. c \<noteq> CHR '','') cp)) cp = dropWhile (\<lambda>c. c \<noteq> CHR '','') cp"
    by (simp add: dropWhile_eq_drop)
  have le: "length (dropWhile P xs) \<le> length xs" for P :: "char \<Rightarrow> bool" and xs by (rule length_dropWhile_le)
  obtain c cs where comma: "comma = c # cs" using assms(1) by (cases comma) auto
  show ?thesis
  proof (cases "c = CHR '',''")
    case True
    then have "length cp \<le> length cs" using le [of _ cs] by (simp add: cp_def comma)
    then show ?thesis using le [of "\<lambda>c. c \<noteq> CHR '',''" cp] by (simp add: drop comma)
  next
    case False
    then show ?thesis using le [of "\<lambda>c. c \<noteq> CHR '',''" cs] unfolding drop by (simp add: cp_def comma)
  qed
qed

function sun_options :: "string \<Rightarrow> sun_opts \<Rightarrow> sun_opts" where
  "sun_options comma o1 =
     (if comma = [] then o1
      else
        (let cp = dropWhile (\<lambda>c. c = CHR '','') comma; tok = takeWhile (\<lambda>c. c \<noteq> CHR '','') cp
         in sun_options (drop (length tok) cp) (sun_option cp tok o1)))"
  by pat_completeness auto
termination
  by (relation "measure (\<lambda>(c, oo). length c)") (use sun_token_shorter in auto)

declare sun_options.simps [simp del]

text \<open>The options as a C string: the last character copied is overwritten by the terminator.\<close>

definition sun_noptions :: "sun_opts \<Rightarrow> string" where
  "sun_noptions o1 = takeWhile (\<lambda>c. c \<noteq> NUL) (butlast (so_options o1))"

text \<open>
  The macros of the map are passed on to submounts. Without other options the code takes the
  empty buffer for a failed allocation.
\<close>

definition sun_macros :: "string \<Rightarrow> string option \<Rightarrow> string option \<Rightarrow> string option" where
  "sun_macros fstype macros options =
     (case macros of
        Some ms \<Rightarrow> if fstype = ''autofs'' \<and> \<not> empty_opt options then Some (the options @ '','' @ ms) else options
      | None \<Rightarrow> options)"

definition sun_hosts :: "bool \<Rightarrow> string option \<Rightarrow> string option" where
  "sun_hosts hosts options =
     (if \<not> hosts then options
      else if empty_opt options then Some ''nosuid,nodev''
      else Some (the options @ (if strstr (the options) ''suid'' = None then '',nosuid'' else [])
                   @ (if strstr (the options) ''dev'' = None then '',nodev'' else [])))"

text \<open>
  The weight option is added back for NFS, in a buffer of \<open>strlen(options) + 19\<close> bytes when there
  are other options.
\<close>

definition sun_weight :: "weight \<Rightarrow> string option \<Rightarrow> sun_fault + string option" where
  "sun_weight w options =
     (let opt = (if w = WEIGHT_USE then ''use-weight-only'' else ''no-use-weight-only'')
      in if w = WEIGHT_UNSET then Inr options
         else if empty_opt options then Inr (Some opt)
         else (let tmp = the options @ '','' @ opt
               in if length tmp + 1 > length (the options) + 19 then Inl SUN_OVERRUN else Inr (Some tmp)))"

record mount_call =
  mc_nfs :: bool
  mc_what :: "string option"
  mc_fstype :: string
  mc_options :: "string option"
  mc_nonstrict :: bool

text \<open>
  \<open>sun_mount\<close> up to the call of the mount module: the call, \<open>None\<close> after a failed allocation. The
  result of the mount is negated when the options say nonstrict.
\<close>

definition sun_mount ::
  "bool \<Rightarrow> bool \<Rightarrow> string option \<Rightarrow> string \<Rightarrow> string \<Rightarrow> mem \<Rightarrow> (sun_fault + mount_call option) \<times> mem" where
  "sun_mount weight_only hosts macros loc options m =
     (let o0 = \<lparr>so_fstype = ''nfs'', so_nonstrict = True, so_weight = (if weight_only then WEIGHT_USE else WEIGHT_UNSET),
                so_options = []\<rparr>;
          o1 = sun_options options o0;
          opts1 = (if options = [] then None else Some (sun_noptions o1));
          opts2 = sun_hosts hosts (sun_macros (so_fstype o1) macros opts1)
      in case malloc m of
           (False, m1) \<Rightarrow> (Inr None, m1)
         | (True, m1) \<Rightarrow>
             (if so_fstype o1 = ''nfs'' \<or> so_fstype o1 = ''nfs4'' then
                (case sun_weight (so_weight o1) opts2 of
                   Inl e \<Rightarrow> Inl e
                 | Inr opts3 \<Rightarrow>
                     Inr (Some \<lparr>mc_nfs = True, mc_what = Some loc, mc_fstype = so_fstype o1, mc_options = opts3,
                                mc_nonstrict = so_nonstrict o1\<rparr>))
              else
                Inr (Some \<lparr>mc_nfs = False,
                           mc_what = (if loc = [] then None else Some (if hd loc = CHR '':'' then tl loc else loc)),
                           mc_fstype = so_fstype o1, mc_options = opts2, mc_nonstrict = so_nonstrict o1\<rparr>), m1))"

definition sun_result :: "mount_call \<Rightarrow> int \<Rightarrow> int" where
  "sun_result c rv = (if mc_nonstrict c \<and> rv \<noteq> 0 then - rv else rv)"

end
