(* ===== verification/Parse_Sun_Props.thy ===== *)
theory Parse_Sun_Props
  imports Parse_Sun
begin

text \<open>
  Properties of the parser for Sun map entries: the space counted for an expansion suffices,
  what expansion substitutes, options and locations of an entry, the bounds of the buffers for
  offsets, the order of offsets, and options that are lost or written behind a buffer.
\<close>

section \<open>Expansion\<close>

lemma emit_len [simp]: "fst (emit l out r) = l + fst r" "snd (emit l out r) = out @ snd r"
  by (simp_all add: emit_def)

lemma escape_key_length: "length (escape_key key) = escaped_len key"
  by (induction key) (simp_all add: escape_key_def escaped_len_def)

definition counted :: "nat \<times> string \<Rightarrow> bool" where
  "counted r \<longleftrightarrow> fst r = length (snd r)"

lemma counted_intros:
  "counted (0, [])"
  "counted r \<Longrightarrow> l = length out \<Longrightarrow> counted (emit l out r)"
  "counted r \<Longrightarrow> counted (emit_var v r)"
  by (auto simp: counted_def emit_var_def split: option.splits)

lemma expandsun_loop_counted: "counted (expandsun_loop sys svc key sl sc src)"
proof (induction "length src" arbitrary: sc src rule: less_induct)
  case less
  show ?case
  proof (cases src)
    case Nil
    then show ?thesis by (simp add: counted_intros)
  next
    case (Cons ch s)
    have IH: "length r \<le> length s \<Longrightarrow> counted (expandsun_loop sys svc key sl b r)" for r b
      using less [of r b] Cons by simp
    have le: "length (dropWhile P s) \<le> length s" for P by (rule length_dropWhile_le)
    have br: "length (tl p) \<le> length s" if "strchr (tl s) (CHR ''}'') = Some p" for p
      using strchr_length [OF that] by (cases s) auto
    have d1: "length (drop 1 (dropWhile (\<lambda>c. c \<noteq> DQUOTE) s)) \<le> length s" using le [of "\<lambda>c. c \<noteq> DQUOTE"] by simp
    have t1: "1 + length (takeWhile P s) + (if dropWhile P s = [] then 0 else 1) = length (ch # takeWhile P s @ take 1 (dropWhile P s))" for P
      by (cases "dropWhile P s") auto
    have s2: "length s' \<le> length s" if "s = c # s'" for c s' using that by simp
    note defs = expandsun_loop.simps(2) [of sys svc key sl sc ch s] Cons
    consider "ch = CHR ''&''" | "ch = CHR ''$''" | "ch = BSLASH" | "ch = DQUOTE" | "ch \<notin> {CHR ''&'', CHR ''$'', BSLASH, DQUOTE}"
      by blast
    then show ?thesis
    proof cases
      case 1
      then show ?thesis unfolding defs by (simp add: counted_intros IH escape_key_length)
    next
      case 2
      then show ?thesis unfolding defs using IH br le by (auto intro!: counted_intros split: option.split)
    next
      case 3
      then show ?thesis unfolding defs by (cases s) (auto simp: char_consts intro!: counted_intros IH s2)
    next
      case 4
      then have "expandsun_loop sys svc key sl sc src =
          emit (1 + length (takeWhile (\<lambda>c. c \<noteq> DQUOTE) s) + (if dropWhile (\<lambda>c. c \<noteq> DQUOTE) s = [] then 0 else 1))
            (ch # takeWhile (\<lambda>c. c \<noteq> DQUOTE) s @ take 1 (dropWhile (\<lambda>c. c \<noteq> DQUOTE) s))
            (expandsun_loop sys svc key sl sc (drop 1 (dropWhile (\<lambda>c. c \<noteq> DQUOTE) s)))"
        unfolding defs Let_def by (simp add: char_consts)
      then show ?thesis using counted_intros(2) [OF IH [OF d1] t1] by simp
    next
      case 5
      then show ?thesis unfolding defs by (simp add: counted_intros IH)
    qed
  qed
qed

lemmas expandsun_loop_len = expandsun_loop_counted [unfolded counted_def]

text \<open>
  C27: Expanding a map entry writes exactly as many characters as the pass that counts them found,
  so the buffer allocated for the entry is never overrun; a result that is not \<open>NULL\<close> is the
  whole expansion.
\<close>

theorem do_expandsunent_fits:
  "fst (do_expandsunent sys svc key slashify src m) =
     (if snd (expandsunent sys svc key slashify src) \<noteq> [] \<and> malloc_ok m
      then Inr (Some (snd (expandsunent sys svc key slashify src))) else Inr None)"
proof -
  have len: "fst (expandsunent sys svc key slashify src) = length (snd (expandsunent sys svc key slashify src))"
    unfolding expandsunent_def by (rule expandsun_loop_len)
  show ?thesis by (cases "malloc m") (auto simp: do_expandsunent_def len split: bool.splits)
qed

text \<open>The parts of an entry: plain text, the key, macros with and without braces.\<close>

datatype sun_piece = Sun_Text string | Sun_Key | Sun_Var string | Sun_Braced string

fun print_sun :: "sun_piece \<Rightarrow> string" where
  "print_sun (Sun_Text s) = s"
| "print_sun Sun_Key = ''&''"
| "print_sun (Sun_Var n) = CHR ''$'' # n"
| "print_sun (Sun_Braced n) = ''${'' @ n @ ''}''"

definition var_value :: "subst_table \<Rightarrow> subst_table \<Rightarrow> string \<Rightarrow> string" where
  "var_value sys svc n = (case macro_findvar sys svc n (length n) of None \<Rightarrow> [] | Some v \<Rightarrow> sv_val v)"

fun sun_value :: "subst_table \<Rightarrow> subst_table \<Rightarrow> string \<Rightarrow> sun_piece \<Rightarrow> string" where
  "sun_value sys svc key (Sun_Text s) = s"
| "sun_value sys svc key Sun_Key = escape_key key"
| "sun_value sys svc key (Sun_Var n) = var_value sys svc n"
| "sun_value sys svc key (Sun_Braced n) = var_value sys svc n"

text \<open>A name without braces has to be followed by a character that cannot be part of it.\<close>

fun sun_ok :: "sun_piece list \<Rightarrow> bool" where
  "sun_ok [] \<longleftrightarrow> True"
| "sun_ok (Sun_Text s # ps) \<longleftrightarrow>
     (\<forall>c \<in> set s. c \<noteq> CHR ''&'' \<and> c \<noteq> CHR ''$'' \<and> c \<noteq> BSLASH \<and> c \<noteq> DQUOTE) \<and> sun_ok ps"
| "sun_ok (Sun_Key # ps) \<longleftrightarrow> sun_ok ps"
| "sun_ok (Sun_Var n # ps) \<longleftrightarrow>
     n \<noteq> [] \<and> (\<forall>c \<in> set n. name_char c) \<and> \<not> name_char (cstr_hd (concat (map print_sun ps))) \<and> sun_ok ps"
| "sun_ok (Sun_Braced n # ps) \<longleftrightarrow> CHR ''}'' \<notin> set n \<and> sun_ok ps"

lemma macro_findvar_prefix: "macro_findvar sys svc (n @ r) (length n) = macro_findvar sys svc n (length n)"
proof -
  have "macro_match (n @ r) (length n) = macro_match n (length n)"
    by (simp add: macro_match_def strncmp_eq_def fun_eq_iff)
  then show ?thesis unfolding macro_findvar_def by (simp only:)
qed

lemma emit_var_value: "snd (emit_var (macro_findvar sys svc n (length n)) r) = var_value sys svc n @ snd r"
  by (simp add: emit_var_def var_value_def split: option.split)

lemma expandsun_text:
  assumes "\<forall>c \<in> set s. c \<noteq> CHR ''&'' \<and> c \<noteq> CHR ''$'' \<and> c \<noteq> BSLASH \<and> c \<noteq> DQUOTE"
  shows "\<exists>sc'. snd (expandsun_loop sys svc key False sc (s @ r)) = s @ snd (expandsun_loop sys svc key False sc' r)"
  using assms
proof (induction s arbitrary: sc)
  case Nil
  show ?case by auto
next
  case (Cons c s)
  have step: "\<exists>sc1. snd (expandsun_loop sys svc key False sc (c # s @ r)) = c # snd (expandsun_loop sys svc key False sc1 (s @ r))"
    using Cons.prems by (cases "c = CHR '':''") auto
  with Cons show ?case by (metis append_Cons list.set_intros(2))
qed

lemma not_name_special [simp]:
  "\<not> isalnum (CHR ''{'')" "\<not> isalnum NUL" "\<not> isalnum (CHR '' '')" "\<not> isalnum (CHR 0x09)" "CHR ''$'' \<noteq> BSLASH" "CHR ''&'' \<noteq> BSLASH"
  by (simp_all add: isalnum_def isalpha_def isdigit_def char_consts)

lemma expandsun_var:
  assumes "n \<noteq> []" and "\<forall>c \<in> set n. name_char c" and "\<not> name_char (cstr_hd r)"
  shows "snd (expandsun_loop sys svc key sl sc (CHR ''$'' # n @ r)) = var_value sys svc n @ snd (expandsun_loop sys svc key sl sc r)"
proof -
  obtain c n' where n: "n = c # n'" using assms(1) by (cases n) auto
  have tw: "takeWhile name_char (n @ r) = n" "dropWhile name_char (n @ r) = r"
    using assms(2,3) by (cases r; auto simp: takeWhile_append dropWhile_append)+
  have c: "name_char c" using assms(2) n by simp
  then have "c \<noteq> CHR ''{''" "\<not> isblank c" by (auto simp: isblank_def)
  then have "snd (expandsun_loop sys svc key sl sc (CHR ''$'' # n @ r)) =
      snd (emit_var (macro_findvar sys svc (n @ r) (length n)) (expandsun_loop sys svc key sl sc r))"
    using tw n by (simp del: takeWhile.simps dropWhile.simps)
  then show ?thesis by (simp only: macro_findvar_prefix emit_var_value)
qed

lemma expandsun_braced:
  assumes "CHR ''}'' \<notin> set n"
  shows "snd (expandsun_loop sys svc key sl sc (''${'' @ n @ ''}'' @ r)) = var_value sys svc n @ snd (expandsun_loop sys svc key sl sc r)"
proof -
  have "strchr (n @ CHR ''}'' # r) (CHR ''}'') = Some (CHR ''}'' # r)" using assms by (rule strchr_append)
  then have "snd (expandsun_loop sys svc key sl sc (''${'' @ n @ ''}'' @ r)) =
      snd (emit_var (macro_findvar sys svc (n @ CHR ''}'' # r) (length n)) (expandsun_loop sys svc key sl sc r))" by simp
  then show ?thesis by (simp only: macro_findvar_prefix emit_var_value)
qed

lemma expandsun_pieces:
  "sun_ok ps \<Longrightarrow> snd (expandsun_loop sys svc key False sc (concat (map print_sun ps))) = concat (map (sun_value sys svc key) ps)"
proof (induction ps arbitrary: sc rule: sun_ok.induct)
  case (2 s ps)
  then show ?case using expandsun_text [of s sys svc key sc "concat (map print_sun ps)"] by auto
next
  case (4 n ps)
  then show ?case using expandsun_var [of n "concat (map print_sun ps)"] by simp
next
  case (5 n ps)
  then show ?case using expandsun_braced [of n sys svc key False sc "concat (map print_sun ps)"] by simp
qed simp_all

lemma expandsunent_value:
  assumes "sun_ok ps"
  shows "expandsunent sys svc key False (concat (map print_sun ps)) =
    (length (concat (map (sun_value sys svc key) ps)), concat (map (sun_value sys svc key) ps))"
  using expandsun_pieces [OF assms, of sys svc key False] expandsun_loop_len [of sys svc key False False "concat (map print_sun ps)"]
  by (simp add: expandsunent_def prod_eq_iff)



section \<open>Options and location of an entry\<close>

definition word_char :: "char \<Rightarrow> bool" where
  "word_char c \<longleftrightarrow> c \<notin> {CHR '' '', TAB, BS, LF, VT, FF, CR, BSLASH, DQUOTE}"

definition key_char :: "char \<Rightarrow> bool" where
  "key_char c \<longleftrightarrow> c \<notin> {BS, BSLASH, DQUOTE}"

lemma word_char_simps: "word_char c \<Longrightarrow> c \<noteq> BSLASH \<and> c \<noteq> DQUOTE \<and> c \<notin> {CHR '' '', TAB, BS, LF, VT, FF, CR}"
  by (auto simp: word_char_def)

lemma isspace_char: "isspace c \<longleftrightarrow> c \<in> {CHR '' '', TAB, LF, VT, FF, CR}"
proof -
  have "9 \<le> n \<and> n \<le> 13 \<longleftrightarrow> n = 9 \<or> n = 10 \<or> n = 11 \<or> n = 12 \<or> n = 13" for n :: nat by arith
  then have "9 \<le> (of_char c :: nat) \<and> (of_char c :: nat) \<le> 13 \<longleftrightarrow>
      of_char c = (of_char TAB :: nat) \<or> of_char c = (of_char LF :: nat) \<or> of_char c = (of_char VT :: nat)
      \<or> of_char c = (of_char FF :: nat) \<or> of_char c = (of_char CR :: nat)" by (simp add: char_consts)
  then show ?thesis unfolding isspace_def of_char_eq_iff by auto
qed

lemma word_char_not_space: "word_char c \<Longrightarrow> \<not> isspace c"
  by (auto simp: isspace_char word_char_def)

lemma chunk_word:
  "\<forall>c \<in> set s. word_char c \<Longrightarrow> chunklen_loop (s @ r) n False False = chunklen_loop r (n + length s) False False"
proof (induction s arbitrary: n)
  case (Cons c s)
  then show ?case using word_char_simps [of c] by (cases "c = CHR '':''") auto
qed simp

lemma chunk_host:
  assumes "\<forall>c \<in> set h. word_char c \<and> c \<noteq> CHR '':''"
  shows "chunklen_loop (h @ '':/'' @ r) n False True = chunklen_loop r (n + length h + 2) False False"
  using assms
proof (induction h arbitrary: n)
  case Nil
  show ?case by (simp add: char_consts strncmp_eq_def)
next
  case (Cons c h)
  then show ?case using word_char_simps [of c] by auto
qed

lemma chunk_key:
  "\<forall>c \<in> set k. key_char c \<Longrightarrow> chunklen_loop (escape_key k) n False False = Some (n + length (escape_key k))"
proof (induction k arbitrary: n)
  case Nil
  show ?case by (simp add: escape_key_def)
next
  case (Cons c k)
  have e: "escape_key (c # k) = (if isspace c then [BSLASH, c] else [c]) @ escape_key k" by (simp add: escape_key_def)
  show ?case
  proof (cases "isspace c")
    case True
    then have "c \<noteq> BSLASH" "c \<noteq> DQUOTE" "c \<noteq> CHR '':''" by (auto simp: isspace_char char_consts)
    with True Cons show ?thesis unfolding e by simp
  next
    case False
    with Cons.prems have "word_char c" by (auto simp: isspace_char key_char_def word_char_def)
    with False Cons chunk_word [of "[c]" "escape_key k" n] show ?thesis unfolding e by simp
  qed
qed

lemma chunk_options:
  "\<forall>c \<in> set s. word_char c \<Longrightarrow> chunklen (s @ CHR '' '' # r) False = Some (length s)"
  unfolding chunklen_def by (subst chunk_word) (auto simp: char_consts)

lemma dequote_loop_word:
  "\<forall>c \<in> set s. word_char c \<Longrightarrow> dequote_loop (s @ r) False False = (s @ fst (dequote_loop r False False), snd (dequote_loop r False False))"
proof (induction s)
  case (Cons c s)
  then show ?case using word_char_simps [of c] by (simp add: case_prod_unfold)
qed simp

lemma dequote_loop_key: "\<forall>c \<in> set k. key_char c \<Longrightarrow> dequote_loop (escape_key k) False False = (k, False)"
proof (induction k)
  case (Cons c k)
  have e: "escape_key (c # k) = (if isspace c then [BSLASH, c] else [c]) @ escape_key k" by (simp add: escape_key_def)
  from Cons show ?case unfolding e by (auto simp: key_char_def)
qed (simp add: escape_key_def)

lemma dequote_strip_prefix:
  assumes "s \<noteq> []" and "\<not> isspace (last s) \<or> length s > 2 \<and> s ! (length s - 2) \<in> {BSLASH, DQUOTE}"
  shows "dequote_strip (s @ r) (length s) = Some (length s)"
proof -
  obtain n where n: "length s = Suc n" using assms(1) by (cases s) auto
  then have "last s = s ! n" by (simp add: last_conv_nth assms(1))
  with n assms(2) show ?thesis by (auto simp: cstr_at_def nth_append numeral_2_eq_2)
qed

lemma dequote_from_prefix:
  assumes "mem_ample m" and "s \<noteq> []" and "\<not> isspace (last s) \<or> length s > 2 \<and> s ! (length s - 2) \<in> {BSLASH, DQUOTE}"
    and "dequote_loop s False False = (out, False)"
  obtains m' where "dequote_from b (s @ r) (length s) m = (Inr (Some out), m')" "mem_ample m'"
proof -
  obtain m' where "malloc m = (True, m')" "mem_ample m'" using assms(1) by (rule mem_ampleE)
  with dequote_strip_prefix [OF assms(2,3), of r] assms(4) that [of m'] show thesis by (simp add: dequote_from_def)
qed

lemma check_colon_append: "check_colon (h @ '':/'' @ r)"
proof -
  have "check_colon_loop (h @ '':/'' @ r)" by (induction h) (simp_all add: strncmp_eq_def)
  then show ?thesis by (simp add: check_colon_def)
qed

definition host_name :: "string \<Rightarrow> bool" where
  "host_name h \<longleftrightarrow> h \<noteq> [] \<and> (\<forall>c \<in> set h. isalnum c \<or> c \<in> {CHR ''-'', CHR ''.'', CHR ''_''})
     \<and> hd h \<noteq> CHR ''-''"

lemma isalnum_word: "isalnum c \<or> c \<in> {CHR ''-'', CHR ''.'', CHR ''_''} \<Longrightarrow>
    word_char c \<and> c \<noteq> CHR '':'' \<and> c \<noteq> CHR '','' \<and> c \<noteq> CHR ''/'' \<and> c \<noteq> CHR ''&'' \<and> c \<noteq> CHR ''$'' \<and> c \<noteq> CHR ''#''"
  by (auto simp: isalnum_def isalpha_def isdigit_def word_char_def char_consts)

lemma host_part_name:
  "\<forall>c \<in> set h. isalnum c \<or> c \<in> {CHR ''-'', CHR ''.'', CHR ''_''} \<Longrightarrow> host_part (h @ '':/'' @ r) = Some ('':/'' @ r)"
proof (induction h)
  case Nil
  show ?case by (simp add: strncmp_eq_def)
next
  case (Cons c h)
  then have "host_char c" "c \<noteq> CHR '':''" "c \<noteq> CHR '',''" using isalnum_word [of c] by (auto simp: host_char_def)
  with Cons show ?case by (simp add: strncmp_eq_def)
qed

lemma validate_host: "host_name h \<Longrightarrow> validate_location (h @ '':/'' @ r)"
proof -
  assume h: "host_name h"
  then have "\<forall>c \<in> set h. isalnum c \<or> c \<in> {CHR ''-'', CHR ''.'', CHR ''_''}" by (simp add: host_name_def)
  with host_part_name [of h r] check_colon_append [of h r] have
    "host_part (h @ CHR '':'' # CHR ''/'' # r) = Some (CHR '':'' # CHR ''/'' # r)" "check_colon (h @ CHR '':'' # CHR ''/'' # r)" by simp_all
  moreover have "cstr_hd (h @ CHR '':'' # CHR ''/'' # r) \<noteq> CHR '',''"
    using h isalnum_word [of "hd h"] by (cases h) (auto simp: host_name_def)
  ultimately show ?thesis by (simp add: validate_location_def strncmp_eq_def)
qed

lemma escape_key_end: "k \<noteq> [] \<Longrightarrow> isspace (last (escape_key k)) \<Longrightarrow>
    length (escape_key k) \<ge> 2 \<and> escape_key k ! (length (escape_key k) - 2) = BSLASH"
proof -
  assume k: "k \<noteq> []" "isspace (last (escape_key k))"
  then obtain k' c where kc: "k = k' @ [c]" by (cases k rule: rev_cases) auto
  then have e: "escape_key k = escape_key k' @ (if isspace c then [BSLASH, c] else [c])" by (simp add: escape_key_def)
  with k(2) have "isspace c" by (auto split: if_splits)
  then show ?thesis unfolding e by (simp add: nth_append)
qed

lemma location_dequoted:
  assumes "mem_ample m" and "host_name h" and "\<forall>c \<in> set p. word_char c" and "\<forall>c \<in> set k. key_char c"
  defines "s \<equiv> h @ '':/'' @ p @ escape_key k"
  obtains m' where "dequote_from b s (length s) m = (Inr (Some (h @ '':/'' @ p @ k)), m')" "mem_ample m'"
    and "chunklen s (check_colon s) = Some (length s)"
proof -
  have hw: "\<forall>c \<in> set h. word_char c \<and> c \<noteq> CHR '':''" using assms(2) isalnum_word by (auto simp: host_name_def)
  have pw: "\<forall>c \<in> set (h @ '':/'' @ p). word_char c" using hw assms(3) by (auto simp: word_char_def char_consts)
  have "chunklen_loop s 0 False True = Some (length s)"
    unfolding s_def chunk_host [OF hw] using chunk_word [OF assms(3)] chunk_key [OF assms(4)] by simp
  then have chunk: "chunklen s (check_colon s) = Some (length s)"
    using check_colon_append [of h "p @ escape_key k"] by (simp add: chunklen_def s_def)
  have loop: "dequote_loop s False False = (h @ '':/'' @ p @ k, False)"
    using dequote_loop_word [OF pw, of "escape_key k"] dequote_loop_key [OF assms(4)] by (simp add: s_def)
  have "\<not> isspace (last s) \<or> length s > 2 \<and> s ! (length s - 2) \<in> {BSLASH, DQUOTE}"
  proof (cases "k = []")
    case True
    then have "last s \<in> set (h @ '':/'' @ p)" by (auto simp: s_def escape_key_def)
    with pw word_char_not_space show ?thesis by blast
  next
    case False
    let ?e = "escape_key k" and ?pre = "h @ '':/'' @ p"
    have ne: "?e \<noteq> []" using False by (cases k) (auto simp: escape_key_def)
    have len: "length s = length ?pre + length ?e" by (simp add: s_def)
    show ?thesis
    proof (cases "isspace (last ?e)")
      case True
      from escape_key_end [OF False True] have e2: "length ?e \<ge> 2" "?e ! (length ?e - 2) = BSLASH" by auto
      have "length s - 2 = length ?pre + (length ?e - 2)" using e2(1) len by simp
      moreover have "s = ?pre @ ?e" by (simp add: s_def)
      ultimately have "s ! (length s - 2) = ?e ! (length ?e - 2)" by (simp only: nth_append_length_plus)
      with e2 len show ?thesis by auto
    qed (use ne in \<open>simp add: s_def\<close>)
  qed
  moreover have "s \<noteq> []" by (simp add: s_def)
  ultimately obtain m' where "dequote_from b (s @ []) (length s) m = (Inr (Some (h @ '':/'' @ p @ k)), m')" "mem_ample m'"
    using dequote_from_prefix [OF assms(1) _ _ loop] by blast
  with chunk that show thesis by simp
qed

lemma skipspace_word: "\<not> isspace c \<Longrightarrow> c \<noteq> BS \<Longrightarrow> c \<noteq> CHR ''#'' \<Longrightarrow> skipspace (c # s) = c # s"
  by (auto simp: isspace_char)

lemma strstr_Nil [simp]: "strstr s [] = Some ([], s)"
  by (cases s) (simp_all add: strncmp_eq_def)

lemma local_options_once:
  assumes "cstr_hd p = CHR ''-''" and "parse_options (before_of ent p) p None m = (Inr (q, Some opt), m1)" and "length q < length p"
    and "add_local_options my opt m1 = (Inr (Some opts), m2)" and "cstr_hd (skipspace q) \<noteq> CHR ''-''"
  shows "local_options ent p my m = (Inr (Some (opts, skipspace q)), m2)"
  using assms by (simp add: local_options.simps [of ent p] local_options.simps [of ent "skipspace q"])



section \<open>Mount options\<close>

fun commas :: "string list \<Rightarrow> string" where
  "commas [] = []"
| "commas [t] = t"
| "commas (t # u # ts) = t @ CHR '','' # commas (u # ts)"

text \<open>The options that \<open>sun_mount\<close> looks for by their first characters.\<close>

definition pseudo_options :: "string list" where
  "pseudo_options = [''nonstrict'', ''strict'', ''nobrowse'', ''browse'', ''timeout='', ''no-use-weight-only'', ''use-weight-only'', ''bg'', ''nofg'']"

definition begins :: "string \<Rightarrow> string \<Rightarrow> bool" where
  "begins p t \<longleftrightarrow> take (length p) t = p"

definition option_ok :: "string \<Rightarrow> bool" where
  "option_ok t \<longleftrightarrow> t \<noteq> [] \<and> CHR '','' \<notin> set t \<and> NUL \<notin> set t \<and> (\<forall>p \<in> set pseudo_options. \<not> begins p t)"

abbreviation is_fstype :: "string \<Rightarrow> bool" where
  "is_fstype t \<equiv> begins ''fstype='' t"

lemma strncmp_full_token:
  assumes "r = [] \<or> hd r = CHR '',''" and "CHR '','' \<notin> set p" and "p \<noteq> []"
  shows "strncmp_full p (t @ r) (length p) \<longleftrightarrow> begins p t"
proof -
  have "take (length p) (t @ r) = p \<longleftrightarrow> take (length p) t = p"
  proof (cases "length p \<le> length t")
    case False
    then have "take (length p) t \<noteq> p" by (metis length_take min.absorb_iff2 nat_le_linear)
    moreover have "take (length p) (t @ r) \<noteq> p"
    proof
      assume eq: "take (length p) (t @ r) = p"
      then have "r \<noteq> []" using False by auto
      with assms(1) obtain r' where "r = CHR '','' # r'" by (cases r) auto
      with eq False have "CHR '','' \<in> set p" by (metis Suc_diff_Suc in_set_conv_decomp not_le take_Suc_Cons take_append)
      with assms(2) show False by simp
    qed
    ultimately show ?thesis by simp
  qed simp
  then show ?thesis using assms(3) by (auto simp: strncmp_full_def strncmp_eq_def begins_def)
qed

lemma sun_option_token:
  assumes "option_ok t" and "r = [] \<or> hd r = CHR '',''"
  shows "sun_option (t @ r) t o1 =
    (if is_fstype t then o1\<lparr>so_fstype := drop 7 t\<rparr> else o1\<lparr>so_options := so_options o1 @ t @ [cstr_hd r]\<rparr>)"
proof -
  have no: "\<not> strncmp_full p (t @ r) (length p)" if "p \<in> set pseudo_options" for p
    using that assms strncmp_full_token [OF assms(2), of p t] by (auto simp: option_ok_def pseudo_options_def)
  have fs: "strncmp_full ''fstype='' (t @ r) 7 \<longleftrightarrow> is_fstype t" using strncmp_full_token [OF assms(2), of "''fstype=''" t] by (simp add: eval_nat_numeral)
  show ?thesis unfolding sun_option_def Let_def fs
    using no [of "''nonstrict''"] no [of "''strict''"] no [of "''nobrowse''"] no [of "''browse''"] no [of "''timeout=''"]
      no [of "''no-use-weight-only''"] no [of "''use-weight-only''"] no [of "''bg''"] no [of "''nofg''"]
    by (simp add: pseudo_options_def eval_nat_numeral)
qed

fun run_options :: "string list \<Rightarrow> sun_opts \<Rightarrow> sun_opts" where
  "run_options [] o1 = o1"
| "run_options (t # ts) o1 =
     run_options ts (if is_fstype t then o1\<lparr>so_fstype := drop 7 t\<rparr>
       else o1\<lparr>so_options := so_options o1 @ t @ [if ts = [] then NUL else CHR '','']\<rparr>)"

abbreviation comma_tail :: "string list \<Rightarrow> string" where
  "comma_tail ts \<equiv> concat (map (\<lambda>t. CHR '','' # t) ts)"

lemma commas_tail: "commas (t # ts) = t @ comma_tail ts"
  by (induction ts arbitrary: t) auto

lemma sun_options_token:
  assumes "option_ok t" and "pre = [] \<or> pre = '',''"
  shows "sun_options (pre @ t @ comma_tail ts) o1 = sun_options (comma_tail ts) (sun_option (t @ comma_tail ts) t o1)"
proof -
  have t: "t \<noteq> []" "CHR '','' \<notin> set t" using assms(1) by (auto simp: option_ok_def)
  have hd: "hd t \<noteq> CHR '',''" using t by (metis hd_in_set)
  have dw: "dropWhile (\<lambda>c. c = CHR '','') (pre @ t @ comma_tail ts) = t @ comma_tail ts"
    using assms(2) t(1) hd by (cases t) auto
  have tw: "takeWhile (\<lambda>c. c \<noteq> CHR '','') (t @ comma_tail ts) = t"
    using t(2) by (cases ts) (auto simp: takeWhile_append takeWhile_eq_all_conv)
  show ?thesis
    by (subst sun_options.simps) (use t(1) dw tw in \<open>simp add: Let_def\<close>)
qed

lemma sun_options_run:
  assumes "\<forall>t \<in> set ts. option_ok t"
  shows "sun_options (comma_tail ts) o1 = run_options ts o1"
  using assms
proof (induction ts arbitrary: o1)
  case Nil
  show ?case by (simp add: sun_options.simps)
next
  case (Cons t ts)
  have "comma_tail ts = [] \<or> hd (comma_tail ts) = CHR '',''" "cstr_hd (comma_tail ts) = (if ts = [] then NUL else CHR '','')"
    by (cases ts; simp)+
  with sun_options_token [of t "'',''" ts o1] sun_option_token [of t "comma_tail ts" o1] Cons show ?case by simp
qed


abbreviation others :: "string list \<Rightarrow> string list" where
  "others ts \<equiv> filter (\<lambda>t. \<not> is_fstype t) ts"

definition last_fstype :: "string list \<Rightarrow> string" where
  "last_fstype ts = (case rev (filter is_fstype ts) of [] \<Rightarrow> ''nfs'' | t # _ \<Rightarrow> drop 7 t)"

lemma run_options_no_others: "others ts = [] \<Longrightarrow> so_options (run_options ts o1) = so_options o1"
  by (induction ts arbitrary: o1) (auto split: if_splits)

lemma run_options_butlast:
  "others ts \<noteq> [] \<Longrightarrow> butlast (so_options (run_options ts o1)) = so_options o1 @ commas (others ts)"
proof (induction ts arbitrary: o1)
  case (Cons t ts)
  show ?case
  proof (cases "is_fstype t")
    case True
    then show ?thesis using Cons by simp
  next
    case False
    show ?thesis
    proof (cases "others ts")
      case Nil
      then show ?thesis using False by (simp add: run_options_no_others butlast_append)
    next
      case (Cons u us)
      then have "ts \<noteq> []" by auto
      then show ?thesis using False Cons.IH Cons by simp
    qed
  qed
qed simp

lemma run_options_rest [simp]:
  "so_nonstrict (run_options ts o1) = so_nonstrict o1" "so_weight (run_options ts o1) = so_weight o1"
  by (induction ts arbitrary: o1) auto

lemma run_options_fstype:
  "so_fstype (run_options ts o1) = (if filter is_fstype ts = [] then so_fstype o1 else last_fstype ts)"
proof (induction ts arbitrary: o1)
  case (Cons t ts)
  then show ?case by (cases "rev (filter is_fstype ts)") (auto simp: last_fstype_def)
qed simp

lemma option_ok_commas: "\<forall>t \<in> set ts. option_ok t \<Longrightarrow> NUL \<notin> set (commas ts) \<and> (commas ts = [] \<longleftrightarrow> ts = [])"
  by (induction ts rule: commas.induct) (auto simp: option_ok_def NUL_def)

lemma sun_options_commas:
  assumes "\<forall>t \<in> set ts. option_ok t"
  shows "sun_options (commas ts) o1 = run_options ts o1"
proof (cases ts)
  case Nil
  then show ?thesis by (simp add: sun_options.simps)
next
  case (Cons t us)
  have "comma_tail us = [] \<or> hd (comma_tail us) = CHR '',''" "cstr_hd (comma_tail us) = (if us = [] then NUL else CHR '','')"
    by (cases us; simp)+
  with sun_options_token [of t "[]" us o1] sun_option_token [of t "comma_tail us" o1] sun_options_run [of us] assms
  show ?thesis by (simp add: Cons commas_tail)
qed

lemma sun_noptions_run:
  assumes "\<forall>t \<in> set ts. option_ok t" and "so_options o1 = []"
  shows "sun_noptions (run_options ts o1) = commas (others ts)"
proof (cases "others ts = []")
  case True
  then show ?thesis using run_options_no_others [OF True, of o1] assms(2) by (simp add: sun_noptions_def)
next
  case False
  have "NUL \<notin> set (commas (others ts))" using option_ok_commas [of "others ts"] assms(1) by auto
  then show ?thesis using run_options_butlast [OF False, of o1] assms(2)
    by (auto simp: sun_noptions_def takeWhile_eq_all_conv)
qed

text \<open>
  for a location and a list of ordinary options and file system types, separated by commas,
  \<open>sun_mount\<close> calls the NFS module or the generic mount routine with the last file system type
  named (nfs when there is none), with the other options in their order, and for a file system
  that is not NFS without the colon in front of a local path.
\<close>

theorem sun_mount_call:
  assumes "\<forall>t \<in> set ts. option_ok t" and "malloc m = (True, m1)"
  shows "sun_mount False False None loc (commas ts) m =
    (Inr (Some
       \<lparr>mc_nfs = last_fstype ts \<in> {''nfs'', ''nfs4''},
        mc_what = (if last_fstype ts \<in> {''nfs'', ''nfs4''} then Some loc
                   else if loc = [] then None else Some (if hd loc = CHR '':'' then tl loc else loc)),
        mc_fstype = last_fstype ts,
        mc_options = (if ts = [] then None else Some (commas (others ts))),
        mc_nonstrict = True\<rparr>), m1)"
proof -
  define o0 where "o0 = \<lparr>so_fstype = ''nfs'', so_nonstrict = True, so_weight = WEIGHT_UNSET, so_options = []\<rparr>"
  have o0: "so_fstype o0 = ''nfs''" "so_nonstrict o0" "so_weight o0 = WEIGHT_UNSET" "so_options o0 = []"
    by (simp_all add: o0_def)
  have fs: "so_fstype (run_options ts o0) = last_fstype ts"
    using run_options_fstype [of ts o0] o0 by (simp add: last_fstype_def)
  have sw: "sun_weight WEIGHT_UNSET x = Inr x" for x by (simp add: sun_weight_def)
  have sm: "sun_hosts False (sun_macros f None x) = x" for f x by (simp add: sun_macros_def sun_hosts_def)
  have e: "commas ts = [] \<longleftrightarrow> ts = []" using option_ok_commas [OF assms(1)] by simp
  have start: "(if False then WEIGHT_USE else WEIGHT_UNSET) = WEIGHT_UNSET" by simp
  show ?thesis
    unfolding sun_mount_def start o0_def [symmetric] Let_def sun_options_commas [OF assms(1)]
      sun_noptions_run [OF assms(1) o0(4)] sm fs e run_options_rest o0 sw assms(2)
    using o0(2) by (simp split: if_split)
qed

theorem sun_mount_call_witness:
  "sun_mount False False None '':/dev/sdb1'' ''ro,fstype=ext4,noatime'' [] =
     (Inr (Some \<lparr>mc_nfs = False, mc_what = Some ''/dev/sdb1'', mc_fstype = ''ext4'', mc_options = Some ''ro,noatime'',
                 mc_nonstrict = True\<rparr>), [])"
  using sun_mount_call [of "[''ro'', ''fstype=ext4'', ''noatime'']" "[]" "[]" "'':/dev/sdb1''"]
  by (simp add: option_ok_def pseudo_options_def begins_def last_fstype_def NUL_def)


text \<open>
  the buffer for the weight option is one byte too short for \<open>no-use-weight-only\<close>: an NFS
  mount with this option and any other ordinary one writes past it.
\<close>

theorem sun_weight_overruns:
  "options \<noteq> [] \<Longrightarrow> sun_weight WEIGHT_NO (Some options) = Inl SUN_OVERRUN
     \<and> sun_weight WEIGHT_USE (Some options) = Inr (Some (options @ '',use-weight-only''))"
  by (simp add: sun_weight_def empty_opt_def)

theorem sun_weight_overruns_witness:
  "fst (sun_mount False False None ''srv:/home'' ''ro,no-use-weight-only'' []) = Inl SUN_OVERRUN"
  using sun_weight_overruns [of "''ro''"]
  by (simp add: sun_mount_def sun_options.simps sun_option_def strncmp_full_def strncmp_eq_def sun_noptions_def
      sun_macros_def sun_hosts_def Let_def empty_opt_def NUL_def)

section \<open>Offsets\<close>

lemma trim_offset_le: "trim_offset s n \<le> n"
proof (induction n)
  case (Suc n)
  then show ?case by simp
qed simp

lemma offset_mapent_length:
  "length (offset_mapent myoptions loc) \<le>
     (case loc of None \<Rightarrow> 0 | Some l \<Rightarrow> length l) + (if myoptions \<noteq> [] then length myoptions + 2 else 0)"
  by (auto simp: offset_mapent_def split: option.splits)

lemma add_offset_mset: "mset (add_offset new offsets) = add_mset new (mset offsets)"
proof (cases "dropWhile (\<lambda>this. \<not> snd new \<ge> snd this) (rev offsets)")
  case Nil
  show ?thesis unfolding add_offset_def Let_def Nil by simp
next
  case (Cons this prev)
  have "mset offsets = mset (takeWhile (\<lambda>this. \<not> snd new \<ge> snd this) (rev offsets)) + mset (this # prev)"
    by (metis Cons mset_append mset_rev takeWhile_dropWhile_id)
  then show ?thesis by (simp add: add_offset_def Let_def Cons)
qed

text \<open>
  \<open>update_offset_entry\<close> puts an offset whose length lies strictly between those of others in front
  of the next shorter one, so that a list of offsets ordered by length does not stay ordered.
\<close>

theorem add_offset_unordered:
  assumes "sorted (map snd offsets)" and "x \<in> set offsets" "snd x < snd new" and "y \<in> set offsets" "snd new < snd y"
    and "snd new \<notin> snd ` set offsets"
  shows "\<not> sorted (map snd (add_offset new offsets))"
proof -
  let ?P = "\<lambda>this. \<not> snd new \<ge> snd (this :: addr \<times> nat)"
  obtain this prev where rest: "dropWhile ?P (rev offsets) = this # prev"
    using assms(2,3) by (cases "dropWhile ?P (rev offsets)") (auto simp: dropWhile_eq_Nil_conv)
  have "this \<in> set offsets" by (metis rest list.set_intros(1) set_dropWhileD set_rev)
  moreover have "\<not> ?P this" using hd_dropWhile [of ?P "rev offsets"] rest by auto
  ultimately have less: "snd this < snd new" using assms(6) by (metis image_eqI le_neq_implies_less)
  have "offsets \<noteq> []" using assms(2) by auto
  then have "snd y \<le> snd (List.last offsets)"
    using assms(1,4) by (induction offsets) (auto split: if_splits)
  then have "?P (hd (rev offsets))" using assms(5) \<open>offsets \<noteq> []\<close> by (simp add: hd_rev)
  then have "takeWhile ?P (rev offsets) \<noteq> []" using \<open>offsets \<noteq> []\<close> by (cases "rev offsets") auto
  then have "add_offset new offsets = rev prev @ [new, this] @ rev (takeWhile ?P (rev offsets))"
    by (simp add: add_offset_def Let_def rest)
  then show ?thesis using less by (simp add: sorted_append)
qed

theorem add_offset_unordered_witness:
  "add_offset (7, 3) [(8, 1), (9, 5)] = [(7, 3), (8, 1), (9, 5)]
     \<and> \<not> sorted (map snd (add_offset (7, 3) [(8, 1), (9, 5)]))"
proof
  show "\<not> sorted (map snd (add_offset (7, 3) [(8, 1), (9, 5)]))"
    by (rule add_offset_unordered [where x = "(8, 1)" and y = "(9, 5)"]) simp_all
qed (simp add: add_offset_def)

end
