(* ===== verification/Mount_Tree.thy ===== *)
theory Mount_Tree
  imports Cache_Props "HOL-Library.Tree_Multiset" "HOL-Library.List_Lexorder" "HOL-Library.Char_ord"
begin

text \<open>
  The binary trees of \<^verbatim>\<open>lib/mounts.c\<close>, which order mounts for expiry, the exports of a host and the
  offsets of a multi-mount. A tree holds elements; the comparison is the argument that
  \<^verbatim>\<open>struct tree_ops\<close> carries in the code. The locale \<open>tree_order\<close> has what the routines rely on,
  and the comparisons of the file satisfy it (that of mounts in the theory \<open>Mnts\<close>).
\<close>

section \<open>Trees\<close>

definition tree_root :: "'a \<Rightarrow> 'a tree" where
  "tree_root ptr = Node Leaf ptr Leaf"

text \<open>
  \<open>tree_add_node\<close>: the walk goes left for a negative result of the comparison, right for a
  positive one and ends at an element that compares equal, which is kept.
\<close>

fun tree_add_node :: "('a \<Rightarrow> 'a \<Rightarrow> int) \<Rightarrow> 'a tree \<Rightarrow> 'a \<Rightarrow> 'a tree" where
  "tree_add_node cmp Leaf ptr = tree_root ptr"
| "tree_add_node cmp (Node l n r) ptr =
     (let eq = cmp n ptr
      in if eq = 0 then Node l n r
         else if eq < 0 then Node (tree_add_node cmp l ptr) n r
         else Node l n (tree_add_node cmp r ptr))"

lemma tree_add_node_set: "set_tree (tree_add_node cmp t x) \<subseteq> insert x (set_tree t)"
  by (induction t) (auto simp: tree_root_def Let_def)

lemma tree_add_all_set: "set_tree (fold (\<lambda>x t. tree_add_node cmp t x) xs t) \<subseteq> set xs \<union> set_tree t"
proof (induction xs arbitrary: t)
  case (Cons x xs)
  with tree_add_node_set [of cmp t x] show ?case by fastforce
qed simp

text \<open>\<open>tree_traverse_inorder\<close>: the work function may end the traversal by returning 0.\<close>

fun tree_traverse_inorder :: "('a \<Rightarrow> 's \<Rightarrow> bool \<times> 's) \<Rightarrow> 'a tree \<Rightarrow> 's \<Rightarrow> bool \<times> 's" where
  "tree_traverse_inorder work Leaf s = (True, s)"
| "tree_traverse_inorder work (Node l n r) s =
     (case (if l = Leaf then (True, s) else tree_traverse_inorder work l s) of
        (False, s1) \<Rightarrow> (False, s1)
      | (True, s1) \<Rightarrow>
          (case work n s1 of
             (False, s2) \<Rightarrow> (False, s2)
           | (True, s2) \<Rightarrow> if r = Leaf then (True, s2) else tree_traverse_inorder work r s2))"

text \<open>A traversal in order as a walk over the list of elements.\<close>

fun work_list :: "('a \<Rightarrow> 's \<Rightarrow> bool \<times> 's) \<Rightarrow> 'a list \<Rightarrow> 's \<Rightarrow> bool \<times> 's" where
  "work_list work [] s = (True, s)"
| "work_list work (x # xs) s = (case work x s of (False, s1) \<Rightarrow> (False, s1) | (True, s1) \<Rightarrow> work_list work xs s1)"

lemma work_list_append:
  "work_list work (xs @ ys) s = (case work_list work xs s of (False, s1) \<Rightarrow> (False, s1) | (True, s1) \<Rightarrow> work_list work ys s1)"
  by (induction xs arbitrary: s) (auto split: prod.splits bool.splits)

lemma tree_traverse_inorder_list: "tree_traverse_inorder work t s = work_list work (inorder t) s"
  by (induction t arbitrary: s) (auto simp: work_list_append split: prod.splits bool.splits)

lemma work_list_total: "(\<And>x s. work x s = (True, f x s)) \<Longrightarrow> work_list work xs s = (True, fold f xs s)"
  by (induction xs arbitrary: s) auto

section \<open>The order of a tree\<close>

text \<open>
  \<open>ident\<close> tells which elements compare equal and \<open>rank\<close> which of two others is the smaller one;
  elements of the same rank may be different.
\<close>

locale tree_order =
  fixes cmp :: "'a \<Rightarrow> 'a \<Rightarrow> int"
    and valid :: "'a \<Rightarrow> bool"
    and ident :: "'a \<Rightarrow> 'i"
    and rank :: "'a \<Rightarrow> 'r::linorder"
  assumes cmp_zero: "valid n \<Longrightarrow> valid x \<Longrightarrow> cmp n x = 0 \<longleftrightarrow> ident x = ident n"
    and cmp_less: "valid n \<Longrightarrow> valid x \<Longrightarrow> cmp n x < 0 \<longleftrightarrow> ident x \<noteq> ident n \<and> rank x < rank n"
    and ident_rank: "valid n \<Longrightarrow> valid x \<Longrightarrow> ident x = ident n \<Longrightarrow> rank x = rank n"
begin

fun ordered :: "'a tree \<Rightarrow> bool" where
  "ordered Leaf = True"
| "ordered (Node l n r) \<longleftrightarrow>
     ordered l \<and> ordered r \<and> valid n \<and> (\<forall>x \<in> set_tree l. rank x < rank n) \<and> (\<forall>x \<in> set_tree r. rank n \<le> rank x)
     \<and> (\<forall>x \<in> set_tree r. ident x \<noteq> ident n)"

lemma ordered_valid: "ordered t \<Longrightarrow> x \<in> set_tree t \<Longrightarrow> valid x"
  by (induction t) auto

lemma ordered_root: "valid x \<Longrightarrow> ordered (tree_root x)"
  by (simp add: tree_root_def)

lemma cmp_cases:
  assumes "valid n" "valid x"
  obtains (same) "cmp n x = 0" "ident x = ident n"
    | (left) "cmp n x < 0" "rank x < rank n" "ident x \<noteq> ident n"
    | (right) "cmp n x > 0" "rank n \<le> rank x" "ident x \<noteq> ident n"
  using cmp_zero [OF assms] cmp_less [OF assms] by (metis linorder_cases not_le)

lemma ident_fresh: "ordered u \<Longrightarrow> valid x \<Longrightarrow> (\<And>y. y \<in> set_tree u \<Longrightarrow> rank x \<noteq> rank y) \<Longrightarrow> ident x \<notin> ident ` set_tree u"
  using ident_rank ordered_valid by blast

lemma add_elements:
  assumes "ordered t" "valid x"
  shows "mset_tree (tree_add_node cmp t x) = (if ident x \<in> ident ` set_tree t then mset_tree t else add_mset x (mset_tree t))"
  using assms(1)
proof (induction t)
  case Leaf
  show ?case by (simp add: tree_root_def)
next
  case (Node l n r)
  have n: "valid n" using Node.prems by simp
  from n assms(2) show ?case
  proof (cases rule: cmp_cases)
    case left
    moreover have "ident x \<notin> ident ` set_tree r" using Node.prems left(2) by (intro ident_fresh [OF _ assms(2)]) auto
    ultimately show ?thesis using Node by auto
  next
    case right
    moreover have "ident x \<notin> ident ` set_tree l" using Node.prems right(2) by (intro ident_fresh [OF _ assms(2)]) auto
    ultimately show ?thesis using Node by auto
  qed simp
qed

lemma add_ordered:
  assumes "ordered t" "valid x"
  shows "ordered (tree_add_node cmp t x)"
  using assms(1)
proof (induction t)
  case Leaf
  show ?case using assms(2) by (simp add: ordered_root)
next
  case (Node l n r)
  have n: "valid n" using Node.prems by simp
  have set: "set_tree (tree_add_node cmp u x) \<subseteq> insert x (set_tree u)" if "ordered u" for u
    using add_elements [OF that assms(2)] by (metis eq_iff set_mset_add_mset_insert set_mset_tree subset_insertI)
  from n assms(2) show ?case
  proof (cases rule: cmp_cases)
    case left
    with Node set [of l] show ?thesis by auto
  next
    case right
    with Node set [of r] show ?thesis by auto
  qed (use Node in simp)
qed

lemma ordered_sorted: "ordered t \<Longrightarrow> sorted (map rank (inorder t))"
proof (induction t)
  case (Node l n r)
  then have "\<forall>x \<in> set_tree l. \<forall>y \<in> set_tree r. rank x \<le> rank y" by fastforce
  with Node show ?case by (auto simp: sorted_append less_imp_le)
qed simp

lemma ordered_distinct: "ordered t \<Longrightarrow> distinct (map ident (inorder t))"
proof (induction t)
  case (Node l n r)
  then have l: "ordered l" and n: "valid n" and r: "ordered r" by auto
  have "ident n \<notin> ident ` set_tree l" using Node.prems by (intro ident_fresh [OF l n]) auto
  moreover have "ident ` set_tree l \<inter> ident ` set_tree r = {}"
  proof -
    have "ident x \<noteq> ident y" if "x \<in> set_tree l" "y \<in> set_tree r" for x y
    proof -
      have "rank x \<noteq> rank y" using Node.prems that by fastforce
      with ident_rank [of y x] ordered_valid [OF l that(1)] ordered_valid [OF r that(2)] show ?thesis by blast
    qed
    then show ?thesis by fast
  qed
  ultimately show ?case using Node by auto
qed simp

text \<open>Adding a list of elements to a tree, as the loops over lists do.\<close>

lemma add_all_ordered:
  "ordered t \<Longrightarrow> \<forall>x \<in> set xs. valid x \<Longrightarrow> ordered (fold (\<lambda>x t. tree_add_node cmp t x) xs t)"
  by (induction xs arbitrary: t) (auto intro: add_ordered)

lemma add_all_idents:
  assumes "ordered t" "\<forall>x \<in> set xs. valid x"
  shows "ident ` set_tree (fold (\<lambda>x t. tree_add_node cmp t x) xs t) = ident ` set xs \<union> ident ` set_tree t
    \<and> mset_tree (fold (\<lambda>x t. tree_add_node cmp t x) xs t) \<subseteq># mset xs + mset_tree t"
  using assms
proof (induction xs arbitrary: t)
  case (Cons x xs)
  let ?t = "tree_add_node cmp t x"
  have el: "mset_tree ?t = (if ident x \<in> ident ` set_tree t then mset_tree t else add_mset x (mset_tree t))"
    using add_elements [of t x] Cons.prems by simp
  then have "ident ` set_tree ?t = insert (ident x) (ident ` set_tree t)"
    by (metis image_insert insert_absorb set_mset_add_mset_insert set_mset_tree)
  moreover have "mset_tree ?t \<subseteq># add_mset x (mset_tree t)" using el by simp
  ultimately show ?case
    using Cons.IH [of ?t] Cons.prems add_ordered [of t x] by (auto intro: subset_mset.order_trans)
qed simp

lemma add_all_elements:
  assumes "ordered t" "\<forall>x \<in> set xs. valid x" "distinct (map ident xs)" "ident ` set xs \<inter> ident ` set_tree t = {}"
  shows "mset_tree (fold (\<lambda>x t. tree_add_node cmp t x) xs t) = mset xs + mset_tree t"
  using assms
proof (induction xs arbitrary: t)
  case (Cons x xs)
  have mt: "mset_tree (tree_add_node cmp t x) = add_mset x (mset_tree t)" using add_elements [of t x] Cons.prems by auto
  then have "set_tree (tree_add_node cmp t x) = insert x (set_tree t)" by (metis set_mset_add_mset_insert set_mset_tree)
  with Cons.prems Cons.IH [of "tree_add_node cmp t x"] add_ordered mt show ?case by (auto simp: image_iff)
qed simp

end


section \<open>Mounts, exports and offsets\<close>

text \<open>\<open>strcmp\<close> on C strings, by the first characters that differ.\<close>

fun strcmp :: "string \<Rightarrow> string \<Rightarrow> int" where
  "strcmp [] [] = 0"
| "strcmp [] (d # ds) = - of_char d"
| "strcmp (c # cs) [] = of_char c"
| "strcmp (c # cs) (d # ds) = (if c = d then strcmp cs ds else of_char c - of_char d)"

text \<open>
  The comparisons get the element of a node and a new element. Exports are kept by the lengths of
  their paths, as mounts are.
\<close>

definition tree_host_cmp :: "string \<Rightarrow> string \<Rightarrow> int" where
  "tree_host_cmp n_dir dir = (if strcmp dir n_dir = 0 then 0 else if length dir < length n_dir then -1 else 1)"

definition tree_mapent_cmp :: "mapent \<Rightarrow> mapent \<Rightarrow> int" where
  "tree_mapent_cmp n_me me =
     (if strncmp_eq (me_key me) (me_key n_me) (me_len n_me) \<and> me_len me < me_len n_me then -1
      else if strncmp_eq (me_key me) (me_key n_me) (me_len n_me) \<and> me_len me > me_len n_me then 1
      else strcmp (me_key me) (me_key n_me))"

lemma of_char_pos: "c \<noteq> NUL \<Longrightarrow> (of_char c :: int) > 0"
proof -
  assume "c \<noteq> NUL"
  then have "(of_char c :: nat) \<noteq> of_char NUL" by simp
  then have "(of_char c :: nat) > 0" by (simp add: NUL_def)
  then show ?thesis by (metis of_nat_0_less_iff of_nat_of_char)
qed

lemma of_char_less_int: "(of_char c :: int) < of_char d \<longleftrightarrow> c < d"
  by (metis less_char_def of_nat_less_iff of_nat_of_char)

lemma of_char_NUL [simp]: "(of_char c :: int) = 0 \<longleftrightarrow> c = NUL" "0 < (of_char c :: int) \<longleftrightarrow> c \<noteq> NUL" "\<not> (of_char c :: int) < 0"
  using of_char_pos [of c] by (cases "c = NUL"; simp add: NUL_def)+

lemma strcmp_zero: "cstring s \<Longrightarrow> cstring t \<Longrightarrow> strcmp s t = 0 \<longleftrightarrow> s = t"
  by (induction s t rule: strcmp.induct) (auto simp: cstring_def)

lemma strcmp_less: "cstring s \<Longrightarrow> cstring t \<Longrightarrow> strcmp s t < 0 \<longleftrightarrow> s < t"
  by (induction s t rule: strcmp.induct)
    (auto simp: cstring_def of_char_less_int)

lemma strncmp_key: "strncmp_eq k n (length n) \<longleftrightarrow> take (length n) k = n"
  by (simp add: strncmp_eq_def)

text \<open>The comparison of offsets is that of their keys: the tests of the lengths change no result.\<close>

lemma tree_mapent_cmp_sgn:
  assumes "me_len n = length (me_key n)" "me_len x = length (me_key x)" "cstring (me_key n)" "cstring (me_key x)"
  shows "sgn (tree_mapent_cmp n x) = sgn (strcmp (me_key x) (me_key n))"
proof (cases "take (length (me_key n)) (me_key x) = me_key n")
  case True
  then have le: "length (me_key n) \<le> length (me_key x)" by (metis length_take min.absorb_iff2 nat_le_linear)
  obtain r where x: "me_key x = me_key n @ r" by (metis True append_take_drop_id)
  have "strcmp (k @ r) k > 0" if "r \<noteq> []" "cstring r" for k
    using that by (induction k) (cases r; auto simp: cstring_def)+
  moreover have "cstring r" using assms(4) x by (auto simp: cstring_def)
  ultimately have "r \<noteq> [] \<Longrightarrow> strcmp (me_key x) (me_key n) > 0" by (simp add: x)
  moreover have "me_len x > me_len n \<longleftrightarrow> r \<noteq> []" using assms(1,2) x by simp
  ultimately show ?thesis using assms(1,2) le True by (auto simp: tree_mapent_cmp_def strncmp_key)
next
  case False
  then show ?thesis using assms(1) by (simp add: tree_mapent_cmp_def strncmp_key)
qed

lemma mapent_cmp_cases:
  assumes "me_len n = length (me_key n) \<and> cstring (me_key n)" "me_len x = length (me_key x) \<and> cstring (me_key x)"
  shows "tree_mapent_cmp n x = 0 \<longleftrightarrow> me_key x = me_key n" "tree_mapent_cmp n x < 0 \<longleftrightarrow> me_key x < me_key n"
  using tree_mapent_cmp_sgn [of n x] strcmp_zero [of "me_key x" "me_key n"] strcmp_less [of "me_key x" "me_key n"] assms
  by (metis sgn_eq_0_iff, metis sgn_less)

interpretation host_tree: tree_order tree_host_cmp cstring id length
  by unfold_locales (auto simp: tree_host_cmp_def strcmp_zero)

interpretation mapent_tree: tree_order tree_mapent_cmp "\<lambda>me. me_len me = length (me_key me) \<and> cstring (me_key me)" me_key me_key
  by unfold_locales (auto simp: mapent_cmp_cases)

section \<open>The exports of a host\<close>

text \<open>
  \<open>get_exports\<close> of \<^verbatim>\<open>modules/lookup_hosts.c\<close>: the entry for a host, made of the directories it
  exports. \<open>exports\<close> is what the RPC call returned; \<open>Inl\<close> is a write behind the buffer.
\<close>

definition quoted_export :: "string \<Rightarrow> string \<Rightarrow> string" where
  "quoted_export host dir = [DQUOTE] @ dir @ [DQUOTE, CHR '' '', DQUOTE] @ host @ '':'' @ dir @ [DQUOTE]"

definition tree_host_work :: "string \<Rightarrow> string \<Rightarrow> string \<Rightarrow> bool \<times> string" where
  "tree_host_work host dir mapent =
     (True, if mapent = [] then quoted_export host dir else mapent @ '' '' @ quoted_export host dir)"

definition export_tree :: "string list \<Rightarrow> string tree" where
  "export_tree exports =
     (case exports of [] \<Rightarrow> Leaf | exp # rest \<Rightarrow> fold (\<lambda>this t. tree_add_node tree_host_cmp t this) rest (tree_root exp))"

definition exports_len :: "string \<Rightarrow> string list \<Rightarrow> nat" where
  "exports_len host exports = sum_list (map (\<lambda>dir. length host + 2 * (length dir + 2) + 3) exports)"

definition get_exports :: "string \<Rightarrow> string list \<Rightarrow> mem \<Rightarrow> (unit + string option) \<times> mem" where
  "get_exports host exports m =
     (case malloc m of
        (False, m1) \<Rightarrow> (Inr None, m1)
      | (True, m1) \<Rightarrow>
          (if exports = [] then Inr None
           else
             (let mapent = snd (tree_traverse_inorder (tree_host_work host) (export_tree exports) [])
              in if length mapent + 1 > exports_len host exports + 1 then Inl () else Inr (Some mapent)), m1))"


lemma fold_host_work:
  "\<exists>rest. fold (\<lambda>d mp. snd (tree_host_work host d mp)) (d # ds) [] = quoted_export host d @ rest
     \<and> length (quoted_export host d @ rest) + 1 \<le> exports_len host (d # ds)
     \<and> quoted_export host d @ rest = quoted_export host d @ concat (map (\<lambda>d. '' '' @ quoted_export host d) ds)"
proof -
  have step: "fold (\<lambda>d mp. snd (tree_host_work host d mp)) ds mp = mp @ concat (map (\<lambda>d. '' '' @ quoted_export host d) ds)"
    if "mp \<noteq> []" for mp
    using that by (induction ds arbitrary: mp) (simp_all add: tree_host_work_def)
  have "length (concat (map (\<lambda>d. '' '' @ quoted_export host d) ds)) = exports_len host ds"
    by (induction ds) (auto simp: exports_len_def quoted_export_def)
  with step [of "quoted_export host d"] show ?thesis
    by (simp add: tree_host_work_def quoted_export_def exports_len_def)
qed

definition join_exports :: "string \<Rightarrow> string list \<Rightarrow> string" where
  "join_exports host dirs = tl (concat (map (\<lambda>d. '' '' @ quoted_export host d) dirs))"

lemma export_tree_ordered: "\<forall>d \<in> set exports. cstring d \<Longrightarrow> host_tree.ordered (export_tree exports)"
  by (cases exports) (auto simp: export_tree_def intro!: host_tree.add_all_ordered host_tree.ordered_root)

lemma exports_len_sum: "exports_len h xs = (\<Sum>d \<in># mset xs. length h + 2 * (length d + 2) + 3)"
  by (induction xs) (simp_all add: exports_len_def)

lemma exports_len_mset: "mset xs \<subseteq># mset ys \<Longrightarrow> exports_len h xs \<le> exports_len h ys"
proof -
  assume "mset xs \<subseteq># mset ys"
  then obtain zs where "mset ys = mset (xs @ zs)" by (metis ex_mset mset_append subset_mset.le_iff_add)
  then have "exports_len h ys = exports_len h (xs @ zs)" by (simp add: exports_len_sum)
  then show ?thesis by (simp add: exports_len_def)
qed


lemma export_tree_elements:
  assumes "\<forall>d \<in> set exports. cstring d"
  shows "set (inorder (export_tree exports)) = set exports" "mset (inorder (export_tree exports)) \<subseteq># mset exports"
proof -
  show "set (inorder (export_tree exports)) = set exports"
    using assms host_tree.add_all_idents [of "tree_root (hd exports)" "tl exports"]
    by (cases exports) (auto simp: export_tree_def tree_root_def)
  show "mset (inorder (export_tree exports)) \<subseteq># mset exports"
    using assms host_tree.add_all_idents [of "tree_root (hd exports)" "tl exports"]
    by (cases exports) (auto simp: export_tree_def tree_root_def)
qed

text \<open>
  the entry that \<open>get_exports\<close> makes for a host names every exported directory once, however
  often the server lists it, in the order of the lengths of the paths, and fits the buffer whose
  size was computed beforehand.
\<close>

theorem get_exports_ordered:
  assumes "\<forall>d \<in> set exports. cstring d" and "exports \<noteq> []" and "malloc m = (True, m1)"
  shows "\<exists>dirs. get_exports host exports m = (Inr (Some (join_exports host dirs)), m1)
    \<and> set dirs = set exports \<and> distinct dirs \<and> sorted (map length dirs)"
proof -
  let ?dirs = "inorder (export_tree exports)"
  note el = export_tree_elements [OF assms(1)]
  obtain d ds where ds: "?dirs = d # ds" using el(1) assms(2) by (cases ?dirs) auto
  let ?text = "snd (tree_traverse_inorder (tree_host_work host) (export_tree exports) [])"
  have "?text = fold (\<lambda>d mp. snd (tree_host_work host d mp)) (d # ds) []"
    unfolding tree_traverse_inorder_list ds
    by (subst work_list_total [where f = "\<lambda>d mp. snd (tree_host_work host d mp)"]) (simp_all add: tree_host_work_def)
  then have tx: "?text = join_exports host ?dirs" "length ?text + 1 \<le> exports_len host ?dirs"
    using fold_host_work [of host d ds] by (auto simp: join_exports_def ds)
  have "exports_len host ?dirs \<le> exports_len host exports" using el(2) by (rule exports_len_mset)
  then have "get_exports host exports m = (Inr (Some (join_exports host ?dirs)), m1)"
    using tx assms(2,3) by (simp add: get_exports_def Let_def)
  moreover have "distinct ?dirs" "sorted (map length ?dirs)"
    using host_tree.ordered_distinct host_tree.ordered_sorted export_tree_ordered [OF assms(1)] by auto
  ultimately show ?thesis using el(1) by blast
qed

theorem get_exports_ordered_witness:
  "get_exports ''srv'' [''/usr/share'', ''/usr'', ''/usr/share''] [] =
     (Inr (Some (join_exports ''srv'' [''/usr'', ''/usr/share''])), [])"
proof -
  obtain dirs where d: "get_exports ''srv'' [''/usr/share'', ''/usr'', ''/usr/share''] [] = (Inr (Some (join_exports ''srv'' dirs)), [])"
    "set dirs = {''/usr/share'', ''/usr''}" "distinct dirs" "sorted (map length dirs)"
    using get_exports_ordered [of "[''/usr/share'', ''/usr'', ''/usr/share'']" "[]" "[]" "''srv''"]
    by (auto simp: cstring_def NUL_def)
  have "length dirs = 2" using distinct_card [OF d(3)] d(2) by simp
  then obtain a b where "dirs = [a, b]" by (auto simp: length_Suc_conv numeral_2_eq_2)
  with d have "dirs = [''/usr'', ''/usr/share'']" by (auto simp: doubleton_eq_iff)
  with d(1) show ?thesis by simp
qed

end
