(* ===== verification/Mnts.thy ===== *)
theory Mnts
  imports Mount_Tree
begin

text \<open>
  The tables of mounts of \<^verbatim>\<open>lib/mounts.c\<close>: the external mounts of amd maps and the mounts and submounts
  of the mount points, both hash tables of counted references. A mount is known by its address
  (\<open>mn_id\<close>); the lists of a mount point that hold mounts are lists of pairs of the mount point and
  the mount. \<open>len\<close> is the length of the path. An address that is not in the table has been freed.
\<close>

section \<open>Reference counts\<close>

text \<open>The counts are \<open>unsigned int\<close>; in the model their values.\<close>

definition ref_inc :: "nat \<Rightarrow> nat" where
  "ref_inc r = unat ((of_nat r :: u32) + 1)"

definition ref_dec :: "nat \<Rightarrow> nat" where
  "ref_dec r = unat ((of_nat r :: u32) - 1)"

lemma ref_inc_less [simp]: "r < 2 ^ 32 - 1 \<Longrightarrow> ref_inc r = r + 1"
proof -
  assume r: "r < 2 ^ 32 - 1"
  have "ref_inc r = unat (of_nat (r + 1) :: u32)" by (simp add: ref_inc_def add.commute)
  also have "\<dots> = (r + 1) mod 2 ^ LENGTH(32)" by (rule unat_of_nat)
  finally show ?thesis using r by simp
qed

lemma ref_dec_less [simp]: "0 < r \<Longrightarrow> r < 2 ^ 32 \<Longrightarrow> ref_dec r = r - 1"
  using unat_of_nat [where 'a = 32, of "r - 1"] by (simp add: ref_dec_def of_nat_diff)

section \<open>External mounts\<close>

record ext_mount =
  em_ref :: nat
  em_mp :: string
  em_umount :: "string option"

type_synonym ext_table = "ext_mount list list"

definition EXT_MOUNTS_SIZE :: u32 where "EXT_MOUNTS_SIZE = 64"

definition ext_bucket :: "string \<Rightarrow> nat" where
  "ext_bucket mp = unat (hash mp EXT_MOUNTS_SIZE)"

definition ext_mount_lookup :: "ext_table \<Rightarrow> string \<Rightarrow> ext_mount option" where
  "ext_mount_lookup t mp = find (\<lambda>this. em_mp this = mp) (t ! ext_bucket mp)"

text \<open>The first entry for a path is changed, or taken off the table.\<close>

fun upd_first :: "('a \<Rightarrow> bool) \<Rightarrow> ('a \<Rightarrow> 'a option) \<Rightarrow> 'a list \<Rightarrow> 'a list" where
  "upd_first P f [] = []"
| "upd_first P f (x # xs) = (if P x then (case f x of None \<Rightarrow> xs | Some y \<Rightarrow> y # xs) else x # upd_first P f xs)"

definition upd_ext :: "string \<Rightarrow> (ext_mount \<Rightarrow> ext_mount option) \<Rightarrow> ext_table \<Rightarrow> ext_table" where
  "upd_ext mp f t = t[ext_bucket mp := upd_first (\<lambda>this. em_mp this = mp) f (t ! ext_bucket mp)]"

definition ext_mount_add :: "ext_table \<Rightarrow> string \<Rightarrow> string option \<Rightarrow> mem \<Rightarrow> bool \<times> ext_table \<times> mem" where
  "ext_mount_add t path umount m =
     (if ext_mount_lookup t path \<noteq> None then (True, upd_ext path (\<lambda>em. Some (em\<lparr>em_ref := ref_inc (em_ref em)\<rparr>)) t, m)
      else
        (case malloc m of
           (False, m1) \<Rightarrow> (False, t, m1)
         | (True, m1) \<Rightarrow>
             (case malloc m1 of
                (False, m2) \<Rightarrow> (False, t, m2)
              | (True, m2) \<Rightarrow>
                  (case (if umount = None then (True, m2) else malloc m2) of
                     (False, m3) \<Rightarrow> (False, t, m3)
                   | (True, m3) \<Rightarrow>
                       (True, t[ext_bucket path := \<lparr>em_ref = 1, em_mp = path, em_umount = umount\<rparr> # t ! ext_bucket path], m3)))))"

definition ext_mount_remove :: "ext_table \<Rightarrow> string \<Rightarrow> bool \<times> ext_table" where
  "ext_mount_remove t path =
     (case ext_mount_lookup t path of
        None \<Rightarrow> (False, t)
      | Some em \<Rightarrow>
          (ref_dec (em_ref em) = 0,
           upd_ext path (\<lambda>em. if ref_dec (em_ref em) \<noteq> 0 then Some (em\<lparr>em_ref := ref_dec (em_ref em)\<rparr>) else None) t))"

definition ext_mount_inuse :: "ext_table \<Rightarrow> string \<Rightarrow> nat" where
  "ext_mount_inuse t path = (case ext_mount_lookup t path of None \<Rightarrow> 0 | Some em \<Rightarrow> em_ref em)"

section \<open>Mounts\<close>

definition MNTS_AUTOFS :: u32 where "MNTS_AUTOFS = 0x0004"
definition MNTS_INDIRECT :: u32 where "MNTS_INDIRECT = 0x0008"
definition MNTS_DIRECT :: u32 where "MNTS_DIRECT = 0x0010"
definition MNTS_OFFSET :: u32 where "MNTS_OFFSET = 0x0020"
definition MNTS_AMD_MOUNT :: u32 where "MNTS_AMD_MOUNT = 0x0040"
definition MNTS_MOUNTED :: u32 where "MNTS_MOUNTED = 0x0080"

record mnt_list =
  mn_id :: addr
  mn_mp :: string
  mn_flags :: u32
  mn_ref :: nat
  mn_ap :: "addr option"
  mn_ext_mp :: "string option"
  mn_amd_pref :: "string option"
  mn_amd_type :: "string option"
  mn_amd_opts :: "string option"
  mn_amd_cache_opts :: u32

text \<open>A mount point, as far as these routines look at it.\<close>

record mpoint =
  pt_addr :: addr
  pt_path :: string
  pt_parent :: addr

record amd_entry =
  ae_path :: string
  ae_fs :: "string option"
  ae_pref :: "string option"
  ae_type :: "string option"
  ae_opts :: "string option"
  ae_cache_opts :: u32

type_synonym link = "addr \<times> addr"

record mnts =
  ms_hash :: "mnt_list list list"
  ms_mounts :: "link list"
  ms_submounts :: "link list"
  ms_amdmounts :: "link list"
  ms_ext :: ext_table
  ms_locked :: bool
  ms_brk :: addr
  ms_mem :: mem

definition MNTS_SIZE :: u32 where "MNTS_SIZE = 128"

definition mnts_bucket :: "string \<Rightarrow> nat" where
  "mnts_bucket mp = unat (hash mp MNTS_SIZE)"

definition mnts_empty :: "mem \<Rightarrow> mnts" where
  "mnts_empty m = \<lparr>ms_hash = replicate 128 [], ms_mounts = [], ms_submounts = [], ms_amdmounts = [],
                   ms_ext = replicate 64 [], ms_locked = False, ms_brk = 0, ms_mem = m\<rparr>"

definition mnts_all :: "mnts \<Rightarrow> mnt_list list" where
  "mnts_all st = concat (ms_hash st)"

definition mnt_at :: "mnts \<Rightarrow> addr \<Rightarrow> mnt_list option" where
  "mnt_at st i = find (\<lambda>m. mn_id m = i) (mnts_all st)"

definition upd_mnt :: "addr \<Rightarrow> (mnt_list \<Rightarrow> mnt_list) \<Rightarrow> mnts \<Rightarrow> mnts" where
  "upd_mnt i f st = st\<lparr>ms_hash := map (map (\<lambda>m. if mn_id m = i then f m else m)) (ms_hash st)\<rparr>"

definition del_mnt :: "addr \<Rightarrow> mnts \<Rightarrow> mnts" where
  "del_mnt i st = st\<lparr>ms_hash := map (filter (\<lambda>m. mn_id m \<noteq> i)) (ms_hash st)\<rparr>"

definition has_flag :: "mnt_list \<Rightarrow> u32 \<Rightarrow> bool" where
  "has_flag m b \<longleftrightarrow> mn_flags m AND b \<noteq> 0"

abbreviation set_flags :: "u32 \<Rightarrow> mnt_list \<Rightarrow> mnt_list" where
  "set_flags b m \<equiv> m\<lparr>mn_flags := mn_flags m OR b\<rparr>"

abbreviation clear_flags :: "u32 \<Rightarrow> mnt_list \<Rightarrow> mnt_list" where
  "clear_flags b m \<equiv> m\<lparr>mn_flags := mn_flags m AND NOT b\<rparr>"

definition on_list :: "addr \<Rightarrow> link list \<Rightarrow> bool" where
  "on_list i l \<longleftrightarrow> i \<in> snd ` set l"

definition list_del :: "addr \<Rightarrow> link list \<Rightarrow> link list" where
  "list_del i l = filter (\<lambda>p. snd p \<noteq> i) l"

definition mnts_lookup :: "mnts \<Rightarrow> string \<Rightarrow> mnt_list option" where
  "mnts_lookup st mp = find (\<lambda>this. mn_mp this = mp \<and> mn_ref this \<noteq> 0) (ms_hash st ! mnts_bucket mp)"

definition get_ref :: "addr \<Rightarrow> mnts \<Rightarrow> mnts" where
  "get_ref i = upd_mnt i (\<lambda>m. m\<lparr>mn_ref := ref_inc (mn_ref m)\<rparr>)"

text \<open>\<open>__mnts_put_mount\<close>: the last reference frees the mount. \<open>None\<close> for a mount that has been freed.\<close>

definition put_ref :: "addr \<Rightarrow> mnts \<Rightarrow> mnts option" where
  "put_ref i st =
     (case mnt_at st i of
        None \<Rightarrow> None
      | Some m \<Rightarrow>
          Some (if ref_dec (mn_ref m) = 0 then del_mnt i st else upd_mnt i (\<lambda>m. m\<lparr>mn_ref := ref_dec (mn_ref m)\<rparr>) st))"

definition mnts_alloc_mount :: "string \<Rightarrow> mnts \<Rightarrow> mnt_list option \<times> mnts" where
  "mnts_alloc_mount mp st =
     (case malloc (ms_mem st) of
        (False, m1) \<Rightarrow> (None, st\<lparr>ms_mem := m1\<rparr>)
      | (True, m1) \<Rightarrow>
          (case malloc m1 of
             (False, m2) \<Rightarrow> (None, st\<lparr>ms_mem := m2\<rparr>)
           | (True, m2) \<Rightarrow>
               (Some \<lparr>mn_id = ms_brk st, mn_mp = mp, mn_flags = 0, mn_ref = 1, mn_ap = None, mn_ext_mp = None,
                      mn_amd_pref = None, mn_amd_type = None, mn_amd_opts = None, mn_amd_cache_opts = 0\<rparr>,
                st\<lparr>ms_brk := ms_brk st + 1, ms_mem := m2\<rparr>)))"

definition mnts_new_mount :: "string \<Rightarrow> mnts \<Rightarrow> addr option \<times> mnts" where
  "mnts_new_mount mp st =
     (case mnts_lookup st mp of
        Some this \<Rightarrow> (Some (mn_id this), get_ref (mn_id this) st)
      | None \<Rightarrow>
          (case mnts_alloc_mount mp st of
             (None, st1) \<Rightarrow> (None, st1)
           | (Some this, st1) \<Rightarrow>
               (Some (mn_id this),
                st1\<lparr>ms_hash := (ms_hash st1)[mnts_bucket mp := this # ms_hash st1 ! mnts_bucket mp]\<rparr>)))"

definition mnts_get_mount :: "string \<Rightarrow> mnts \<Rightarrow> addr option \<times> mnts" where
  "mnts_get_mount mp st =
     (case mnts_lookup st mp of
        Some this \<Rightarrow> (Some (mn_id this), get_ref (mn_id this) st)
      | None \<Rightarrow> mnts_new_mount mp st)"

text \<open>\<open>mnts_lookup_mount\<close>, and the lookups of a submount and of an amd mount, which differ in the flag.\<close>

definition mnts_lookup_mount :: "string \<Rightarrow> mnts \<Rightarrow> addr option \<times> mnts" where
  "mnts_lookup_mount mp st =
     (case mnts_lookup st mp of None \<Rightarrow> (None, st) | Some this \<Rightarrow> (Some (mn_id this), get_ref (mn_id this) st))"

definition mnts_put_mount :: "addr option \<Rightarrow> mnts \<Rightarrow> mnts option" where
  "mnts_put_mount mnt st = (case mnt of None \<Rightarrow> Some st | Some i \<Rightarrow> put_ref i st)"

definition find_flagged :: "u32 \<Rightarrow> string \<Rightarrow> mnts \<Rightarrow> (addr option \<times> mnts) option" where
  "find_flagged b path st =
     (case mnts_lookup_mount path st of
        (mnt, st1) \<Rightarrow>
          if (case mnt of None \<Rightarrow> False | Some i \<Rightarrow> (case mnt_at st1 i of None \<Rightarrow> False | Some m \<Rightarrow> has_flag m b))
          then Some (mnt, st1)
          else map_option (Pair None) (mnts_put_mount mnt st1))"

definition mnts_find_submount :: "string \<Rightarrow> mnts \<Rightarrow> (addr option \<times> mnts) option" where
  "mnts_find_submount = find_flagged MNTS_AUTOFS"

definition mnts_find_amdmount :: "string \<Rightarrow> mnts \<Rightarrow> (addr option \<times> mnts) option" where
  "mnts_find_amdmount = find_flagged MNTS_AMD_MOUNT"

text \<open>
  \<open>mnts_add_submount\<close>. The owners are compared by address; equal ones have equal parents, which
  is the second test of the code. On a conflict the reference is given back and the pointer is
  returned all the same.
\<close>

definition mnts_add_submount :: "mpoint \<Rightarrow> mnts \<Rightarrow> (addr option \<times> mnts) option" where
  "mnts_add_submount ap st =
     (case mnts_get_mount (pt_path ap) st of
        (None, st1) \<Rightarrow> Some (None, st1)
      | (Some i, st1) \<Rightarrow>
          (case mnt_at st1 i of
             None \<Rightarrow> None
           | Some this \<Rightarrow>
               if mn_ap this \<noteq> None \<and> mn_ap this \<noteq> Some (pt_addr ap) then map_option (Pair (Some i)) (put_ref i st1)
               else
                 Some (Some i,
                   upd_mnt i (\<lambda>m. set_flags MNTS_AUTOFS (m\<lparr>mn_ap := Some (pt_addr ap)\<rparr>))
                     (st1\<lparr>ms_submounts := (if on_list i (ms_submounts st1) then ms_submounts st1
                                           else ms_submounts st1 @ [(pt_parent ap, i)])\<rparr>))))"

definition mnts_remove_submount :: "string \<Rightarrow> mnts \<Rightarrow> mnts option" where
  "mnts_remove_submount mp st =
     (case mnts_lookup st mp of
        None \<Rightarrow> Some st
      | Some this \<Rightarrow>
          if has_flag this MNTS_AUTOFS then
            put_ref (mn_id this)
              (upd_mnt (mn_id this) (\<lambda>m. clear_flags MNTS_AUTOFS (m\<lparr>mn_ap := None\<rparr>))
                (st\<lparr>ms_submounts := list_del (mn_id this) (ms_submounts st)\<rparr>))
          else Some st)"

text \<open>Copies of the strings of an amd entry: whether all of them were made.\<close>

fun strdup_opts :: "string option list \<Rightarrow> mem \<Rightarrow> bool \<times> mem" where
  "strdup_opts [] m = (True, m)"
| "strdup_opts (None # ss) m = strdup_opts ss m"
| "strdup_opts (Some s # ss) m = (case malloc m of (False, m1) \<Rightarrow> (False, m1) | (True, m1) \<Rightarrow> strdup_opts ss m1)"

text \<open>\<open>mnts_add_amdmount\<close>: when no mount can be made the mutex is still held at the return.\<close>

definition mnts_add_amdmount :: "mpoint \<Rightarrow> amd_entry \<Rightarrow> mnts \<Rightarrow> addr option \<times> mnts" where
  "mnts_add_amdmount ap e st =
     (case strdup_opts [ae_fs e, ae_pref e, ae_type e, ae_opts e] (ms_mem st) of
        (False, m1) \<Rightarrow> (None, st\<lparr>ms_mem := m1\<rparr>)
      | (True, m1) \<Rightarrow>
          (case mnts_get_mount (ae_path e) (st\<lparr>ms_mem := m1\<rparr>) of
             (None, st1) \<Rightarrow> (None, st1\<lparr>ms_locked := True\<rparr>)
           | (Some i, st1) \<Rightarrow>
               (Some i,
                upd_mnt i
                  (\<lambda>m. set_flags MNTS_AMD_MOUNT
                     (m\<lparr>mn_ext_mp := ae_fs e, mn_amd_pref := ae_pref e, mn_amd_type := ae_type e,
                        mn_amd_opts := ae_opts e, mn_amd_cache_opts := ae_cache_opts e\<rparr>))
                  (st1\<lparr>ms_amdmounts := (if on_list i (ms_amdmounts st1) then ms_amdmounts st1
                                        else ms_amdmounts st1 @ [(pt_addr ap, i)])\<rparr>))))"

definition mnts_remove_amdmount :: "string \<Rightarrow> mnts \<Rightarrow> mnts option" where
  "mnts_remove_amdmount mp st =
     (case mnts_lookup st mp of
        None \<Rightarrow> Some st
      | Some this \<Rightarrow>
          if has_flag this MNTS_AMD_MOUNT then
            put_ref (mn_id this)
              (upd_mnt (mn_id this)
                (\<lambda>m. clear_flags MNTS_AMD_MOUNT
                   (m\<lparr>mn_ext_mp := None, mn_amd_pref := None, mn_amd_type := None, mn_amd_opts := None, mn_amd_cache_opts := 0\<rparr>))
                (st\<lparr>ms_amdmounts := list_del (mn_id this) (ms_amdmounts st)\<rparr>))
          else Some st)"

text \<open>\<open>mnts_remove_amdmounts\<close>: a mount without an external path is a lookup of \<open>NULL\<close>, the value \<open>None\<close>.\<close>

fun remove_amd_loop :: "addr list \<Rightarrow> mnts \<Rightarrow> mnts option" where
  "remove_amd_loop [] st = Some st"
| "remove_amd_loop (i # is) st =
     (case mnt_at st i of
        None \<Rightarrow> None
      | Some mnt \<Rightarrow>
          (case mn_ext_mp mnt of
             None \<Rightarrow> None
           | Some ext \<Rightarrow>
               (case mnts_remove_amdmount (mn_mp mnt) (st\<lparr>ms_ext := snd (ext_mount_remove (ms_ext st) ext)\<rparr>) of
                  None \<Rightarrow> None
                | Some st1 \<Rightarrow> remove_amd_loop is st1)))"

definition links_of :: "addr \<Rightarrow> link list \<Rightarrow> addr list" where
  "links_of ap l = map snd (filter (\<lambda>p. fst p = ap) l)"

definition mnts_remove_amdmounts :: "mpoint \<Rightarrow> mnts \<Rightarrow> mnts option" where
  "mnts_remove_amdmounts ap st = remove_amd_loop (links_of (pt_addr ap) (ms_amdmounts st)) st"

definition mount_path :: "mpoint \<Rightarrow> string \<Rightarrow> string" where
  "mount_path ap name = (if cstr_hd name = CHR ''/'' then name else pt_path ap @ ''/'' @ name)"

definition mnts_add_mount :: "mpoint \<Rightarrow> string \<Rightarrow> u32 \<Rightarrow> mnts \<Rightarrow> addr option \<times> mnts" where
  "mnts_add_mount ap name flags st =
     (case malloc (ms_mem st) of
        (False, m1) \<Rightarrow> (None, st\<lparr>ms_mem := m1\<rparr>)
      | (True, m1) \<Rightarrow>
          (case mnts_get_mount (mount_path ap name) (st\<lparr>ms_mem := m1\<rparr>) of
             (None, st1) \<Rightarrow> (None, st1)
           | (Some i, st1) \<Rightarrow>
               (let st2 = upd_mnt i (set_flags flags) st1
                in (Some i,
                    if (case mnt_at st2 i of None \<Rightarrow> False | Some m \<Rightarrow> has_flag m MNTS_MOUNTED) \<and> \<not> on_list i (ms_mounts st2)
                    then st2\<lparr>ms_mounts := (pt_addr ap, i) # ms_mounts st2\<rparr> else st2))))"

definition mnts_remove_mount :: "string \<Rightarrow> u32 \<Rightarrow> mnts \<Rightarrow> mnts option" where
  "mnts_remove_mount mp flags st =
     (case mnts_lookup st mp of
        None \<Rightarrow> Some st
      | Some this \<Rightarrow>
          if has_flag this flags then
            (let st1 = upd_mnt (mn_id this) (clear_flags flags) st
             in put_ref (mn_id this)
                  (if has_flag (clear_flags flags this) MNTS_MOUNTED then st1
                   else st1\<lparr>ms_mounts := list_del (mn_id this) (ms_mounts st1)\<rparr>))
          else Some st)"

definition mnts_has_mounted_mounts :: "mpoint \<Rightarrow> mnts \<Rightarrow> bool" where
  "mnts_has_mounted_mounts ap st \<longleftrightarrow> links_of (pt_addr ap) (ms_mounts st) \<noteq> []"

section \<open>The list of mounts to expire\<close>

text \<open>Mounts are ordered by the lengths of their paths.\<close>

definition tree_mnt_cmp :: "mnt_list \<Rightarrow> mnt_list \<Rightarrow> int" where
  "tree_mnt_cmp n_mnt mnt =
     (if strcmp (mn_mp mnt) (mn_mp n_mnt) = 0 then 0 else if length (mn_mp mnt) < length (mn_mp n_mnt) then -1 else 1)"

interpretation mnt_tree: tree_order tree_mnt_cmp "\<lambda>m. cstring (mn_mp m)" mn_mp "\<lambda>m. length (mn_mp m)"
  by unfold_locales (auto simp: tree_mnt_cmp_def strcmp_zero)

text \<open>The mounted mounts of a mount point, in the order of its list.\<close>

definition mounted_of :: "mpoint \<Rightarrow> mnts \<Rightarrow> mnt_list list" where
  "mounted_of ap st =
     filter (\<lambda>m. has_flag m MNTS_MOUNTED) (List.map_filter (mnt_at st) (links_of (pt_addr ap) (ms_mounts st)))"

definition expire_tree :: "mnt_list list \<Rightarrow> mnt_list tree" where
  "expire_tree mnts =
     (case mnts of [] \<Rightarrow> Leaf | mnt # rest \<Rightarrow> fold (\<lambda>mnt t. tree_add_node tree_mnt_cmp t mnt) rest (tree_root mnt))"

definition tree_mnt_expire_list_work :: "mnt_list \<Rightarrow> mnt_list list \<Rightarrow> bool \<times> mnt_list list" where
  "tree_mnt_expire_list_work mnt mnts = (True, if List.last (mn_mp mnt) \<noteq> CHR ''/'' then mnt # mnts else mnts)"

text \<open>The list and the table with the references taken for it.\<close>

definition mnts_get_expire_list :: "mpoint \<Rightarrow> mnts \<Rightarrow> mnt_list list \<times> mnts" where
  "mnts_get_expire_list ap st =
     (let mnts = mounted_of ap st
      in (snd (tree_traverse_inorder tree_mnt_expire_list_work (expire_tree mnts) []), fold (\<lambda>m. get_ref (mn_id m)) mnts st))"

fun mnts_put_expire_list :: "addr list \<Rightarrow> mnts \<Rightarrow> mnts option" where
  "mnts_put_expire_list [] st = Some st"
| "mnts_put_expire_list (i # is) st = Option.bind (put_ref i st) (mnts_put_expire_list is)"

end
