(* ===== verification/Mnts_Props.thy ===== *)
theory Mnts_Props
  imports Mnts
begin

text \<open>
  Properties of the tables of mounts: no mount is freed while a list of a mount point or a caller
  refers to it, the counts of external mounts, and the order of the list of mounts to expire.
\<close>

section \<open>Flags\<close>

lemma and_mask: "(w :: u32) AND 2 ^ n = 0 \<longleftrightarrow> \<not> bit w n"
  by (simp add: and_exp_eq_0_iff_not_bit)

lemma has_flag_bits:
  "has_flag m MNTS_AUTOFS \<longleftrightarrow> bit (mn_flags m) 2" "has_flag m MNTS_AMD_MOUNT \<longleftrightarrow> bit (mn_flags m) 6"
  "has_flag m MNTS_MOUNTED \<longleftrightarrow> bit (mn_flags m) 7"
  using and_mask [of "mn_flags m" 2] and_mask [of "mn_flags m" 6] and_mask [of "mn_flags m" 7]
  by (simp_all add: has_flag_def MNTS_AUTOFS_def MNTS_AMD_MOUNT_def MNTS_MOUNTED_def)

lemma flag_masks:
  "b AND MNTS_AUTOFS = 0 \<longleftrightarrow> \<not> bit b 2" "b AND MNTS_AMD_MOUNT = 0 \<longleftrightarrow> \<not> bit b 6" "b AND MNTS_MOUNTED = 0 \<longleftrightarrow> \<not> bit b 7"
  using and_mask [of b 2] and_mask [of b 6] and_mask [of b 7]
  by (simp_all add: MNTS_AUTOFS_def MNTS_AMD_MOUNT_def MNTS_MOUNTED_def)

lemma flag_consts:
  "bit MNTS_AUTOFS n \<longleftrightarrow> n = 2" "bit MNTS_AMD_MOUNT n \<longleftrightarrow> n = 6" "bit MNTS_MOUNTED n \<longleftrightarrow> n = 7"
proof -
  have "bit ((2 :: u32) ^ k) n \<longleftrightarrow> n = k \<and> k < 32" for k by (auto simp: bit_exp_iff)
  from this [of 2] this [of 6] this [of 7]
  show "bit MNTS_AUTOFS n \<longleftrightarrow> n = 2" "bit MNTS_AMD_MOUNT n \<longleftrightarrow> n = 6" "bit MNTS_MOUNTED n \<longleftrightarrow> n = 7"
    by (simp_all add: MNTS_AUTOFS_def MNTS_AMD_MOUNT_def MNTS_MOUNTED_def)
qed

lemma bit_clear: "n < 32 \<Longrightarrow> bit (w AND NOT (b :: u32)) n \<longleftrightarrow> bit w n \<and> \<not> bit b n"
  by (simp add: bit_and_iff bit_not_iff)

lemmas flag_simps = has_flag_bits flag_masks flag_consts bit_clear bit_or_iff

section \<open>The table\<close>

lemma all_upd [simp]: "mnts_all (upd_mnt i f st) = map (\<lambda>m. if mn_id m = i then f m else m) (mnts_all st)"
  by (simp add: mnts_all_def upd_mnt_def map_concat)

lemma all_del [simp]: "mnts_all (del_mnt i st) = filter (\<lambda>m. mn_id m \<noteq> i) (mnts_all st)"
  by (simp add: mnts_all_def del_mnt_def filter_concat)

lemma all_links [simp]:
  "mnts_all (st\<lparr>ms_mounts := a\<rparr>) = mnts_all st" "mnts_all (st\<lparr>ms_submounts := a\<rparr>) = mnts_all st"
  "mnts_all (st\<lparr>ms_amdmounts := a\<rparr>) = mnts_all st" "mnts_all (st\<lparr>ms_mem := c\<rparr>) = mnts_all st"
  "mnts_all (st\<lparr>ms_ext := d\<rparr>) = mnts_all st" "mnts_all (st\<lparr>ms_locked := e\<rparr>) = mnts_all st"
  "mnts_all (st\<lparr>ms_brk := n\<rparr>) = mnts_all st"
  by (simp_all add: mnts_all_def)

lemma upd_mnt_sel [simp]:
  "ms_mounts (upd_mnt i f st) = ms_mounts st" "ms_submounts (upd_mnt i f st) = ms_submounts st"
  "ms_amdmounts (upd_mnt i f st) = ms_amdmounts st" "ms_brk (upd_mnt i f st) = ms_brk st"
  "ms_mem (upd_mnt i f st) = ms_mem st" "ms_ext (upd_mnt i f st) = ms_ext st" "ms_locked (upd_mnt i f st) = ms_locked st"
  by (simp_all add: upd_mnt_def)

lemma upd_mnt_mounts [simp]: "(upd_mnt i f st)\<lparr>ms_mounts := ms_mounts st\<rparr> = upd_mnt i f st"
  by (cases st) (simp add: upd_mnt_def)

lemma del_mnt_sel [simp]:
  "ms_mounts (del_mnt i st) = ms_mounts st" "ms_submounts (del_mnt i st) = ms_submounts st"
  "ms_amdmounts (del_mnt i st) = ms_amdmounts st" "ms_brk (del_mnt i st) = ms_brk st"
  "ms_mem (del_mnt i st) = ms_mem st" "ms_ext (del_mnt i st) = ms_ext st" "ms_locked (del_mnt i st) = ms_locked st"
  by (simp_all add: del_mnt_def)

definition hash_ok :: "mnt_list list list \<Rightarrow> bool" where
  "hash_ok h \<longleftrightarrow> length h = 128 \<and> (\<forall>i < 128. \<forall>m \<in> set (h ! i). mnts_bucket (mn_mp m) = i)"

definition table_ok :: "mnts \<Rightarrow> bool" where
  "table_ok st \<longleftrightarrow> hash_ok (ms_hash st) \<and> distinct (map mn_id (mnts_all st)) \<and> distinct (map mn_mp (mnts_all st))
     \<and> (\<forall>m \<in> set (mnts_all st). mn_id m < ms_brk st)"

text \<open>A list of a mount point holds the mounts with a flag, each once.\<close>

definition link_ok :: "u32 \<Rightarrow> link list \<Rightarrow> mnt_list list \<Rightarrow> bool" where
  "link_ok b l ms \<longleftrightarrow> distinct (map snd l) \<and> (\<forall>i. i \<in> snd ` set l \<longleftrightarrow> (\<exists>m \<in> set ms. mn_id m = i \<and> has_flag m b))"

definition owners :: "mnt_list \<Rightarrow> nat" where
  "owners m = of_bool (has_flag m MNTS_AUTOFS) + of_bool (has_flag m MNTS_AMD_MOUNT) + of_bool (has_flag m MNTS_MOUNTED)"

text \<open>
  \<open>H\<close> are the references that callers hold. A mount is counted at least once for each list it is
  on and for each of the references.
\<close>

definition ref_ok :: "addr multiset \<Rightarrow> mnt_list \<Rightarrow> bool" where
  "ref_ok H m \<longleftrightarrow> 0 < mn_ref m \<and> mn_ref m < 2 ^ 32 \<and> owners m + count H (mn_id m) \<le> mn_ref m
     \<and> (mn_ap m \<noteq> None \<longleftrightarrow> has_flag m MNTS_AUTOFS)"

definition mnts_ok :: "mnts \<times> addr multiset \<Rightarrow> bool" where
  "mnts_ok s \<longleftrightarrow> (case s of (st, H) \<Rightarrow>
     table_ok st \<and> (\<forall>m \<in> set (mnts_all st). ref_ok H m) \<and> set_mset H \<subseteq> mn_id ` set (mnts_all st)
     \<and> link_ok MNTS_AUTOFS (ms_submounts st) (mnts_all st) \<and> link_ok MNTS_AMD_MOUNT (ms_amdmounts st) (mnts_all st)
     \<and> link_ok MNTS_MOUNTED (ms_mounts st) (mnts_all st))"

lemma mnts_bucket_less: "mnts_bucket mp < 128"
  using unat_hash_less [of MNTS_SIZE mp] by (simp add: mnts_bucket_def MNTS_SIZE_def)

lemma all_bucket:
  assumes "hash_ok (ms_hash st)"
  shows "m \<in> set (mnts_all st) \<longleftrightarrow> m \<in> set (ms_hash st ! mnts_bucket (mn_mp m))"
proof
  assume "m \<in> set (mnts_all st)"
  then obtain i where "i < 128" "m \<in> set (ms_hash st ! i)"
    using assms by (auto simp: mnts_all_def hash_ok_def in_set_conv_nth [of _ "ms_hash st"])
  then show "m \<in> set (ms_hash st ! mnts_bucket (mn_mp m))" using assms by (auto simp: hash_ok_def)
next
  assume "m \<in> set (ms_hash st ! mnts_bucket (mn_mp m))"
  moreover have "ms_hash st ! mnts_bucket (mn_mp m) \<in> set (ms_hash st)"
    using assms mnts_bucket_less [of "mn_mp m"] by (intro nth_mem) (simp add: hash_ok_def)
  ultimately show "m \<in> set (mnts_all st)" unfolding mnts_all_def set_concat by blast
qed

lemma lookup_Some:
  assumes "mnts_ok (st, H)"
  shows "mnts_lookup st mp = Some m \<longleftrightarrow> m \<in> set (mnts_all st) \<and> mn_mp m = mp"
proof -
  have h: "hash_ok (ms_hash st)" and d: "distinct (map mn_mp (mnts_all st))"
    and r: "\<forall>m \<in> set (mnts_all st). mn_ref m \<noteq> 0"
    using assms by (auto simp: mnts_ok_def table_ok_def ref_ok_def)
  have uniq: "x = y" if "x \<in> set (mnts_all st)" "y \<in> set (mnts_all st)" "mn_mp x = mn_mp y" for x y
    using d that by (simp add: distinct_map inj_on_def)
  show ?thesis
  proof
    assume "mnts_lookup st mp = Some m"
    then have "m \<in> set (ms_hash st ! mnts_bucket mp)" "mn_mp m = mp"
      by (auto simp: mnts_lookup_def find_Some_iff)
    then show "m \<in> set (mnts_all st) \<and> mn_mp m = mp" using all_bucket [OF h, of m] by simp
  next
    assume m: "m \<in> set (mnts_all st) \<and> mn_mp m = mp"
    then have "m \<in> set (ms_hash st ! mnts_bucket mp)" using all_bucket [OF h, of m] by blast
    then obtain x where x: "mnts_lookup st mp = Some x"
      using m r by (cases "mnts_lookup st mp") (auto simp: mnts_lookup_def find_None_iff)
    then have "x \<in> set (ms_hash st ! mnts_bucket mp)" "mn_mp x = mp"
      by (auto simp: mnts_lookup_def find_Some_iff)
    then have "x \<in> set (mnts_all st)" using all_bucket [OF h, of x] by simp
    then show "mnts_lookup st mp = Some m" using uniq [of x m] m x \<open>mn_mp x = mp\<close> by simp
  qed
qed

lemma lookup_None:
  assumes "mnts_ok (st, H)"
  shows "mnts_lookup st mp = None \<longleftrightarrow> (\<forall>m \<in> set (mnts_all st). mn_mp m \<noteq> mp)"
  using lookup_Some [OF assms, of mp] by (cases "mnts_lookup st mp") auto

lemma mnt_at_Some:
  assumes "table_ok st"
  shows "mnt_at st i = Some m \<longleftrightarrow> m \<in> set (mnts_all st) \<and> mn_id m = i"
proof -
  have uniq: "x = y" if "x \<in> set (mnts_all st)" "y \<in> set (mnts_all st)" "mn_id x = mn_id y" for x y
    using assms that by (simp add: table_ok_def distinct_map inj_on_def)
  show ?thesis
  proof
    assume "mnt_at st i = Some m"
    then show "m \<in> set (mnts_all st) \<and> mn_id m = i" by (auto simp: mnt_at_def find_Some_iff)
  next
    assume m: "m \<in> set (mnts_all st) \<and> mn_id m = i"
    then obtain x where "mnt_at st i = Some x" by (cases "mnt_at st i") (auto simp: mnt_at_def find_None_iff)
    moreover from this have "x \<in> set (mnts_all st) \<and> mn_id x = i" by (auto simp: mnt_at_def find_Some_iff)
    ultimately show "mnt_at st i = Some m" using uniq m by metis
  qed
qed


section \<open>Changes of one mount\<close>

lemma hash_ok_upd:
  assumes "hash_ok (ms_hash st)" "\<And>m. m \<in> set (mnts_all st) \<Longrightarrow> mn_id m = i \<Longrightarrow> mn_mp (f m) = mn_mp m"
  shows "hash_ok (ms_hash (upd_mnt i f st))"
proof -
  have "mn_mp (f m) = mn_mp m" if "m \<in> set (ms_hash st ! k)" "k < 128" "mn_id m = i" for m k
  proof (rule assms(2))
    show "m \<in> set (mnts_all st)" using that assms(1) unfolding mnts_all_def set_concat hash_ok_def by (metis UN_I nth_mem)
  qed (rule that(3))
  then show ?thesis using assms(1) by (auto simp: hash_ok_def upd_mnt_def)
qed

lemma hash_ok_del: "hash_ok (ms_hash st) \<Longrightarrow> hash_ok (ms_hash (del_mnt i st))"
  by (auto simp: hash_ok_def del_mnt_def)

text \<open>What a change of a mount with the flags as they are afterwards does to one of the lists.\<close>

definition link_step :: "u32 \<Rightarrow> link list \<Rightarrow> link list \<Rightarrow> mnt_list \<Rightarrow> bool" where
  "link_step b l l' m \<longleftrightarrow> distinct (map snd l')
     \<and> snd ` set l' = (if has_flag m b then insert (mn_id m) (snd ` set l) else snd ` set l - {mn_id m})"

lemma link_step_ok:
  assumes "link_ok b l ms" "m \<in> set ms" "distinct (map mn_id ms)" "mn_id (f m) = mn_id m" "link_step b l l' (f m)"
  shows "link_ok b l' (map (\<lambda>x. if mn_id x = mn_id m then f x else x) ms)"
proof -
  let ?g = "\<lambda>x. if mn_id x = mn_id m then f x else x"
  have only: "x = m" if "x \<in> set ms" "mn_id x = mn_id m" for x
    using that assms(2,3) by (simp add: distinct_map inj_on_def)
  have "j \<in> snd ` set l' \<longleftrightarrow> (\<exists>x \<in> set (map ?g ms). mn_id x = j \<and> has_flag x b)" for j
  proof (cases "j = mn_id m")
    case True
    have "(\<exists>x \<in> set (map ?g ms). mn_id x = j \<and> has_flag x b) \<longleftrightarrow> has_flag (f m) b"
    proof
      assume "\<exists>x \<in> set (map ?g ms). mn_id x = j \<and> has_flag x b"
      then obtain y where y: "y \<in> set ms" "mn_id (?g y) = j" "has_flag (?g y) b" by auto
      then have "mn_id y = mn_id m" using True by (auto split: if_splits)
      then show "has_flag (f m) b" using only [OF y(1)] y(3) by simp
    next
      assume "has_flag (f m) b"
      then have "?g m \<in> set (map ?g ms) \<and> mn_id (?g m) = j \<and> has_flag (?g m) b" using assms(2,4) True by simp
      then show "\<exists>x \<in> set (map ?g ms). mn_id x = j \<and> has_flag x b" by blast
    qed
    moreover have "j \<in> snd ` set l' \<longleftrightarrow> has_flag (f m) b" using assms(4,5) True unfolding link_step_def by simp
    ultimately show ?thesis by simp
  next
    case False
    have "(\<exists>x \<in> set (map ?g ms). mn_id x = j \<and> has_flag x b) \<longleftrightarrow> (\<exists>x \<in> set ms. mn_id x = j \<and> has_flag x b)"
    proof
      assume "\<exists>x \<in> set (map ?g ms). mn_id x = j \<and> has_flag x b"
      then obtain y where y: "y \<in> set ms" "mn_id (?g y) = j" "has_flag (?g y) b" by auto
      moreover from this have "mn_id y \<noteq> mn_id m" using only [OF y(1)] False assms(4) by auto
      ultimately show "\<exists>x \<in> set ms. mn_id x = j \<and> has_flag x b" by auto
    next
      assume "\<exists>x \<in> set ms. mn_id x = j \<and> has_flag x b"
      then obtain y where y: "y \<in> set ms" "mn_id y = j" "has_flag y b" by blast
      then have "?g y \<in> set (map ?g ms)" "?g y = y" using False by auto
      then have "y \<in> set (map ?g ms)" by (simp only:)
      with y show "\<exists>x \<in> set (map ?g ms). mn_id x = j \<and> has_flag x b" by blast
    qed
    moreover have "j \<in> snd ` set l' \<longleftrightarrow> j \<in> snd ` set l" using assms(4,5) False unfolding link_step_def by (simp split: if_splits)
    ultimately show ?thesis using assms(1) by (simp add: link_ok_def)
  qed
  then show ?thesis using assms(5) by (simp add: link_ok_def link_step_def)
qed


lemma only_id:
  assumes "mnts_ok (st, H)" "m \<in> set (mnts_all st)" "x \<in> set (mnts_all st)" "mn_id x = mn_id m"
  shows "x = m"
  using assms by (auto simp: mnts_ok_def table_ok_def distinct_map inj_on_def)

lemma link_step_same:
  assumes "link_ok b l (mnts_all st)" "mnts_ok (st, H)" "m \<in> set (mnts_all st)" "mn_id m' = mn_id m" "has_flag m' b = has_flag m b"
  shows "link_step b l l m'"
proof -
  have "mn_id m \<in> snd ` set l \<longleftrightarrow> has_flag m b"
    using assms(1,3) only_id [OF assms(2,3)] by (auto simp: link_ok_def)
  then show ?thesis using assms(1,4,5) by (auto simp: link_step_def link_ok_def)
qed

lemma mnts_ok_links:
  assumes "mnts_ok (st, H)"
  shows "link_ok MNTS_AUTOFS (ms_submounts st) (mnts_all st)" "link_ok MNTS_AMD_MOUNT (ms_amdmounts st) (mnts_all st)"
    "link_ok MNTS_MOUNTED (ms_mounts st) (mnts_all st)"
  using assms by (auto simp: mnts_ok_def)

lemma change_ok:
  assumes ok: "mnts_ok (st, H)" and m: "m \<in> set (mnts_all st)" and f: "mn_id (f m) = mn_id m" "mn_mp (f m) = mn_mp m"
    and r: "ref_ok H' (f m)" and H: "\<forall>j. j \<noteq> mn_id m \<longrightarrow> count H' j \<le> count H j"
    and st': "ms_hash st' = ms_hash (upd_mnt (mn_id m) f st)" "ms_brk st' = ms_brk st"
    and links: "link_step MNTS_AUTOFS (ms_submounts st) (ms_submounts st') (f m)"
      "link_step MNTS_AMD_MOUNT (ms_amdmounts st) (ms_amdmounts st') (f m)"
      "link_step MNTS_MOUNTED (ms_mounts st) (ms_mounts st') (f m)"
  shows "mnts_ok (st', H')"
proof -
  let ?g = "\<lambda>x. if mn_id x = mn_id m then f x else x"
  have all': "mnts_all st' = map ?g (mnts_all st)" using st'(1) all_upd [of "mn_id m" f st] by (simp add: mnts_all_def)
  have only: "mn_id x = mn_id m \<Longrightarrow> x = m" if "x \<in> set (mnts_all st)" for x using only_id [OF ok m that] .
  have keep: "mn_id (?g x) = mn_id x" "mn_mp (?g x) = mn_mp x" if "x \<in> set (mnts_all st)" for x
    using only [OF that] f by auto
  have ids: "map mn_id (mnts_all st') = map mn_id (mnts_all st)" "map mn_mp (mnts_all st') = map mn_mp (mnts_all st)"
    unfolding all' using keep by auto
  have t: "table_ok st" and rs: "\<And>x. x \<in> set (mnts_all st) \<Longrightarrow> ref_ok H x" and HH: "set_mset H \<subseteq> mn_id ` set (mnts_all st)"
    using ok by (auto simp: mnts_ok_def)
  have d: "distinct (map mn_id (mnts_all st))" using t by (simp add: table_ok_def)
  have "hash_ok (ms_hash st')" unfolding st'(1) using t only f(2) by (intro hash_ok_upd) (auto simp: table_ok_def)
  moreover have "\<forall>x \<in> set (mnts_all st'). mn_id x < ms_brk st'"
    using t keep unfolding all' st'(2) table_ok_def by fastforce
  ultimately have "table_ok st'" using t unfolding table_ok_def ids by blast
  moreover have "ref_ok H' x" if x: "x \<in> set (mnts_all st')" for x
  proof -
    obtain y where y: "y \<in> set (mnts_all st)" "x = ?g y" using x unfolding all' list.set_map by blast
    show ?thesis
    proof (cases "y = m")
      case False
      then have "mn_id y \<noteq> mn_id m" using only [OF y(1)] by blast
      moreover have "ref_ok H y" by (rule rs [OF y(1)])
      moreover have "count H' (mn_id y) \<le> count H (mn_id y)" using H calculation(1) by blast
      ultimately show ?thesis using y(2) by (auto simp: ref_ok_def)
    qed (use y r in simp)
  qed
  moreover have "set_mset H' \<subseteq> mn_id ` set (mnts_all st')"
  proof -
    have "set_mset H' \<subseteq> insert (mn_id m) (set_mset H)" using H by (auto simp: not_in_iff) (metis count_greater_zero_iff leD)
    also have "\<dots> \<subseteq> mn_id ` set (mnts_all st)" using HH m by auto
    also have "\<dots> = mn_id ` set (mnts_all st')" using ids(1) by (metis list.set_map)
    finally show ?thesis .
  qed
  moreover note link_step_ok [where f = f, OF mnts_ok_links(1) [OF ok] m d f(1) links(1)]
    link_step_ok [where f = f, OF mnts_ok_links(2) [OF ok] m d f(1) links(2)]
    link_step_ok [where f = f, OF mnts_ok_links(3) [OF ok] m d f(1) links(3)]
  ultimately show ?thesis by (auto simp: mnts_ok_def all')
qed

lemma mnts_ok_mono: "mnts_ok (st, H) \<Longrightarrow> H' \<subseteq># H \<Longrightarrow> mnts_ok (st, H')"
proof -
  assume ok: "mnts_ok (st, H)" and sub: "H' \<subseteq># H"
  have "ref_ok H m \<Longrightarrow> ref_ok H' m" for m
    using mset_subset_eq_count [OF sub, of "mn_id m"] by (auto simp: ref_ok_def)
  then show ?thesis using ok set_mset_mono [OF sub] by (auto simp: mnts_ok_def)
qed

lemma delete_ok:
  assumes ok: "mnts_ok (st, H)" and m: "m \<in> set (mnts_all st)" "owners m = 0" "count H (mn_id m) = 0"
  shows "mnts_ok (del_mnt (mn_id m) st, H)"
proof -
  have only: "mn_id x = mn_id m \<Longrightarrow> x = m" if "x \<in> set (mnts_all st)" for x using only_id [OF ok m(1) that] .
  have t: "table_ok st" and rs: "\<And>x. x \<in> set (mnts_all st) \<Longrightarrow> ref_ok H x" and HH: "set_mset H \<subseteq> mn_id ` set (mnts_all st)"
    using ok by (auto simp: mnts_ok_def)
  have "table_ok (del_mnt (mn_id m) st)" using t hash_ok_del by (auto simp: table_ok_def distinct_map_filter)
  moreover have "set_mset H \<subseteq> mn_id ` set (mnts_all (del_mnt (mn_id m) st))"
  proof
    fix j assume j: "j \<in># H"
    then obtain x where "x \<in> set (mnts_all st)" "j = mn_id x" using HH by auto
    moreover have "j \<noteq> mn_id m" using j m(3) by (metis count_eq_zero_iff)
    ultimately show "j \<in> mn_id ` set (mnts_all (del_mnt (mn_id m) st))" by auto
  qed
  moreover have "link_ok b l (mnts_all (del_mnt (mn_id m) st))" if "link_ok b l (mnts_all st)" "\<not> has_flag m b" for b l
    using that only by (auto simp: link_ok_def)
  moreover have "\<not> has_flag m MNTS_AUTOFS" "\<not> has_flag m MNTS_AMD_MOUNT" "\<not> has_flag m MNTS_MOUNTED"
    using m(2) by (auto simp: owners_def)
  ultimately show ?thesis using mnts_ok_links [OF ok] rs by (simp add: mnts_ok_def)
qed


section \<open>Taking and giving back references\<close>

lemma put_ok:
  assumes ok: "mnts_ok (st, add_mset i H)"
  shows "\<exists>st'. put_ref i st = Some st' \<and> mnts_ok (st', H)"
proof -
  obtain m where m: "m \<in> set (mnts_all st)" "mn_id m = i" using ok by (auto simp: mnts_ok_def)
  have t: "table_ok st" and r: "ref_ok (add_mset i H) m" using ok m by (auto simp: mnts_ok_def)
  have okH: "mnts_ok (st, H)" using ok by (rule mnts_ok_mono) simp
  have at: "mnt_at st i = Some m" using m mnt_at_Some [OF t] by simp
  have dec: "ref_dec (mn_ref m) = mn_ref m - 1" using r by (simp add: ref_ok_def)
  show ?thesis
  proof (cases "mn_ref m = 1")
    case True
    then have "owners m = 0" "count H i = 0" using r m by (auto simp: ref_ok_def)
    then have "mnts_ok (del_mnt i st, H)" using delete_ok [OF okH m(1)] m(2) by simp
    then show ?thesis by (simp add: put_ref_def at dec True)
  next
    case False
    let ?f = "\<lambda>m. m\<lparr>mn_ref := ref_dec (mn_ref m)\<rparr>"
    have "mnts_ok (upd_mnt i ?f st, H)"
      by (rule change_ok [OF okH m(1), where f = ?f])
        (use r m False dec in \<open>auto simp: ref_ok_def owners_def has_flag_def intro!: link_step_same [OF _ okH m(1)] mnts_ok_links [OF okH]\<close>)
    moreover have "mn_ref m - 1 \<noteq> 0" using False r by (simp add: ref_ok_def)
    ultimately show ?thesis by (simp add: put_ref_def at dec)
  qed
qed

text \<open>No count is about to wrap around.\<close>

definition ref_room :: "mnts \<Rightarrow> bool" where
  "ref_room st \<longleftrightarrow> (\<forall>m \<in> set (mnts_all st). mn_ref m < 2 ^ 32 - 1)"

lemma get_ok:
  assumes ok: "mnts_ok (st, H)" and m: "m \<in> set (mnts_all st)" and room: "mn_ref m < 2 ^ 32 - 1"
  shows "mnts_ok (get_ref (mn_id m) st, add_mset (mn_id m) H)"
proof -
  let ?f = "\<lambda>m. m\<lparr>mn_ref := ref_inc (mn_ref m)\<rparr>"
  have "ref_ok H m" using ok m by (simp add: mnts_ok_def)
  then show ?thesis unfolding get_ref_def
    by (intro change_ok [OF ok m, where f = ?f])
      (use room in \<open>auto simp: ref_ok_def owners_def has_flag_def intro!: link_step_same [OF _ ok m] mnts_ok_links [OF ok]\<close>)
qed

lemma mnts_ok_frame:
  "mnts_ok (st\<lparr>ms_mem := c\<rparr>, H) = mnts_ok (st, H)" "mnts_ok (st\<lparr>ms_ext := d\<rparr>, H) = mnts_ok (st, H)"
  "mnts_ok (st\<lparr>ms_locked := e\<rparr>, H) = mnts_ok (st, H)"
  by (simp_all add: mnts_ok_def table_ok_def)

lemma lookup_frame:
  "mnts_lookup (st\<lparr>ms_mem := c\<rparr>) = mnts_lookup st" "mnts_lookup (st\<lparr>ms_ext := d\<rparr>) = mnts_lookup st"
  by (simp_all add: mnts_lookup_def fun_eq_iff)


lemma all_insert:
  assumes "hash_ok h" "k < 128"
  shows "mset (concat (h[k := m # h ! k])) = add_mset m (mset (concat h))"
proof -
  have k: "k < length h" using assms by (simp add: hash_ok_def)
  have "h = take k h @ h ! k # drop (Suc k) h" using k by (rule id_take_nth_drop)
  then have "mset (concat h) = mset (concat (take k h)) + mset (h ! k) + mset (concat (drop (Suc k) h))"
    by (metis add.assoc concat.simps(2) concat_append mset_append)
  moreover have "h[k := m # h ! k] = take k h @ (m # h ! k) # drop (Suc k) h" using k by (rule upd_conv_take_nth_drop)
  ultimately show ?thesis by simp
qed

lemma insert_ok:
  assumes ok: "mnts_ok (st, H)" and new: "mn_id m = ms_brk st" "mn_ref m = 1" "mn_flags m = 0" "mn_ap m = None"
    and mp: "\<forall>x \<in> set (mnts_all st). mn_mp x \<noteq> mn_mp m"
    and st': "ms_hash st' = (ms_hash st)[mnts_bucket (mn_mp m) := m # ms_hash st ! mnts_bucket (mn_mp m)]"
      "ms_brk st' = ms_brk st + 1" "ms_mounts st' = ms_mounts st" "ms_submounts st' = ms_submounts st" "ms_amdmounts st' = ms_amdmounts st"
  shows "mnts_ok (st', add_mset (mn_id m) H)"
proof -
  have t: "table_ok st" and h: "hash_ok (ms_hash st)" using ok by (auto simp: mnts_ok_def table_ok_def)
  let ?k = "mnts_bucket (mn_mp m)"
  have "mset (mnts_all st') = add_mset m (mset (mnts_all st))"
    using all_insert [OF h mnts_bucket_less] by (simp add: mnts_all_def st'(1))
  then have all: "set (mnts_all st') = insert m (set (mnts_all st))"
    and ms: "\<And>g. mset (map g (mnts_all st')) = add_mset (g m) (mset (map g (mnts_all st)))"
    by (metis set_mset_add_mset_insert set_mset_mset) (simp add: \<open>mset (mnts_all st') = _\<close>)
  have dist: "distinct (map g (mnts_all st')) \<longleftrightarrow> g m \<notin> g ` set (mnts_all st) \<and> distinct (map g (mnts_all st))" for g
  proof -
    have "mset (map g (mnts_all st')) = mset (g m # map g (mnts_all st))" using ms by simp
    then show ?thesis by (metis distinct.simps(2) list.set_map mset_eq_imp_distinct_iff)
  qed
  have fresh: "\<forall>x \<in> set (mnts_all st). mn_id x \<noteq> mn_id m" using t new(1) by (auto simp: table_ok_def)
  have "hash_ok (ms_hash st')"
  proof -
    have "mnts_bucket (mn_mp x) = i" if "i < 128" "x \<in> set (ms_hash st' ! i)" for i x
    proof -
      have len: "length (ms_hash st) = 128" using h by (simp add: hash_ok_def)
      have "x = m \<and> i = ?k \<or> x \<in> set (ms_hash st ! i)"
        using that len mnts_bucket_less [of "mn_mp m"] by (cases "i = ?k") (auto simp: st'(1))
      then show ?thesis using h that(1) unfolding hash_ok_def by blast
    qed
    moreover have "length (ms_hash st') = 128" using h by (simp add: hash_ok_def st'(1))
    ultimately show ?thesis unfolding hash_ok_def by blast
  qed
  then have "table_ok st'" using t mp fresh new(1) unfolding table_ok_def dist all st'(2) by fastforce
  moreover have noflag: "\<not> has_flag m b" for b using new(3) by (simp add: has_flag_def)
  moreover have "link_ok b l (mnts_all st')" if "link_ok b l (mnts_all st)" for b l
    using that noflag all by (auto simp: link_ok_def)
  moreover have "set_mset H \<subseteq> mn_id ` set (mnts_all st)" using ok by (simp add: mnts_ok_def)
  moreover from this have "count H (mn_id m) = 0" using fresh by (metis (no_types, lifting) count_eq_zero_iff imageE subsetD)
  moreover have "ref_ok (add_mset (mn_id m) H) x" if "x \<in> set (mnts_all st')" for x
  proof (cases "x = m")
    case True
    then show ?thesis using new noflag calculation(5) by (simp add: ref_ok_def owners_def)
  next
    case False
    then have "x \<in> set (mnts_all st)" "mn_id x \<noteq> mn_id m" using that all fresh by auto
    then show ?thesis using ok by (auto simp: mnts_ok_def ref_ok_def)
  qed
  ultimately show ?thesis using mnts_ok_links [OF ok] all st' by (auto simp: mnts_ok_def)
qed

text \<open>\<open>mnts_get_mount\<close> takes a reference, of a new mount when there is none for the path.\<close>

lemma get_mount_ok:
  assumes ok: "mnts_ok (st, H)" and room: "ref_room st" and eq: "mnts_get_mount mp st = (r, st')"
  shows "case r of None \<Rightarrow> mnts_ok (st', H)
    | Some i \<Rightarrow> mnts_ok (st', add_mset i H) \<and> (\<exists>m \<in> set (mnts_all st'). mn_id m = i \<and> mn_mp m = mp)"
proof (cases "mnts_lookup st mp")
  case (Some m)
  then have m: "m \<in> set (mnts_all st)" "mn_mp m = mp" using lookup_Some [OF ok] by auto
  then have "mnts_ok (get_ref (mn_id m) st, add_mset (mn_id m) H)" using get_ok [OF ok m(1)] room by (simp add: ref_room_def)
  moreover have "m\<lparr>mn_ref := ref_inc (mn_ref m)\<rparr> \<in> set (mnts_all (get_ref (mn_id m) st))" using m(1) by (auto simp: get_ref_def)
  moreover have "r = Some (mn_id m)" "st' = get_ref (mn_id m) st" using eq Some by (simp_all add: mnts_get_mount_def)
  moreover have "\<exists>x \<in> set (mnts_all (get_ref (mn_id m) st)). mn_id x = mn_id m \<and> mn_mp x = mp"
    using calculation(2) m(2) by (intro bexI [of _ "m\<lparr>mn_ref := ref_inc (mn_ref m)\<rparr>"]) simp_all
  ultimately show ?thesis by simp
next
  case None
  then have mp: "\<forall>x \<in> set (mnts_all st). mn_mp x \<noteq> mp" using lookup_None [OF ok] by simp
  obtain r1 st1 where al: "mnts_alloc_mount mp st = (r1, st1)" by fastforce
  show ?thesis
  proof (cases r1)
    case None
    then have "r = None" "st' = st1" using eq al \<open>mnts_lookup st mp = None\<close> by (auto simp: mnts_get_mount_def mnts_new_mount_def)
    moreover have "mnts_ok (st1, H)" using al ok None
      by (auto simp: mnts_alloc_mount_def mnts_ok_frame split: prod.splits bool.splits)
    ultimately show ?thesis by simp
  next
    case (Some m)
    then have new: "mn_id m = ms_brk st" "mn_ref m = 1" "mn_flags m = 0" "mn_ap m = None" "mn_mp m = mp"
      and st1: "ms_hash st1 = ms_hash st" "ms_brk st1 = ms_brk st + 1" "ms_mounts st1 = ms_mounts st"
        "ms_submounts st1 = ms_submounts st" "ms_amdmounts st1 = ms_amdmounts st"
      using al by (auto simp: mnts_alloc_mount_def split: prod.splits bool.splits)
    have r: "r = Some (mn_id m)" and st': "st' = st1\<lparr>ms_hash := (ms_hash st1)[mnts_bucket mp := m # ms_hash st1 ! mnts_bucket mp]\<rparr>"
      using eq al Some \<open>mnts_lookup st mp = None\<close> by (auto simp: mnts_get_mount_def mnts_new_mount_def)
    have ok': "mnts_ok (st', add_mset (mn_id m) H)"
      by (rule insert_ok [OF ok new(1-4)]) (use mp new(5) st1 in \<open>auto simp: st'\<close>)
    have "m \<in> set (ms_hash st' ! mnts_bucket (mn_mp m))"
      using mnts_bucket_less [of mp] ok new(5) by (auto simp: st' st1 mnts_ok_def table_ok_def hash_ok_def)
    then have "m \<in> set (mnts_all st')" using all_bucket [of st' m] ok' by (simp add: mnts_ok_def table_ok_def)
    then show ?thesis using ok' r new(5) by auto
  qed
qed


section \<open>The operations\<close>

lemma link_step_add:
  assumes "link_ok b l ms" "has_flag m b" "mn_id m = i"
  shows "link_step b l (if on_list i l then l else l @ [(p, i)]) m" "link_step b l (if on_list i l then l else (p, i) # l) m"
  using assms by (auto simp: link_step_def link_ok_def on_list_def)

lemma link_step_del: "link_ok b l ms \<Longrightarrow> \<not> has_flag m b \<Longrightarrow> mn_id m = i \<Longrightarrow> link_step b l (list_del i l) m"
  by (auto simp: link_step_def link_ok_def list_del_def distinct_map_filter)

lemma mnt_at_upd: "(\<And>m. mn_id (f m) = mn_id m) \<Longrightarrow> mnt_at (upd_mnt i f st) i = map_option f (mnt_at st i)"
proof -
  assume f: "\<And>m. mn_id (f m) = mn_id m"
  have "find (\<lambda>m. mn_id m = i) (map (\<lambda>m. if mn_id m = i then f m else m) xs) = map_option f (find (\<lambda>m. mn_id m = i) xs)" for xs
    by (induction xs) (auto simp: f)
  then show ?thesis by (simp add: mnt_at_def)
qed

lemma live_ref_ok:
  assumes "mnts_ok (st, H)" "mnt_at st i = Some m"
  shows "m \<in> set (mnts_all st)" "mn_id m = i" "ref_ok H m"
  using assms mnt_at_Some [of st i m] by (auto simp: mnts_ok_def)

lemma get_mount_live:
  assumes "mnts_ok (st, H)" "ref_room st" "mnts_get_mount mp st = (Some i, st')"
  obtains m where "mnts_ok (st', add_mset i H)" "mnt_at st' i = Some m" "mn_mp m = mp"
proof -
  from get_mount_ok [OF assms] obtain m where "mnts_ok (st', add_mset i H)" "m \<in> set (mnts_all st')" "mn_id m = i" "mn_mp m = mp"
    by auto
  moreover from this have "mnt_at st' i = Some m" using mnt_at_Some [of st' i m] by (simp add: mnts_ok_def)
  ultimately show thesis using that by blast
qed

lemma set_flag_ok:
  assumes ok: "mnts_ok (st, add_mset i H)" and at: "mnt_at st i = Some m"
    and f: "mn_id (f m) = i" "mn_mp (f m) = mn_mp m" "mn_ref (f m) = mn_ref m" "owners (f m) \<le> owners m + 1"
      "mn_ap (f m) \<noteq> None \<longleftrightarrow> has_flag (f m) MNTS_AUTOFS"
    and st': "ms_hash st' = ms_hash (upd_mnt i f st)" "ms_brk st' = ms_brk st"
    and links: "link_step MNTS_AUTOFS (ms_submounts st) (ms_submounts st') (f m)"
      "link_step MNTS_AMD_MOUNT (ms_amdmounts st) (ms_amdmounts st') (f m)"
      "link_step MNTS_MOUNTED (ms_mounts st) (ms_mounts st') (f m)"
  shows "mnts_ok (st', H)"
proof -
  note m = live_ref_ok [OF ok at]
  show ?thesis
    by (rule change_ok [OF ok m(1), where f = f]) (use m f st' links in \<open>auto simp: ref_ok_def\<close>)
qed

lemma clear_flag_ok:
  assumes ok: "mnts_ok (st, H)" and m: "m \<in> set (mnts_all st)"
    and f: "mn_id (f m) = mn_id m" "mn_mp (f m) = mn_mp m" "mn_ref (f m) = mn_ref m" "owners (f m) + 1 \<le> owners m"
      "mn_ap (f m) \<noteq> None \<longleftrightarrow> has_flag (f m) MNTS_AUTOFS"
    and st': "ms_hash st' = ms_hash (upd_mnt (mn_id m) f st)" "ms_brk st' = ms_brk st"
    and links: "link_step MNTS_AUTOFS (ms_submounts st) (ms_submounts st') (f m)"
      "link_step MNTS_AMD_MOUNT (ms_amdmounts st) (ms_amdmounts st') (f m)"
      "link_step MNTS_MOUNTED (ms_mounts st) (ms_mounts st') (f m)"
  shows "\<exists>st''. put_ref (mn_id m) st' = Some st'' \<and> mnts_ok (st'', H)"
proof (rule put_ok)
  have "ref_ok H m" using ok m by (simp add: mnts_ok_def)
  then show "mnts_ok (st', add_mset (mn_id m) H)"
    by (intro change_ok [OF ok m, where f = f]) (use f st' links in \<open>auto simp: ref_ok_def\<close>)
qed

lemma mnts_add_submount_ok:
  assumes ok: "mnts_ok (st, H)" and room: "ref_room st"
  shows "\<exists>r st'. mnts_add_submount ap st = Some (r, st') \<and> mnts_ok (st', H)"
proof -
  obtain r st1 where g: "mnts_get_mount (pt_path ap) st = (r, st1)" by fastforce
  show ?thesis
  proof (cases r)
    case None
    then show ?thesis using get_mount_ok [OF ok room g] g by (simp add: mnts_add_submount_def)
  next
    case (Some i)
    with g get_mount_live [OF ok room] obtain m where ok1: "mnts_ok (st1, add_mset i H)" and at: "mnt_at st1 i = Some m" by metis
    note m = live_ref_ok [OF ok1 at] and l = mnts_ok_links [OF ok1]
    show ?thesis
    proof (cases "mn_ap m \<noteq> None \<and> mn_ap m \<noteq> Some (pt_addr ap)")
      case True
      then show ?thesis using put_ok [OF ok1] g Some at by (auto simp: mnts_add_submount_def)
    next
      case False
      let ?f = "\<lambda>m. set_flags MNTS_AUTOFS (m\<lparr>mn_ap := Some (pt_addr ap)\<rparr>)"
      let ?st = "upd_mnt i ?f (st1\<lparr>ms_submounts := (if on_list i (ms_submounts st1) then ms_submounts st1
                                           else ms_submounts st1 @ [(pt_parent ap, i)])\<rparr>)"
      have "mnts_ok (?st, H)"
      proof (rule set_flag_ok [OF ok1 at, where f = ?f])
        show "link_step MNTS_AUTOFS (ms_submounts st1) (ms_submounts ?st) (?f m)"
        proof -
          have e: "ms_submounts ?st = (if on_list i (ms_submounts st1) then ms_submounts st1 else ms_submounts st1 @ [(pt_parent ap, i)])"
            by simp
          show ?thesis unfolding e by (rule link_step_add [OF l(1)]) (use m(2) in \<open>simp_all add: flag_simps\<close>)
        qed
      qed (use m(2) in \<open>auto simp: owners_def flag_simps upd_mnt_def intro!: link_step_same [OF _ ok1 m(1)] l\<close>)
      then show ?thesis using g Some at False by (auto simp: mnts_add_submount_def)
    qed
  qed
qed


lemma mnts_add_amdmount_ok:
  assumes ok: "mnts_ok (st, H)" and room: "ref_room st"
  shows "mnts_ok (snd (mnts_add_amdmount ap e st), H)"
proof -
  obtain b m1 where s: "strdup_opts [ae_fs e, ae_pref e, ae_type e, ae_opts e] (ms_mem st) = (b, m1)" by fastforce
  obtain r st1 where g: "mnts_get_mount (ae_path e) (st\<lparr>ms_mem := m1\<rparr>) = (r, st1)" by fastforce
  have ok0: "mnts_ok (st\<lparr>ms_mem := m1\<rparr>, H)" "ref_room (st\<lparr>ms_mem := m1\<rparr>)" using ok room by (simp_all add: mnts_ok_frame ref_room_def)
  show ?thesis
  proof (cases "b \<and> r \<noteq> None")
    case False
    then show ?thesis using get_mount_ok [OF ok0 g] s g ok0(1) by (cases b; cases r) (auto simp: mnts_add_amdmount_def mnts_ok_frame)
  next
    case True
    then obtain i where r: "r = Some i" by auto
    with g get_mount_live [OF ok0] obtain m where ok1: "mnts_ok (st1, add_mset i H)" and at: "mnt_at st1 i = Some m" by metis
    note m = live_ref_ok [OF ok1 at] and l = mnts_ok_links [OF ok1]
    let ?f = "\<lambda>m. set_flags MNTS_AMD_MOUNT
                     (m\<lparr>mn_ext_mp := ae_fs e, mn_amd_pref := ae_pref e, mn_amd_type := ae_type e,
                        mn_amd_opts := ae_opts e, mn_amd_cache_opts := ae_cache_opts e\<rparr>)"
    let ?st = "upd_mnt i ?f (st1\<lparr>ms_amdmounts := (if on_list i (ms_amdmounts st1) then ms_amdmounts st1
                                        else ms_amdmounts st1 @ [(pt_addr ap, i)])\<rparr>)"
    have "mnts_ok (?st, H)"
    proof (rule set_flag_ok [OF ok1 at, where f = ?f])
      show "link_step MNTS_AMD_MOUNT (ms_amdmounts st1) (ms_amdmounts ?st) (?f m)"
      proof -
        have e: "ms_amdmounts ?st = (if on_list i (ms_amdmounts st1) then ms_amdmounts st1 else ms_amdmounts st1 @ [(pt_addr ap, i)])"
          by simp
        show ?thesis unfolding e by (rule link_step_add [OF l(2)]) (use m(2) in \<open>simp_all add: flag_simps\<close>)
      qed
    qed (use m(2,3) in \<open>auto simp: owners_def ref_ok_def flag_simps upd_mnt_def intro!: link_step_same [OF _ ok1 m(1)] l\<close>)
    then show ?thesis using s g r True by (simp add: mnts_add_amdmount_def)
  qed
qed

lemma mnts_add_mount_ok:
  assumes ok: "mnts_ok (st, H)" and room: "ref_room st" and flags: "flags AND MNTS_AUTOFS = 0" "flags AND MNTS_AMD_MOUNT = 0"
  shows "mnts_ok (snd (mnts_add_mount ap name flags st), H)"
proof -
  obtain b m1 where s: "malloc (ms_mem st) = (b, m1)" by fastforce
  obtain r st1 where g: "mnts_get_mount (mount_path ap name) (st\<lparr>ms_mem := m1\<rparr>) = (r, st1)" by fastforce
  have ok0: "mnts_ok (st\<lparr>ms_mem := m1\<rparr>, H)" "ref_room (st\<lparr>ms_mem := m1\<rparr>)" using ok room by (simp_all add: mnts_ok_frame ref_room_def)
  show ?thesis
  proof (cases "b \<and> r \<noteq> None")
    case False
    then show ?thesis using get_mount_ok [OF ok0 g] s g ok0(1) by (cases b; cases r) (auto simp: mnts_add_mount_def)
  next
    case True
    then obtain i where r: "r = Some i" by auto
    with g get_mount_live [OF ok0] obtain m where ok1: "mnts_ok (st1, add_mset i H)" and at: "mnt_at st1 i = Some m" by metis
    note m = live_ref_ok [OF ok1 at] and l = mnts_ok_links [OF ok1]
    let ?f = "set_flags flags"
    let ?st2 = "upd_mnt i ?f st1"
    have bits: "\<not> bit flags 2" "\<not> bit flags 6" using flags by (simp_all add: flag_simps)
    have at2: "mnt_at ?st2 i = Some (?f m)" using mnt_at_upd [of ?f i st1] at by simp
    let ?new = "\<lambda>l. if has_flag (?f m) MNTS_MOUNTED \<and> \<not> on_list i l then (pt_addr ap, i) # l else l"
    have "mnts_ok (?st2\<lparr>ms_mounts := ?new (ms_mounts st1)\<rparr>, H)"
    proof (rule set_flag_ok [OF ok1 at, where f = ?f])
      have "link_step MNTS_MOUNTED (ms_mounts st1) (?new (ms_mounts st1)) (?f m)"
      proof (cases "has_flag (?f m) MNTS_MOUNTED")
        case True
        then show ?thesis using link_step_add(2) [OF l(3) True, of i "pt_addr ap"] m(2) by (auto split: if_splits)
      next
        case False
        then have "has_flag m MNTS_MOUNTED = has_flag (?f m) MNTS_MOUNTED" by (auto simp: flag_simps)
        then show ?thesis using False link_step_same [OF l(3) ok1 m(1), of "?f m"] by simp
      qed
      then show "link_step MNTS_MOUNTED (ms_mounts st1) (ms_mounts (?st2\<lparr>ms_mounts := ?new (ms_mounts st1)\<rparr>)) (?f m)" by simp
    qed (use m(2,3) bits in \<open>auto simp: owners_def ref_ok_def flag_simps upd_mnt_def intro!: link_step_same [OF _ ok1 m(1)] l\<close>)
    then show ?thesis using s g r True at2 by (auto simp: mnts_add_mount_def Let_def split: if_splits)
  qed
qed

lemma mnts_remove_submount_ok:
  assumes ok: "mnts_ok (st, H)"
  shows "\<exists>st'. mnts_remove_submount mp st = Some st' \<and> mnts_ok (st', H)"
proof (cases "\<exists>m. mnts_lookup st mp = Some m \<and> has_flag m MNTS_AUTOFS")
  case False
  then show ?thesis using ok by (auto simp: mnts_remove_submount_def split: option.split)
next
  case True
  then obtain m where lk: "mnts_lookup st mp = Some m" and fl: "has_flag m MNTS_AUTOFS" by blast
  then have m: "m \<in> set (mnts_all st)" using lookup_Some [OF ok] by simp
  note l = mnts_ok_links [OF ok]
  let ?f = "\<lambda>m. clear_flags MNTS_AUTOFS (m\<lparr>mn_ap := None\<rparr>)"
  have "\<exists>st''. put_ref (mn_id m) (upd_mnt (mn_id m) ?f (st\<lparr>ms_submounts := list_del (mn_id m) (ms_submounts st)\<rparr>)) = Some st''
    \<and> mnts_ok (st'', H)"
    by (rule clear_flag_ok [OF ok m, where f = ?f])
      (use fl in \<open>auto simp: owners_def flag_simps upd_mnt_def intro!: link_step_same [OF _ ok m] link_step_del l\<close>)
  then show ?thesis using lk fl by (simp add: mnts_remove_submount_def)
qed

lemma mnts_remove_amdmount_ok:
  assumes ok: "mnts_ok (st, H)"
  shows "\<exists>st'. mnts_remove_amdmount mp st = Some st' \<and> mnts_ok (st', H)"
proof (cases "\<exists>m. mnts_lookup st mp = Some m \<and> has_flag m MNTS_AMD_MOUNT")
  case False
  then show ?thesis using ok by (auto simp: mnts_remove_amdmount_def split: option.split)
next
  case True
  then obtain m where lk: "mnts_lookup st mp = Some m" and fl: "has_flag m MNTS_AMD_MOUNT" by blast
  then have m: "m \<in> set (mnts_all st)" using lookup_Some [OF ok] by simp
  then have r: "ref_ok H m" using ok by (simp add: mnts_ok_def)
  note l = mnts_ok_links [OF ok]
  let ?f = "\<lambda>m. clear_flags MNTS_AMD_MOUNT
     (m\<lparr>mn_ext_mp := None, mn_amd_pref := None, mn_amd_type := None, mn_amd_opts := None, mn_amd_cache_opts := 0\<rparr>)"
  have "\<exists>st''. put_ref (mn_id m) (upd_mnt (mn_id m) ?f (st\<lparr>ms_amdmounts := list_del (mn_id m) (ms_amdmounts st)\<rparr>)) = Some st''
    \<and> mnts_ok (st'', H)"
    by (rule clear_flag_ok [OF ok m, where f = ?f])
      (use fl r in \<open>auto simp: owners_def ref_ok_def flag_simps upd_mnt_def intro!: link_step_same [OF _ ok m] link_step_del l\<close>)
  then show ?thesis using lk fl by (simp add: mnts_remove_amdmount_def)
qed

lemma mnts_remove_mount_ok:
  assumes ok: "mnts_ok (st, H)"
  shows "\<exists>st'. mnts_remove_mount mp MNTS_MOUNTED st = Some st' \<and> mnts_ok (st', H)"
proof (cases "\<exists>m. mnts_lookup st mp = Some m \<and> has_flag m MNTS_MOUNTED")
  case False
  then show ?thesis using ok by (auto simp: mnts_remove_mount_def split: option.split)
next
  case True
  then obtain m where lk: "mnts_lookup st mp = Some m" and fl: "has_flag m MNTS_MOUNTED" by blast
  then have m: "m \<in> set (mnts_all st)" using lookup_Some [OF ok] by simp
  then have r: "ref_ok H m" using ok by (simp add: mnts_ok_def)
  note l = mnts_ok_links [OF ok]
  let ?f = "clear_flags MNTS_MOUNTED"
  have "\<exists>st''. put_ref (mn_id m) ((upd_mnt (mn_id m) ?f st)\<lparr>ms_mounts := list_del (mn_id m) (ms_mounts st)\<rparr>) = Some st''
    \<and> mnts_ok (st'', H)"
    by (rule clear_flag_ok [OF ok m, where f = ?f])
      (use fl r in \<open>auto simp: owners_def ref_ok_def flag_simps upd_mnt_def intro!: link_step_same [OF _ ok m] link_step_del l\<close>)
  moreover have "\<not> has_flag (?f m) MNTS_MOUNTED" by (simp add: flag_simps)
  ultimately show ?thesis using lk fl by (simp add: mnts_remove_mount_def Let_def)
qed


lemma find_flagged_ok:
  assumes ok: "mnts_ok (st, H)" and room: "ref_room st"
  shows "\<exists>r st'. find_flagged b path st = Some (r, st') \<and> mnts_ok (st', case r of None \<Rightarrow> H | Some i \<Rightarrow> add_mset i H)"
proof (cases "mnts_lookup st path")
  case None
  then show ?thesis using ok by (simp add: find_flagged_def mnts_lookup_mount_def mnts_put_mount_def)
next
  case (Some m)
  then have m: "m \<in> set (mnts_all st)" using lookup_Some [OF ok] by simp
  then have ok1: "mnts_ok (get_ref (mn_id m) st, add_mset (mn_id m) H)" using get_ok [OF ok m] room by (simp add: ref_room_def)
  show ?thesis
    using put_ok [OF ok1] ok1 Some
    by (cases "case mnt_at (get_ref (mn_id m) st) (mn_id m) of None \<Rightarrow> False | Some m \<Rightarrow> has_flag m b")
      (auto simp: find_flagged_def mnts_lookup_mount_def mnts_put_mount_def)
qed

lemma get_all_ok:
  assumes "mnts_ok (st, H)" "distinct is" "\<forall>i \<in> set is. \<exists>m \<in> set (mnts_all st). mn_id m = i \<and> mn_ref m < 2 ^ 32 - 1"
  shows "mnts_ok (fold get_ref is st, H + mset is)"
  using assms
proof (induction "is" arbitrary: st H)
  case (Cons i js)
  then obtain m where m: "m \<in> set (mnts_all st)" "mn_id m = i" "mn_ref m < 2 ^ 32 - 1" by auto
  have ok1: "mnts_ok (get_ref i st, add_mset i H)" using get_ok [OF Cons.prems(1) m(1,3)] m(2) by simp
  have "\<exists>m \<in> set (mnts_all (get_ref i st)). mn_id m = j \<and> mn_ref m < 2 ^ 32 - 1" if j: "j \<in> set js" for j
  proof -
    obtain x where "x \<in> set (mnts_all st)" "mn_id x = j" "mn_ref x < 2 ^ 32 - 1" using Cons.prems(3) j by auto
    moreover have "j \<noteq> i" using Cons.prems(2) j by auto
    ultimately have "x \<in> set (mnts_all (get_ref i st))" by (force simp: get_ref_def)
    then show ?thesis using \<open>mn_id x = j\<close> \<open>mn_ref x < _\<close> by blast
  qed
  then show ?case using Cons.IH [OF ok1] Cons.prems(2) by simp
qed simp

lemma put_all_ok: "mnts_ok (st, H + mset is) \<Longrightarrow> \<exists>st'. mnts_put_expire_list is st = Some st' \<and> mnts_ok (st', H)"
proof (induction "is" arbitrary: st)
  case (Cons i js)
  then have "mnts_ok (st, add_mset i (H + mset js))" by simp
  from put_ok [OF this] Cons.IH show ?case by auto
qed simp

lemma mounted_of_live:
  assumes ok: "mnts_ok (st, H)"
  shows "distinct (map mn_id (mounted_of ap st))"
    "m \<in> set (mounted_of ap st) \<longleftrightarrow> m \<in> set (mnts_all st) \<and> (pt_addr ap, mn_id m) \<in> set (ms_mounts st)"
proof -
  have t: "table_ok st" and l: "link_ok MNTS_MOUNTED (ms_mounts st) (mnts_all st)" using ok by (auto simp: mnts_ok_def)
  let ?is = "links_of (pt_addr ap) (ms_mounts st)"
  have live: "\<exists>m. mnt_at st i = Some m \<and> mn_id m = i \<and> has_flag m MNTS_MOUNTED" if "i \<in> set ?is" for i
  proof -
    have "i \<in> snd ` set (ms_mounts st)" using that by (auto simp: links_of_def)
    then obtain m where "m \<in> set (mnts_all st)" "mn_id m = i" "has_flag m MNTS_MOUNTED" using l by (auto simp: link_ok_def)
    then show ?thesis using mnt_at_Some [OF t] by blast
  qed
  have all: "mounted_of ap st = map (the \<circ> mnt_at st) ?is"
  proof -
    have "filter (\<lambda>m. has_flag m MNTS_MOUNTED) (List.map_filter (mnt_at st) is) = map (the \<circ> mnt_at st) is"
      if "\<forall>i \<in> set is. \<exists>m. mnt_at st i = Some m \<and> mn_id m = i \<and> has_flag m MNTS_MOUNTED" for "is"
      using that by (induction "is") (auto simp: List.map_filter_simps)
    then show ?thesis using live by (simp add: mounted_of_def)
  qed
  have ids: "map mn_id (mounted_of ap st) = ?is" unfolding all map_map using live by (intro map_idI) fastforce
  have "distinct (map snd (ms_mounts st))" using l by (simp add: link_ok_def)
  then show "distinct (map mn_id (mounted_of ap st))" unfolding ids links_of_def by (rule distinct_map_filter)
  show "m \<in> set (mounted_of ap st) \<longleftrightarrow> m \<in> set (mnts_all st) \<and> (pt_addr ap, mn_id m) \<in> set (ms_mounts st)"
  proof
    assume m: "m \<in> set (mounted_of ap st)"
    then have "mn_id m \<in> set ?is" using ids by (metis image_eqI list.set_map)
    moreover from m have "m \<in> set (mnts_all st)" unfolding all using live mnt_at_Some [OF t] by fastforce
    ultimately show "m \<in> set (mnts_all st) \<and> (pt_addr ap, mn_id m) \<in> set (ms_mounts st)" by (auto simp: links_of_def)
  next
    assume m: "m \<in> set (mnts_all st) \<and> (pt_addr ap, mn_id m) \<in> set (ms_mounts st)"
    then have "mn_id m \<in> set ?is" by (force simp: links_of_def)
    moreover have "the (mnt_at st (mn_id m)) = m" using mnt_at_Some [OF t] m by (metis option.sel)
    ultimately show "m \<in> set (mounted_of ap st)" unfolding all by force
  qed
qed

lemma get_expire_list_ok:
  assumes ok: "mnts_ok (st, H)" and room: "ref_room st"
  shows "mnts_ok (snd (mnts_get_expire_list ap st), H + mset (map mn_id (mounted_of ap st)))"
proof -
  have "snd (mnts_get_expire_list ap st) = fold get_ref (map mn_id (mounted_of ap st)) st"
    by (simp add: mnts_get_expire_list_def Let_def fold_map comp_def)
  moreover have "mnts_ok (fold get_ref (map mn_id (mounted_of ap st)) st, H + mset (map mn_id (mounted_of ap st)))"
    by (rule get_all_ok [OF ok mounted_of_live(1) [OF ok]])
      (use room mounted_of_live(2) [OF ok] in \<open>auto simp: ref_room_def\<close>)
  ultimately show ?thesis by simp
qed

lemma remove_amd_loop_ok: "mnts_ok (st, H) \<Longrightarrow> remove_amd_loop is st = Some st' \<Longrightarrow> mnts_ok (st', H)"
proof (induction "is" st arbitrary: st' rule: remove_amd_loop.induct)
  case (2 i "is" st)
  from 2(3) obtain mnt ext st1 where s: "mnt_at st i = Some mnt" "mn_ext_mp mnt = Some ext"
    "mnts_remove_amdmount (mn_mp mnt) (st\<lparr>ms_ext := snd (ext_mount_remove (ms_ext st) ext)\<rparr>) = Some st1" "remove_amd_loop is st1 = Some st'"
    by (auto split: option.splits)
  have "mnts_ok (st1, H)"
    using mnts_remove_amdmount_ok [of "st\<lparr>ms_ext := snd (ext_mount_remove (ms_ext st) ext)\<rparr>" H "mn_mp mnt"] 2(2) s(3)
    by (simp add: mnts_ok_frame)
  with 2(1) [OF s(1-3) _ s(4)] show ?case .
qed simp


section \<open>Sequences of operations\<close>

text \<open>
  The operations that threads run under the mutex, one after the other; none can start once the
  mutex is left locked. The second component are the references the threads hold: a caller gives
  back only what it has got. \<open>mnts_remove_mount\<close> is called for \<open>MNTS_MOUNTED\<close> only.
\<close>

datatype mnts_event = Find u32 string | Put addr | Add_Sub mpoint | Del_Sub string | Add_Amd mpoint amd_entry
  | Del_Amd string | Del_Amds mpoint | Add_Mnt mpoint string u32 | Del_Mnt string | Get_Expire mpoint | Put_Expire "addr list"

inductive mnts_step :: "mnts \<times> addr multiset \<Rightarrow> mnts_event \<Rightarrow> mnts \<times> addr multiset \<Rightarrow> bool" where
  step_find: "\<not> ms_locked st \<Longrightarrow> ref_room st \<Longrightarrow> find_flagged b path st = Some (r, st') \<Longrightarrow>
    mnts_step (st, H) (Find b path) (st', case r of None \<Rightarrow> H | Some i \<Rightarrow> add_mset i H)"
| step_put: "\<not> ms_locked st \<Longrightarrow> mnts_put_mount (Some i) st = Some st' \<Longrightarrow> mnts_step (st, add_mset i H) (Put i) (st', H)"
| step_add_sub: "\<not> ms_locked st \<Longrightarrow> ref_room st \<Longrightarrow> mnts_add_submount ap st = Some (r, st') \<Longrightarrow>
    mnts_step (st, H) (Add_Sub ap) (st', H)"
| step_del_sub: "\<not> ms_locked st \<Longrightarrow> mnts_remove_submount mp st = Some st' \<Longrightarrow> mnts_step (st, H) (Del_Sub mp) (st', H)"
| step_add_amd: "\<not> ms_locked st \<Longrightarrow> ref_room st \<Longrightarrow> mnts_step (st, H) (Add_Amd ap e) (snd (mnts_add_amdmount ap e st), H)"
| step_del_amd: "\<not> ms_locked st \<Longrightarrow> mnts_remove_amdmount mp st = Some st' \<Longrightarrow> mnts_step (st, H) (Del_Amd mp) (st', H)"
| step_del_amds: "\<not> ms_locked st \<Longrightarrow> mnts_remove_amdmounts ap st = Some st' \<Longrightarrow> mnts_step (st, H) (Del_Amds ap) (st', H)"
| step_add_mnt: "\<not> ms_locked st \<Longrightarrow> ref_room st \<Longrightarrow> flags AND MNTS_AUTOFS = 0 \<Longrightarrow> flags AND MNTS_AMD_MOUNT = 0 \<Longrightarrow>
    mnts_step (st, H) (Add_Mnt ap name flags) (snd (mnts_add_mount ap name flags st), H)"
| step_del_mnt: "\<not> ms_locked st \<Longrightarrow> mnts_remove_mount mp MNTS_MOUNTED st = Some st' \<Longrightarrow> mnts_step (st, H) (Del_Mnt mp) (st', H)"
| step_get_expire: "\<not> ms_locked st \<Longrightarrow> ref_room st \<Longrightarrow>
    mnts_step (st, H) (Get_Expire ap) (snd (mnts_get_expire_list ap st), H + mset (map mn_id (mounted_of ap st)))"
| step_put_expire: "\<not> ms_locked st \<Longrightarrow> mnts_put_expire_list is st = Some st' \<Longrightarrow>
    mnts_step (st, H + mset is) (Put_Expire is) (st', H)"

lemma mnts_ok_empty: "mnts_ok (mnts_empty m, {#})"
proof -
  have "mnts_all (mnts_empty m) = []" by (simp add: mnts_all_def mnts_empty_def)
  then show ?thesis by (simp add: mnts_ok_def table_ok_def hash_ok_def link_ok_def mnts_empty_def)
qed

lemma mnts_step_ok:
  assumes "mnts_ok s" "mnts_step s e t"
  shows "mnts_ok t"
  using assms(2,1)
proof (cases rule: mnts_step.cases)
  case (step_find st b path r st' H)
  then show ?thesis using find_flagged_ok [of st H b path] assms(1) by auto
next
  case (step_put st i st' H)
  then show ?thesis using put_ok [of st i H] assms(1) by (auto simp: mnts_put_mount_def)
next
  case (step_add_sub st ap r st' H)
  then show ?thesis using mnts_add_submount_ok [of st H ap] assms(1) by auto
next
  case (step_del_sub st mp st' H)
  then show ?thesis using mnts_remove_submount_ok [of st H mp] assms(1) by auto
next
  case (step_del_amd st mp st' H)
  then show ?thesis using mnts_remove_amdmount_ok [of st H mp] assms(1) by auto
next
  case (step_del_mnt st mp st' H)
  then show ?thesis using mnts_remove_mount_ok [of st H mp] assms(1) by auto
next
  case (step_put_expire st "is" st' H)
  then show ?thesis using put_all_ok [of st H "is"] assms(1) by auto
qed (use assms(1) mnts_add_amdmount_ok mnts_add_mount_ok get_expire_list_ok remove_amd_loop_ok in \<open>auto simp: mnts_remove_amdmounts_def\<close>)

interpretation mnts_sys: transition_system "\<lambda>s. \<exists>m. s = (mnts_empty m, {#})" mnts_step mnts_ok
  by unfold_locales (auto simp: mnts_ok_empty intro: mnts_step_ok)

text \<open>
  C17: in every state of the tables of mounts that the operations reach, each path has one entry,
  an entry counts at least the lists it is on and the references callers hold, the lists of the
  mount points hold exactly the entries with their flag, and giving back any reference that a
  caller holds finds its mount: nothing is freed while it is in use.
\<close>

theorem mnts_reachable_ok:
  assumes "reach (\<lambda>s. \<exists>m. s = (mnts_empty m, {#})) mnts_step (st, H)"
  shows "mnts_ok (st, H) \<and> (\<forall>i \<in># H. \<exists>st'. put_ref i st = Some st')"
proof -
  have ok: "mnts_ok (st, H)" using assms by (rule mnts_sys.invar_reach)
  moreover have "\<exists>st'. put_ref i st = Some st'" if "i \<in># H" for i
    using put_ok [of st i "H - {#i#}"] ok that by auto
  ultimately show ?thesis by blast
qed

abbreviation point1 :: mpoint where
  "point1 \<equiv> \<lparr>pt_addr = 5, pt_path = ''/home'', pt_parent = 0\<rparr>"

theorem mnts_reachable_ok_witness:
  "mnts_ok (snd (mnts_add_mount point1 ''ann'' MNTS_MOUNTED (mnts_empty [])), {#})"
proof -
  let ?st = "snd (mnts_add_mount point1 ''ann'' MNTS_MOUNTED (mnts_empty []))"
  have init: "reach (\<lambda>s. \<exists>m. s = (mnts_empty m, {#})) mnts_step (mnts_empty [], {#})" by (rule reach_init) blast
  have "mnts_step (mnts_empty [], {#}) (Add_Mnt point1 ''ann'' MNTS_MOUNTED) (?st, {#})"
    by (rule step_add_mnt)
      (simp_all add: mnts_empty_def ref_room_def mnts_all_def MNTS_MOUNTED_def MNTS_AUTOFS_def MNTS_AMD_MOUNT_def)
  with init have "reach (\<lambda>s. \<exists>m. s = (mnts_empty m, {#})) mnts_step (?st, {#})" by (rule reach_step)
  from mnts_reachable_ok [OF this] show ?thesis by simp
qed

section \<open>Expiry\<close>

lemma expire_tree_spec:
  assumes "\<forall>m \<in> set ms. cstring (mn_mp m)" "distinct (map mn_mp ms)"
  shows "mset (inorder (expire_tree ms)) = mset ms \<and> sorted (map (\<lambda>m. length (mn_mp m)) (inorder (expire_tree ms)))"
proof (cases ms)
  case (Cons m rest)
  have ord: "mnt_tree.ordered (tree_root m)" using assms(1) Cons by (simp add: mnt_tree.ordered_root)
  have "mset_tree (expire_tree ms) = mset rest + mset_tree (tree_root m)"
    using mnt_tree.add_all_elements [OF ord, of rest] assms Cons by (auto simp: expire_tree_def tree_root_def)
  then have "mset (inorder (expire_tree ms)) = mset ms" using Cons by (simp add: tree_root_def)
  moreover have "sorted (map (\<lambda>m. length (mn_mp m)) (inorder (expire_tree ms)))"
    using mnt_tree.ordered_sorted [OF mnt_tree.add_all_ordered [OF ord, of rest]] assms(1) Cons by (simp add: expire_tree_def)
  ultimately show ?thesis ..
qed (simp add: expire_tree_def)

lemma expire_list_eq:
  "fst (mnts_get_expire_list ap st) = rev (filter (\<lambda>m. List.last (mn_mp m) \<noteq> CHR ''/'') (inorder (expire_tree (mounted_of ap st))))"
proof -
  have "fold (\<lambda>m l. snd (tree_mnt_expire_list_work m l)) xs acc = rev (filter (\<lambda>m. List.last (mn_mp m) \<noteq> CHR ''/'') xs) @ acc" for xs acc
    by (induction xs arbitrary: acc) (auto simp: tree_mnt_expire_list_work_def)
  moreover have "work_list tree_mnt_expire_list_work xs acc = (True, fold (\<lambda>m l. snd (tree_mnt_expire_list_work m l)) xs acc)" for xs acc
    by (rule work_list_total) (simp add: tree_mnt_expire_list_work_def)
  ultimately show ?thesis by (simp add: mnts_get_expire_list_def Let_def tree_traverse_inorder_list)
qed

text \<open>
  C25: the list of mounts to expire of a mount point holds each of its mounted mounts once, those
  whose path ends in a slash excepted, and longer paths stand in front of shorter ones, so that a
  mount is tried before the mount it lies in.
\<close>

theorem expire_list_order:
  assumes "mnts_ok (st, H)" and "\<forall>m \<in> set (mnts_all st). cstring (mn_mp m)"
  shows "mset (fst (mnts_get_expire_list ap st)) = filter_mset (\<lambda>m. List.last (mn_mp m) \<noteq> CHR ''/'') (mset (mounted_of ap st))
    \<and> (\<forall>m. m \<in> set (mounted_of ap st) \<longleftrightarrow> m \<in> set (mnts_all st) \<and> (pt_addr ap, mn_id m) \<in> set (ms_mounts st))
    \<and> sorted_wrt (\<lambda>a b. length (mn_mp b) \<le> length (mn_mp a)) (fst (mnts_get_expire_list ap st))"
proof -
  note live = mounted_of_live [OF assms(1), where ap = ap]
  have inj: "inj_on mn_mp (set (mnts_all st))" using assms(1) by (simp add: mnts_ok_def table_ok_def distinct_map)
  have "distinct (mounted_of ap st)" using live(1) by (simp add: distinct_map)
  then have d: "distinct (map mn_mp (mounted_of ap st))"
    using inj live(2) by (auto simp: distinct_map intro: inj_on_subset)
  have c: "\<forall>m \<in> set (mounted_of ap st). cstring (mn_mp m)" using assms(2) live(2) by blast
  note t = expire_tree_spec [OF c d, THEN conjunct1] expire_tree_spec [OF c d, THEN conjunct2]
  have "sorted_wrt (\<lambda>a b. length (mn_mp a) \<le> length (mn_mp b)) (inorder (expire_tree (mounted_of ap st)))"
    using t(2) by (simp add: sorted_map)
  then have "sorted_wrt (\<lambda>a b. length (mn_mp b) \<le> length (mn_mp a)) (fst (mnts_get_expire_list ap st))"
    unfolding expire_list_eq by (simp add: sorted_wrt_rev sorted_wrt_filter)
  moreover have "mset (fst (mnts_get_expire_list ap st)) = filter_mset (\<lambda>m. List.last (mn_mp m) \<noteq> CHR ''/'') (mset (mounted_of ap st))"
    unfolding expire_list_eq using t(1) by simp
  ultimately show ?thesis using live(2) by blast
qed


text \<open>A table with the mounts of two paths, one below the other, on the lists of one mount point.\<close>

definition two_mounts :: mnts where
  "two_mounts = snd (mnts_add_mount point1 ''ann/src'' MNTS_MOUNTED (snd (mnts_add_mount point1 ''ann'' MNTS_MOUNTED (mnts_empty []))))"

lemma two_mounts_ok: "mnts_ok (two_mounts, {#})"
proof -
  let ?st = "snd (mnts_add_mount point1 ''ann'' MNTS_MOUNTED (mnts_empty []))"
  have flags: "MNTS_MOUNTED AND MNTS_AUTOFS = 0" "MNTS_MOUNTED AND MNTS_AMD_MOUNT = 0" by (simp_all add: flag_simps)
  have "mnts_ok (?st, {#})"
    by (rule mnts_add_mount_ok [OF mnts_ok_empty _ flags]) (simp add: ref_room_def mnts_all_def mnts_empty_def)
  moreover have "map mn_ref (mnts_all ?st) = [1]" by code_simp
  then have "ref_room ?st" by (auto simp: ref_room_def)
  ultimately show ?thesis unfolding two_mounts_def by (rule mnts_add_mount_ok [OF _ _ flags])
qed

theorem expire_list_order_witness:
  "map mn_mp (fst (mnts_get_expire_list point1 two_mounts)) = [''/home/ann/src'', ''/home/ann'']"
proof -
  have c: "\<forall>m \<in> set (mnts_all two_mounts). cstring (mn_mp m)" by code_simp
  let ?l = "fst (mnts_get_expire_list point1 two_mounts)"
  note w = expire_list_order [OF two_mounts_ok c, of point1]
  have "mset (map mn_mp (filter (\<lambda>m. List.last (mn_mp m) \<noteq> CHR ''/'') (mounted_of point1 two_mounts))) = {#''/home/ann'', ''/home/ann/src''#}"
    by code_simp
  then have ms: "mset (map mn_mp ?l) = {#''/home/ann'', ''/home/ann/src''#}"
    using w [THEN conjunct1] unfolding mset_map mset_filter by (simp only:)
  then have "length ?l = 2" by (metis length_map size_mset size_add_mset size_empty One_nat_def Suc_1)
  then obtain a b where ab: "?l = [a, b]" by (auto simp: length_Suc_conv numeral_2_eq_2)
  have "length (mn_mp b) \<le> length (mn_mp a)" using w by (simp add: ab)
  moreover have "set (map mn_mp ?l) = {''/home/ann'', ''/home/ann/src''}"
    using arg_cong [OF ms, of set_mset] by simp
  ultimately show ?thesis by (auto simp: ab doubleton_eq_iff)
qed


lemma get_ref_other: "x \<in> set (mnts_all st) \<Longrightarrow> mn_id x \<noteq> i \<Longrightarrow> x \<in> set (mnts_all (get_ref i st))"
  by (force simp: get_ref_def)

lemma get_refs_other: "x \<in> set (mnts_all st) \<Longrightarrow> mn_id x \<notin> set is \<Longrightarrow> x \<in> set (mnts_all (fold get_ref is st))"
  by (induction "is" arbitrary: st) (auto intro: get_ref_other)

lemma get_refs_bump:
  assumes "x \<in> set (mnts_all st)" "mn_id x \<in> set is" "distinct is"
  shows "x\<lparr>mn_ref := ref_inc (mn_ref x)\<rparr> \<in> set (mnts_all (fold get_ref is st))"
  using assms
proof (induction "is" arbitrary: st)
  case (Cons i js)
  show ?case
  proof (cases "i = mn_id x")
    case True
    then have "x\<lparr>mn_ref := ref_inc (mn_ref x)\<rparr> \<in> set (mnts_all (get_ref i st))" using Cons.prems(1) by (auto simp: get_ref_def)
    then show ?thesis using get_refs_other [of "x\<lparr>mn_ref := ref_inc (mn_ref x)\<rparr>" "get_ref i st" js] Cons.prems(3) True by simp
  next
    case False
    then show ?thesis using Cons.IH [OF get_ref_other [OF Cons.prems(1)]] Cons.prems by auto
  qed
qed simp

lemma put_ref_other: "x \<in> set (mnts_all st) \<Longrightarrow> mn_id x \<noteq> i \<Longrightarrow> put_ref i st = Some st' \<Longrightarrow> x \<in> set (mnts_all st')"
  by (force simp: put_ref_def split: option.splits if_splits)

lemma put_refs_other:
  "x \<in> set (mnts_all st) \<Longrightarrow> mn_id x \<notin> set is \<Longrightarrow> mnts_put_expire_list is st = Some st' \<Longrightarrow> x \<in> set (mnts_all st')"
proof (induction "is" arbitrary: st)
  case (Cons i js)
  then obtain st1 where "put_ref i st = Some st1" "mnts_put_expire_list js st1 = Some st'" by (auto simp: bind_eq_Some_conv)
  with Cons put_ref_other [OF Cons.prems(1)] show ?case by auto
qed simp

text \<open>
  a mount whose path ends in a slash, the root offset of a multi-mount, is not on the list of
  mounts to expire although a reference is taken for it: after the list has been given back its
  count is one higher than before.
\<close>

theorem expire_list_leaks:
  assumes "mnts_ok (st, H)" and "ref_room st" and "m \<in> set (mounted_of ap st)" and "List.last (mn_mp m) = CHR ''/''"
    and "mnts_put_expire_list (map mn_id (fst (mnts_get_expire_list ap st))) (snd (mnts_get_expire_list ap st)) = Some st'"
  shows "\<exists>m' \<in> set (mnts_all st'). mn_id m' = mn_id m \<and> mn_ref m' = mn_ref m + 1"
proof -
  let ?ids = "map mn_id (mounted_of ap st)" and ?l = "fst (mnts_get_expire_list ap st)"
  note live = mounted_of_live [OF assms(1), where ap = ap]
  have m: "m \<in> set (mnts_all st)" using live(2) assms(3) by blast
  have "snd (mnts_get_expire_list ap st) = fold get_ref ?ids st"
    by (simp add: mnts_get_expire_list_def Let_def fold_map comp_def)
  then have bump: "m\<lparr>mn_ref := mn_ref m + 1\<rparr> \<in> set (mnts_all (snd (mnts_get_expire_list ap st)))"
    using get_refs_bump [OF m, of ?ids] live(1) assms(2,3) m by (auto simp: ref_room_def)
  have "mn_id m \<notin> set (map mn_id ?l)"
  proof
    assume "mn_id m \<in> set (map mn_id ?l)"
    then obtain x where x: "x \<in> set ?l" "mn_id x = mn_id m" by auto
    then have "List.last (mn_mp x) \<noteq> CHR ''/''" by (auto simp: expire_list_eq)
    have "set (inorder (expire_tree (mounted_of ap st))) \<subseteq> set (mounted_of ap st)"
      using tree_add_all_set [of tree_mnt_cmp "tl (mounted_of ap st)" "tree_root (hd (mounted_of ap st))"]
      by (cases "mounted_of ap st") (auto simp: expire_tree_def tree_root_def)
    then have "x \<in> set (mnts_all st)" using x(1) live(2) by (auto simp: expire_list_eq)
    then have "x = m" using only_id [OF assms(1) m _ x(2)] by blast
    then show False using \<open>List.last (mn_mp x) \<noteq> _\<close> assms(4) by simp
  qed
  then show ?thesis using put_refs_other [OF bump _ assms(5)] by force
qed


definition root_mount :: mnts where
  "root_mount = snd (mnts_add_mount point1 ''ann/'' MNTS_MOUNTED (mnts_empty []))"

theorem expire_list_leaks_witness:
  "map mn_ref (mnts_all root_mount) = [1]
    \<and> map_option (map mn_ref \<circ> mnts_all)
        (mnts_put_expire_list (map mn_id (fst (mnts_get_expire_list point1 root_mount))) (snd (mnts_get_expire_list point1 root_mount)))
      = Some [2]"
proof -
  have flags: "MNTS_MOUNTED AND MNTS_AUTOFS = 0" "MNTS_MOUNTED AND MNTS_AMD_MOUNT = 0" by (simp_all add: flag_simps)
  have ok: "mnts_ok (root_mount, {#})" unfolding root_mount_def
    by (rule mnts_add_mount_ok [OF mnts_ok_empty _ flags]) (simp add: ref_room_def mnts_all_def mnts_empty_def)
  have refs: "map mn_ref (mnts_all root_mount) = [1]" by code_simp
  then have room: "ref_room root_mount" by (auto simp: ref_room_def)
  define m where "m = hd (mounted_of point1 root_mount)"
  have m: "m \<in> set (mounted_of point1 root_mount)" "List.last (mn_mp m) = CHR ''/''" "mn_ref m = 1" unfolding m_def by code_simp+
  let ?put = "mnts_put_expire_list (map mn_id (fst (mnts_get_expire_list point1 root_mount))) (snd (mnts_get_expire_list point1 root_mount))"
  have "map_option (length \<circ> mnts_all) ?put = Some 1" by code_simp
  then obtain st' where st': "?put = Some st'" "length (mnts_all st') = 1" by auto
  with expire_list_leaks [OF ok room m(1,2) st'(1)] m(3) have "map mn_ref (mnts_all st') = [2]"
    by (auto simp: length_Suc_conv)
  with st'(1) refs show ?thesis by simp
qed

section \<open>Amd mounts\<close>

text \<open>
  when no memory is left for the new mount, \<open>mnts_add_amdmount\<close> returns with the mutex locked, and
  no operation on the table can start any more.
\<close>

theorem mnts_add_amdmount_deadlock:
  assumes "strdup_opts [ae_fs e, ae_pref e, ae_type e, ae_opts e] (ms_mem st) = (True, m1)"
    and "mnts_lookup st (ae_path e) = None" and "m1 = False # rest"
  shows "fst (mnts_add_amdmount ap e st) = None \<and> \<not> mnts_step (snd (mnts_add_amdmount ap e st), H) ev t"
proof -
  have "mnts_add_amdmount ap e st = (None, (st\<lparr>ms_mem := rest, ms_locked := True\<rparr>))"
    using assms by (simp add: mnts_add_amdmount_def mnts_get_mount_def mnts_new_mount_def lookup_frame mnts_alloc_mount_def)
  then show ?thesis by (auto elim: mnts_step.cases)
qed

abbreviation amd1 :: amd_entry where
  "amd1 \<equiv> \<lparr>ae_path = ''/net/x'', ae_fs = Some ''/a/x'', ae_pref = None, ae_type = None, ae_opts = None, ae_cache_opts = 0\<rparr>"

theorem mnts_add_amdmount_deadlock_witness:
  "fst (mnts_add_amdmount point1 amd1 (mnts_empty [True, False])) = None
    \<and> \<not> mnts_step (snd (mnts_add_amdmount point1 amd1 (mnts_empty [True, False])), {#}) (Del_Mnt ''/a'') (mnts_empty [], {#})"
  by (rule mnts_add_amdmount_deadlock [where rest = "[]"]; code_simp)

section \<open>External mounts\<close>

definition ext_ok :: "ext_table \<Rightarrow> bool" where
  "ext_ok t \<longleftrightarrow> length t = 64 \<and> (\<forall>b \<in> set t. distinct (map em_mp b) \<and> (\<forall>em \<in> set b. 0 < em_ref em \<and> em_ref em < 2 ^ 32))"

lemma ext_bucket_less: "ext_bucket mp < 64"
  using unat_hash_less [of EXT_MOUNTS_SIZE mp] by (simp add: ext_bucket_def EXT_MOUNTS_SIZE_def)

lemma find_upd_first:
  "(\<And>x. P x \<Longrightarrow> Q x \<Longrightarrow> False) \<Longrightarrow> (\<And>x y. P x \<Longrightarrow> f x = Some y \<Longrightarrow> P y) \<Longrightarrow> find Q (upd_first P f xs) = find Q xs"
  by (induction xs) (auto split: option.split)

lemma find_upd_first_same:
  assumes "distinct (map em_mp xs)" "find (\<lambda>x. em_mp x = mp) xs = Some em" "\<And>x y. f x = Some y \<Longrightarrow> em_mp y = em_mp x"
  shows "find (\<lambda>x. em_mp x = mp) (upd_first (\<lambda>x. em_mp x = mp) f xs) = f em"
  using assms(1,2)
proof (induction xs)
  case (Cons x xs)
  show ?case
  proof (cases "em_mp x = mp")
    case True
    then have "\<not> (\<exists>y. y \<in> set xs \<and> em_mp y = mp)" using Cons.prems(1) by (auto intro: rev_image_eqI)
    then have "find (\<lambda>x. em_mp x = mp) xs = None" unfolding find_None_iff .
    then show ?thesis using Cons.prems(2) True assms(3) by (auto split: option.split)
  qed (use Cons in auto)
qed simp


lemma inuse_upd_other:
  assumes "length t = 64" "p \<noteq> path" "\<And>x y. f x = Some y \<Longrightarrow> em_mp y = em_mp x"
  shows "ext_mount_inuse (upd_ext path f t) p = ext_mount_inuse t p"
proof (cases "ext_bucket p = ext_bucket path")
  case True
  have "find (\<lambda>x. em_mp x = p) (upd_first (\<lambda>x. em_mp x = path) f (t ! ext_bucket path)) = find (\<lambda>x. em_mp x = p) (t ! ext_bucket path)"
    by (rule find_upd_first) (use assms(2,3) in auto)
  then show ?thesis using True assms(1) ext_bucket_less [of path] by (simp add: ext_mount_inuse_def ext_mount_lookup_def upd_ext_def)
next
  case False
  then show ?thesis by (simp add: ext_mount_inuse_def ext_mount_lookup_def upd_ext_def)
qed

lemma inuse_lookup: "ext_mount_lookup t p = r \<Longrightarrow> ext_mount_inuse t p = (case r of None \<Rightarrow> 0 | Some em \<Rightarrow> em_ref em)"
  by (simp add: ext_mount_inuse_def)

lemma lookup_upd_same:
  assumes "ext_ok t" "ext_mount_lookup t path = Some em" "\<And>x y. f x = Some y \<Longrightarrow> em_mp y = em_mp x"
  shows "ext_mount_lookup (upd_ext path f t) path = f em"
  using assms ext_bucket_less [of path] find_upd_first_same [of "t ! ext_bucket path" path em f]
  by (auto simp: ext_mount_lookup_def upd_ext_def ext_ok_def)

lemma upd_ext_length [simp]: "length (upd_ext p f t) = length t"
  by (simp add: upd_ext_def)

lemma upd_first_idents:
  assumes "\<And>x y. x \<in> set xs \<Longrightarrow> P x \<Longrightarrow> f x = Some y \<Longrightarrow> em_mp y = em_mp x \<and> 0 < em_ref y \<and> em_ref y < 2 ^ 32"
    and "distinct (map em_mp xs)" "\<forall>em \<in> set xs. 0 < em_ref em \<and> em_ref em < 2 ^ 32"
  shows "em_mp ` set (upd_first P f xs) \<subseteq> em_mp ` set xs \<and> distinct (map em_mp (upd_first P f xs))
    \<and> (\<forall>em \<in> set (upd_first P f xs). 0 < em_ref em \<and> em_ref em < 2 ^ 32)"
  using assms
proof (induction xs)
  case (Cons x xs)
  have "em_mp ` set (upd_first P f xs) \<subseteq> em_mp ` set xs \<and> distinct (map em_mp (upd_first P f xs))
    \<and> (\<forall>em \<in> set (upd_first P f xs). 0 < em_ref em \<and> em_ref em < 2 ^ 32)"
  proof (rule Cons.IH)
    show "em_mp y = em_mp z \<and> 0 < em_ref y \<and> em_ref y < 2 ^ 32" if "z \<in> set xs" "P z" "f z = Some y" for z y
      using Cons.prems(1) [of z y] that by simp
  qed (use Cons.prems(2,3) in simp_all)
  note IH = this
  show ?case
  proof (cases "P x")
    case True
    show ?thesis
    proof (cases "f x")
      case (Some y)
      then have "em_mp y = em_mp x \<and> 0 < em_ref y \<and> em_ref y < 2 ^ 32" using Cons.prems(1) [of x y] True by simp
      then show ?thesis using Cons.prems(2,3) True Some by simp
    qed (use Cons.prems(2,3) True in auto)
  next
    case False
    then show ?thesis using IH Cons.prems(2,3) by auto
  qed
qed simp

lemma ext_ok_upd:
  assumes "ext_ok t"
    and "\<And>x y. 0 < em_ref x \<Longrightarrow> em_ref x < 2 ^ 32 \<Longrightarrow> ext_mount_lookup t path = Some x \<Longrightarrow> f x = Some y \<Longrightarrow>
      em_mp y = em_mp x \<and> 0 < em_ref y \<and> em_ref y < 2 ^ 32"
  shows "ext_ok (upd_ext path f t)"
proof -
  let ?b = "t ! ext_bucket path"
  have "?b \<in> set t" using assms(1) ext_bucket_less [of path] by (simp add: ext_ok_def)
  then have d: "distinct (map em_mp ?b)" "\<forall>em \<in> set ?b. 0 < em_ref em \<and> em_ref em < 2 ^ 32"
    using assms(1) by (auto simp: ext_ok_def)
  have lk: "ext_mount_lookup t path = Some x" if x: "x \<in> set ?b" "em_mp x = path" for x
  proof -
    obtain z where z: "find (\<lambda>this. em_mp this = path) ?b = Some z"
      using x by (cases "find (\<lambda>this. em_mp this = path) ?b") (auto simp: find_None_iff)
    then have "z \<in> set ?b" "em_mp z = path" by (auto simp: find_Some_iff)
    then have "z = x" using x d(1) by (auto simp: distinct_map inj_on_def)
    with z show ?thesis by (simp add: ext_mount_lookup_def)
  qed
  have "em_mp ` set (upd_first (\<lambda>x. em_mp x = path) f ?b) \<subseteq> em_mp ` set ?b \<and> distinct (map em_mp (upd_first (\<lambda>x. em_mp x = path) f ?b))
    \<and> (\<forall>em \<in> set (upd_first (\<lambda>x. em_mp x = path) f ?b). 0 < em_ref em \<and> em_ref em < 2 ^ 32)"
    by (rule upd_first_idents) (use d lk assms(2) in auto)
  then show ?thesis
    using assms(1) set_update_subset_insert [of t "ext_bucket path" "upd_first (\<lambda>x. em_mp x = path) f ?b"]
    unfolding ext_ok_def upd_ext_def by auto
qed


text \<open>
  adding an external mount raises its count by one and leaves the others alone; removing it
  again restores all counts, and reports that the mount is to be unmounted exactly when the count
  has gone back to zero.
\<close>

theorem ext_mount_roundtrip:
  assumes "ext_ok t" and "mem_ample m" and "ext_mount_inuse t path < 2 ^ 32 - 1"
  shows "\<exists>t1 m1. ext_mount_add t path umount m = (True, t1, m1) \<and> ext_ok t1
    \<and> (\<forall>p. ext_mount_inuse t1 p = ext_mount_inuse t p + (if p = path then 1 else 0))
    \<and> fst (ext_mount_remove t1 path) = (ext_mount_inuse t path = 0)
    \<and> (\<forall>p. ext_mount_inuse (snd (ext_mount_remove t1 path)) p = ext_mount_inuse t p)"
proof -
  have len: "length t = 64" using assms(1) by (simp add: ext_ok_def)
  let ?dec = "\<lambda>em. if ref_dec (em_ref em) \<noteq> 0 then Some (em\<lparr>em_ref := ref_dec (em_ref em)\<rparr>) else None"
  have remove: "fst (ext_mount_remove t1 path) = (ext_mount_inuse t path = 0)
    \<and> (\<forall>p. ext_mount_inuse (snd (ext_mount_remove t1 path)) p = ext_mount_inuse t p)"
    if ok: "ext_ok t1" and inuse: "\<forall>p. ext_mount_inuse t1 p = ext_mount_inuse t p + (if p = path then 1 else 0)" for t1
  proof -
    obtain em where em: "ext_mount_lookup t1 path = Some em" "em_ref em = ext_mount_inuse t path + 1"
      using inuse [rule_format, of path] by (cases "ext_mount_lookup t1 path") (auto simp: ext_mount_inuse_def [of t1])
    have dec: "ref_dec (em_ref em) = ext_mount_inuse t path" using em(2) assms(3) by simp
    have r: "ext_mount_remove t1 path = (ext_mount_inuse t path = 0, upd_ext path ?dec t1)"
      using em(1) dec by (simp add: ext_mount_remove_def)
    have lk: "ext_mount_lookup (upd_ext path ?dec t1) path = ?dec em"
      by (rule lookup_upd_same [OF ok em(1)]) (auto split: if_splits)
    have same: "ext_mount_inuse (upd_ext path ?dec t1) path = ext_mount_inuse t path"
      unfolding inuse_lookup [OF lk] using dec by simp
    have "ext_mount_inuse (upd_ext path ?dec t1) p = ext_mount_inuse t p" for p
    proof (cases "p = path")
      case True
      show ?thesis unfolding True by (rule same)
    next
      case False
      have "length t1 = 64" using ok by (simp add: ext_ok_def)
      then have "ext_mount_inuse (upd_ext path ?dec t1) p = ext_mount_inuse t1 p"
        by (rule inuse_upd_other) (use False in \<open>auto split: if_splits\<close>)
      then show ?thesis using inuse False by simp
    qed
    then show ?thesis unfolding r fst_conv snd_conv by (intro conjI allI refl)
  qed
  show ?thesis
  proof (cases "ext_mount_lookup t path")
    case (Some em)
    let ?inc = "\<lambda>em. Some (em\<lparr>em_ref := ref_inc (em_ref em)\<rparr>)"
    let ?t1 = "upd_ext path ?inc t"
    have ref: "em_ref em = ext_mount_inuse t path" using Some by (simp add: ext_mount_inuse_def)
    have ok: "ext_ok ?t1" by (rule ext_ok_upd [OF assms(1)]) (use Some ref assms(3) in auto)
    have "ext_mount_lookup ?t1 path = ?inc em" by (rule lookup_upd_same [OF assms(1) Some]) auto
    then have "ext_mount_inuse ?t1 path = ext_mount_inuse t path + 1"
      using ref assms(3) by (simp add: ext_mount_inuse_def [of ?t1])
    moreover have "ext_mount_inuse ?t1 p = ext_mount_inuse t p" if "p \<noteq> path" for p
      using inuse_upd_other [of t p path ?inc] that len by auto
    ultimately have "\<forall>p. ext_mount_inuse ?t1 p = ext_mount_inuse t p + (if p = path then 1 else 0)" by simp
    then show ?thesis using remove [OF ok] ok Some by (auto simp: ext_mount_add_def)
  next
    case None
    let ?new = "\<lparr>em_ref = 1, em_mp = path, em_umount = umount\<rparr>"
    let ?t1 = "t[ext_bucket path := ?new # t ! ext_bucket path]"
    have len1: "ext_bucket path < length t" using len ext_bucket_less [of path] by simp
    obtain m1 where add: "ext_mount_add t path umount m = (True, ?t1, m1)"
    proof -
      from assms(2) obtain ma where ma: "malloc m = (True, ma)" "mem_ample ma" by (rule mem_ampleE)
      from ma(2) obtain mb where mb: "malloc ma = (True, mb)" "mem_ample mb" by (rule mem_ampleE)
      from mb(2) obtain mc where mc: "malloc mb = (True, mc)" by (rule mem_ampleE)
      have "ext_mount_add t path umount m = (True, ?t1, if umount = None then mb else mc)"
        using None ma(1) mb(1) mc by (simp add: ext_mount_add_def)
      then show thesis by (rule that)
    qed
    have fresh: "\<forall>em \<in> set (t ! ext_bucket path). em_mp em \<noteq> path" using None by (auto simp: ext_mount_lookup_def find_None_iff)
    have "t ! ext_bucket path \<in> set t" using len1 by simp
    then have new: "distinct (map em_mp (?new # t ! ext_bucket path)) \<and> (\<forall>em \<in> set (?new # t ! ext_bucket path). 0 < em_ref em \<and> em_ref em < 2 ^ 32)"
      using assms(1) fresh by (auto simp: ext_ok_def)
    have ok: "ext_ok ?t1" unfolding ext_ok_def
    proof (intro conjI ballI)
      fix b assume "b \<in> set ?t1"
      then have "b = ?new # t ! ext_bucket path \<or> b \<in> set t"
        using set_update_subset_insert [of t "ext_bucket path" "?new # t ! ext_bucket path"] by blast
      then have b: "distinct (map em_mp b) \<and> (\<forall>em \<in> set b. 0 < em_ref em \<and> em_ref em < 2 ^ 32)"
        using new assms(1) unfolding ext_ok_def by blast
      then show "distinct (map em_mp b)" by blast
      fix em assume "em \<in> set b"
      with b show "0 < em_ref em" "em_ref em < 2 ^ 32" by blast+
    qed (simp add: len)
    have "ext_mount_inuse ?t1 path = ext_mount_inuse t path + 1"
      using None len1 by (simp add: ext_mount_inuse_def ext_mount_lookup_def)
    moreover have "ext_mount_inuse ?t1 p = ext_mount_inuse t p" if "p \<noteq> path" for p
      using that len1 by (cases "ext_bucket p = ext_bucket path") (auto simp: ext_mount_inuse_def ext_mount_lookup_def)
    ultimately have inuse: "\<forall>p. ext_mount_inuse ?t1 p = ext_mount_inuse t p + (if p = path then 1 else 0)" by simp
    show ?thesis by (intro exI [of _ ?t1] exI [of _ m1] conjI add ok inuse remove [OF ok inuse, THEN conjunct1] remove [OF ok inuse, THEN conjunct2])
  qed
qed

theorem ext_mount_roundtrip_witness:
  "fst (ext_mount_remove (fst (snd (ext_mount_add (replicate 64 []) ''/a/x'' None []))) ''/a/x'')"
proof -
  let ?t = "replicate 64 [] :: ext_table"
  have none: "ext_mount_inuse ?t ''/a/x'' = 0"
    using ext_bucket_less [of "''/a/x''"] by (simp add: ext_mount_inuse_def ext_mount_lookup_def)
  have "ext_ok ?t" by (simp add: ext_ok_def)
  from ext_mount_roundtrip [OF this mem_ample_Nil, of "''/a/x''" None] none show ?thesis by auto
qed

end
