(* ===== verification/Mount_Table.thy ===== *)
theory Mount_Table
  imports Mnts Parse_Sun Config_File
begin

text \<open>
  The mount table of \<^verbatim>\<open>lib/mounts.c\<close>: decoding the lines of \<^verbatim>\<open>/proc/mounts\<close>, the list of mounts below
  a path, the test whether something is mounted, and the strings made for mounting autofs. The
  contents of the table is a string argument.
\<close>

section \<open>Lines of the table\<close>

function local_decode_name :: "string \<Rightarrow> string" where
  "local_decode_name [] = []"
| "local_decode_name (c # cs) =
     (if c = BSLASH \<and> strncmp_eq cs ''040'' 3 then CHR '' '' # local_decode_name (drop 3 cs)
      else if c = BSLASH \<and> strncmp_eq cs ''011'' 3 then TAB # local_decode_name (drop 3 cs)
      else if c = BSLASH \<and> strncmp_eq cs ''012'' 3 then LF # local_decode_name (drop 3 cs)
      else if c = BSLASH \<and> cstr_hd cs = BSLASH then BSLASH # local_decode_name (tl cs)
      else if c = BSLASH \<and> strncmp_eq cs ''134'' 3 then BSLASH # local_decode_name (drop 3 cs)
      else c # local_decode_name cs)"
  by pat_completeness auto
termination by (relation "measure length") auto

abbreviation is_blank :: "char \<Rightarrow> bool" where
  "is_blank c \<equiv> c = CHR '' '' \<or> c = TAB"

text \<open>\<open>strsep\<close> with the delimiters blank and tab: the token and the new value of the pointer.\<close>

definition strsep_blank :: "string option \<Rightarrow> string option \<times> string option" where
  "strsep_blank head =
     (case head of
        None \<Rightarrow> (None, None)
      | Some s \<Rightarrow>
          (Some (takeWhile (\<lambda>c. \<not> is_blank c) s),
           case dropWhile (\<lambda>c. \<not> is_blank c) s of [] \<Rightarrow> None | _ # rest \<Rightarrow> Some rest))"

record mntent =
  mnt_fsname :: string
  mnt_dir :: string
  mnt_type :: string
  mnt_opts :: string

definition mnt_field :: "string option \<Rightarrow> string \<times> string option" where
  "mnt_field head =
     (case strsep_blank head of
        (cp, rest) \<Rightarrow> (case cp of None \<Rightarrow> [] | Some s \<Rightarrow> local_decode_name s, map_option (dropWhile is_blank) rest))"

definition split_entry :: "string \<Rightarrow> mntent" where
  "split_entry head =
     (let (fsname, h1) = mnt_field (Some head); (dir, h2) = mnt_field h1; (typ, h3) = mnt_field h2; (opts, h4) = mnt_field h3
      in \<lparr>mnt_fsname = fsname, mnt_dir = dir, mnt_type = typ, mnt_opts = opts\<rparr>)"

text \<open>
  One line in a buffer of \<open>sz\<close> bytes: the text up to its newline without the blanks in front
  of it, the first \<open>sz - 1\<close> characters of a longer line; \<open>None\<close> when the stripping of
  blanks runs over the start of the buffer.
\<close>

definition table_line :: "nat \<Rightarrow> string \<Rightarrow> string option" where
  "table_line sz tab =
     (let line = takeWhile (\<lambda>c. c \<noteq> LF) tab; newline = length line < length tab
      in if newline \<and> length line + 1 < sz then
           if list_all is_blank line then None else Some (rev (dropWhile is_blank (rev line)))
         else Some (take (sz - 1) line))"

definition next_lines :: "string \<Rightarrow> string" where
  "next_lines tab = tl (dropWhile (\<lambda>c. c \<noteq> LF) tab)"

lemma next_lines_length: "tab \<noteq> [] \<Longrightarrow> length (next_lines tab) < length tab"
  using length_dropWhile_le [of "\<lambda>c. c \<noteq> LF" tab] by (cases tab) (auto simp: next_lines_def less_Suc_eq_le intro: diff_le_self le_trans)

datatype table_fault = TABLE_UNDERRUN

text \<open>\<open>local_getmntent_r\<close>: the next entry and what follows it; empty lines and comments are skipped.\<close>

function local_getmntent_r :: "nat \<Rightarrow> string \<Rightarrow> table_fault + (mntent \<times> string) option" where
  "local_getmntent_r sz tab =
     (if tab = [] then Inr None
      else
        (case table_line sz tab of
           None \<Rightarrow> Inl TABLE_UNDERRUN
         | Some buf \<Rightarrow>
             (let head = dropWhile is_blank buf
              in if cstr_hd head = NUL \<or> cstr_hd head = CHR ''#'' then local_getmntent_r sz (next_lines tab)
                 else Inr (Some (split_entry head, next_lines tab)))))"
  by pat_completeness auto
termination by (relation "measure (\<lambda>(n, tab). length tab)") (auto simp: next_lines_length)

declare local_getmntent_r.simps [simp del]

lemma getmntent_shorter: "local_getmntent_r sz tab = Inr (Some (e, rest)) \<Longrightarrow> length rest < length tab"
proof (induction sz tab rule: local_getmntent_r.induct)
  case (1 sz tab)
  have ne: "tab \<noteq> []" using 1(2) by (auto simp: local_getmntent_r.simps)
  from 1(2) ne obtain buf where buf: "table_line sz tab = Some buf"
    by (cases "table_line sz tab") (simp_all add: local_getmntent_r.simps [of sz tab])
  let ?h = "dropWhile is_blank buf"
  show ?case
  proof (cases "cstr_hd ?h = NUL \<or> cstr_hd ?h = CHR ''#''")
    case True
    then have "local_getmntent_r sz (next_lines tab) = Inr (Some (e, rest))"
      using 1(2) ne buf by (simp add: local_getmntent_r.simps [of sz tab] Let_def)
    from 1(1) [OF ne buf refl True this] next_lines_length [OF ne] show ?thesis by simp
  next
    case False
    then have "rest = next_lines tab" using 1(2) ne buf by (simp add: local_getmntent_r.simps [of sz tab] Let_def)
    then show ?thesis using next_lines_length [OF ne] by simp
  qed
qed

function mnt_entries :: "nat \<Rightarrow> string \<Rightarrow> table_fault + mntent list" where
  "mnt_entries sz tab =
     (case local_getmntent_r sz tab of
        Inl f \<Rightarrow> Inl f
      | Inr None \<Rightarrow> Inr []
      | Inr (Some (e, rest)) \<Rightarrow> (case mnt_entries sz rest of Inl f \<Rightarrow> Inl f | Inr es \<Rightarrow> Inr (e # es)))"
  by pat_completeness auto
termination by (relation "measure (\<lambda>(n, tab). length tab)") (auto simp: getmntent_shorter)

declare mnt_entries.simps [simp del]


section \<open>Mounts below a path\<close>

definition TABLE_BUF :: nat where "TABLE_BUF = 4096 * 3"

record mnt_item =
  mi_mp :: string
  mi_flags :: u32

definition table_flags :: "mntent \<Rightarrow> u32" where
  "table_flags mnt =
     (if mnt_type mnt = ''autofs'' then
        MNTS_AUTOFS OR
          (if strstr (mnt_opts mnt) ''indirect'' \<noteq> None then MNTS_INDIRECT
           else if strstr (mnt_opts mnt) ''direct'' \<noteq> None then MNTS_DIRECT
           else if strstr (mnt_opts mnt) ''offset'' \<noteq> None then MNTS_OFFSET else 0)
      else 0)"

text \<open>The entries that are skipped: those not below the path, and the path itself unless \<open>include\<close> is set.\<close>

definition below_path :: "string \<Rightarrow> bool \<Rightarrow> string \<Rightarrow> bool" where
  "below_path path include dir \<longleftrightarrow>
     \<not> (\<not> include \<and> length dir \<le> length path \<or> \<not> strncmp_eq dir path (length path))
     \<and> \<not> (length path > 1 \<and> length dir > length path \<and> dir ! length path \<noteq> CHR ''/'')"

text \<open>A new item is put in front of the first one that is not longer.\<close>

definition insert_item :: "mnt_item \<Rightarrow> mnt_item list \<Rightarrow> mnt_item list" where
  "insert_item ent l =
     takeWhile (\<lambda>mptr. \<not> length (mi_mp ent) \<ge> length (mi_mp mptr)) l @ ent #
     dropWhile (\<lambda>mptr. \<not> length (mi_mp ent) \<ge> length (mi_mp mptr)) l"

function mnt_list_loop :: "string \<Rightarrow> bool \<Rightarrow> string \<Rightarrow> mnt_item list \<Rightarrow> mem \<Rightarrow> (table_fault + mnt_item list option) \<times> mem" where
  "mnt_list_loop path include tab l m =
     (case local_getmntent_r TABLE_BUF tab of
        Inl f \<Rightarrow> (Inl f, m)
      | Inr None \<Rightarrow> (Inr (Some l), m)
      | Inr (Some (mnt, rest)) \<Rightarrow>
          if \<not> below_path path include (mnt_dir mnt) then mnt_list_loop path include rest l m
          else
            (case malloc m of
               (False, m1) \<Rightarrow> (Inr None, m1)
             | (True, m1) \<Rightarrow>
                 (case malloc m1 of
                    (False, m2) \<Rightarrow> (Inr None, m2)
                  | (True, m2) \<Rightarrow>
                      mnt_list_loop path include rest (insert_item \<lparr>mi_mp = mnt_dir mnt, mi_flags = table_flags mnt\<rparr> l) m2)))"
  by pat_completeness auto
termination by (relation "measure (\<lambda>(p, i, tab, l, m). length tab)") (auto simp: getmntent_shorter)

declare mnt_list_loop.simps [simp del]

text \<open>\<open>get_mnt_list\<close>; \<open>tab\<close> is \<open>None\<close> when the table cannot be opened, and \<open>NULL\<close> is \<open>Inr None\<close>.\<close>

definition get_mnt_list :: "string \<Rightarrow> bool \<Rightarrow> string option \<Rightarrow> mem \<Rightarrow> (table_fault + mnt_item list option) \<times> mem" where
  "get_mnt_list path include tab m =
     (if path = [] \<or> length path > SUN_PATH_MAX then (Inr None, m)
      else (case tab of None \<Rightarrow> (Inr None, m) | Some s \<Rightarrow> mnt_list_loop path include s [] m))"

section \<open>Whether a path is mounted\<close>

definition MNTS_ALL :: u32 where "MNTS_ALL = 0x0001"
definition MNTS_REAL :: u32 where "MNTS_REAL = 0x0002"

definition right_type :: "u32 \<Rightarrow> mntent \<Rightarrow> bool" where
  "right_type type mnt \<longleftrightarrow>
     \<not> (type AND MNTS_REAL \<noteq> 0 \<and> mnt_type mnt = ''autofs'') \<and> \<not> (type AND MNTS_AUTOFS \<noteq> 0 \<and> mnt_type mnt \<noteq> ''autofs'')"

function table_loop :: "string \<Rightarrow> u32 \<Rightarrow> string \<Rightarrow> table_fault + bool" where
  "table_loop mp type tab =
     (case local_getmntent_r TABLE_BUF tab of
        Inl f \<Rightarrow> Inl f
      | Inr None \<Rightarrow> Inr False
      | Inr (Some (mnt, rest)) \<Rightarrow>
          if right_type type mnt \<and> length mp = length (mnt_dir mnt) \<and> strncmp_eq mp (mnt_dir mnt) (length mp) then Inr True
          else table_loop mp type rest)"
  by pat_completeness auto
termination by (relation "measure (\<lambda>(p, i, tab). length tab)") (auto simp: getmntent_shorter)

declare table_loop.simps [simp del]

text \<open>\<open>present\<close> is false when \<open>stat\<close> reports that there is no such path.\<close>

definition table_is_mounted :: "string \<Rightarrow> u32 \<Rightarrow> bool \<Rightarrow> string option \<Rightarrow> table_fault + bool" where
  "table_is_mounted mp type present tab =
     (if \<not> present then Inr False
      else if mp = [] \<or> length mp \<ge> SUN_PATH_MAX then Inr False
      else (case tab of None \<Rightarrow> Inr False | Some s \<Rightarrow> table_loop mp type s))"

text \<open>With the ioctl: \<open>None\<close> when it fails, otherwise its answer.\<close>

definition DEV_IOCTL_IS_AUTOFS :: u32 where "DEV_IOCTL_IS_AUTOFS = 0x0002"
definition DEV_IOCTL_IS_OTHER :: u32 where "DEV_IOCTL_IS_OTHER = 0x0004"

definition ioctl_is_mounted :: "u32 option \<Rightarrow> string \<Rightarrow> u32 \<Rightarrow> bool \<Rightarrow> string option \<Rightarrow> table_fault + bool" where
  "ioctl_is_mounted mounted mp type present tab =
     (case mounted of
        None \<Rightarrow> table_is_mounted mp type present tab
      | Some mounted \<Rightarrow>
          Inr (mounted \<noteq> 0 \<and>
            (if type = MNTS_ALL then True
             else if type = MNTS_AUTOFS then mounted AND DEV_IOCTL_IS_AUTOFS \<noteq> 0
             else if type = MNTS_REAL then mounted AND DEV_IOCTL_IS_OTHER \<noteq> 0
             else False)))"


section \<open>Strings for mounting autofs\<close>

definition MOUNT_FLAG_STRICTEXPIRE :: u32 where "MOUNT_FLAG_STRICTEXPIRE = 0x0800"
definition MOUNT_FLAG_IGNORE :: u32 where "MOUNT_FLAG_IGNORE = 0x1000"

definition mount_type_str :: "u32 \<Rightarrow> string option" where
  "mount_type_str type =
     (if bit type 0 then Some ''indirect'' else if bit type 1 then Some ''direct'' else if bit type 2 then Some ''offset'' else None)"

definition cacl_max_options_len :: "nat \<Rightarrow> nat \<Rightarrow> u32 \<Rightarrow> nat" where
  "cacl_max_options_len kver_major kver_minor flags =
     (let base = 79 + 1;
          strict = (if flags AND MOUNT_FLAG_STRICTEXPIRE \<noteq> 0 then base + 13 else base)
      in if kver_major < 5 \<or> kver_major = 5 \<and> kver_minor < 4 then base
         else if kver_major = 5 \<and> kver_minor < 5 then strict
         else if flags AND MOUNT_FLAG_IGNORE \<noteq> 0 then strict + 7 else strict)"

definition options_template :: "nat \<Rightarrow> nat \<Rightarrow> string option \<Rightarrow> string" where
  "options_template pipefd pgrp type =
     ''fd='' @ dec pipefd @ '',pgrp='' @ dec pgrp @ '',minproto=5,maxproto='' @ dec 5 @
     (case type of None \<Rightarrow> [] | Some ty \<Rightarrow> '','' @ ty)"

text \<open>
  \<open>snprintf(options + len, max_len, ...)\<close> of an option behind \<open>options\<close>, with a limit that leaves
  out of account what has been written: the text and whether it is complete, \<open>None\<close> when bytes
  behind the buffer are written.
\<close>

definition append_option :: "nat \<Rightarrow> string \<Rightarrow> string \<Rightarrow> (string \<times> bool) option" where
  "append_option max_len options new =
     (if length options + min (length new) (max_len - 1) + 1 > max_len then None
      else Some (options @ new, length options + length new < max_len))"

definition make_options_string ::
  "nat \<Rightarrow> nat \<Rightarrow> nat \<Rightarrow> nat \<Rightarrow> string option \<Rightarrow> u32 \<Rightarrow> mem \<Rightarrow> (unit + string option) \<times> mem" where
  "make_options_string kver_major kver_minor pipefd pgrp type flags m =
     (let max_len = cacl_max_options_len kver_major kver_minor flags; base = options_template pipefd pgrp type
      in case malloc m of
           (False, m1) \<Rightarrow> (Inr None, m1)
         | (True, m1) \<Rightarrow>
             (if length base \<ge> max_len then Inr (Some (take (max_len - 1) base))
              else if kver_major < 5 \<or> kver_major = 5 \<and> kver_minor < 4 then Inr (Some base)
              else
                (case (if flags AND MOUNT_FLAG_STRICTEXPIRE \<noteq> 0 then append_option max_len base '',strictexpire''
                       else Some (base, True)) of
                   None \<Rightarrow> Inl ()
                 | Some (os1, False) \<Rightarrow> Inr (Some (take (max_len - 1) os1))
                 | Some (os1, True) \<Rightarrow>
                     if kver_major = 5 \<and> kver_minor < 5 then Inr (Some os1)
                     else
                       (case (if flags AND MOUNT_FLAG_IGNORE \<noteq> 0 then append_option max_len os1 '',ignore''
                              else Some (os1, True)) of
                          None \<Rightarrow> Inl ()
                        | Some (os2, False) \<Rightarrow> Inr (Some (take (max_len - 1) os2))
                        | Some (os2, True) \<Rightarrow> Inr (Some os2))), m1))"

definition MAX_MNT_NAME_LEN :: nat where "MAX_MNT_NAME_LEN = 30"

definition make_mnt_name_string :: "nat \<Rightarrow> mem \<Rightarrow> string option \<times> mem" where
  "make_mnt_name_string pid m =
     (let name = ''automount(pid'' @ dec pid @ '')''
      in case malloc m of
           (False, m1) \<Rightarrow> (None, m1)
         | (True, m1) \<Rightarrow> (Some (take (MAX_MNT_NAME_LEN - 1) name), m1))"

text \<open>\<open>mount_fullpath\<close>: \<open>None\<close> for an empty root, where the byte in front of it is read; the result 0 is \<open>Some None\<close>.\<close>

definition mount_fullpath :: "nat \<Rightarrow> string \<Rightarrow> string \<Rightarrow> string option option" where
  "mount_fullpath max_len root name =
     (if root = [] then None
      else
        (let path = (if List.last root = CHR ''/'' then root else if cstr_hd name = CHR ''/'' then name else root @ ''/'' @ name)
         in Some (if length path \<ge> max_len then None else Some path)))"

end
