(* ===== verification/Mount_Table_Props.thy ===== *)
theory Mount_Table_Props
  imports Mount_Table
begin

text \<open>
  Properties of the mount table: reading back what the kernel writes, the mounts below a path, the
  test for a mount, and the sizes of the buffers for option strings.
\<close>

section \<open>Reading the table\<close>

text \<open>The escapes that the kernel uses in \<^verbatim>\<open>/proc/mounts\<close>.\<close>

definition encode_char :: "char \<Rightarrow> string" where
  "encode_char c =
     (if c = CHR '' '' then [BSLASH] @ ''040'' else if c = TAB then [BSLASH] @ ''011'' else if c = LF then [BSLASH] @ ''012''
      else if c = BSLASH then [BSLASH] @ ''134'' else [c])"

definition encode_name :: "string \<Rightarrow> string" where
  "encode_name s = concat (map encode_char s)"

lemma decode_encode: "local_decode_name (encode_name s) = s"
proof (induction s)
  case (Cons c s)
  then show ?case by (auto simp: encode_name_def encode_char_def strncmp_eq_def char_consts)
qed (simp add: encode_name_def)

lemma encode_clean: "ch \<in> set (encode_name s) \<Longrightarrow> \<not> is_blank ch \<and> ch \<noteq> LF"
  by (auto simp: encode_name_def encode_char_def char_consts split: if_splits)

lemma encode_Nil [simp]: "encode_name s = [] \<longleftrightarrow> s = []"
  by (cases s) (auto simp: encode_name_def encode_char_def)

definition print_entry :: "mntent \<Rightarrow> string" where
  "print_entry e = encode_name (mnt_fsname e) @ '' '' @ encode_name (mnt_dir e) @ '' '' @ encode_name (mnt_type e) @ '' ''
     @ encode_name (mnt_opts e) @ '' 0 0''"

definition mntent_ok :: "mntent \<Rightarrow> bool" where
  "mntent_ok e \<longleftrightarrow> mnt_fsname e \<noteq> [] \<and> hd (mnt_fsname e) \<noteq> CHR ''#'' \<and> NUL \<notin> set (mnt_fsname e) \<and> mnt_dir e \<noteq> [] \<and> mnt_type e \<noteq> [] \<and> mnt_opts e \<noteq> []
     \<and> length (print_entry e) + 1 < TABLE_BUF"

lemma mnt_field_encoded:
  "mnt_field (Some (encode_name s @ CHR '' '' # rest)) = (s, Some (dropWhile is_blank rest))"
proof -
  have clean: "\<forall>ch \<in> set (encode_name s). \<not> is_blank ch" using encode_clean by blast
  have tw: "takeWhile (\<lambda>c. \<not> is_blank c) (encode_name s @ CHR '' '' # rest) = encode_name s"
    using takeWhile_append2 [of "encode_name s" "\<lambda>c. \<not> is_blank c" "CHR '' '' # rest"] clean by simp
  have dw: "dropWhile (\<lambda>c. \<not> is_blank c) (encode_name s @ CHR '' '' # rest) = CHR '' '' # rest"
    using dropWhile_append2 [of "encode_name s" "\<lambda>c. \<not> is_blank c" "CHR '' '' # rest"] clean by simp
  show ?thesis unfolding mnt_field_def strsep_blank_def option.case tw dw by (simp add: decode_encode)
qed

lemma dropWhile_encoded: "s \<noteq> [] \<Longrightarrow> dropWhile is_blank (encode_name s @ r) = encode_name s @ r"
  using encode_clean [of "hd (encode_name s)" s] by (cases "encode_name s") auto

lemma zero_TAB: "CHR ''0'' \<noteq> TAB"
  by (simp add: TAB_def)

lemma split_printed:
  assumes "mntent_ok e"
  shows "split_entry (print_entry e) = e"
proof -
  let ?o = "encode_name (mnt_opts e) @ CHR '' '' # ''0 0''"
  let ?t = "encode_name (mnt_type e) @ CHR '' '' # ?o"
  let ?d = "encode_name (mnt_dir e) @ CHR '' '' # ?t"
  have p: "print_entry e = encode_name (mnt_fsname e) @ CHR '' '' # ?d" by (simp add: print_entry_def)
  have ne: "mnt_dir e \<noteq> []" "mnt_type e \<noteq> []" "mnt_opts e \<noteq> []" using assms by (auto simp: mntent_ok_def)
  have "mnt_field (Some (print_entry e)) = (mnt_fsname e, Some ?d)" "mnt_field (Some ?d) = (mnt_dir e, Some ?t)"
    "mnt_field (Some ?t) = (mnt_type e, Some ?o)" "mnt_field (Some ?o) = (mnt_opts e, Some ''0 0'')"
    unfolding p mnt_field_encoded using ne by (simp_all add: dropWhile_encoded zero_TAB)
  then show ?thesis unfolding split_entry_def by simp
qed

lemma printed_start:
  assumes "mntent_ok e"
  shows "dropWhile is_blank (print_entry e) = print_entry e" "cstr_hd (print_entry e) \<noteq> NUL" "cstr_hd (print_entry e) \<noteq> CHR ''#''"
    "LF \<notin> set (print_entry e)" "List.last (print_entry e) = CHR ''0''" "print_entry e \<noteq> []"
proof -
  obtain c s where fs: "mnt_fsname e = c # s" "c \<noteq> CHR ''#''" "c \<noteq> NUL" using assms by (cases "mnt_fsname e") (auto simp: mntent_ok_def)
  show "dropWhile is_blank (print_entry e) = print_entry e"
    unfolding print_entry_def by (rule dropWhile_encoded) (simp add: fs)
  have "hd (encode_char c) \<noteq> NUL" "hd (encode_char c) \<noteq> CHR ''#''" "encode_char c \<noteq> []"
    using fs by (auto simp: encode_char_def char_consts)
  then show "cstr_hd (print_entry e) \<noteq> NUL" "cstr_hd (print_entry e) \<noteq> CHR ''#''"
    by (cases "encode_char c"; simp add: print_entry_def fs encode_name_def)+
  show "LF \<notin> set (print_entry e)" using encode_clean by (auto simp: print_entry_def LF_def)
  show "List.last (print_entry e) = CHR ''0''" "print_entry e \<noteq> []" by (simp_all add: print_entry_def)
qed

lemma line_split: "LF \<notin> set s \<Longrightarrow> takeWhile (\<lambda>c. c \<noteq> LF) (s @ LF # r) = s \<and> dropWhile (\<lambda>c. c \<noteq> LF) (s @ LF # r) = LF # r"
  by (induction s) auto

lemma getmntent_printed:
  assumes "mntent_ok e"
  shows "local_getmntent_r TABLE_BUF (print_entry e @ LF # rest) = Inr (Some (e, rest))"
proof -
  note st = printed_start [OF assms]
  have tw: "takeWhile (\<lambda>c. c \<noteq> LF) (print_entry e @ LF # rest) = print_entry e"
    "dropWhile (\<lambda>c. c \<noteq> LF) (print_entry e @ LF # rest) = LF # rest"
    using line_split [OF st(4)] by blast+
  have z: "\<not> is_blank (CHR ''0'')" by (simp add: TAB_def)
  have rv: "rev (dropWhile is_blank (rev (print_entry e))) = print_entry e"
  proof -
    obtain s where s: "print_entry e = s @ [CHR ''0'']" using st(5,6) by (cases "print_entry e" rule: rev_cases) auto
    show ?thesis unfolding s using z by simp
  qed
  have mem: "CHR ''0'' \<in> set (print_entry e)" using last_in_set [OF st(6)] unfolding st(5) .
  have nb: "\<not> list_all is_blank (print_entry e)"
  proof
    assume "list_all is_blank (print_entry e)"
    from bspec [OF this [unfolded list_all_iff] mem] z show False by contradiction
  qed
  have "table_line TABLE_BUF (print_entry e @ LF # rest) = Some (print_entry e)"
    unfolding table_line_def Let_def tw(1) rv using assms nb by (simp add: mntent_ok_def)
  then show ?thesis
    using st(1-3) split_printed [OF assms] by (subst local_getmntent_r.simps) (simp add: next_lines_def tw)
qed

lemma mnt_entries_printed:
  assumes "\<forall>e \<in> set es. mntent_ok e"
  shows "mnt_entries TABLE_BUF (concat (map (\<lambda>e. print_entry e @ [LF]) es)) = Inr es"
  using assms
proof (induction es)
  case Nil
  then show ?case by (simp add: mnt_entries.simps local_getmntent_r.simps)
next
  case (Cons e es)
  then show ?case using getmntent_printed [of e "concat (map (\<lambda>e. print_entry e @ [LF]) es)"]
    by (subst mnt_entries.simps) simp
qed

text \<open>
  C29: the entries of a mount table as the kernel writes it, with blanks, tabs, newlines and
  backslashes in names escaped, are read back one after the other as they are.
\<close>

theorem mnt_entries_roundtrip:
  assumes "\<forall>e \<in> set es. mntent_ok e"
  shows "mnt_entries TABLE_BUF (concat (map (\<lambda>e. print_entry e @ [LF]) es)) = Inr es"
  using assms by (rule mnt_entries_printed)

theorem mnt_entries_roundtrip_witness:
  "mnt_entries TABLE_BUF (''srv:/a'' @ [BSLASH] @ ''040b /mnt/x nfs rw 0 0'' @ [LF]) =
     Inr [\<lparr>mnt_fsname = ''srv:/a b'', mnt_dir = ''/mnt/x'', mnt_type = ''nfs'', mnt_opts = ''rw''\<rparr>]"
  using mnt_entries_roundtrip [of "[\<lparr>mnt_fsname = ''srv:/a b'', mnt_dir = ''/mnt/x'', mnt_type = ''nfs'', mnt_opts = ''rw''\<rparr>]"]
  by (simp add: mntent_ok_def print_entry_def encode_name_def encode_char_def char_consts TABLE_BUF_def)


section \<open>Mounts below a path\<close>

lemma insert_item_mset: "mset (insert_item e l) = add_mset e (mset l)"
  by (metis (no_types, lifting) insert_item_def mset.simps(2) mset_append takeWhile_dropWhile_id union_mset_add_mset_right)

lemma insert_item_sorted:
  assumes "sorted_wrt (\<lambda>a b. length (mi_mp b) \<le> length (mi_mp a)) l"
  shows "sorted_wrt (\<lambda>a b. length (mi_mp b) \<le> length (mi_mp a)) (insert_item e l)"
  using assms
proof (induction l)
  case (Cons x l)
  show ?case
  proof (cases "length (mi_mp e) \<ge> length (mi_mp x)")
    case True
    then show ?thesis using Cons.prems by (auto simp: insert_item_def)
  next
    case False
    have "set (insert_item e l) = insert e (set l)" using insert_item_mset [of e l] by (metis set_mset_add_mset_insert set_mset_mset)
    moreover have "insert_item e (x # l) = x # insert_item e l" using False by (simp add: insert_item_def)
    ultimately show ?thesis using Cons False by simp
  qed
qed (simp add: insert_item_def)

abbreviation item :: "mntent \<Rightarrow> mnt_item" where
  "item e \<equiv> \<lparr>mi_mp = mnt_dir e, mi_flags = table_flags e\<rparr>"

lemma mnt_list_loop_entries:
  assumes "mem_ample m" and "mnt_entries TABLE_BUF tab = Inr es"
  shows "\<exists>m'. mnt_list_loop path include tab l m = (Inr (Some (fold insert_item (map item (filter (\<lambda>e. below_path path include (mnt_dir e)) es)) l)), m')"
  using assms
proof (induction TABLE_BUF tab arbitrary: es l m rule: mnt_entries.induct)
  case (1 tab)
  show ?case
  proof (cases "local_getmntent_r TABLE_BUF tab")
    case (Inl f)
    then show ?thesis using 1(3) by (simp add: mnt_entries.simps)
  next
    case (Inr r)
    show ?thesis
    proof (cases r)
      case None
      then have "es = []" using 1(3) Inr by (simp add: mnt_entries.simps)
      then show ?thesis using Inr None by (subst mnt_list_loop.simps) simp
    next
      case (Some p)
      obtain e rest where p: "p = (e, rest)" by (cases p)
      then obtain es' where es: "mnt_entries TABLE_BUF rest = Inr es'" "es = e # es'"
        using 1(3) Inr Some by (subst (asm) mnt_entries.simps) (auto split: sum.splits)
      obtain m1 where m1: "malloc m = (True, m1)" "mem_ample m1" using 1(2) by (rule mem_ampleE)
      obtain m2 where m2: "malloc m1 = (True, m2)" "mem_ample m2" using m1(2) by (rule mem_ampleE)
      note IH = 1(1) [OF Inr Some p [symmetric]]
      show ?thesis
        using IH [OF 1(2) es(1), of l] IH [OF m2(2) es(1), of "insert_item (item e) l"] Inr Some p es(2) m1(1) m2(1)
        by (subst mnt_list_loop.simps) simp
    qed
  qed
qed

lemma fold_insert_items:
  "mset (fold insert_item xs l) = mset xs + mset l
    \<and> (sorted_wrt (\<lambda>a b. length (mi_mp b) \<le> length (mi_mp a)) l \<longrightarrow>
       sorted_wrt (\<lambda>a b. length (mi_mp b) \<le> length (mi_mp a)) (fold insert_item xs l))"
  by (induction xs arbitrary: l) (auto simp: insert_item_mset insert_item_sorted)

text \<open>A path and the directories below it.\<close>

lemma below_path_iff:
  assumes "path \<noteq> []" and "path \<noteq> ''/'' \<longrightarrow> List.last path \<noteq> CHR ''/''" and "hd path = CHR ''/''"
  shows "below_path path True dir \<longleftrightarrow>
    (if path = ''/'' then hd dir = CHR ''/'' \<and> dir \<noteq> [] else dir = path \<or> (\<exists>r. dir = path @ ''/'' @ r))"
proof (cases "path = ''/''")
  case True
  then show ?thesis by (cases dir) (auto simp: below_path_def strncmp_eq_def)
next
  case False
  then have len: "length path > 1" using assms(1,3) by (cases path; cases "tl path") auto
  have "below_path path True dir \<longleftrightarrow> take (length path) dir = path \<and> (length dir > length path \<longrightarrow> dir ! length path = CHR ''/'')"
    using len by (auto simp: below_path_def strncmp_eq_def)
  also have "\<dots> \<longleftrightarrow> dir = path \<or> (\<exists>r. dir = path @ ''/'' @ r)"
  proof
    assume a: "take (length path) dir = path \<and> (length dir > length path \<longrightarrow> dir ! length path = CHR ''/'')"
    then have d: "dir = path @ drop (length path) dir" by (metis append_take_drop_id)
    show "dir = path \<or> (\<exists>r. dir = path @ ''/'' @ r)"
    proof (cases "drop (length path) dir")
      case Nil
      then show ?thesis using d by simp
    next
      case (Cons c r)
      then have "length dir > length path" by (metis drop_all list.distinct(1) not_le)
      then have "c = CHR ''/''" using a Cons by (metis hd_drop_conv_nth list.sel(1))
      then show ?thesis using d Cons by simp
    qed
  qed auto
  finally show ?thesis using False by simp
qed

text \<open>
  C28: \<open>get_mnt_list\<close> returns the entries of the mount table for a path and everything below it,
  each as often as it is mounted, with longer paths in front of shorter ones: unmounting the list
  in its order never meets a mount that another one of the list lies on.
\<close>

theorem get_mnt_list_correct:
  assumes "mnt_entries TABLE_BUF tab = Inr es" and "mem_ample m"
    and "path \<noteq> ''/''" and "hd path = CHR ''/''" and "path \<noteq> []" and "List.last path \<noteq> CHR ''/''" and "length path \<le> SUN_PATH_MAX"
  shows "\<exists>l m'. get_mnt_list path True (Some tab) m = (Inr (Some l), m')
    \<and> mset l = image_mset item {# e \<in># mset es. mnt_dir e = path \<or> (\<exists>r. mnt_dir e = path @ ''/'' @ r) #}
    \<and> sorted_wrt (\<lambda>a b. length (mi_mp b) \<le> length (mi_mp a)) l"
proof -
  let ?es = "filter (\<lambda>e. below_path path True (mnt_dir e)) es"
  obtain m' where loop: "mnt_list_loop path True tab [] m = (Inr (Some (fold insert_item (map item ?es) [])), m')"
    using mnt_list_loop_entries [OF assms(2,1)] by blast
  have "get_mnt_list path True (Some tab) m = (Inr (Some (fold insert_item (map item ?es) [])), m')"
    using loop assms(5,7) by (simp add: get_mnt_list_def)
  moreover have "mset ?es = {# e \<in># mset es. mnt_dir e = path \<or> (\<exists>r. mnt_dir e = path @ ''/'' @ r) #}"
    using below_path_iff [OF assms(5) _ assms(4)] assms(3,6) by (simp cong: filter_mset_cong)
  ultimately show ?thesis using fold_insert_items [of "map item ?es" "[]"] by simp
qed


abbreviation sample_entries :: "mntent list" where
  "sample_entries \<equiv>
     [\<lparr>mnt_fsname = ''a'', mnt_dir = ''/n'', mnt_type = ''nfs'', mnt_opts = ''rw''\<rparr>,
      \<lparr>mnt_fsname = ''b'', mnt_dir = ''/n/x'', mnt_type = ''nfs'', mnt_opts = ''rw''\<rparr>,
      \<lparr>mnt_fsname = ''c'', mnt_dir = ''/nx'', mnt_type = ''autofs'', mnt_opts = ''rw''\<rparr>]"

definition sample_table :: string where
  "sample_table = concat (map (\<lambda>e. print_entry e @ [LF]) sample_entries)"

lemma sample_table_entries: "mnt_entries TABLE_BUF sample_table = Inr sample_entries"
  unfolding sample_table_def
  by (rule mnt_entries_printed)
    (simp add: mntent_ok_def print_entry_def encode_name_def encode_char_def char_consts TABLE_BUF_def)

theorem get_mnt_list_correct_witness:
  "\<exists>m'. get_mnt_list ''/n'' True (Some sample_table) [] = (Inr (Some [\<lparr>mi_mp = ''/n/x'', mi_flags = 0\<rparr>, \<lparr>mi_mp = ''/n'', mi_flags = 0\<rparr>]), m')"
proof -
  obtain l m' where l: "get_mnt_list ''/n'' True (Some sample_table) [] = (Inr (Some l), m')"
    "mset l = image_mset item {# e \<in># mset sample_entries. mnt_dir e = ''/n'' \<or> (\<exists>r. mnt_dir e = ''/n'' @ ''/'' @ r) #}"
    "sorted_wrt (\<lambda>a b. length (mi_mp b) \<le> length (mi_mp a)) l"
    using get_mnt_list_correct [OF sample_table_entries mem_ample_Nil, of "''/n''"] by (auto simp: SUN_PATH_MAX_def)
  then have ms: "mset l = {#\<lparr>mi_mp = ''/n'', mi_flags = 0\<rparr>, \<lparr>mi_mp = ''/n/x'', mi_flags = 0\<rparr>#}" by (simp add: table_flags_def)
  then have "size (mset l) = 2" by simp
  then have "length l = 2" by simp
  then obtain a b where ab: "l = [a, b]" by (auto simp: length_Suc_conv numeral_2_eq_2)
  have "{a, b} = {\<lparr>mi_mp = ''/n'', mi_flags = 0\<rparr>, \<lparr>mi_mp = ''/n/x'', mi_flags = 0\<rparr>}"
    using arg_cong [OF ms, of set_mset] ab by simp
  then show ?thesis using l(1,3) ab by (auto simp: doubleton_eq_iff)
qed

section \<open>Whether a path is mounted\<close>

text \<open>
  a path counts as mounted, of any kind, as an autofs mount or as another one, exactly when the
  mount table has an entry for it of that kind.
\<close>

theorem table_is_mounted_correct:
  assumes "mnt_entries TABLE_BUF tab = Inr es" and "mp \<noteq> []" and "length mp < SUN_PATH_MAX"
    and "type \<in> {MNTS_ALL, MNTS_REAL, MNTS_AUTOFS}"
  shows "table_is_mounted mp type True (Some tab) =
    Inr (\<exists>e \<in> set es. mnt_dir e = mp \<and> (type = MNTS_REAL \<longrightarrow> mnt_type e \<noteq> ''autofs'') \<and> (type = MNTS_AUTOFS \<longrightarrow> mnt_type e = ''autofs''))"
proof -
  have right: "right_type type e \<longleftrightarrow> (type = MNTS_REAL \<longrightarrow> mnt_type e \<noteq> ''autofs'') \<and> (type = MNTS_AUTOFS \<longrightarrow> mnt_type e = ''autofs'')" for e
    using assms(4) by (auto simp: right_type_def MNTS_ALL_def MNTS_REAL_def MNTS_AUTOFS_def)
  have same: "length mp = length d \<and> strncmp_eq mp d (length mp) \<longleftrightarrow> d = mp" for d by (auto simp: strncmp_eq_def)
  have "table_loop mp type tab = Inr (\<exists>e \<in> set es. mnt_dir e = mp \<and> right_type type e)"
    using assms(1)
  proof (induction TABLE_BUF tab arbitrary: es rule: mnt_entries.induct)
    case (1 tab)
    show ?case
    proof (cases "local_getmntent_r TABLE_BUF tab")
      case (Inl f)
      then show ?thesis using 1(2) by (simp add: mnt_entries.simps)
    next
      case (Inr r)
      show ?thesis
      proof (cases r)
        case None
        then show ?thesis using 1(2) Inr by (simp add: mnt_entries.simps table_loop.simps [of mp type tab])
      next
        case (Some p)
        obtain e rest where p: "p = (e, rest)" by (cases p)
        then obtain es' where es: "mnt_entries TABLE_BUF rest = Inr es'" "es = e # es'"
          using 1(2) Inr Some by (subst (asm) mnt_entries.simps) (auto split: sum.splits)
        show ?thesis using 1(1) [OF Inr Some p [symmetric] es(1)] Inr Some p es(2) same [of "mnt_dir e"]
          by (subst table_loop.simps) (auto simp del: length_0_conv)
      qed
    qed
  qed
  then show ?thesis using assms(2,3) right by (simp add: table_is_mounted_def)
qed

theorem table_is_mounted_correct_witness:
  "table_is_mounted ''/nx'' MNTS_AUTOFS True (Some sample_table) = Inr True
    \<and> table_is_mounted ''/nx'' MNTS_REAL True (Some sample_table) = Inr False"
  using table_is_mounted_correct [OF sample_table_entries, of "''/nx''" MNTS_AUTOFS]
    table_is_mounted_correct [OF sample_table_entries, of "''/nx''" MNTS_REAL]
  by (simp add: SUN_PATH_MAX_def MNTS_AUTOFS_def MNTS_REAL_def MNTS_ALL_def)

section \<open>Option strings\<close>

lemma dec_length: "n < 10 ^ k \<Longrightarrow> 0 < k \<Longrightarrow> length (dec n) \<le> k"
proof (induction n arbitrary: k rule: dec.induct)
  case (1 n)
  show ?case
  proof (cases "n < 10")
    case True
    then show ?thesis using 1(3) by (subst dec.simps) simp
  next
    case False
    then obtain j where k: "k = Suc j" "0 < j" using 1(2,3) by (cases k; cases "k - 1") auto
    then have "n div 10 < 10 ^ j" using 1(2) by (simp add: less_mult_imp_div_less mult.commute)
    then show ?thesis using 1(1) [OF False _ k(2)] False k(1) by (subst dec.simps) simp
  qed
qed

text \<open>
  the buffer for the options of an autofs mount is large enough for every file descriptor,
  process group and mount type, with the options that the kernel version and the flags call for:
  no byte is written behind it and nothing is cut off.
\<close>

theorem make_options_string_fits:
  assumes "pipefd < 2 ^ 31" and "pgrp < 2 ^ 32" and "type = None \<or> type = mount_type_str t" and "malloc m = (True, m1)"
  shows "make_options_string kmaj kmin pipefd pgrp type flags m =
    (Inr (Some (options_template pipefd pgrp type
       @ (if flags AND MOUNT_FLAG_STRICTEXPIRE \<noteq> 0 \<and> (kmaj > 5 \<or> kmaj = 5 \<and> kmin \<ge> 4) then '',strictexpire'' else [])
       @ (if flags AND MOUNT_FLAG_IGNORE \<noteq> 0 \<and> (kmaj > 5 \<or> kmaj = 5 \<and> kmin \<ge> 5) then '',ignore'' else []))), m1)"
proof -
  have "length (dec pipefd) \<le> 10" by (rule dec_length) (use assms(1) in auto)
  moreover have "length (dec pgrp) \<le> 10" by (rule dec_length) (use assms(2) in auto)
  moreover have "length (dec 5) = 1" by (subst dec.simps) simp
  moreover have "length (case type of None \<Rightarrow> [] | Some ty \<Rightarrow> '','' @ ty) \<le> 9" using assms(3) by (auto simp: mount_type_str_def)
  ultimately have base: "length (options_template pipefd pgrp type) \<le> 60" by (simp add: options_template_def)
  show ?thesis
    using base assms(4)
    by (cases "flags AND MOUNT_FLAG_STRICTEXPIRE = 0"; cases "flags AND MOUNT_FLAG_IGNORE = 0";
        cases "kmaj < 5"; cases "kmaj = 5"; cases "kmin < 4"; cases "kmin < 5")
      (simp_all add: make_options_string_def cacl_max_options_len_def append_option_def Let_def)
qed

theorem make_options_string_fits_witness:
  "fst (make_options_string 5 6 7 1234 (Some ''indirect'') MOUNT_FLAG_IGNORE []) = Inr (Some ''fd=7,pgrp=1234,minproto=5,maxproto=5,indirect,ignore'')"
proof -
  have d: "dec 7 = ''7''" "dec 1234 = ''1234''" "dec 5 = ''5''" by code_simp+
  show ?thesis using make_options_string_fits [of 7 1234 "Some ''indirect''" 1 "[]" "[]" 5 6 MOUNT_FLAG_IGNORE] d
    by (simp add: mount_type_str_def options_template_def MOUNT_FLAG_IGNORE_def MOUNT_FLAG_STRICTEXPIRE_def)
qed

end
