(* ===== verification/Offsets.thy ===== *)
theory Offsets
  imports Mount_Tree Parse_Sun_Props
begin

text \<open>
  The offset tree of a multi-mount (\<^verbatim>\<open>lib/mounts.c\<close>): adding offsets, walking over the offsets of a
  nesting point, and deleting the tree with its cache entries. The tree holds the cache entries as
  they were when they were added; only their keys and addresses are used, the other fields are
  those of the entry in the cache.
\<close>

section \<open>Operations\<close>

text \<open>\<open>tree_mapent_add_node\<close>; \<open>None\<close> for an access outside the key.\<close>

definition tree_mapent_add_node :: "mapent_cache \<Rightarrow> addr \<Rightarrow> mapent tree \<Rightarrow> mapent \<Rightarrow> (mapent tree \<times> mapent_cache) option" where
  "tree_mapent_add_node mc root tree me =
     (let tree1 = tree_add_node tree_mapent_cmp tree me;
          mc1 = upd_entry (me_id me) (\<lambda>e. e\<lparr>me_mm_root := Some root\<rparr>) mc
      in case cache_get_offset_parent mc1 (me_key me) of
           None \<Rightarrow> None
         | Some p \<Rightarrow>
             Some (tree1, upd_entry (me_id me) (\<lambda>e. e\<lparr>me_mm_parent := Some (case p of [] \<Rightarrow> root | parent # _ \<Rightarrow> me_id parent)\<rparr>) mc1))"

text \<open>\<open>tree_mapent_is_root\<close>; an entry has a key.\<close>

definition tree_mapent_is_root :: "mapent \<Rightarrow> bool" where
  "tree_mapent_is_root oe \<longleftrightarrow> List.last (me_key oe) = CHR ''/'' \<or> me_mm_root oe = Some (me_id oe)"

text \<open>
  \<open>tree_mapent_traverse_subtree\<close>: the work is done for the nodes whose parent is \<open>base\<close>; when
  \<open>strict\<close>, a failure ends the walk. The result is -1 when nothing was done. \<open>ent\<close> is the
  entry of a node as it is at present.
\<close>

fun traverse_subtree ::
  "('s \<Rightarrow> mapent \<Rightarrow> mapent) \<Rightarrow> (mapent \<Rightarrow> 's \<Rightarrow> int \<times> 's) \<Rightarrow> bool \<Rightarrow> addr \<Rightarrow> mapent tree \<Rightarrow> 's \<Rightarrow> int \<times> 's" where
  "traverse_subtree ent work strict base Leaf s = (- 1, s)"
| "traverse_subtree ent work strict base (Node l n r) s =
     (let (r1, s1) = (if l = Leaf then (- 1, s) else traverse_subtree ent work strict base l s)
      in if l \<noteq> Leaf \<and> r1 = 0 \<and> strict then (r1, s1)
         else
           (let oe = ent s1 n; mine = \<not> tree_mapent_is_root oe \<and> me_mm_parent oe = Some base;
                (r2, s2) = (if mine then work oe s1 else (r1, s1))
            in if mine \<and> r2 = 0 \<and> strict then (r2, s2)
               else if r = Leaf then (r2, s2)
               else traverse_subtree ent work strict base r s2))"

text \<open>
  \<open>tree_mapent_delete_offset_tree\<close>: whether it succeeded, what is left of the tree and the cache;
  \<open>None\<close> for a node whose entry has been freed.
\<close>

fun delete_offset_tree :: "mapent tree \<Rightarrow> mapent_cache \<Rightarrow> (bool \<times> mapent tree \<times> mapent_cache) option" where
  "delete_offset_tree Leaf mc = Some (True, Leaf, mc)"
| "delete_offset_tree (Node l n r) mc =
     (case delete_offset_tree l mc of
        None \<Rightarrow> None
      | Some (False, l1, mc1) \<Rightarrow> Some (False, Node l1 n r, mc1)
      | Some (True, _, mc1) \<Rightarrow>
          (case delete_offset_tree r mc1 of
             None \<Rightarrow> None
           | Some (False, r1, mc2) \<Rightarrow> Some (False, Node Leaf n r1, mc2)
           | Some (True, _, mc2) \<Rightarrow>
               (case deref mc2 (me_id n) of
                  [] \<Rightarrow> None
                | me # _ \<Rightarrow>
                    if me_mm_root me \<noteq> Some (me_id me) then
                      (case malloc (mc_mem mc2) of
                         (False, m) \<Rightarrow> Some (False, Node Leaf n Leaf, mc2\<lparr>mc_mem := m\<rparr>)
                       | (True, m) \<Rightarrow>
                           (case cache_delete (upd_entry (me_id me) (\<lambda>e. e\<lparr>me_mm_root := None\<rparr>) (mc2\<lparr>mc_mem := m\<rparr>)) (me_key me) of
                              (ret, mc3) \<Rightarrow>
                                if ret = CHE_OK then Some (True, Node Leaf n Leaf, mc3)
                                else Some (False, Node Leaf n Leaf, upd_entry (me_id me) (\<lambda>e. e\<lparr>me_mm_root := me_mm_root me\<rparr>) mc3)))
                    else
                      Some (True, Node Leaf n Leaf, upd_entry (me_id me) (\<lambda>e. e\<lparr>me_mm_root := None, me_mm_parent := None\<rparr>) mc2))))"

definition tree_mapent_delete_offsets :: "mapent tree \<Rightarrow> mapent_cache \<Rightarrow> string \<Rightarrow> (bool \<times> mapent tree \<times> mapent_cache) option" where
  "tree_mapent_delete_offsets tree mc key =
     (case cache_lookup_distinct mc (Some key) of
        [] \<Rightarrow> Some (False, tree, mc)
      | me # _ \<Rightarrow>
          if me_mm_root me \<noteq> Some (me_id me) then Some (False, tree, mc) else delete_offset_tree tree mc)"

section \<open>The order in which offsets are added\<close>

abbreviation key_prefix :: "string \<Rightarrow> string \<Rightarrow> bool" where
  "key_prefix p k \<equiv> take (length p) k = p"

lemma key_prefix_append: "key_prefix p k \<longleftrightarrow> (\<exists>z. k = p @ z)"
  by (metis append_eq_conv_conj append_take_drop_id)

lemma key_prefix_length: "key_prefix p k \<Longrightarrow> length p \<le> length k"
  by (auto simp: key_prefix_append)

lemma prefix_less: "z \<noteq> [] \<Longrightarrow> (p :: string) < p @ z"
  by (induction p) (cases z; auto)+

lemma less_not_prefix: "(p :: string) < r \<Longrightarrow> \<not> key_prefix p r \<Longrightarrow> p @ z < r"
proof (induction p arbitrary: r)
  case (Cons c p)
  then show ?case by (cases r) auto
qed simp

text \<open>Every element below whose key another one continues is in the subtree of that key.\<close>

definition nested :: "mapent tree \<Rightarrow> bool" where
  "nested t \<longleftrightarrow> (\<forall>l n r. Node l n r \<in> subtrees t \<longrightarrow> (\<forall>x \<in> set_tree t. key_prefix (me_key n) (me_key x) \<longrightarrow> x \<in> set_tree (Node l n r)))"

lemma subtrees_set: "s \<in> subtrees t \<Longrightarrow> set_tree s \<subseteq> set_tree t"
  by (induction t) auto

lemma subtrees_self [simp]: "t \<in> subtrees t"
  by (cases t) simp_all

lemma subtrees_trans: "u \<in> subtrees s \<Longrightarrow> s \<in> subtrees t \<Longrightarrow> u \<in> subtrees t"
  by (induction t) auto

lemma nested_sub: "nested t \<Longrightarrow> s \<in> subtrees t \<Longrightarrow> nested s"
  unfolding nested_def using subtrees_set subtrees_trans by blast


abbreviation valid_ent :: "mapent \<Rightarrow> bool" where
  "valid_ent e \<equiv> me_len e = length (me_key e) \<and> cstring (me_key e)"

abbreviation add_offset_node :: "mapent tree \<Rightarrow> mapent \<Rightarrow> mapent tree" where
  "add_offset_node t x \<equiv> tree_add_node tree_mapent_cmp t x"

lemma subtrees_add:
  "Node l' n r' \<in> subtrees (add_offset_node t x) \<Longrightarrow>
     n = x \<or> (\<exists>l r. Node l n r \<in> subtrees t \<and> set_tree (Node l n r) \<subseteq> set_tree (Node l' n r'))"
proof (induction t)
  case Leaf
  then show ?case by (simp add: tree_root_def)
next
  case (Node tl m tr)
  have grow: "set_tree u \<subseteq> set_tree (add_offset_node u x)" for u
    by (induction u) (auto simp: Let_def)
  consider (same) "tree_mapent_cmp m x = 0" | (left) "tree_mapent_cmp m x < 0" | (right) "tree_mapent_cmp m x > 0" by linarith
  then show ?case
  proof cases
    case same
    then show ?thesis using Node.prems by (auto simp: Let_def)
  next
    case left
    then consider "Node l' n r' = Node (add_offset_node tl x) m tr" | "Node l' n r' \<in> subtrees (add_offset_node tl x)"
      | "Node l' n r' \<in> subtrees tr" using Node.prems by (auto simp: Let_def)
    then show ?thesis
    proof cases
      case 1
      then show ?thesis using grow [of tl] by (intro disjI2 exI [of _ tl] exI [of _ tr]) auto
    next
      case 2
      then show ?thesis using Node.IH(1) by auto
    next
      case 3
      then show ?thesis by (intro disjI2 exI [of _ l'] exI [of _ r']) auto
    qed
  next
    case right
    then consider "Node l' n r' = Node tl m (add_offset_node tr x)" | "Node l' n r' \<in> subtrees (add_offset_node tr x)"
      | "Node l' n r' \<in> subtrees tl" using Node.prems by (auto simp: Let_def)
    then show ?thesis
    proof cases
      case 1
      then show ?thesis using grow [of tr] by (intro disjI2 exI [of _ tl] exI [of _ tr]) auto
    next
      case 2
      then show ?thesis using Node.IH(2) by auto
    next
      case 3
      then show ?thesis by (intro disjI2 exI [of _ l'] exI [of _ r']) auto
    qed
  qed
qed

lemma node_in: "Node l n r \<in> subtrees t \<Longrightarrow> n \<in> set_tree t"
  using subtrees_set by fastforce

lemma insert_below:
  assumes "mapent_tree.ordered t" "valid_ent x" "nested t" "me_key x \<notin> me_key ` set_tree t"
    and "Node l' n r' \<in> subtrees (add_offset_node t x)" "key_prefix (me_key n) (me_key x)"
  shows "x \<in> set_tree (Node l' n r')"
  using assms(1,3-6)
proof (induction t)
  case Leaf
  then show ?case by (simp add: tree_root_def)
next
  case (Node tl m tr)
  have m: "valid_ent m" and less: "\<forall>y \<in> set_tree tl. me_key y < me_key m" and more: "\<forall>y \<in> set_tree tr. me_key m \<le> me_key y"
    and ord: "mapent_tree.ordered tl" "mapent_tree.ordered tr" using Node.prems(1) by auto
  have nest: "nested tl" "nested tr" by (rule nested_sub [OF Node.prems(2)], simp)+
  have fresh: "me_key x \<notin> me_key ` set_tree tl" "me_key x \<notin> me_key ` set_tree tr" "me_key x \<noteq> me_key m"
    using Node.prems(3) by auto
  obtain z where z: "me_key x = me_key n @ z" using Node.prems(5) by (auto simp: key_prefix_append)
  have ge: "me_key n \<le> me_key x" using prefix_less [of z "me_key n"] z by (cases "z = []") (auto simp: less_imp_le)
  note cmp = mapent_cmp_cases [OF m assms(2)]
  show ?case
  proof (cases "tree_mapent_cmp m x < 0")
    case True
    then have xm: "me_key x < me_key m" using cmp(2) by simp
    then consider "Node l' n r' = Node (add_offset_node tl x) m tr" | "Node l' n r' \<in> subtrees (add_offset_node tl x)"
      | "Node l' n r' \<in> subtrees tr" using Node.prems(4) True by (auto simp: Let_def)
    then show ?thesis
    proof cases
      case 1
      have "me_key m \<le> me_key x" using 1 ge by simp
      then show ?thesis using xm by simp
    next
      case 2
      then show ?thesis using Node.IH(1) [OF ord(1) nest(1) fresh(1) _ Node.prems(5)] by simp
    next
      case 3
      then have "me_key m \<le> me_key n" using more node_in [OF 3] by blast
      then show ?thesis using ge xm by simp
    qed
  next
    case False
    then have right: "tree_mapent_cmp m x > 0" using cmp(1) fresh(3) by linarith
    then have xm: "me_key m < me_key x" using False cmp fresh(3) by (metis linorder_less_linear)
    from right consider "Node l' n r' = Node tl m (add_offset_node tr x)" | "Node l' n r' \<in> subtrees (add_offset_node tr x)"
      | "Node l' n r' \<in> subtrees tl" using Node.prems(4) by (auto simp: Let_def)
    then show ?thesis
    proof cases
      case 1
      have "x \<in> set_tree (add_offset_node tr x)"
        using mapent_tree.add_elements [OF ord(2) assms(2)] fresh(2) by (metis set_mset_add_mset_insert set_mset_tree insertI1)
      then show ?thesis using 1 by simp
    next
      case 2
      then show ?thesis using Node.IH(2) [OF ord(2) nest(2) fresh(2) _ Node.prems(5)] by simp
    next
      case 3
      then have n: "n \<in> set_tree tl" "me_key n < me_key m" using node_in [OF 3] less by blast+
      show ?thesis
      proof (cases "key_prefix (me_key n) (me_key m)")
        case True
        have "Node l' n r' \<in> subtrees (Node tl m tr)" using 3 by simp
        then have "m \<in> set_tree (Node l' n r')" using Node.prems(2) True unfolding nested_def by auto
        then have "m \<in> set_tree tl" using subtrees_set [OF 3] by blast
        then show ?thesis using less by blast
      next
        case False
        then have "me_key x < me_key m" unfolding z by (rule less_not_prefix [OF n(2)])
        then show ?thesis using xm by simp
      qed
    qed
  qed
qed

lemma nested_add:
  assumes ord: "mapent_tree.ordered t" and x: "valid_ent x" and nest: "nested t" and len: "\<forall>y \<in> set_tree t. length (me_key y) \<le> length (me_key x)"
  shows "nested (add_offset_node t x)"
proof (cases "me_key x \<in> me_key ` set_tree t")
  case True
  have "add_offset_node t x = t" using ord True
  proof (induction t)
    case (Node tl m tr)
    then have m: "valid_ent m" and o: "mapent_tree.ordered tl" "mapent_tree.ordered tr"
      and less: "\<forall>y \<in> set_tree tl. me_key y < me_key m" and more: "\<forall>y \<in> set_tree tr. me_key m \<le> me_key y"
        "\<forall>y \<in> set_tree tr. me_key y \<noteq> me_key m" by auto
    note cmp = mapent_cmp_cases [OF m x]
    show ?case
    proof (cases "me_key x = me_key m")
      case False
      show ?thesis
      proof (cases "me_key x < me_key m")
        case True
        then have "me_key x \<in> me_key ` set_tree tl" using Node.prems(2) False more(1) by fastforce
        then show ?thesis using Node.IH(1) [OF o(1)] True cmp by (simp add: Let_def)
      next
        case gt: False
        then have "me_key x \<in> me_key ` set_tree tr" using Node.prems(2) False less by fastforce
        then show ?thesis using Node.IH(2) [OF o(2)] gt False cmp by (simp add: Let_def)
      qed
    qed (use cmp(1) in \<open>simp add: Let_def\<close>)
  qed simp
  then show ?thesis using nest by simp
next
  case False
  have set: "set_tree (add_offset_node t x) = insert x (set_tree t)"
    using mapent_tree.add_elements [OF ord x] False by (metis set_mset_add_mset_insert set_mset_tree)
  show ?thesis unfolding nested_def
  proof (intro allI impI ballI)
    fix l' n r' y
    assume s: "Node l' n r' \<in> subtrees (add_offset_node t x)" and y: "y \<in> set_tree (add_offset_node t x)"
      and pre: "key_prefix (me_key n) (me_key y)"
    show "y \<in> set_tree (Node l' n r')"
    proof (cases "y = x")
      case True
      then show ?thesis using insert_below [OF ord x nest False s] pre by simp
    next
      case y': False
      then have yt: "y \<in> set_tree t" using y set by simp
      show ?thesis
      proof (cases "n = x")
        case True
        then have "me_key y = me_key x" using key_prefix_length [OF pre] len yt pre by (metis dual_order.antisym take_all)
        then show ?thesis using False yt by (metis image_eqI)
      next
        case n: False
        then obtain l r where lr: "Node l n r \<in> subtrees t" "set_tree (Node l n r) \<subseteq> set_tree (Node l' n r')"
          using subtrees_add [OF s] by blast
        then show ?thesis using nest yt pre unfolding nested_def by blast
      qed
    qed
  qed
qed


definition offset_tree :: "mapent \<Rightarrow> mapent list \<Rightarrow> mapent tree" where
  "offset_tree root xs = fold (\<lambda>x t. add_offset_node t x) xs (tree_root root)"

lemma offset_tree_nested:
  assumes "\<forall>x \<in> set (root # xs). valid_ent x" "sorted (map (\<lambda>x. length (me_key x)) (root # xs))"
  shows "nested (offset_tree root xs) \<and> mapent_tree.ordered (offset_tree root xs) \<and> set_tree (offset_tree root xs) \<subseteq> set (root # xs)"
  using assms
proof (induction xs rule: rev_induct)
  case Nil
  then show ?case by (auto simp: offset_tree_def tree_root_def nested_def)
next
  case (snoc x xs)
  then have IH: "nested (offset_tree root xs)" "mapent_tree.ordered (offset_tree root xs)" "set_tree (offset_tree root xs) \<subseteq> set (root # xs)"
    and x: "valid_ent x" by (auto simp: sorted_append)
  have t: "offset_tree root (xs @ [x]) = add_offset_node (offset_tree root xs) x" by (simp add: offset_tree_def)
  have "\<forall>y \<in> set_tree (offset_tree root xs). length (me_key y) \<le> length (me_key x)"
    using IH(3) snoc.prems(2) by (fastforce simp: sorted_append)
  then have "nested (offset_tree root (xs @ [x]))" unfolding t using nested_add [OF IH(2) x IH(1)] by blast
  moreover have "mapent_tree.ordered (offset_tree root (xs @ [x]))" unfolding t by (rule mapent_tree.add_ordered [OF IH(2) x])
  moreover have "set_tree (offset_tree root (xs @ [x])) \<subseteq> set (root # xs @ [x])"
    unfolding t using tree_add_node_set [of tree_mapent_cmp "offset_tree root xs" x] IH(3) by auto
  ultimately show ?case by blast
qed

section \<open>Walking over the offsets of a nesting point\<close>

abbreviation offset_of :: "addr \<Rightarrow> mapent \<Rightarrow> bool" where
  "offset_of base oe \<equiv> \<not> tree_mapent_is_root oe \<and> me_mm_parent oe = Some base"

lemma traverse_visits:
  "snd (traverse_subtree (\<lambda>s. f) work False base t s) = fold (\<lambda>oe s. snd (work oe s)) (filter (offset_of base) (map f (inorder t))) s"
proof (induction t arbitrary: s)
  case (Node l n r)
  obtain r1 s1 where l: "(if l = Leaf then (- 1, s) else traverse_subtree (\<lambda>s. f) work False base l s) = (r1, s1)" by fastforce
  have s1: "s1 = fold (\<lambda>oe s. snd (work oe s)) (filter (offset_of base) (map f (inorder l))) s"
    using Node.IH(1) [of s] l by (cases "l = Leaf") auto
  obtain r2 s2 where n: "(if offset_of base (f n) then work (f n) s1 else (r1, s1)) = (r2, s2)" by fastforce
  have s2: "s2 = (if offset_of base (f n) then snd (work (f n) s1) else s1)" using n by (auto split: if_splits)
  have "traverse_subtree (\<lambda>s. f) work False base (Node l n r) s =
    (if r = Leaf then (r2, s2) else traverse_subtree (\<lambda>s. f) work False base r s2)"
    using l n by (simp add: Let_def)
  then have "snd (traverse_subtree (\<lambda>s. f) work False base (Node l n r) s) = fold (\<lambda>oe s. snd (work oe s)) (filter (offset_of base) (map f (inorder r))) s2"
    using Node.IH(2) [of s2] by (cases "r = Leaf") auto
  then show ?case using s1 s2 by simp
qed simp

lemma offset_tree_top: "\<exists>l r. offset_tree root xs = Node l root r"
proof (induction xs rule: rev_induct)
  case (snoc x xs)
  have "offset_tree root (xs @ [x]) = add_offset_node (offset_tree root xs) x" by (simp add: offset_tree_def)
  with snoc show ?case by (auto simp: Let_def)
qed (simp add: offset_tree_def tree_root_def)

lemma root_subtree:
  assumes "Node l root r \<in> subtrees (offset_tree root xs)" "mapent_tree.ordered (offset_tree root xs)"
  shows "Node l root r = offset_tree root xs"
proof -
  obtain l0 r0 where t: "offset_tree root xs = Node l0 root r0" using offset_tree_top by blast
  have "root \<notin> set_tree l0" "root \<notin> set_tree r0" using assms(2) unfolding t by auto
  then show ?thesis using assms(1) node_in unfolding t by auto
qed

text \<open>
  C24: when the offsets of a multi-mount are added to its tree from the shortest to the longest,
  a walk that starts at the node of any offset reaches every offset that has it as its parent,
  each once and in the order of the paths, and nothing else.
\<close>

theorem subtree_walk_complete:
  assumes "\<forall>x \<in> set (root # xs). valid_ent x" and "sorted (map (\<lambda>x. length (me_key x)) (root # xs))"
    and "Node l b r \<in> subtrees (offset_tree root xs)"
    and "b = root \<or> (\<forall>x \<in> set xs. me_mm_parent (f x) = Some (me_id b) \<longrightarrow> key_prefix (me_key b) (me_key x))"
    and "\<not> offset_of (me_id b) (f root)"
  shows "set (snd (traverse_subtree (\<lambda>s. f) (\<lambda>oe s. (1, s @ [oe])) False (me_id b) (Node l b r) [])) =
      f ` {x \<in> set_tree (offset_tree root xs). offset_of (me_id b) (f x)}
    \<and> snd (traverse_subtree (\<lambda>s. f) (\<lambda>oe s. (1, s @ [oe])) False (me_id b) (Node l b r) []) =
      filter (offset_of (me_id b)) (map f (inorder (Node l b r)))
    \<and> sorted (map me_key (inorder (Node l b r))) \<and> distinct (map me_key (inorder (Node l b r)))"
proof -
  let ?t = "offset_tree root xs" and ?s = "Node l b r"
  note t = offset_tree_nested [OF assms(1,2)]
  have ap: "fold (\<lambda>oe s. snd (1 :: int, s @ [oe])) ys acc = acc @ ys" for ys and acc :: "mapent list"
    by (induction ys arbitrary: acc) auto
  have walk: "snd (traverse_subtree (\<lambda>s. f) (\<lambda>oe s. (1, s @ [oe])) False (me_id b) ?s []) = filter (offset_of (me_id b)) (map f (inorder ?s))"
    unfolding traverse_visits ap by simp
  have "x \<in> set_tree ?s" if "x \<in> set_tree ?t" "offset_of (me_id b) (f x)" for x
  proof -
    have "x \<in> set xs" using that t assms(5) by auto
    with assms(4) that(2) consider "b = root" | "key_prefix (me_key b) (me_key x)" by blast
    then show ?thesis
    proof cases
      case 1
      then have "?s = ?t" using root_subtree assms(3) t by blast
      then show ?thesis using that(1) by (simp only:)
    next
      case 2
      then show ?thesis using t that(1) assms(3) unfolding nested_def by blast
    qed
  qed
  moreover have "set_tree ?s \<subseteq> set_tree ?t" by (rule subtrees_set [OF assms(3)])
  ultimately have "f ` {x \<in> set_tree ?t. offset_of (me_id b) (f x)} = set (filter (offset_of (me_id b)) (map f (inorder ?s)))"
    unfolding filter_map set_map set_filter set_inorder comp_def by blast
  moreover have "mapent_tree.ordered u" if "u \<in> subtrees v" "mapent_tree.ordered v" for u v
    using that by (induction v) auto
  then have "mapent_tree.ordered ?s" using assms(3) t by blast
  ultimately show ?thesis using walk mapent_tree.ordered_sorted mapent_tree.ordered_distinct by metis
qed


text \<open>The offset \<open>k\<close> of the multi-mount with the root 0 and with the parent \<open>p\<close>.\<close>

definition mm_entry :: "addr \<Rightarrow> string \<Rightarrow> addr \<Rightarrow> mapent" where
  "mm_entry i k p = (sample_entry i k)\<lparr>me_mm_root := Some 0, me_mm_parent := Some p\<rparr>"

lemma mm_entry_sel [simp]:
  "me_id (mm_entry i k p) = i" "me_key (mm_entry i k p) = k" "me_len (mm_entry i k p) = length k"
  "me_mm_root (mm_entry i k p) = Some 0" "me_mm_parent (mm_entry i k p) = Some p"
  by (simp_all add: mm_entry_def)

theorem subtree_walk_complete_witness:
  "snd (traverse_subtree (\<lambda>s. id) (\<lambda>oe s. (1, s @ [oe])) False 1
     (offset_tree (mm_entry 1 ''/m/x'' 0) [mm_entry 3 ''/m/x/y'' 1, mm_entry 2 ''/m/x/y/z'' 3]) []) = [mm_entry 3 ''/m/x/y'' 1]"
proof -
  let ?root = "mm_entry 1 ''/m/x'' 0" and ?xs = "[mm_entry 3 ''/m/x/y'' 1, mm_entry 2 ''/m/x/y/z'' 3]"
  have t: "offset_tree ?root ?xs = Node Leaf ?root (Node Leaf (mm_entry 3 ''/m/x/y'' 1) (Node Leaf (mm_entry 2 ''/m/x/y/z'' 3) Leaf))"
    by (simp add: offset_tree_def tree_root_def tree_mapent_cmp_def strncmp_eq_def)
  have v: "\<forall>x \<in> set (?root # ?xs). valid_ent x" "sorted (map (\<lambda>x. length (me_key x)) (?root # ?xs))" by (simp_all add: cstring_def NUL_def)
  have n: "\<not> offset_of (me_id ?root) (id ?root)" by simp
  show ?thesis
    using subtree_walk_complete [OF v, of Leaf ?root "Node Leaf (mm_entry 3 ''/m/x/y'' 1) (Node Leaf (mm_entry 2 ''/m/x/y/z'' 3) Leaf)" id] n
    unfolding t by (simp add: tree_mapent_is_root_def)
qed



section \<open>Deleting the offsets\<close>

text \<open>The entries of a key, in the order of their chain.\<close>

definition same_key :: "mapent_cache \<Rightarrow> string \<Rightarrow> mapent list" where
  "same_key mc k = filter (has_key k) (bucket mc k)"

lemma cached_same_key: "cached mc k = (case same_key mc k of [] \<Rightarrow> None | e # _ \<Rightarrow> Some e)"
proof -
  have "find (has_key k) c = (case filter (has_key k) c of [] \<Rightarrow> None | e # _ \<Rightarrow> Some e)" for c
    by (induction c) auto
  then show ?thesis by (simp add: cached_find same_key_def)
qed

lemma same_key_mem [simp]: "same_key (mc\<lparr>mc_mem := m\<rparr>) k = same_key mc k"
  by (simp add: same_key_def bucket_def)

lemma same_key_upd:
  assumes "cache_ok mc" and f: "\<And>e. me_key (f e) = me_key e"
  shows "same_key (upd_entry a f mc) k = upd_chain a f (same_key mc k)"
proof -
  have "filter (has_key k) (upd_chain a f c) = upd_chain a f (filter (has_key k) c)" for c
    using f by (induction c) auto
  then show ?thesis by (simp add: same_key_def bucket_upd_entry [OF assms(1)])
qed

lemma same_key_delete:
  assumes ok: "cache_ok mc" and del: "cache_delete mc key = (ret, mc')"
  shows "k \<noteq> key \<Longrightarrow> same_key mc' k = same_key mc k"
    and "\<forall>e \<in> set (same_key mc key). \<not> IS_MM e \<Longrightarrow> ret = CHE_OK \<and> same_key mc' key = []"
proof -
  from cache_delete_bucket [OF ok del] obtain b r d where
    dc: "delete_chain key (bucket mc key) = (b, r, d)"
    and bk: "\<And>k. bucket mc' k = (if unat (hash k (mc_size mc)) = unat (hash key (mc_size mc)) then r else bucket mc k)"
    by blast
  from delete_chain_removes [of key "bucket mc key"] dc have
    rem: "filter (\<lambda>e. me_key e \<noteq> key) r = filter (\<lambda>e. me_key e \<noteq> key) (bucket mc key)" by (auto simp: removes_def)
  show "same_key mc' k = same_key mc k" if "k \<noteq> key"
  proof -
    have sub: "filter (has_key k) c = filter (has_key k) (filter (\<lambda>e. me_key e \<noteq> key) c)" for c
      using that by (induction c) auto
    have "bucket mc k = bucket mc key" if "unat (hash k (mc_size mc)) = unat (hash key (mc_size mc))"
      using that by (simp add: bucket_def)
    moreover have "filter (has_key k) r = filter (has_key k) (bucket mc key)"
      unfolding sub [of r] sub [of "bucket mc key"] rem ..
    ultimately show ?thesis unfolding same_key_def bk by presburger
  qed
  show "ret = CHE_OK \<and> same_key mc' key = []" if "\<forall>e \<in> set (same_key mc key). \<not> IS_MM e"
  proof -
    have "ret = CHE_OK" using cache_delete_cached(3) [OF ok del] that by (auto simp: same_key_def)
    then show ?thesis using cache_delete_cached(2) [OF ok del] by (auto simp: cached_same_key split: list.splits)
  qed
qed

lemma cache_delete_sel: "cache_delete mc key = (ret, mc') \<Longrightarrow> mc_mem mc' = mc_mem mc"
  by (auto simp: cache_delete_def Let_def split: prod.splits)

text \<open>The node \<open>n\<close> is the only entry of its key in the cache.\<close>

definition sole :: "mapent_cache \<Rightarrow> mapent \<Rightarrow> mapent \<Rightarrow> bool" where
  "sole mc n e \<longleftrightarrow> same_key mc (me_key n) = [e] \<and> me_id e = me_id n \<and> me_key e = me_key n"

lemma sole_deref:
  assumes "cache_ok mc" "sole mc n e"
  shows "\<exists>c. deref mc (me_id n) = e # c"
proof -
  have "e \<in> set (same_key mc (me_key n))" using assms(2) by (simp add: sole_def)
  then have "e \<in> set (bucket mc (me_key n))" by (simp add: same_key_def)
  then have "e \<in> set (entries mc)" using bucket_entries [OF assms(1)] by blast
  then have "found (deref mc (me_id n)) = Some e" using deref_find [OF assms(1)] assms(2) by (metis sole_def)
  then show ?thesis by (auto simp: found_def split: list.splits)
qed


text \<open>One node that is not the root, with nothing left below it.\<close>

lemma delete_node:
  assumes ok: "cache_ok mc" and mem: "mc_mem mc = []" and n: "sole mc n e" "me_mm_root e = Some root" "me_id n \<noteq> root"
    and subs: "delete_offset_tree l mc0 = Some (True, l', mc1)" "delete_offset_tree r mc1 = Some (True, r', mc)"
  shows "\<exists>mc'. delete_offset_tree (Node l n r) mc0 = Some (True, Node Leaf n Leaf, mc') \<and> cache_ok mc' \<and> mc_mem mc' = []
    \<and> (\<forall>k. same_key mc' k = (if k = me_key n then [] else same_key mc k))"
proof -
  let ?clear = "\<lambda>e. e\<lparr>me_mm_root := None\<rparr>"
  let ?mc = "upd_entry (me_id e) ?clear mc"
  have e: "me_id e = me_id n" "me_key e = me_key n" "same_key mc (me_key n) = [e]" using n(1) by (auto simp: sole_def)
  have ok': "cache_ok ?mc" by (rule upd_entry_ok [OF ok]) (simp add: same_identity_def)
  have sk: "same_key ?mc k = upd_chain (me_id e) ?clear (same_key mc k)" for k by (rule same_key_upd [OF ok]) simp
  obtain ret mc' where del: "cache_delete ?mc (me_key n) = (ret, mc')" by fastforce
  have same: "mc\<lparr>mc_mem := []\<rparr> = mc" using mem by simp
  obtain c where c: "deref mc (me_id n) = e # c" using sole_deref [OF ok n(1)] by blast
  have gone: "ret = CHE_OK \<and> same_key mc' (me_key n) = []"
    by (rule same_key_delete(2) [OF ok' del]) (simp add: sk e(3) IS_MM_def)
  have keep: "same_key mc' k = same_key mc k" if k: "k \<noteq> me_key n" for k
  proof -
    have inj: "me_id x \<noteq> me_id e" if x: "x \<in> set (same_key mc k)" for x
    proof
      assume id: "me_id x = me_id e"
      have "e \<in> set (same_key mc (me_key n))" "me_key x = k" using e(3) x by (auto simp: same_key_def)
      then have "x \<in> set (entries mc)" "e \<in> set (entries mc)"
        using x bucket_entries [OF ok] by (auto simp: same_key_def)
      then have "x = e" using ok id by (auto simp: cache_ok_def distinct_map dest: inj_onD)
      then show False using \<open>me_key x = k\<close> k e(2) by simp
    qed
    have "upd_chain (me_id e) ?clear c = c" if "\<forall>x \<in> set c. me_id x \<noteq> me_id e" for c
      using that by (induction c) auto
    then show ?thesis using same_key_delete(1) [OF ok' del k] inj sk by simp
  qed
  have "delete_offset_tree (Node l n r) mc0 = Some (True, Node Leaf n Leaf, mc')"
    using subs c n(2,3) e(1,2) mem del gone by (simp add: same)
  moreover have "cache_ok mc'" using cache_delete_ok [OF ok', of "me_key n"] del by simp
  moreover have "mc_mem mc' = []" using cache_delete_sel [OF del] mem by (simp add: frame_simps)
  ultimately show ?thesis using gone keep by auto
qed

abbreviation offset_nodes :: "mapent_cache \<Rightarrow> addr \<Rightarrow> mapent tree \<Rightarrow> bool" where
  "offset_nodes mc root t \<equiv> \<forall>n \<in> set_tree t. me_id n \<noteq> root \<and> (\<exists>e. sole mc n e \<and> me_mm_root e = Some root)"

lemma sole_cong: "same_key mc' (me_key n) = same_key mc (me_key n) \<Longrightarrow> sole mc' n e = sole mc n e"
  by (simp add: sole_def)

lemma delete_offset_tree_removes:
  assumes "cache_ok mc" "mc_mem mc = []" "offset_nodes mc root t" "distinct (map me_key (inorder t))"
  shows "\<exists>t' mc'. delete_offset_tree t mc = Some (True, t', mc') \<and> cache_ok mc' \<and> mc_mem mc' = []
    \<and> (\<forall>k. same_key mc' k = (if k \<in> me_key ` set_tree t then [] else same_key mc k))"
  using assms
proof (induction t arbitrary: mc)
  case (Node l n r)
  have dist: "me_key ` set_tree l \<inter> me_key ` set_tree r = {}" "me_key n \<notin> me_key ` set_tree l" "me_key n \<notin> me_key ` set_tree r"
    "distinct (map me_key (inorder l))" "distinct (map me_key (inorder r))" using Node.prems(4) by auto
  obtain l' mc1 where l: "delete_offset_tree l mc = Some (True, l', mc1)" "cache_ok mc1" "mc_mem mc1 = []"
    "\<And>k. same_key mc1 k = (if k \<in> me_key ` set_tree l then [] else same_key mc k)"
    using Node.IH(1) [OF Node.prems(1,2) _ dist(4)] Node.prems(3) by auto
  have "offset_nodes mc1 root r"
  proof
    fix x assume x: "x \<in> set_tree r"
    then have "same_key mc1 (me_key x) = same_key mc (me_key x)" using l(4) dist(1) by auto
    then have "sole mc1 x e = sole mc x e" for e by (rule sole_cong)
    then show "me_id x \<noteq> root \<and> (\<exists>e. sole mc1 x e \<and> me_mm_root e = Some root)" using Node.prems(3) x by simp
  qed
  then obtain r' mc2 where r: "delete_offset_tree r mc1 = Some (True, r', mc2)" "cache_ok mc2" "mc_mem mc2 = []"
    "\<And>k. same_key mc2 k = (if k \<in> me_key ` set_tree r then [] else same_key mc1 k)"
    using Node.IH(2) [OF l(2,3) _ dist(5)] by auto
  have "same_key mc2 (me_key n) = same_key mc (me_key n)" using l(4) r(4) dist by simp
  then have "sole mc2 n e = sole mc n e" for e by (rule sole_cong)
  then obtain e where e: "sole mc2 n e" "me_mm_root e = Some root" "me_id n \<noteq> root" using Node.prems(3) by auto
  from delete_node [OF r(2,3) e l(1) r(1)] obtain mc' where
    "delete_offset_tree (Node l n r) mc = Some (True, Node Leaf n Leaf, mc')" "cache_ok mc'" "mc_mem mc' = []"
    "\<And>k. same_key mc' k = (if k = me_key n then [] else same_key mc2 k)" by auto
  then show ?case using l(4) r(4) by (auto split: if_splits)
qed (simp del: split_paired_Ex)


text \<open>
  C23: deleting the offsets of a multi-mount succeeds when memory suffices and every offset of its
  tree is the only entry of its key: afterwards no key of an offset is cached, the entry of the
  multi-mount itself stays, no longer as the owner of a tree, every other key is cached as
  before, and the invariant of the cache holds.
\<close>

theorem delete_offsets_correct:
  assumes ok: "cache_ok mc" "mc_mem mc = []" and n: "sole mc n e" "me_mm_root e = Some (me_id e)"
    and subs: "offset_nodes mc (me_id n) l" "offset_nodes mc (me_id n) r" and dist: "distinct (map me_key (inorder (Node l n r)))"
  shows "\<exists>t' mc'. tree_mapent_delete_offsets (Node l n r) mc (me_key n) = Some (True, t', mc') \<and> cache_ok mc'
    \<and> (\<forall>k. cached mc' k = (if k \<in> me_key ` (set_tree l \<union> set_tree r) then None
            else if k = me_key n then Some (e\<lparr>me_mm_root := None, me_mm_parent := None\<rparr>) else cached mc k))"
proof -
  let ?clear = "\<lambda>e. e\<lparr>me_mm_root := None, me_mm_parent := None\<rparr>"
  have d: "me_key ` set_tree l \<inter> me_key ` set_tree r = {}" "me_key n \<notin> me_key ` set_tree l" "me_key n \<notin> me_key ` set_tree r"
    "distinct (map me_key (inorder l))" "distinct (map me_key (inorder r))" using dist by auto
  have e: "me_id e = me_id n" "me_key e = me_key n" "same_key mc (me_key n) = [e]" using n(1) by (auto simp: sole_def)
  obtain l' mc1 where l: "delete_offset_tree l mc = Some (True, l', mc1)" "cache_ok mc1" "mc_mem mc1 = []"
    "\<And>k. same_key mc1 k = (if k \<in> me_key ` set_tree l then [] else same_key mc k)"
    using delete_offset_tree_removes [OF ok subs(1) d(4)] by blast
  have "offset_nodes mc1 (me_id n) r"
  proof
    fix x assume x: "x \<in> set_tree r"
    then have "same_key mc1 (me_key x) = same_key mc (me_key x)" using l(4) d(1) by auto
    then have "sole mc1 x e = sole mc x e" for e by (rule sole_cong)
    then show "me_id x \<noteq> me_id n \<and> (\<exists>e. sole mc1 x e \<and> me_mm_root e = Some (me_id n))" using subs(2) x by simp
  qed
  then obtain r' mc2 where r: "delete_offset_tree r mc1 = Some (True, r', mc2)" "cache_ok mc2"
    "\<And>k. same_key mc2 k = (if k \<in> me_key ` set_tree r then [] else same_key mc1 k)"
    using delete_offset_tree_removes [OF l(2,3) _ d(5)] by blast
  let ?mc = "upd_entry (me_id e) ?clear mc2"
  have n2: "same_key mc2 (me_key n) = [e]" using l(4) r(3) d(2,3) e(3) by simp
  then have "sole mc2 n e" using e by (simp add: sole_def)
  then obtain c where c: "deref mc2 (me_id n) = e # c" using sole_deref [OF r(2)] by blast
  have "cached mc (me_key n) = Some e" using e(3) by (simp add: cached_same_key)
  then obtain c' where "cache_lookup_distinct mc (Some (me_key n)) = e # c'" by (auto simp: cached_def found_def split: list.splits)
  then have "tree_mapent_delete_offsets (Node l n r) mc (me_key n) = Some (True, Node Leaf n Leaf, ?mc)"
    using l(1) r(1) c n(2) by (simp add: tree_mapent_delete_offsets_def)
  moreover have "cache_ok ?mc" by (rule upd_entry_ok [OF r(2)]) (simp add: same_identity_def)
  moreover have "cached ?mc k = (if k \<in> me_key ` (set_tree l \<union> set_tree r) then None
      else if k = me_key n then Some (?clear e) else cached mc k)" for k
  proof -
    have up: "cached ?mc k = map_option (\<lambda>x. if me_id x = me_id e then ?clear x else x) (cached mc2 k)"
      by (rule cached_upd_entry [OF r(2)]) simp
    have c2: "cached mc2 k = (if k \<in> me_key ` (set_tree l \<union> set_tree r) then None else cached mc k)"
      using l(4) r(3) by (auto simp: cached_same_key)
    have "me_id x \<noteq> me_id e" if x: "cached mc2 k = Some x" "k \<noteq> me_key n" for x
    proof
      assume id: "me_id x = me_id e"
      have "e \<in> set (same_key mc2 (me_key n))" "x \<in> set (same_key mc2 k)"
        using n2 x(1) by (auto simp: cached_same_key split: list.splits)
      then have "x \<in> set (entries mc2)" "e \<in> set (entries mc2)" "me_key x = k"
        using bucket_entries [OF r(2)] by (auto simp: same_key_def)
      then show False using r(2) id x(2) e(2) by (auto simp: cache_ok_def distinct_map dest: inj_onD)
    qed
    then show ?thesis using up c2 d(2,3) \<open>cached mc (me_key n) = Some e\<close> by (cases "cached mc k") auto
  qed
  ultimately show ?thesis by blast
qed

theorem delete_offsets_correct_witness:
  "\<exists>t' mc'. tree_mapent_delete_offsets (Node Leaf (mm_entry 0 ''/m'' 0) (Node Leaf (mm_entry 1 ''/m/x'' 0) Leaf))
       (one_chain [mm_entry 0 ''/m'' 0, mm_entry 1 ''/m/x'' 0, sample_entry 2 ''/n'']) ''/m'' = Some (True, t', mc')
     \<and> cached mc' ''/m/x'' = None \<and> cached mc' ''/n'' = Some (sample_entry 2 ''/n'')"
proof -
  let ?n = "mm_entry 0 ''/m'' 0" and ?x = "mm_entry 1 ''/m/x'' 0" and ?y = "sample_entry 2 ''/n''"
  let ?mc = "one_chain [?n, ?x, ?y]"
  have b: "bucket ?mc k = [?n, ?x, ?y]" for k by (simp add: bucket_def)
  have ok: "cache_ok ?mc" by (rule one_chain_ok) simp_all
  have sole: "sole ?mc ?n ?n" "sole ?mc ?x ?x" by (simp_all add: sole_def same_key_def b)
  have "\<exists>e. sole ?mc ?x e \<and> me_mm_root e = Some 0" using sole(2) by (intro exI [of _ ?x]) simp
  then show ?thesis
    using delete_offsets_correct [OF ok _ sole(1), of Leaf "Node Leaf ?x Leaf"] by (force simp: cached_find b)
qed

end
