(* ===== verification/Parse_Mount.thy ===== *)
theory Parse_Mount
  imports Offsets Mount_Table
begin

text \<open>
  \<open>parse_mount\<close> of \<^verbatim>\<open>modules/parse_sun.c\<close>, the entry point of the Sun parser: expansion of the entry,
  its options, the distinction between multi-mounts and plain entries, and what is asked of the
  mount modules. The offset trees are a function from the address of the node at the root.
\<close>

section \<open>Operations\<close>

text \<open>
  What surrounds a request: the mount point's path, whether it is the hosts map, whether the map
  is in amd format, the configuration and the global macros and user variables.
\<close>

record sun_env =
  se_path :: string
  se_hosts :: bool
  se_amd :: bool
  se_append :: bool
  se_weight_only :: bool
  se_sys :: subst_table
  se_tsv :: "thread_stdenv_vars option"

text \<open>The end of \<open>parse_mount\<close>: a return value, a call of a mount module, or a call of \<open>mount_subtree\<close>.\<close>

datatype sun_request =
    SUN_RETURN int
  | SUN_CALL string mount_call
  | SUN_SUBTREE "string option" "string option"

text \<open>The entry is expanded, unless it is an offset of a multi-mount, which was expanded before.\<close>

definition known_offset :: "mapent_cache \<Rightarrow> string \<Rightarrow> bool" where
  "known_offset mc name \<longleftrightarrow>
     cstr_hd name = CHR ''/''
     \<and> (case cache_lookup_distinct mc (Some name) of [] \<Rightarrow> False | me # _ \<Rightarrow> IS_MM me \<and> \<not> IS_MM_ROOT me)"

definition expand_entry ::
  "sun_env \<Rightarrow> mapent_cache \<Rightarrow> string \<Rightarrow> string \<Rightarrow> parse_context \<Rightarrow> mem \<Rightarrow> (sun_fault + string option) \<times> parse_context \<times> mem" where
  "expand_entry env mc name mapent ctxt m =
     (if known_offset mc name then
        (case malloc m of (ok, m1) \<Rightarrow> (Inr (if ok then Some mapent else None), ctxt, m1))
      else
        (case addstdenv (se_sys env) (se_tsv env) None (pc_subst ctxt, m) of
           (subst, m1) \<Rightarrow>
             (case do_expandsunent (se_sys env) subst name (pc_slashify_colons ctxt) mapent m1 of
                (res, m2) \<Rightarrow> (res, ctxt\<lparr>pc_subst := removestdenv None subst\<rparr>, m2))))"

text \<open>Options gathered and new ones; \<open>Inr None\<close> for an error.\<close>

definition merge_mnt_options :: "string option \<Rightarrow> string option \<Rightarrow> mem \<Rightarrow> string option option \<times> mem" where
  "merge_mnt_options gathered new m =
     (case (gathered, new) of
        (_, None) \<Rightarrow> (Some gathered, m)
      | (gathered, Some n) \<Rightarrow>
          if (case gathered of None \<Rightarrow> False | Some g \<Rightarrow> strstr n g \<noteq> None) then (Some new, m)
          else
            (case concat_options gathered new m of
               ((None, True), m1) \<Rightarrow> (None, m1)
             | ((tmp, _), m1) \<Rightarrow> (Some tmp, m1)))"

lemma parse_options_shorter:
  "parse_options front p ret m = (Inr (q, opt), m1) \<Longrightarrow> cstr_hd p = CHR ''-'' \<Longrightarrow> length q < length p"
  by (cases p) (auto simp: parse_options_def NUL_def Let_def split: option.splits prod.splits sum.splits)

function mnt_options_loop ::
  "string \<Rightarrow> string \<Rightarrow> string option \<Rightarrow> mem \<Rightarrow> (sun_fault + (string option \<times> string) option) \<times> mem" where
  "mnt_options_loop buf p mnt_options m =
     (if cstr_hd p \<noteq> CHR ''-'' then (Inr (Some (mnt_options, p)), m)
      else
        (case parse_options (before_of buf p) p None m of
           (Inl e, m1) \<Rightarrow> (Inl e, m1)
         | (Inr (q, noptions), m1) \<Rightarrow>
             (case merge_mnt_options mnt_options noptions m1 of
                (None, m2) \<Rightarrow> (Inr None, m2)
              | (Some os1, m2) \<Rightarrow> mnt_options_loop buf (skipspace q) os1 m2)))"
  by pat_completeness auto
termination
  by (relation "measure (\<lambda>(buf, p, os1, m). length p)") (auto intro!: skipspace_less intro: parse_options_shorter [OF sym])

declare mnt_options_loop.simps [simp del]

text \<open>
  The options of the map and of the entry, and the rest of the entry. A \<open>NULL\<close> option string is \<open>None\<close>.
\<close>

definition gather_options ::
  "bool \<Rightarrow> string option \<Rightarrow> string \<Rightarrow> mem \<Rightarrow> (sun_fault + (string option \<times> string) option) \<times> mem" where
  "gather_options append_options optstr pmapent m =
     (case malloc m of
        (False, m1) \<Rightarrow> (Inr None, m1)
      | (True, m1) \<Rightarrow>
          (let options = Some (case optstr of None \<Rightarrow> [] | Some s \<Rightarrow> s); p = skipspace pmapent
           in if cstr_hd p \<noteq> CHR ''-'' then (Inr (Some (options, p)), m1)
              else
                (case mnt_options_loop pmapent p None m1 of
                   (Inl e, m2) \<Rightarrow> (Inl e, m2)
                 | (Inr None, m2) \<Rightarrow> (Inr None, m2)
                 | (Inr (Some (mnt_options, q)), m2) \<Rightarrow>
                     if append_options then
                       (case merge_mnt_options options mnt_options m2 of
                          (None, m3) \<Rightarrow> (Inr None, m3)
                        | (Some os1, m3) \<Rightarrow> (Inr (Some (os1, q)), m3))
                     else (Inr (Some (mnt_options, q)), m2))))"

text \<open>
  \<open>cleanup_offset_entries\<close>. The key passed to \<open>cache_delete\<close> belongs to the entry that is freed:
  when the entry is not the first one of its chain, the key is read after that.
\<close>

fun cleanup_offset_entries :: "(addr \<times> nat) list \<Rightarrow> mapent_cache \<Rightarrow> sun_fault + mapent_cache" where
  "cleanup_offset_entries [] mc = Inr mc"
| "cleanup_offset_entries ((a, _) # offsets) mc =
     (case deref mc a of
        [] \<Rightarrow> Inl SUN_FREED
      | me # _ \<Rightarrow>
          (case bucket mc (me_key me) of
             [] \<Rightarrow> cleanup_offset_entries offsets mc
           | first # rest \<Rightarrow>
               if (\<exists>e \<in> set rest. me_id e = a) \<and> \<not> IS_MM me then Inl SUN_FREED
               else cleanup_offset_entries offsets (snd (cache_delete mc (me_key me)))))"

text \<open>The path of the next offset and what follows it; the entry of the root may have none.\<close>

definition no_offset :: "string \<Rightarrow> bool" where
  "no_offset p \<longleftrightarrow> cstr_hd p = DQUOTE \<and> cstr_hd (tl p) \<noteq> CHR ''/'' \<or> cstr_hd p \<noteq> DQUOTE \<and> cstr_hd p \<noteq> CHR ''/''"

definition next_offset :: "string \<Rightarrow> mem \<Rightarrow> (sun_fault + string option \<times> string) \<times> mem" where
  "next_offset p m =
     (if no_offset p then
        (case malloc m of (ok, m1) \<Rightarrow> (Inr (if ok then Some ''/'' else None, skipspace p), m1))
      else
        (case span_space p (length p + 1) of
           None \<Rightarrow> (Inl SUN_OVERREAD, m)
         | Some l \<Rightarrow>
             (case sanitize_path p l PATH_ANY m of (m_offset, m1) \<Rightarrow> (Inr (m_offset, skipspace (drop l p)), m1))))"

text \<open>
  The loop over the offsets: the cache and the list of offsets at its end, and whether it
  succeeded. An offset that consumes nothing would be parsed again without end.
\<close>

function offsets_loop ::
  "bool \<Rightarrow> time \<Rightarrow> string \<Rightarrow> string \<Rightarrow> string \<Rightarrow> string option \<Rightarrow> string \<Rightarrow> mapent_cache \<Rightarrow> (addr \<times> nat) list \<Rightarrow> mem
     \<Rightarrow> (sun_fault + bool \<times> mapent_cache \<times> (addr \<times> nat) list) \<times> mem" where
  "offsets_loop hosts age name m_root buf options p mc offsets m =
     (case next_offset p m of
        (Inl e, m1) \<Rightarrow> (Inl e, m1)
      | (Inr (None, _), m1) \<Rightarrow> (Inr (False, mc, offsets), m1)
      | (Inr (Some m_offset, q), m1) \<Rightarrow>
          (case options of
             None \<Rightarrow> (Inl SUN_NULL, m1)
           | Some g_options \<Rightarrow>
               (case parse_mapent_from buf q g_options m1 of
                  (Inl e, m2) \<Rightarrow> (Inl e, m2)
                | (Inr None, m2) \<Rightarrow> (Inr (False, mc, offsets), m2)
                | (Inr (Some (r, myoptions, loc)), m2) \<Rightarrow>
                    (case update_offset_entry hosts mc offsets name m_root m_offset myoptions loc age of
                       Inl e \<Rightarrow> (Inl e, m2)
                     | Inr (status, mc1, offsets1) \<Rightarrow>
                         if status \<noteq> CHE_OK then (Inr (False, mc1, offsets1), m2)
                         else if no_offset (skipspace r) then (Inr (True, mc1, offsets1), m2)
                         else if \<not> length (skipspace r) < length p then (Inl SUN_HANG, m2)
                         else offsets_loop hosts age name m_root buf options (skipspace r) mc1 offsets1 m2))))"
  by pat_completeness auto
termination by (relation "measure (\<lambda>(hosts, age, name, m_root, buf, options, p, mc, offsets, m). length p)") auto

declare offsets_loop.simps [simp del]


text \<open>The offsets are added to the tree at \<open>root\<close> in the order of the list.\<close>

fun add_offsets :: "addr \<Rightarrow> (addr \<times> nat) list \<Rightarrow> mapent tree \<Rightarrow> mapent_cache \<Rightarrow> sun_fault + mapent tree \<times> mapent_cache" where
  "add_offsets root [] tree mc = Inr (tree, mc)"
| "add_offsets root ((a, _) # offsets) tree mc =
     (case deref mc a of
        [] \<Rightarrow> Inl SUN_FREED
      | oe # _ \<Rightarrow>
          (case tree_mapent_add_node mc root tree oe of
             None \<Rightarrow> Inl SUN_OVERREAD
           | Some (tree1, mc1) \<Rightarrow> add_offsets root offsets tree1 mc1))"

type_synonym trees = "addr \<Rightarrow> mapent tree"

definition failed_multi :: "trees \<Rightarrow> (addr \<times> nat) list \<Rightarrow> mapent_cache \<Rightarrow> sun_fault + sun_request \<times> mapent_cache \<times> trees" where
  "failed_multi trees offsets mc =
     (case cleanup_offset_entries offsets mc of Inl e \<Rightarrow> Inl e | Inr mc1 \<Rightarrow> Inr (SUN_RETURN 1, mc1, trees))"

text \<open>The second half of a multi-mount: the tree is built and the subtree mounted.\<close>

definition build_tree ::
  "string \<Rightarrow> string option \<Rightarrow> trees \<Rightarrow> (addr \<times> nat) list \<Rightarrow> mapent_cache \<Rightarrow> sun_fault + sun_request \<times> mapent_cache \<times> trees" where
  "build_tree name options trees offsets mc =
     (case cache_lookup_distinct mc (Some name) of
        [] \<Rightarrow> failed_multi trees offsets mc
      | me # _ \<Rightarrow>
          (case me_mm_root me of
             None \<Rightarrow> Inl SUN_NULL
           | Some root \<Rightarrow>
               (case add_offsets root offsets (trees root) mc of
                  Inl e \<Rightarrow> Inl e
                | Inr (tree, mc1) \<Rightarrow> Inr (SUN_SUBTREE None options, mc1, trees(root := tree)))))"

definition parse_multi ::
  "sun_env \<Rightarrow> string \<Rightarrow> string \<Rightarrow> string option \<Rightarrow> string \<Rightarrow> trees \<Rightarrow> mapent_cache \<Rightarrow> mem
     \<Rightarrow> (sun_fault + sun_request \<times> mapent_cache \<times> trees) \<times> mem" where
  "parse_multi env name pmapent options p trees mc m =
     (case mount_fullpath SUN_PATH_MAX (se_path env) name of
        None \<Rightarrow> (Inl SUN_OVERREAD, m)
      | Some None \<Rightarrow> (Inr (SUN_RETURN 1, mc, trees), m)
      | Some (Some m_root) \<Rightarrow>
          (case cache_lookup_distinct mc (Some name) of
             [] \<Rightarrow> (Inr (SUN_RETURN 1, mc, trees), m)
           | me # _ \<Rightarrow>
               if IS_MM me \<and> se_amd env then (Inr (SUN_RETURN 0, mc, trees), m)
               else
                 (let (mc1, trees1) =
                    (if IS_MM me then (mc, trees)
                     else (upd_entry (me_id me) (\<lambda>e. e\<lparr>me_mm_root := Some (me_id me)\<rparr>) mc, trees(me_id me := tree_root me)))
                  in case offsets_loop (se_hosts env) (me_age me) name m_root pmapent options p mc1 [] m of
                       (Inl e, m1) \<Rightarrow> (Inl e, m1)
                     | (Inr (ok, mc2, offsets), m1) \<Rightarrow>
                         ((if ok then build_tree name options trees1 offsets mc2 else failed_multi trees1 offsets mc2), m1))))"

text \<open>The locations of a plain entry; \<open>Inr None\<close> for an error.\<close>

function plain_locations :: "string \<Rightarrow> string \<Rightarrow> string \<Rightarrow> mem \<Rightarrow> (sun_fault + string option) \<times> mem" where
  "plain_locations buf p loc m =
     (if p = [] then (Inr (Some loc), m)
      else
        (case chunklen p (check_colon p) of
           None \<Rightarrow> (Inl SUN_OVERREAD, m)
         | Some l \<Rightarrow>
             if l = 0 then (Inl SUN_HANG, m)
             else
               (case dequote_from (before_of buf p) p l m of
                  (Inl e, m1) \<Rightarrow> (Inl e, m1)
                | (Inr None, m1) \<Rightarrow> (Inr None, m1)
                | (Inr (Some ent), m1) \<Rightarrow>
                    if \<not> validate_location ent then (Inr None, m1)
                    else
                      (case malloc m1 of
                         (False, m2) \<Rightarrow> (Inr None, m2)
                       | (True, m2) \<Rightarrow> plain_locations buf (skipspace (drop l p)) (loc @ '' '' @ ent) m2))))"
  by pat_completeness auto
termination
proof -
  have less: "length (skipspace (drop l p)) < length p" if "p \<noteq> []" "l \<noteq> 0" for l and p :: string
    using that skipspace_length [of "drop l p"] by (cases p) auto
  show ?thesis by (relation "measure (\<lambda>(buf, p, loc, m). length p)") (use less in auto)
qed

declare plain_locations.simps [simp del]

definition plain_location :: "string \<Rightarrow> string \<Rightarrow> mem \<Rightarrow> (sun_fault + string option) \<times> mem" where
  "plain_location buf p m =
     (case chunklen p (check_colon p) of
        None \<Rightarrow> (Inl SUN_OVERREAD, m)
      | Some l \<Rightarrow>
          (case dequote_from (before_of buf p) p l m of
             (Inl e, m1) \<Rightarrow> (Inl e, m1)
           | (Inr None, m1) \<Rightarrow> (Inr None, m1)
           | (Inr (Some loc), m1) \<Rightarrow>
               if cstr_hd p = CHR ''/'' \<or> \<not> validate_location loc then (Inr None, m1)
               else plain_locations buf (skipspace (drop l p)) loc m1))"

text \<open>Normal entries and offsets that are mounted on their own.\<close>

definition parse_plain ::
  "sun_env \<Rightarrow> parse_context \<Rightarrow> mapent_cache \<Rightarrow> string \<Rightarrow> string \<Rightarrow> string option \<Rightarrow> string \<Rightarrow> mem \<Rightarrow> (sun_fault + sun_request) \<times> mem" where
  "parse_plain env ctxt mc name pmapent options p m =
     (if cstr_hd name = CHR ''/'' \<and> (case cache_lookup_distinct mc (Some name) of [] \<Rightarrow> False | me # _ \<Rightarrow> IS_MM me) then
        (case malloc m of (ok, m1) \<Rightarrow> (Inr (if ok then SUN_SUBTREE (Some p) options else SUN_RETURN 1), m1))
      else
        (case plain_location pmapent p m of
           (Inl e, m1) \<Rightarrow> (Inl e, m1)
         | (Inr None, m1) \<Rightarrow> (Inr (SUN_RETURN 1), m1)
         | (Inr (Some loc), m1) \<Rightarrow>
             (case options of
                None \<Rightarrow> (Inl SUN_NULL, m1)
              | Some os1 \<Rightarrow>
                  if \<not> hosts_submount os1 \<and> loc = [] then (Inr (SUN_RETURN 1), m1)
                  else
                    (case sun_mount (se_weight_only env) (se_hosts env) (pc_macros ctxt)
                            (if hosts_submount os1 then [] else loc) os1 m1 of
                       (Inl e, m2) \<Rightarrow> (Inl e, m2)
                     | (Inr None, m2) \<Rightarrow> (Inr (SUN_RETURN 1), m2)
                     | (Inr (Some call), m2) \<Rightarrow>
                         (Inr (SUN_CALL (if se_path env = ''/-'' then name else se_path env) call), m2)))))"

text \<open>\<open>parse_mount\<close>: the request, the cache, the trees and the context; \<open>mapent\<close> may be \<open>NULL\<close>.\<close>

definition parse_mount ::
  "sun_env \<Rightarrow> string \<Rightarrow> string option \<Rightarrow> parse_context \<Rightarrow> trees \<Rightarrow> mapent_cache \<Rightarrow> mem
     \<Rightarrow> (sun_fault + sun_request \<times> mapent_cache \<times> trees) \<times> parse_context \<times> mem" where
  "parse_mount env name mapent ctxt trees mc m =
     (case mapent of
        None \<Rightarrow> (Inr (SUN_RETURN 1, mc, trees), ctxt, m)
      | Some ent \<Rightarrow>
          (case expand_entry env mc name ent ctxt m of
             (Inl e, ctxt1, m1) \<Rightarrow> (Inl e, ctxt1, m1)
           | (Inr None, ctxt1, m1) \<Rightarrow> (Inr (SUN_RETURN 1, mc, trees), ctxt1, m1)
           | (Inr (Some pmapent), ctxt1, m1) \<Rightarrow>
               (case gather_options (se_append env) (pc_optstr ctxt1) pmapent m1 of
                  (Inl e, m2) \<Rightarrow> (Inl e, ctxt1, m2)
                | (Inr None, m2) \<Rightarrow> (Inr (SUN_RETURN 1, mc, trees), ctxt1, m2)
                | (Inr (Some (options, p)), m2) \<Rightarrow>
                    (case check_is_multi (Some p) of
                       Inl e \<Rightarrow> (Inl e, ctxt1, m2)
                     | Inr True \<Rightarrow>
                         (case parse_multi env name pmapent options p trees mc m2 of (res, m3) \<Rightarrow> (res, ctxt1, m3))
                     | Inr False \<Rightarrow>
                         (case parse_plain env ctxt1 mc name pmapent options p m2 of
                            (Inl e, m3) \<Rightarrow> (Inl e, ctxt1, m3)
                          | (Inr req, m3) \<Rightarrow> (Inr (req, mc, trees), ctxt1, m3))))))"

end
