(* ===== verification/Parse_Mount_Props.thy ===== *)
theory Parse_Mount_Props
  imports Parse_Mount
begin

text \<open>
  Properties of \<open>parse_mount\<close>: it keeps the invariant of the cache, it turns a plain entry into the
  right call of a mount module, and the inputs on which it fails.
\<close>

section \<open>The cache stays well-formed\<close>

lemma update_offset_entry_ok:
  assumes "cache_ok mc" "update_offset_entry hosts mc offsets name m_root m_offset myoptions loc age = Inr (ret, mc', offsets')"
  shows "cache_ok mc'"
  using assms cache_update_offset_ok [OF assms(1)]
  by (auto simp: update_offset_entry_def split: if_splits option.splits)

lemma cleanup_offset_entries_ok: "cache_ok mc \<Longrightarrow> cleanup_offset_entries offsets mc = Inr mc' \<Longrightarrow> cache_ok mc'"
  by (induction offsets mc rule: cleanup_offset_entries.induct)
     (auto split: list.splits if_splits intro: cache_delete_ok)

lemma offsets_loop_ok:
  "cache_ok mc \<Longrightarrow> offsets_loop hosts age name m_root buf options p mc offsets m = (Inr (ok, mc', offsets'), m') \<Longrightarrow> cache_ok mc'"
proof (induction hosts age name m_root buf options p mc offsets m arbitrary: ok mc' offsets' m' rule: offsets_loop.induct)
  case (1 hosts age name m_root buf options p mc offsets m)
  show ?case
    using 1(2,3) unfolding offsets_loop.simps [of hosts age name m_root buf options p]
    by (auto split: prod.splits sum.splits option.splits if_splits
        intro: 1(2) update_offset_entry_ok [OF 1(2)] 1(1) [OF _ _ _ _ _ _ _ _ _ _ _ _ _ _ _ _ update_offset_entry_ok [OF 1(2)]])
qed

lemma tree_add_ok: "cache_ok mc \<Longrightarrow> tree_mapent_add_node mc root tree me = Some (tree', mc') \<Longrightarrow> cache_ok mc'"
  by (auto simp: tree_mapent_add_node_def Let_def split: option.splits intro!: upd_entry_ok simp: same_identity_def)

lemma add_offsets_ok: "cache_ok mc \<Longrightarrow> add_offsets root offsets tree mc = Inr (tree', mc') \<Longrightarrow> cache_ok mc'"
proof (induction offsets arbitrary: tree mc)
  case (Cons o1 offsets)
  from Cons.prems show ?case
    by (cases o1) (auto split: list.splits option.splits intro: Cons.IH [OF tree_add_ok])
qed simp

lemma failed_multi_ok: "cache_ok mc \<Longrightarrow> failed_multi trees offsets mc = Inr (req, mc', trees') \<Longrightarrow> cache_ok mc'"
  by (auto simp: failed_multi_def split: sum.splits intro: cleanup_offset_entries_ok)

lemma build_tree_ok: "cache_ok mc \<Longrightarrow> build_tree name options trees offsets mc = Inr (req, mc', trees') \<Longrightarrow> cache_ok mc'"
  by (auto simp: build_tree_def split: list.splits option.splits sum.splits intro: failed_multi_ok add_offsets_ok)


lemma parse_multi_ok:
  assumes ok: "cache_ok mc" and run: "parse_multi env name pmapent options p trees mc m = (Inr (req, mc', trees'), m')"
  shows "cache_ok mc'"
proof -
  have set: "cache_ok (upd_entry a (\<lambda>e. e\<lparr>me_mm_root := Some a\<rparr>) mc)" for a
    by (rule upd_entry_ok [OF ok]) (simp add: same_identity_def)
  show ?thesis using ok run
    by (auto simp: parse_multi_def Let_def split: option.splits list.splits if_splits prod.splits sum.splits
        dest!: offsets_loop_ok [OF ok] offsets_loop_ok [OF set] intro: build_tree_ok failed_multi_ok)
qed



section \<open>A plain entry\<close>

lemma macro_addvar_ample: "mem_ample m \<Longrightarrow> mem_ample (snd (macro_addvar t s n v m))"
  by (auto simp: macro_addvar_def Let_def case_prod_unfold)

lemma addstdenv_ample: "mem_ample (snd st) \<Longrightarrow> mem_ample (snd (addstdenv sys tsv prefix st))"
proof -
  have add: "mem_ample (snd u) \<Longrightarrow> mem_ample (snd (do_macro_addvar prefix n v u))" for n v u
    by (auto simp: do_macro_addvar_def macro_addvar_ample split: option.split)
  show "mem_ample (snd st) \<Longrightarrow> mem_ample (snd (addstdenv sys tsv prefix st))"
    by (auto simp: addstdenv_def Let_def case_prod_unfold add split: option.split)
qed

lemma expandsun_text_any:
  assumes "\<forall>c \<in> set s. c \<noteq> CHR ''&'' \<and> c \<noteq> CHR ''$'' \<and> c \<noteq> BSLASH \<and> c \<noteq> DQUOTE" and "CHR '':'' \<notin> set s"
  shows "\<exists>sc'. snd (expandsun_loop sys svc key sl sc (s @ r)) = s @ snd (expandsun_loop sys svc key sl sc' r) \<and> (sc' \<longrightarrow> sc)"
  using assms
proof (induction s arbitrary: sc)
  case (Cons c s)
  have step: "\<exists>sc1. snd (expandsun_loop sys svc key sl sc (c # s @ r)) = c # snd (expandsun_loop sys svc key sl sc1 (s @ r)) \<and> (sc1 \<longrightarrow> sc)"
    using Cons.prems by auto
  with Cons show ?case by (metis append_Cons list.set_intros(2))
qed auto

text \<open>The entry \<open>-opts h:/p&\<close> is expanded in the same way with and without slashified colons.\<close>

lemma entry_expanded:
  assumes o1: "\<forall>c \<in> set os1. c \<noteq> CHR ''&'' \<and> c \<noteq> CHR ''$'' \<and> c \<noteq> BSLASH \<and> c \<noteq> DQUOTE \<and> c \<noteq> CHR '':''"
    and h: "\<forall>c \<in> set h. c \<noteq> CHR ''&'' \<and> c \<noteq> CHR ''$'' \<and> c \<noteq> BSLASH \<and> c \<noteq> DQUOTE \<and> c \<noteq> CHR '':''"
    and p: "\<forall>c \<in> set p. c \<noteq> CHR ''&'' \<and> c \<noteq> CHR ''$'' \<and> c \<noteq> BSLASH \<and> c \<noteq> DQUOTE \<and> c \<noteq> CHR '':''"
  shows "snd (expandsunent sys svc k sl (''-'' @ os1 @ '' '' @ h @ '':/'' @ p @ ''&'')) = ''-'' @ os1 @ '' '' @ h @ '':/'' @ p @ escape_key k"
proof -
  let ?s = "''-'' @ os1 @ '' '' @ h" and ?r = "''/'' @ p @ ''&''"
  have s: "\<forall>c \<in> set ?s. c \<noteq> CHR ''&'' \<and> c \<noteq> CHR ''$'' \<and> c \<noteq> BSLASH \<and> c \<noteq> DQUOTE" "CHR '':'' \<notin> set ?s"
    using o1 h by (auto simp: char_consts)
  have r: "\<forall>c \<in> set (''/'' @ p). c \<noteq> CHR ''&'' \<and> c \<noteq> CHR ''$'' \<and> c \<noteq> BSLASH \<and> c \<noteq> DQUOTE" "CHR '':'' \<notin> set (''/'' @ p)"
    using p by (auto simp: char_consts)
  have rest: "snd (expandsun_loop sys svc k sl sc ((''/'' @ p) @ ''&'')) = (''/'' @ p) @ escape_key k" for sc
    using expandsun_text_any [OF r, of sys svc k sl sc "''&''"] by auto
  have colon: "snd (expandsun_loop sys svc k sl False ('':'' @ ?r)) = '':'' @ snd (expandsun_loop sys svc k sl True ?r)"
    by (simp add: char_consts)
  obtain sc where sc: "snd (expandsun_loop sys svc k sl False (?s @ '':'' @ ?r)) = ?s @ snd (expandsun_loop sys svc k sl sc ('':'' @ ?r))" "sc \<longrightarrow> False"
    using expandsun_text_any [OF s, of sys svc k sl False "'':'' @ ?r"] by blast
  then have "sc = False" by blast
  have whole: "''-'' @ os1 @ '' '' @ h @ '':/'' @ p @ ''&'' = ?s @ '':'' @ ?r" by simp
  have tail: "snd (expandsun_loop sys svc k sl True ?r) = ''/'' @ p @ escape_key k" using rest [of True] by (simp only: append_assoc)
  show ?thesis unfolding expandsunent_def whole sc(1) \<open>sc = False\<close> colon tail by (simp only: append_assoc append.simps)
qed

lemma expand_plain:
  assumes "mem_ample m" "k \<noteq> []" "hd k \<noteq> CHR ''/''" and out: "\<And>svc. snd (expandsunent (se_sys env) svc k (pc_slashify_colons ctxt) src) = ent" "ent \<noteq> []"
  obtains ctxt1 m1 where "expand_entry env mc k src ctxt m = (Inr (Some ent), ctxt1, m1)" "mem_ample m1"
    "pc_optstr ctxt1 = pc_optstr ctxt" "pc_macros ctxt1 = pc_macros ctxt"
proof -
  obtain t m0 where add: "addstdenv (se_sys env) (se_tsv env) None (pc_subst ctxt, m) = (t, m0)" "mem_ample m0"
    using addstdenv_ample [of "(pc_subst ctxt, m)"] assms(1) by (metis prod.collapse snd_conv)
  obtain m1 where m1: "malloc m0 = (True, m1)" "mem_ample m1" using add(2) by (rule mem_ampleE)
  have len: "fst (expandsunent (se_sys env) t k (pc_slashify_colons ctxt) src) = length ent"
    using expandsun_loop_len [of "se_sys env" t k "pc_slashify_colons ctxt" False src] out(1) [of t] by (simp add: expandsunent_def)
  have "\<not> known_offset mc k" using assms(2,3) by (cases k) (auto simp: known_offset_def)
  then have "expand_entry env mc k src ctxt m = (Inr (Some ent), ctxt\<lparr>pc_subst := removestdenv None t\<rparr>, m1)"
    using add(1) m1(1) len out by (simp add: expand_entry_def do_expandsunent_def Let_def)
  then show thesis using that m1(2) by simp
qed


lemma merge_new_options:
  assumes "mem_ample m" "os1 \<noteq> []"
  obtains m' where "merge_mnt_options (Some g) (Some os1) m = (Some (Some (if strstr os1 g = None then g @ '','' @ os1 else os1)), m')" "mem_ample m'"
proof (cases "strstr os1 g = None")
  case True
  obtain m' where "malloc m = (True, m')" "mem_ample m'" using assms(1) by (rule mem_ampleE)
  moreover have "g \<noteq> []" using True by auto
  ultimately show thesis using True assms(2) that [of m'] by (simp add: merge_mnt_options_def concat_options_def empty_opt_def)
qed (use assms(1) that in \<open>simp add: merge_mnt_options_def\<close>)

lemma host_start:
  assumes "host_name h"
  obtains c h' where "h = c # h'" "c \<noteq> CHR ''-''" "c \<noteq> CHR ''/''" "c \<noteq> DQUOTE" "skipspace (h @ r) = h @ r"
proof -
  obtain c h' where h: "h = c # h'" using assms by (cases h) (auto simp: host_name_def)
  have c: "word_char c" "c \<noteq> CHR ''#''" "c \<noteq> CHR ''-''" "c \<noteq> CHR ''/''"
    using assms isalnum_word [of c] unfolding h host_name_def by auto
  then have "c \<noteq> DQUOTE" "c \<noteq> BS" using word_char_simps by auto
  then show thesis using that [OF h c(3,4)] skipspace_word [OF word_char_not_space [OF c(1)] _ c(2)] by (simp add: h)
qed

lemma gather_plain:
  assumes "mem_ample m" "os1 \<noteq> []" "\<forall>c \<in> set os1. word_char c" "host_name h"
    and g: "g = (case optstr of None \<Rightarrow> [] | Some s \<Rightarrow> s)"
  obtains m' where "gather_options append_options optstr (''-'' @ os1 @ '' '' @ h @ r) m =
      (Inr (Some (Some (if append_options \<and> strstr os1 g = None then g @ '','' @ os1 else os1), h @ r)), m')" "mem_ample m'"
proof -
  let ?ent = "''-'' @ os1 @ '' '' @ h @ r" and ?rest = "CHR '' '' # h @ r"
  obtain m1 where m1: "malloc m = (True, m1)" "mem_ample m1" using assms(1) by (rule mem_ampleE)
  have lst: "\<not> isspace (last os1)" using assms(2,3) word_char_not_space last_in_set by blast
  have loop: "dequote_loop os1 False False = (os1, False)" using dequote_loop_word [OF assms(3), of "[]"] by simp
  obtain m2 where m2: "dequote_from (before_of ?ent ?ent @ ''-'') (os1 @ ?rest) (length os1) m1 = (Inr (Some os1), m2)" "mem_ample m2"
    using dequote_from_prefix [OF m1(2) assms(2) _ loop] lst by blast
  have po: "parse_options (before_of ?ent ?ent) ?ent None m1 = (Inr (?rest, Some os1), m2)"
    using chunk_options [OF assms(3), of "h @ r"] m2(1) by (simp add: parse_options_def)
  obtain m3 where m3: "malloc m2 = (True, m3)" "mem_ample m3" using m2(2) by (rule mem_ampleE)
  have mo: "merge_mnt_options None (Some os1) m2 = (Some (Some os1), m3)"
    using m3(1) assms(2) by (simp add: merge_mnt_options_def concat_options_def empty_opt_def)
  obtain c h' where h: "h = c # h'" "c \<noteq> CHR ''-''" "skipspace (h @ r) = h @ r" using host_start [OF assms(4)] by metis
  then have sk: "skipspace ?rest = h @ r" by simp
  have fin: "mnt_options_loop ?ent (h @ r) (Some os1) m3 = (Inr (Some (Some os1, h @ r)), m3)"
    using h by (simp add: mnt_options_loop.simps)
  have ol: "mnt_options_loop ?ent ?ent None m1 = (Inr (Some (Some os1, h @ r)), m3)"
    using mnt_options_loop.simps [of ?ent ?ent None m1] po mo sk fin by simp
  have start: "skipspace ?ent = ?ent" using skipspace_word [of "CHR ''-''"] by (simp add: isspace_char char_consts)
  obtain m4 where m4: "merge_mnt_options (Some g) (Some os1) m3 = (Some (Some (if strstr os1 g = None then g @ '','' @ os1 else os1)), m4)" "mem_ample m4"
    using merge_new_options [OF m3(2) assms(2)] by blast
  have eq: "gather_options append_options optstr ?ent m =
    (if append_options then (Inr (Some (Some (if strstr os1 g = None then g @ '','' @ os1 else os1), h @ r)), m4)
     else (Inr (Some (Some os1, h @ r)), m3))"
    unfolding gather_options_def Let_def start m1(1) prod.case bool.case ol g [symmetric] using m4(1) by simp
  show thesis
    by (rule that [of "if append_options then m4 else m3"]) (use eq m3(2) m4(2) in simp_all)
qed

lemma plain_not_multi:
  assumes "host_name h" "\<forall>c \<in> set p. word_char c" "\<forall>c \<in> set k. key_char c"
  shows "check_is_multi (Some (h @ '':/'' @ p @ escape_key k)) = Inr False"
proof -
  let ?s = "h @ '':/'' @ p @ escape_key k"
  obtain c h' where h: "h = c # h'" "c \<noteq> CHR ''-''" "c \<noteq> CHR ''/''" "c \<noteq> DQUOTE" "skipspace ?s = ?s"
    using host_start [OF assms(1)] by metis
  have chunk: "chunklen ?s (check_colon ?s) = Some (length ?s)"
    using location_dequoted [OF mem_ample_Nil assms] by metis
  have "multi_loop False ?s = Inr False"
    using multi_loop.simps [of False ?s] h(5) chunk skip_options.simps [of ?s] multi_loop.simps [of True "[]"] h(1,2) by (simp add: Let_def)
  then show ?thesis using h(1,3,4) by (simp add: check_is_multi_def)
qed

lemma plain_location_once:
  assumes "mem_ample m" "host_name h" "\<forall>c \<in> set p. word_char c" "\<forall>c \<in> set k. key_char c"
  obtains m' where "plain_location buf (h @ '':/'' @ p @ escape_key k) m = (Inr (Some (h @ '':/'' @ p @ k)), m')" "mem_ample m'"
proof -
  let ?s = "h @ '':/'' @ p @ escape_key k"
  obtain c h' where h: "h = c # h'" "c \<noteq> CHR ''/''" using host_start [OF assms(2)] by metis
  obtain m' where "dequote_from (before_of buf ?s) ?s (length ?s) m = (Inr (Some (h @ '':/'' @ p @ k)), m')" "mem_ample m'"
    "chunklen ?s (check_colon ?s) = Some (length ?s)"
    using location_dequoted [OF assms] by metis
  then show thesis
    using that [of m'] h validate_host [OF assms(2), of "p @ k"]
    by (simp add: plain_location_def plain_locations.simps [of buf "[]"])
qed


lemma commas_append: "gs \<noteq> [] \<Longrightarrow> ts \<noteq> [] \<Longrightarrow> commas (gs @ ts) = commas gs @ '','' @ commas ts"
proof (induction gs rule: commas.induct)
  case (2 t)
  then show ?case by (cases ts) simp_all
qed simp_all

text \<open>The options that apply to an entry with the options \<open>ts\<close> of a map with the options \<open>gs\<close>.\<close>

definition entry_options :: "bool \<Rightarrow> string list \<Rightarrow> string list \<Rightarrow> string list" where
  "entry_options append_options gs ts =
     (if append_options \<and> strstr (commas ts) (commas gs) = None then gs @ ts else ts)"

lemma entry_options_commas:
  assumes "ts \<noteq> []"
  shows "(if append_options \<and> strstr (commas ts) (commas gs) = None then commas gs @ '','' @ commas ts else commas ts) =
    commas (entry_options append_options gs ts)"
proof (cases "append_options \<and> strstr (commas ts) (commas gs) = None")
  case True
  then have "gs \<noteq> []" by auto
  then show ?thesis using True commas_append [OF _ assms] by (simp add: entry_options_def)
next
  case False
  show ?thesis unfolding entry_options_def if_not_P [OF False] ..
qed

abbreviation plain_char :: "char \<Rightarrow> bool" where
  "plain_char c \<equiv> word_char c \<and> c \<noteq> CHR ''&'' \<and> c \<noteq> CHR ''$'' \<and> c \<noteq> CHR '':''"

definition nfs_call :: "string list \<Rightarrow> string \<Rightarrow> mount_call" where
  "nfs_call us loc =
     (let nfs = last_fstype us \<in> {''nfs'', ''nfs4''}
      in \<lparr>mc_nfs = nfs, mc_what = Some loc, mc_fstype = last_fstype us, mc_options = Some (commas (others us)), mc_nonstrict = True\<rparr>)"

lemma plain_entry_run:
  assumes mem: "mem_ample m" and ts: "ts \<noteq> []" "\<forall>t \<in> set gs \<union> set ts. option_ok t" "\<forall>c \<in> set (commas ts). plain_char c"
    and h: "host_name h" and p: "\<forall>c \<in> set p. plain_char c" and k: "\<forall>c \<in> set k. key_char c" "k \<noteq> []" "hd k \<noteq> CHR ''/''"
    and env: "\<not> se_weight_only env" "\<not> se_hosts env" "pc_macros ctxt = None" "pc_optstr ctxt = (if gs = [] then None else Some (commas gs))"
    and us: "us = entry_options (se_append env) gs ts" "\<not> hosts_submount (commas us)"
  shows "fst (parse_mount env k (Some (''-'' @ commas ts @ '' '' @ h @ '':/'' @ p @ ''&'')) ctxt trees mc m) =
    Inr (SUN_CALL (if se_path env = ''/-'' then k else se_path env) (nfs_call us (h @ '':/'' @ p @ k)), mc, trees)"
proof -
  let ?src = "''-'' @ commas ts @ '' '' @ h @ '':/'' @ p @ ''&''" and ?loc = "h @ '':/'' @ p @ escape_key k"
  let ?ent = "''-'' @ commas ts @ '' '' @ ?loc"
  have clean: "\<forall>c \<in> set s. c \<noteq> CHR ''&'' \<and> c \<noteq> CHR ''$'' \<and> c \<noteq> BSLASH \<and> c \<noteq> DQUOTE \<and> c \<noteq> CHR '':''"
    if "\<forall>c \<in> set s. plain_char c" for s
    using that word_char_simps by blast
  have hw: "\<forall>c \<in> set h. word_char c \<and> c \<noteq> CHR ''&'' \<and> c \<noteq> CHR ''$'' \<and> c \<noteq> CHR '':''"
    using h isalnum_word unfolding host_name_def by blast
  have words: "\<forall>c \<in> set p. word_char c" "\<forall>c \<in> set (commas ts). word_char c" using p ts(3) by auto
  have out: "snd (expandsunent sys svc k sl ?src) = ?ent" for sys svc sl
    by (rule entry_expanded [OF clean [OF ts(3)] clean [OF hw] clean [OF p]])
  obtain ctxt1 m1 where ex: "expand_entry env mc k ?src ctxt m = (Inr (Some ?ent), ctxt1, m1)" "mem_ample m1"
    "pc_optstr ctxt1 = pc_optstr ctxt" "pc_macros ctxt1 = pc_macros ctxt"
    using expand_plain [OF mem k(2,3) out] by blast
  have ne: "commas ts \<noteq> []" using option_ok_commas [of ts] ts(1,2) by auto
  have g: "commas gs = (case pc_optstr ctxt1 of None \<Rightarrow> [] | Some s \<Rightarrow> s)" using env(4) ex(3) by simp
  obtain m2 where ga: "gather_options (se_append env) (pc_optstr ctxt1) ?ent m1 = (Inr (Some (Some (commas us), ?loc)), m2)" "mem_ample m2"
    using gather_plain [OF ex(2) ne words(2) h g, of "se_append env" "'':/'' @ p @ escape_key k"] entry_options_commas [OF ts(1), of "se_append env" gs]
    unfolding us(1) by auto
  have multi: "check_is_multi (Some ?loc) = Inr False" by (rule plain_not_multi [OF h words(1) k(1)])
  obtain m3 where lo: "plain_location ?ent ?loc m2 = (Inr (Some (h @ '':/'' @ p @ k)), m3)" "mem_ample m3"
    using plain_location_once [OF ga(2) h words(1) k(1)] by blast
  obtain m4 where m4: "malloc m3 = (True, m4)" using lo(2) by (rule mem_ampleE)
  have uk: "\<forall>t \<in> set us. option_ok t" "us \<noteq> []" using ts(1,2) by (auto simp: us(1) entry_options_def)
  have loc: "h @ '':/'' @ p @ k \<noteq> []" "hd (h @ '':/'' @ p @ k) \<noteq> CHR '':''" using h hw by (cases h; auto simp: host_name_def)+
  have call: "sun_mount False False None (h @ '':/'' @ p @ k) (commas us) m3 = (Inr (Some (nfs_call us (h @ '':/'' @ p @ k))), m4)"
    unfolding sun_mount_call [OF uk(1) m4] nfs_call_def Let_def using loc uk(2) by simp
  have name: "cstr_hd k \<noteq> CHR ''/''" using k(2,3) by (cases k) auto
  have plain: "parse_plain env ctxt1 mc k ?ent (Some (commas us)) ?loc m2 =
    (Inr (SUN_CALL (if se_path env = ''/-'' then k else se_path env) (nfs_call us (h @ '':/'' @ p @ k))), m4)"
    using name lo(1) us(2) loc(1) env(1-3) ex(4) call by (simp add: parse_plain_def)
  show ?thesis unfolding parse_mount_def option.case ex(1) prod.case sum.case ga(1) multi bool.case plain by simp
qed

text \<open>
  C19: from the map entry to the mount module: an entry with options, a host and a path ending in
  the key \<open>&\<close>, looked up for an indirect key that may hold white space, ends in one call of a mount
  module, with the key as it was requested at the end of the location, the last file system type
  named, and the entry's options, behind those of the map when options are appended and the
  entry does not repeat them. Cache and offset trees stay as they were.
\<close>

theorem plain_entry_mounted:
  assumes "mem_ample m" and "ts \<noteq> []" "\<forall>t \<in> set gs \<union> set ts. option_ok t" "\<forall>c \<in> set (commas ts). plain_char c"
    and "host_name h" and "\<forall>c \<in> set p. plain_char c" and "\<forall>c \<in> set k. key_char c" "k \<noteq> []" "hd k \<noteq> CHR ''/''"
    and "\<not> se_weight_only env" "\<not> se_hosts env" "pc_macros ctxt = None" "pc_optstr ctxt = (if gs = [] then None else Some (commas gs))"
    and "us = entry_options (se_append env) gs ts" "\<not> hosts_submount (commas us)"
  shows "fst (parse_mount env k (Some (''-'' @ commas ts @ '' '' @ h @ '':/'' @ p @ ''&'')) ctxt trees mc m) =
    Inr (SUN_CALL (if se_path env = ''/-'' then k else se_path env) (nfs_call us (h @ '':/'' @ p @ k)), mc, trees)"
  using assms by (rule plain_entry_run)

definition sample_env :: sun_env where
  "sample_env = \<lparr>se_path = ''/home'', se_hosts = False, se_amd = False, se_append = True, se_weight_only = False,
                 se_sys = [], se_tsv = None\<rparr>"

lemmas sample_entry_simps = word_char_def key_char_def char_consts host_name_def isalnum_def isalpha_def isdigit_def strncmp_eq_def
  option_ok_def pseudo_options_def begins_def entry_options_def hosts_submount_def sample_env_def default_context_def
  nfs_call_def last_fstype_def NUL_def

theorem plain_entry_mounted_witness:
  "fst (parse_mount sample_env ''a b'' (Some ''-ro,fstype=nfs4 srv:/export/&'') (default_context\<lparr>pc_optstr := Some ''soft''\<rparr>) (\<lambda>_. Leaf) (one_chain []) []) =
     Inr (SUN_CALL ''/home'' \<lparr>mc_nfs = True, mc_what = Some ''srv:/export/a b'', mc_fstype = ''nfs4'', mc_options = Some ''soft,ro'', mc_nonstrict = True\<rparr>,
          one_chain [], \<lambda>_. Leaf)"
  using plain_entry_mounted [of "[]" "[''ro'', ''fstype=nfs4'']" "[''soft'']" "''srv''" "''export/''" "''a b''" sample_env
      "default_context\<lparr>pc_optstr := Some ''soft''\<rparr>" "[''soft'', ''ro'', ''fstype=nfs4'']" "\<lambda>_. Leaf" "one_chain []"]
  by (simp add: sample_entry_simps)



section \<open>Empty options\<close>

text \<open>
  C30: when options are not appended, an entry that starts with a lone - has a \<open>NULL\<close> option
  string, which is then searched for the hosts map: the daemon reads through a null pointer.
\<close>

theorem empty_options_crash:
  assumes mem: "mem_ample m" and h: "host_name h" and p: "\<forall>c \<in> set p. plain_char c" and k: "\<forall>c \<in> set k. key_char c" "k \<noteq> []" "hd k \<noteq> CHR ''/''"
    and env: "\<not> se_append env"
  shows "fst (parse_mount env k (Some (''- '' @ h @ '':/'' @ p @ ''&'')) ctxt trees mc m) = Inl SUN_NULL"
proof -
  let ?src = "''- '' @ h @ '':/'' @ p @ ''&''" and ?loc = "h @ '':/'' @ p @ escape_key k"
  let ?ent = "''- '' @ ?loc"
  have clean: "\<forall>c \<in> set s. c \<noteq> CHR ''&'' \<and> c \<noteq> CHR ''$'' \<and> c \<noteq> BSLASH \<and> c \<noteq> DQUOTE \<and> c \<noteq> CHR '':''"
    if "\<forall>c \<in> set s. plain_char c" for s
    using that word_char_simps by blast
  have hw: "\<forall>c \<in> set h. word_char c \<and> c \<noteq> CHR ''&'' \<and> c \<noteq> CHR ''$'' \<and> c \<noteq> CHR '':''"
    using h isalnum_word unfolding host_name_def by blast
  have words: "\<forall>c \<in> set p. word_char c" using p by auto
  have out: "snd (expandsunent sys svc k sl ?src) = ?ent" for sys svc sl
    using entry_expanded [of "[]", OF _ clean [OF hw] clean [OF p]] by simp
  obtain ctxt1 m1 where ex: "expand_entry env mc k ?src ctxt m = (Inr (Some ?ent), ctxt1, m1)" "mem_ample m1"
    using expand_plain [OF mem k(2,3) out] by blast
  obtain m2 where m2: "malloc m1 = (True, m2)" "mem_ample m2" using ex(2) by (rule mem_ampleE)
  obtain m3 where m3: "malloc m2 = (True, m3)" "mem_ample m3" using m2(2) by (rule mem_ampleE)
  obtain c h' where hd: "h = c # h'" "c \<noteq> CHR ''-''" "c \<noteq> CHR ''/''" "skipspace ?loc = ?loc" using host_start [OF h] by metis
  have chunk: "chunklen (CHR '' '' # ?loc) False = Some 0" using chunk_options [of "[]"] by simp
  have deq: "dequote_from (before_of ?ent ?ent @ ''-'') (CHR '' '' # ?loc) 0 m2 = (Inr (Some []), m3)"
    using m3(1) by (simp add: dequote_from_def isspace_char char_consts)
  have po: "parse_options (before_of ?ent ?ent) ?ent None m2 = (Inr (CHR '' '' # ?loc, Some []), m3)"
    using chunk deq by (simp add: parse_options_def)
  have fin: "mnt_options_loop ?ent ?loc None m3 = (Inr (Some (None, ?loc)), m3)" using hd by (simp add: mnt_options_loop.simps)
  have sk: "skipspace (CHR '' '' # ?loc) = ?loc" using hd(4) by simp
  have mo: "merge_mnt_options None (Some []) m3 = (Some None, m3)" by (simp add: merge_mnt_options_def concat_options_def empty_opt_def)
  have loop: "mnt_options_loop ?ent ?ent None m2 = (Inr (Some (None, ?loc)), m3)"
    using mnt_options_loop.simps [of ?ent ?ent None m2] po mo sk fin by simp
  have start: "skipspace ?ent = ?ent" using skipspace_word [of "CHR ''-''"] by (simp add: isspace_char char_consts)
  have ga: "gather_options (se_append env) (pc_optstr ctxt1) ?ent m1 = (Inr (Some (None, ?loc)), m3)"
    unfolding gather_options_def Let_def start m2(1) prod.case bool.case loop using env by simp
  obtain m4 where lo: "plain_location ?ent ?loc m3 = (Inr (Some (h @ '':/'' @ p @ k)), m4)"
    using plain_location_once [OF m3(2) h words k(1)] by blast
  have "cstr_hd k \<noteq> CHR ''/''" using k(2,3) by (cases k) auto
  then have "parse_plain env ctxt1 mc k ?ent None ?loc m3 = (Inl SUN_NULL, m4)" using lo by (simp add: parse_plain_def)
  then show ?thesis
    unfolding parse_mount_def option.case ex(1) prod.case sum.case ga plain_not_multi [OF h words k(1)] bool.case by simp
qed

theorem empty_options_crash_witness:
  "fst (parse_mount (sample_env\<lparr>se_append := False\<rparr>) ''u'' (Some ''- srv:/export/&'') default_context (\<lambda>_. Leaf) (one_chain []) []) = Inl SUN_NULL"
  using empty_options_crash [of "[]" "''srv''" "''export/''" "''u''" "sample_env\<lparr>se_append := False\<rparr>" default_context "\<lambda>_. Leaf" "one_chain []"]
  by (simp add: sample_entry_simps)

end
