(* ===== verification/Base64.thy ===== *)
theory Base64
  imports Prelude
begin

text \<open>
  The base64 coder of the LDAP module, \<^verbatim>\<open>modules/base64.c\<close>. Bytes are characters; the values the code
  computes with fit an \<open>int\<close>.
\<close>

section \<open>Operations\<close>

definition BASE64_CHARS :: string where
  "BASE64_CHARS = ''ABCDEFGHIJKLMNOPQRSTUVWXYZabcdefghijklmnopqrstuvwxyz0123456789+/''"

text \<open>\<open>n\<close> rounds of the loop that writes the result from the back.\<close>

fun encode_digits :: "nat \<Rightarrow> nat \<Rightarrow> string \<Rightarrow> string" where
  "encode_digits 0 v out = out"
| "encode_digits (Suc n) v out = encode_digits n (v div 64) (BASE64_CHARS ! (v mod 64) # out)"

definition base64_encode_triple :: "char \<Rightarrow> char \<Rightarrow> char \<Rightarrow> string" where
  "base64_encode_triple a b c = encode_digits 4 ((of_char a * 256 + of_char b) * 256 + of_char c) []"

fun encode_loop :: "string \<Rightarrow> string" where
  "encode_loop (a # b # c # source) = base64_encode_triple a b c @ encode_loop source"
| "encode_loop [a, b] = take 3 (base64_encode_triple a b NUL) @ ''=''"
| "encode_loop [a] = take 2 (base64_encode_triple a NUL NUL) @ ''==''"
| "encode_loop [] = []"

text \<open>
  \<open>base64_encode\<close> into a buffer of \<open>targetlen\<close> bytes: \<open>Inr None\<close> when the test for the size fails
  (\<open>targetlen - 1\<close> wraps around for 0), \<open>Inl\<close> when more is written than the buffer holds.
\<close>

definition base64_encode :: "string \<Rightarrow> nat \<Rightarrow> unit + string option" where
  "base64_encode source targetlen =
     (if (length source + 2) div 3 * 4 > (if targetlen = 0 then 2 ^ 64 - 1 else targetlen - 1) then Inr None
      else if length (encode_loop source) + 1 > targetlen then Inl ()
      else Inr (Some (encode_loop source)))"

definition char_in :: "char \<Rightarrow> char \<Rightarrow> char \<Rightarrow> bool" where
  "char_in lo hi c \<longleftrightarrow> (of_char lo :: nat) \<le> of_char c \<and> (of_char c :: nat) \<le> of_char hi"

definition base64_char_value :: "char \<Rightarrow> int" where
  "base64_char_value c =
     (if char_in (CHR ''A'') (CHR ''Z'') c then int (of_char c) - 65
      else if char_in (CHR ''a'') (CHR ''z'') c then int (of_char c) - 97 + 26
      else if char_in (CHR ''0'') (CHR ''9'') c then int (of_char c) - 48 + 2 * 26
      else if c = CHR ''+'' then 2 * 26 + 10
      else if c = CHR ''/'' then 2 * 26 + 11
      else - 1)"

text \<open>The check of the four characters, from the last one on: their values and how many bytes they give.\<close>

fun quad_values :: "string \<Rightarrow> bool \<Rightarrow> int list \<Rightarrow> int \<Rightarrow> (int list \<times> int) option" where
  "quad_values [] only_equals_yet vals n = Some (vals, n)"
| "quad_values (c # cs) only_equals_yet vals n =
     (if base64_char_value c < 0 then
        if only_equals_yet \<and> c = CHR ''='' then quad_values cs True (0 # vals) (n - 1) else None
      else quad_values cs False (base64_char_value c # vals) n)"

fun decode_bytes :: "nat \<Rightarrow> nat \<Rightarrow> string \<Rightarrow> string" where
  "decode_bytes 0 v out = out"
| "decode_bytes (Suc n) v out = decode_bytes n (v div 256) (char_of (v mod 256) # out)"

text \<open>\<open>_base64_decode_triple\<close>: the bytes, none on failure.\<close>

definition base64_decode_triple :: "string \<Rightarrow> string" where
  "base64_decode_triple quadruple =
     (case quad_values (rev quadruple) True [] 3 of
        None \<Rightarrow> []
      | Some (vals, n) \<Rightarrow>
          (let bytes = (if n < 0 then 0 else nat n);
               v = foldl (\<lambda>acc x. acc * 64 + nat x) 0 vals
           in decode_bytes bytes (v div 256 ^ (3 - bytes)) []))"

text \<open>The next four characters that count; \<open>None\<close> when the end of the string is passed.\<close>

definition code_char :: "char \<Rightarrow> bool" where
  "code_char c \<longleftrightarrow> c = CHR ''='' \<or> \<not> base64_char_value c < 0"

fun next_chars :: "nat \<Rightarrow> string \<Rightarrow> (string \<times> string) option" where
  "next_chars 0 src = Some ([], src)"
| "next_chars (Suc n) src =
     (case dropWhile (\<lambda>c. \<not> code_char c) src of
        [] \<Rightarrow> None
      | c # rest \<Rightarrow> (case next_chars n rest of None \<Rightarrow> None | Some (cs, r) \<Rightarrow> Some (c # cs, r)))"

lemma next_chars_shorter: "next_chars n src = Some (cs, r) \<Longrightarrow> n > 0 \<Longrightarrow> length r < length src"
proof (induction n arbitrary: src cs)
  case (Suc n)
  obtain c rest where c: "dropWhile (\<lambda>c. \<not> code_char c) src = c # rest"
    using Suc.prems(1) by (auto split: list.splits)
  then have len: "length rest < length src" using length_dropWhile_le [of "\<lambda>c. \<not> code_char c" src] by simp
  obtain ds where "next_chars n rest = Some (ds, r)" using Suc.prems(1) c by (auto split: option.splits)
  then show ?case using Suc.IH [of rest ds] len by (cases n) auto
qed simp

datatype b64_fault = B64_OVERREAD

text \<open>
  The loop of \<open>base64_decode\<close>: \<open>Inr None\<close> when the target buffer is full, otherwise the bytes.
\<close>

function decode_loop :: "string \<Rightarrow> nat \<Rightarrow> b64_fault + string option" where
  "decode_loop src targetlen =
     (case next_chars 4 src of
        None \<Rightarrow> Inl B64_OVERREAD
      | Some (quadruple, rest) \<Rightarrow>
          (let out = base64_decode_triple quadruple
           in if targetlen < length out then Inr None
              else if length out = 3 then
                (case decode_loop rest (targetlen - 3) of
                   Inr (Some bytes) \<Rightarrow> Inr (Some (out @ bytes))
                 | res \<Rightarrow> res)
              else Inr (Some out)))"
  by pat_completeness auto
termination
  by (relation "measure (\<lambda>(src, n). length src)") (auto dest: next_chars_shorter)

declare decode_loop.simps [simp del]

text \<open>\<open>base64_decode\<close>: \<open>Inr None\<close> for the result -1, otherwise the length and the target buffer.\<close>

definition base64_decode :: "string \<Rightarrow> nat \<Rightarrow> mem \<Rightarrow> (b64_fault + (nat \<times> string) option) \<times> mem" where
  "base64_decode source targetlen m =
     (case malloc m of
        (False, m1) \<Rightarrow> (Inr None, m1)
      | (True, m1) \<Rightarrow>
          (case decode_loop (source @ ''===='') targetlen of
             Inl e \<Rightarrow> Inl e
           | Inr None \<Rightarrow> Inr None
           | Inr (Some bytes) \<Rightarrow> Inr (Some (length bytes, bytes @ replicate (targetlen - length bytes) NUL)), m1))"


section \<open>Encoding and decoding\<close>

abbreviation digit :: "nat \<Rightarrow> char" where
  "digit d \<equiv> BASE64_CHARS ! d"

lemma digit_value:
  assumes "d < 64"
  shows "base64_char_value (digit d) = int d"
proof -
  have "\<forall>d \<in> set [0..<64]. base64_char_value (digit d) = int d" by code_simp
  then show ?thesis using assms by simp
qed

lemma digit_code [simp]: "d < 64 \<Longrightarrow> code_char (digit d)"
  by (simp add: code_char_def digit_value)

lemma equals_value [simp]: "base64_char_value (CHR ''='') = - 1" "code_char (CHR ''='')"
  by (simp_all add: base64_char_value_def char_in_def code_char_def)

lemma Suc_numbers: "(4 :: nat) = Suc (Suc (Suc (Suc 0)))" "(3 :: nat) = Suc (Suc (Suc 0))" "(2 :: nat) = Suc (Suc 0)"
  by simp_all

lemma encode_triple_digits:
  "base64_encode_triple a b c =
     (let v = (of_char a * 256 + of_char b) * 256 + of_char c
      in [digit (v div 64 div 64 div 64 mod 64), digit (v div 64 div 64 mod 64), digit (v div 64 mod 64), digit (v mod 64)])"
  unfolding base64_encode_triple_def Suc_numbers encode_digits.simps Let_def ..

lemma quad_full:
  assumes "d0 < 64" "d1 < 64" "d2 < 64" "d3 < 64"
  shows "base64_decode_triple [digit d0, digit d1, digit d2, digit d3] = decode_bytes 3 (((d0 * 64 + d1) * 64 + d2) * 64 + d3) []"
  using assms by (simp add: base64_decode_triple_def digit_value)

lemma quad_two:
  assumes "d0 < 64" "d1 < 64" "d2 < 64"
  shows "base64_decode_triple [digit d0, digit d1, digit d2, CHR ''=''] = decode_bytes 2 (((d0 * 64 + d1) * 64 + d2) * 64 div 256) []"
  using assms by (simp add: base64_decode_triple_def digit_value)

lemma quad_one:
  assumes "d0 < 64" "d1 < 64"
  shows "base64_decode_triple [digit d0, digit d1, CHR ''='', CHR ''=''] = decode_bytes 1 ((d0 * 64 + d1) * 64 * 64 div 256 ^ 2) []"
  using assms by (simp add: base64_decode_triple_def digit_value)

lemma digits_number:
  assumes "v < 16777216"
  shows "((v div 64 div 64 div 64 mod 64 * 64 + v div 64 div 64 mod 64) * 64 + v div 64 mod 64) * 64 + v mod 64 = (v :: nat)"
proof -
  have "v div 64 div 64 div 64 < 64" using assms by (simp add: div_mult2_eq [symmetric] less_mult_imp_div_less)
  then show ?thesis by (simp only: mod_less div_mult_mod_eq)
qed

lemma byte_step:
  assumes "y < 256"
  shows "(x * 256 + y) div 256 = (x :: nat)" "(x * 256 + y) mod 256 = y"
  using assms by simp_all

lemma decode_three:
  assumes "a < 256" "b < 256" "c < 256"
  shows "decode_bytes 3 ((a * 256 + b) * 256 + c) [] = [char_of a, char_of b, char_of c]"
  unfolding Suc_numbers decode_bytes.simps byte_step [OF assms(3)] byte_step [OF assms(2)] using assms(1) by (simp only: mod_less)

lemma three_bytes: "a < 256 \<Longrightarrow> b < 256 \<Longrightarrow> c < 256 \<Longrightarrow> (a * 256 + b) * 256 + c < (16777216 :: nat)"
  by simp

lemma triple_roundtrip: "base64_decode_triple (base64_encode_triple a b c) = [a, b, c]"
proof -
  let ?v = "(of_char a * 256 + of_char b) * 256 + of_char c :: nat"
  have v: "?v < 16777216" by (rule three_bytes) simp_all
  have "base64_decode_triple (base64_encode_triple a b c) = decode_bytes 3 ?v []"
    unfolding encode_triple_digits Let_def by (subst quad_full) (simp_all only: digits_number [OF v] mod_less_divisor zero_less_numeral)
  then show ?thesis by (simp only: decode_three [OF nat_of_char_less_256 nat_of_char_less_256 nat_of_char_less_256] char_of_char)
qed


lemma pair_roundtrip: "base64_decode_triple (take 3 (base64_encode_triple a b NUL) @ ''='') = [a, b]"
proof -
  let ?x = "of_char a * 256 + of_char b :: nat"
  let ?v = "?x * 256 + of_char NUL"
  have v: "?v < 16777216" by (rule three_bytes) simp_all
  have low: "?v mod 64 = 0" by (simp add: NUL_def mod_mult_left_eq [symmetric])
  have "take 3 (base64_encode_triple a b NUL) @ ''='' =
      [digit (?v div 64 div 64 div 64 mod 64), digit (?v div 64 div 64 mod 64), digit (?v div 64 mod 64), CHR ''='']"
    unfolding encode_triple_digits Let_def by simp
  then have "base64_decode_triple (take 3 (base64_encode_triple a b NUL) @ ''='') =
      decode_bytes 2 (((?v div 64 div 64 div 64 mod 64 * 64 + ?v div 64 div 64 mod 64) * 64 + ?v div 64 mod 64) * 64 div 256) []"
    by (simp only:) (subst quad_two, simp_all only: mod_less_divisor zero_less_numeral)
  also have "((?v div 64 div 64 div 64 mod 64 * 64 + ?v div 64 div 64 mod 64) * 64 + ?v div 64 mod 64) * 64 = ?v"
    using digits_number [OF v] unfolding low by (simp only: add_0_right)
  also have "?v div 256 = ?x" by (rule byte_step(1)) simp
  also have "decode_bytes 2 ?x [] = [a, b]"
    unfolding Suc_numbers decode_bytes.simps byte_step [OF nat_of_char_less_256] by (simp only: mod_less nat_of_char_less_256 char_of_char)
  finally show ?thesis .
qed

lemma single_roundtrip: "base64_decode_triple (take 2 (base64_encode_triple a NUL NUL) @ ''=='') = [a]"
proof -
  let ?v = "(of_char a * 256 + of_char NUL) * 256 + of_char NUL :: nat"
  have v: "?v < 16777216" by (rule three_bytes) simp_all
  have eq: "?v = of_char a * 16 * 4096" by (simp add: NUL_def)
  have low: "?v mod 64 = 0" "?v div 64 mod 64 = 0" unfolding eq by (simp_all add: mod_mult_left_eq [symmetric] div_mult_swap [symmetric])
  have "take 2 (base64_encode_triple a NUL NUL) @ ''=='' =
      [digit (?v div 64 div 64 div 64 mod 64), digit (?v div 64 div 64 mod 64), CHR ''='', CHR ''='']"
    unfolding encode_triple_digits Let_def by simp
  then have "base64_decode_triple (take 2 (base64_encode_triple a NUL NUL) @ ''=='') =
      decode_bytes 1 ((?v div 64 div 64 div 64 mod 64 * 64 + ?v div 64 div 64 mod 64) * 64 * 64 div 256 ^ 2) []"
    by (simp only:) (subst quad_one, simp_all only: mod_less_divisor zero_less_numeral)
  also have "(?v div 64 div 64 div 64 mod 64 * 64 + ?v div 64 div 64 mod 64) * 64 * 64 = ?v"
    using digits_number [OF v] unfolding low by (simp only: add_0_right)
  also have "?v div 256 ^ 2 = of_char a" unfolding eq by simp
  also have "decode_bytes 1 (of_char a) [] = [a]" by (simp only: One_nat_def decode_bytes.simps of_char_mod_256 char_of_char)
  finally show ?thesis .
qed


lemma next_chars_codes: "\<forall>c \<in> set cs. code_char c \<Longrightarrow> next_chars (length cs) (cs @ r) = Some (cs, r)"
  by (induction cs) auto

lemma next_four: "\<forall>c \<in> set cs. code_char c \<Longrightarrow> length cs = 4 \<Longrightarrow> next_chars 4 (cs @ r) = Some (cs, r)"
  using next_chars_codes [of cs r] by simp

lemma encode_triple_codes [simp]: "length (base64_encode_triple a b c) = 4" "c' \<in> set (base64_encode_triple a b c) \<Longrightarrow> code_char c'"
  by (auto simp: encode_triple_digits Let_def)

lemma decode_full:
  assumes "\<forall>c \<in> set cs. code_char c" "length cs = 4" "base64_decode_triple cs = out" "length out = 3" "3 \<le> n"
  shows "decode_loop (cs @ r) n = (case decode_loop r (n - 3) of Inr (Some bytes) \<Rightarrow> Inr (Some (out @ bytes)) | res \<Rightarrow> res)"
  unfolding decode_loop.simps [of "cs @ r"] next_four [OF assms(1,2)] using assms(4,5) unfolding assms(3) [symmetric] by (simp add: Let_def)

lemma decode_last:
  assumes "\<forall>c \<in> set cs. code_char c" "length cs = 4" "base64_decode_triple cs = out" "length out < 3" "length out \<le> n"
  shows "decode_loop (cs @ r) n = Inr (Some out)"
  unfolding decode_loop.simps [of "cs @ r"] next_four [OF assms(1,2)] using assms(3-5) by (simp add: Let_def)

lemma decode_encoded: "length s \<le> n \<Longrightarrow> decode_loop (encode_loop s @ ''===='') n = Inr (Some s)"
proof (induction s arbitrary: n rule: encode_loop.induct)
  case (1 a b c s)
  have "decode_loop (base64_encode_triple a b c @ encode_loop s @ ''===='') n = Inr (Some ([a, b, c] @ s))"
    using decode_full [of "base64_encode_triple a b c" "[a, b, c]" n] 1 triple_roundtrip by simp
  then show ?case by simp
next
  case (2 a b)
  have "\<forall>c \<in> set (take 3 (base64_encode_triple a b NUL) @ ''=''). code_char c" by (auto dest: in_set_takeD)
  then show ?case using decode_last [OF _ _ pair_roundtrip [of a b], of n "''====''"] 2 by simp
next
  case (3 a)
  have "\<forall>c \<in> set (take 2 (base64_encode_triple a NUL NUL) @ ''==''). code_char c" by (auto dest: in_set_takeD)
  then show ?case using decode_last [OF _ _ single_roundtrip [of a], of n "''====''"] 3 by simp
next
  case 4
  show ?case using decode_last [of "''====''" "[]" n "[]"] by (simp add: base64_decode_triple_def)
qed

lemma encode_loop_length: "length (encode_loop s) = (length s + 2) div 3 * 4"
proof (induction s rule: encode_loop.induct)
  case (1 a b c s)
  have "(5 + n) div 3 = Suc (Suc (Suc n) div 3)" for n :: nat by presburger
  with 1 show ?case by simp
qed simp_all

text \<open>
  C34: decoding what was encoded gives the bytes back, whatever they are, behind which the target
  buffer is filled with zeros; encoding fits its buffer exactly when the test says so, for every
  buffer that is not empty.
\<close>

theorem base64_roundtrip:
  assumes "targetlen > 0" "length s \<le> declen" "malloc_ok m"
  shows "base64_encode s targetlen = Inr (if length (encode_loop s) < targetlen then Some (encode_loop s) else None)
    \<and> fst (base64_decode (encode_loop s) declen m) = Inr (Some (length s, s @ replicate (declen - length s) NUL))"
  using assms decode_encoded [OF assms(2)] by (cases "malloc m") (auto simp: base64_encode_def encode_loop_length base64_decode_def)

theorem base64_roundtrip_witness:
  "base64_encode ''secret'' 120 = Inr (Some ''c2VjcmV0'')
   \<and> fst (base64_decode ''c2VjcmV0'' 8 []) = Inr (Some (6, ''secret'' @ [NUL, NUL]))"
proof -
  have e: "encode_loop ''secret'' = ''c2VjcmV0''" by (simp add: encode_triple_digits BASE64_CHARS_def Let_def)
  show ?thesis using base64_roundtrip [of 120 "''secret''" 8 "[]"] unfolding e by (simp add: numeral_2_eq_2)
qed


section \<open>Arbitrary input\<close>

lemma decode_bytes_length [simp]: "length (decode_bytes n v out) = n + length out"
  by (induction n v out rule: decode_bytes.induct) auto

lemma quad_values_count:
  "quad_values cs eq vals n = Some (vals', n') \<Longrightarrow> n' = n - int (count_list cs (CHR ''=''))"
  by (induction cs eq vals n rule: quad_values.induct) (auto split: if_splits)

lemma decode_triple_short: "length (base64_decode_triple cs) \<le> 3" "length (base64_decode_triple cs) = 3 \<Longrightarrow> CHR ''='' \<notin> set cs"
proof -
  have "length (base64_decode_triple cs) \<le> 3 \<and> (length (base64_decode_triple cs) = 3 \<longrightarrow> CHR ''='' \<notin> set cs)"
  proof (cases "quad_values (rev cs) True [] 3")
    case (Some r)
    then obtain vals n where r: "quad_values (rev cs) True [] 3 = Some (vals, n)" by (cases r) simp
    from quad_values_count [OF r] have n: "n = 3 - int (count_list cs (CHR ''=''))" by simp
    have len: "length (base64_decode_triple cs) = nat n" using r by (simp add: base64_decode_triple_def Let_def)
    have "count_list cs (CHR ''='') = 0" if "nat n = 3" using that n by linarith
    then have "nat n = 3 \<longrightarrow> CHR ''='' \<notin> set cs" using count_list_0_iff by metis
    moreover have "nat n \<le> 3" using n by linarith
    ultimately show ?thesis unfolding len by blast
  qed (simp add: base64_decode_triple_def)
  then show "length (base64_decode_triple cs) \<le> 3" "length (base64_decode_triple cs) = 3 \<Longrightarrow> CHR ''='' \<notin> set cs" by auto
qed

lemma next_chars_padded:
  "n \<le> j \<Longrightarrow> \<exists>cs r. next_chars n (s @ replicate j (CHR ''='')) = Some (cs, r) \<and> length cs = n
     \<and> (CHR ''='' \<notin> set cs \<longrightarrow> (\<exists>s'. r = s' @ replicate j (CHR ''='')))"
proof (induction n arbitrary: s j)
  case (Suc n)
  let ?P = "\<lambda>c. \<not> code_char c" and ?pad = "\<lambda>j. replicate j (CHR ''='')"
  show ?case
  proof (cases "dropWhile ?P s")
    case Nil
    then have all: "\<forall>c \<in> set s. ?P c" by (simp add: dropWhile_eq_Nil_conv)
    obtain j' where j: "j = Suc j'" using Suc.prems by (cases j) auto
    have d: "dropWhile ?P (s @ ?pad j) = CHR ''='' # ?pad j'" using all j by (simp add: dropWhile_append)
    obtain cs r where "next_chars n (?pad j') = Some (cs, r)" "length cs = n" using Suc.IH [of j' "[]"] Suc.prems j by auto
    then show ?thesis using d by simp
  next
    case (Cons c s')
    then have d: "dropWhile ?P (s @ ?pad j) = c # s' @ ?pad j"
      by (metis Cons_eq_appendI dropWhile_append1 dropWhile_eq_Nil_conv list.distinct(1))
    obtain cs r where "next_chars n (s' @ ?pad j) = Some (cs, r)" "length cs = n"
      "CHR ''='' \<notin> set cs \<longrightarrow> (\<exists>s'. r = s' @ ?pad j)" using Suc.IH [of j s'] Suc.prems by auto
    then show ?thesis using d by auto
  qed
qed auto

lemma decode_padded:
  "\<exists>res. decode_loop (s @ ''===='') n = Inr res \<and> (\<forall>bytes. res = Some bytes \<longrightarrow> length bytes \<le> n)"
proof (induction "length s" arbitrary: s n rule: less_induct)
  case less
  have pad: "''===='' = replicate 4 (CHR ''='')" by (simp add: eval_nat_numeral)
  obtain cs r where r: "next_chars 4 (s @ ''===='') = Some (cs, r)" "CHR ''='' \<notin> set cs \<longrightarrow> (\<exists>s'. r = s' @ ''===='')"
    using next_chars_padded [of 4 4 s] unfolding pad by auto
  let ?out = "base64_decode_triple cs"
  note step = decode_loop.simps [of "s @ ''===='' " n]
  show ?case
  proof (cases "length ?out = 3 \<and> \<not> n < length ?out")
    case True
    then obtain s' where s': "r = s' @ ''===='' " using r(2) decode_triple_short(2) by blast
    have "length s' < length s" using next_chars_shorter [OF r(1)] unfolding s' by simp
    then obtain res where res: "decode_loop r (n - 3) = Inr res" "\<forall>bytes. res = Some bytes \<longrightarrow> length bytes \<le> n - 3"
      using less [of s' "n - 3"] s' by blast
    then show ?thesis using step r(1) True by (auto simp: Let_def split: option.splits)
  next
    case False
    then show ?thesis using step r(1) by (auto simp: Let_def)
  qed
qed

lemma next_chars_filter:
  "next_chars n (filter code_char src) = map_option (\<lambda>(cs, r). (cs, filter code_char r)) (next_chars n src)"
proof (induction n arbitrary: src)
  case (Suc n)
  have d: "dropWhile (\<lambda>c. \<not> code_char c) (filter code_char src) = filter code_char src"
    by (induction src) auto
  have f: "filter code_char src = filter code_char (dropWhile (\<lambda>c. \<not> code_char c) src)"
    by (induction src) auto
  have h: "code_char c" if "dropWhile (\<lambda>c. \<not> code_char c) src = c # rest" for c rest
    using that by (metis dropWhile_eq_Cons_conv)
  show ?case
  proof (cases "dropWhile (\<lambda>c. \<not> code_char c) src")
    case Nil
    then have "filter code_char src = []" using f by simp
    then show ?thesis using Nil by (simp del: filter_empty_conv dropWhile_eq_Nil_conv)
  next
    case (Cons c rest)
    have "filter code_char src = c # filter code_char rest" unfolding f Cons using h [OF Cons] by simp
    then have "dropWhile (\<lambda>c. \<not> code_char c) (filter code_char src) = c # filter code_char rest" unfolding d .
    then show ?thesis using Suc.IH [of rest] Cons by (cases "next_chars n rest") auto
  qed
qed simp

lemma decode_loop_filter: "decode_loop (filter code_char src) n = decode_loop src n"
proof (induction src n rule: decode_loop.induct)
  case (1 src n)
  show ?case
  proof (cases "next_chars 4 src")
    case None
    then show ?thesis using decode_loop.simps [of src n] decode_loop.simps [of "filter code_char src" n] next_chars_filter [of 4 src] by simp
  next
    case (Some q)
    obtain cs r where q: "next_chars 4 src = Some (cs, r)" using Some by (cases q) simp
    then show ?thesis
      using decode_loop.simps [of src n] decode_loop.simps [of "filter code_char src" n] next_chars_filter [of 4 src] 1 [OF q refl refl]
      by (simp add: Let_def)
  qed
qed

text \<open>
  decoding ends for every input without reading behind the string and without writing more
  bytes than the target holds, and characters that are no base64 digits, such as line breaks, do
  not matter; encoding into an empty buffer, however, passes the test and writes outside.
\<close>

theorem base64_any_input:
  "(\<exists>res m'. base64_decode s n m = (Inr res, m') \<and> (\<forall>len buf. res = Some (len, buf) \<longrightarrow> len \<le> n \<and> length buf = n))
   \<and> base64_decode (filter code_char s) n m = base64_decode s n m
   \<and> (length s < 2 ^ 60 \<longrightarrow> base64_encode s 0 = Inl ())"
proof (intro conjI impI)
  obtain res where res: "decode_loop (s @ ''===='') n = Inr res" "\<forall>bytes. res = Some bytes \<longrightarrow> length bytes \<le> n"
    using decode_padded by blast
  show "\<exists>res m'. base64_decode s n m = (Inr res, m') \<and> (\<forall>len buf. res = Some (len, buf) \<longrightarrow> len \<le> n \<and> length buf = n)"
    using res by (cases "malloc m") (auto simp: base64_decode_def split: bool.splits option.splits)
  have "filter code_char (s @ ''===='') = filter code_char s @ ''===='' " by simp
  then have "decode_loop (filter code_char s @ ''===='') n = decode_loop (s @ ''===='') n"
    by (metis decode_loop_filter)
  then show "base64_decode (filter code_char s) n m = base64_decode s n m" unfolding base64_decode_def by (simp only:)
  assume "length s < 2 ^ 60"
  then have "(length s + 2) div 3 * 4 \<le> 2 ^ 64 - 1" by simp
  then show "base64_encode s 0 = Inl ()" by (simp add: base64_encode_def)
qed

theorem base64_any_input_witness: "base64_encode ''secret'' 0 = Inl ()"
  using base64_any_input [of "''secret''" 0 "[]"] by simp

end
