(* ===== verification/Replicated.thy ===== *)
theory Replicated
  imports Defaults
begin

text \<open>
  Selection of servers for replicated NFS mounts, \<^verbatim>\<open>modules/replicated.c\<close>: the ordered list of hosts,
  probing of NFS versions, pruning of the list and parsing of locations. What the network answers
  is a record of functions; response times are whole microseconds. A list linked by \<open>next\<close> is a
  list; \<open>ho_id\<close> is the address of a host.
\<close>

section \<open>Hosts\<close>

record host =
  ho_id :: addr
  ho_name :: "string option"
  ho_ent_num :: int
  ho_addr_len :: nat
  ho_rr :: nat
  ho_path :: "string option"
  ho_version :: u32
  ho_options :: u32
  ho_proximity :: u32
  ho_weight :: u32
  ho_cost :: u64

definition PROXIMITY_ERROR :: u32 where "PROXIMITY_ERROR = 0x0000"
definition PROXIMITY_LOCAL :: u32 where "PROXIMITY_LOCAL = 0x0001"
definition PROXIMITY_SUBNET :: u32 where "PROXIMITY_SUBNET = 0x0002"
definition PROXIMITY_NET :: u32 where "PROXIMITY_NET = 0x0004"
definition PROXIMITY_OTHER :: u32 where "PROXIMITY_OTHER = 0x0008"
definition PROXIMITY_UNSUPPORTED :: u32 where "PROXIMITY_UNSUPPORTED = 0x0010"
definition NFS2_SUPPORTED :: u32 where "NFS2_SUPPORTED = 0x0010"
definition NFS3_SUPPORTED :: u32 where "NFS3_SUPPORTED = 0x0020"
definition NFS4_SUPPORTED :: u32 where "NFS4_SUPPORTED = 0x0040"
definition NFS_VERS_MASK :: u32 where "NFS_VERS_MASK = NFS2_SUPPORTED OR NFS3_SUPPORTED"
definition NFS4_VERS_MASK :: u32 where "NFS4_VERS_MASK = NFS4_SUPPORTED"
definition NFS4_ONLY_REQUESTED :: u32 where "NFS4_ONLY_REQUESTED = 0x0800"
definition TCP_REQUESTED :: u32 where "TCP_REQUESTED = 0x0001"
definition UDP_REQUESTED :: u32 where "UDP_REQUESTED = 0x0002"
definition TCP6_REQUESTED :: u32 where "TCP6_REQUESTED = 0x0100"
definition UDP6_REQUESTED :: u32 where "UDP6_REQUESTED = 0x0200"
definition UDP_SELECTED_MASK :: u32 where "UDP_SELECTED_MASK = 0xFF00"
definition MOUNT_FLAG_RANDOM_SELECT :: u32 where "MOUNT_FLAG_RANDOM_SELECT = 0x0004"
definition MOUNT_FLAG_USE_WEIGHT_ONLY :: u32 where "MOUNT_FLAG_USE_WEIGHT_ONLY = 0x0010"

lemmas repl_consts =
  PROXIMITY_ERROR_def PROXIMITY_LOCAL_def PROXIMITY_SUBNET_def PROXIMITY_NET_def PROXIMITY_OTHER_def PROXIMITY_UNSUPPORTED_def
  NFS2_SUPPORTED_def NFS3_SUPPORTED_def NFS4_SUPPORTED_def NFS_VERS_MASK_def NFS4_VERS_MASK_def NFS4_ONLY_REQUESTED_def
  TCP_REQUESTED_def UDP_REQUESTED_def TCP6_REQUESTED_def UDP6_REQUESTED_def UDP_SELECTED_MASK_def
  MOUNT_FLAG_RANDOM_SELECT_def MOUNT_FLAG_USE_WEIGHT_ONLY_def

text \<open>A bit mask tested with \<open>&\<close>.\<close>

definition flag :: "u32 \<Rightarrow> u32 \<Rightarrow> bool" where
  "flag w bits \<longleftrightarrow> w AND bits \<noteq> 0"

text \<open>
  \<open>new_host\<close>: name, address and host are allocated; the address of the new host is \<open>a\<close>.
\<close>

definition new_host ::
  "addr \<Rightarrow> string \<Rightarrow> int \<Rightarrow> nat \<Rightarrow> u32 \<Rightarrow> u32 \<Rightarrow> u32 \<Rightarrow> mem \<Rightarrow> host option \<times> mem" where
  "new_host a name ent_num addr_len proximity weight options m =
     (case malloc m of
        (False, m1) \<Rightarrow> (None, m1)
      | (True, m1) \<Rightarrow>
          (case malloc m1 of
             (False, m2) \<Rightarrow> (None, m2)
           | (True, m2) \<Rightarrow>
               (case malloc m2 of
                  (False, m3) \<Rightarrow> (None, m3)
                | (True, m3) \<Rightarrow>
                    (Some \<lparr>ho_id = a, ho_name = Some name, ho_ent_num = ent_num, ho_addr_len = addr_len, ho_rr = 0,
                           ho_path = None, ho_version = 0, ho_options = options, ho_proximity = proximity,
                           ho_weight = weight, ho_cost = 0\<rparr>, m3))))"

text \<open>\<open>add_host\<close>: behind the closer hosts, and behind the cheaper ones of the same proximity.\<close>

definition closer :: "host \<Rightarrow> host \<Rightarrow> bool" where
  "closer h this \<longleftrightarrow> \<not> ho_proximity this \<ge> ho_proximity h"

definition cheaper :: "host \<Rightarrow> host \<Rightarrow> bool" where
  "cheaper h this \<longleftrightarrow> ho_cost h \<noteq> 0 \<and> ho_proximity this = ho_proximity h \<and> \<not> ho_cost this \<ge> ho_cost h"

definition add_host :: "host list \<Rightarrow> host \<Rightarrow> host list" where
  "add_host hosts h =
     (let this = dropWhile (closer h) hosts
      in takeWhile (closer h) hosts @ takeWhile (cheaper h) this @ h # dropWhile (cheaper h) this)"

definition remove_host :: "host list \<Rightarrow> host \<Rightarrow> host list" where
  "remove_host hosts h = filter (\<lambda>this. ho_id this \<noteq> ho_id h) hosts"

section \<open>Probing\<close>

text \<open>
  The answers of one host, for a protocol and an NFS version: the status of the portmapper
  connection, of the port request, of the connection to the service, and of the ping with its time.
\<close>

datatype proto = IPPROTO_TCP | IPPROTO_UDP

record rpc_answers =
  rp_portmap :: "proto \<Rightarrow> int"
  rp_port :: "proto \<Rightarrow> nat \<Rightarrow> int"
  rp_client :: "proto \<Rightarrow> nat \<Rightarrow> int"
  rp_ping :: "proto \<Rightarrow> nat \<Rightarrow> int"
  rp_time :: "proto \<Rightarrow> nat \<Rightarrow> nat"
  rp_random :: "proto \<Rightarrow> nat \<Rightarrow> nat"

definition EHOSTUNREACH :: int where "EHOSTUNREACH = 113"
definition ETIMEDOUT :: int where "ETIMEDOUT = 110"

lemmas repl_errors = EHOSTUNREACH_def ETIMEDOUT_def

record nfs_info =
  ni_supported :: u32
  ni_taken :: nat
  ni_count :: nat
  ni_portmap :: bool

text \<open>An error is stored as a negative number in the unsigned \<open>supported\<close>.\<close>

definition error_status :: "int \<Rightarrow> u32" where
  "error_status status = word_of_int status"

definition unreachable :: "int \<Rightarrow> nfs_info \<Rightarrow> nfs_info" where
  "unreachable status ni = (if status = - EHOSTUNREACH then ni\<lparr>ni_supported := error_status status\<rparr> else ni)"

definition unreachable_or_late :: "int \<Rightarrow> nfs_info \<Rightarrow> nfs_info" where
  "unreachable_or_late status ni =
     (if status = - EHOSTUNREACH \<or> status = - ETIMEDOUT then ni\<lparr>ni_supported := error_status status\<rparr> else ni)"

text \<open>The connection and the ping; \<open>True\<close> when the code goes to \<open>done_ver\<close>.\<close>

definition ping_version ::
  "rpc_answers \<Rightarrow> u32 \<Rightarrow> proto \<Rightarrow> nat \<Rightarrow> (u32 \<Rightarrow> u32) \<Rightarrow> nfs_info \<Rightarrow> bool \<times> nfs_info" where
  "ping_version rpc options proto vers mark ni =
     (let status = rp_client rpc proto vers
      in if status = - EHOSTUNREACH then (True, ni\<lparr>ni_supported := error_status status\<rparr>)
         else if status = 0 then
           (let ping = rp_ping rpc proto vers
            in if ping = - ETIMEDOUT then (True, ni\<lparr>ni_supported := error_status ping\<rparr>)
               else if ping > 0 then
                 (False, ni\<lparr>ni_taken := ni_taken ni + (if flag options MOUNT_FLAG_RANDOM_SELECT then rp_random rpc proto vers
                                                       else rp_time rpc proto vers),
                            ni_count := ni_count ni + 1, ni_supported := mark (ni_supported ni)\<rparr>)
               else (False, ni))
         else (False, ni))"

text \<open>NFS version 2 or 3: the portmapper is asked when no port is given.\<close>

definition probe_old ::
  "rpc_answers \<Rightarrow> u32 \<Rightarrow> proto \<Rightarrow> int \<Rightarrow> nat \<Rightarrow> u32 \<Rightarrow> nfs_info \<Rightarrow> bool \<times> nfs_info" where
  "probe_old rpc options proto port vers bits ni =
     (if port = 0 \<and> \<not> ni_portmap ni \<and> rp_portmap rpc proto \<noteq> 0 then (True, unreachable (rp_portmap rpc proto) ni)
      else
        (let ni1 = (if port = 0 then ni\<lparr>ni_portmap := True\<rparr> else ni)
         in if port = 0 \<and> rp_port rpc proto vers \<noteq> 0 then (True, unreachable_or_late (rp_port rpc proto vers) ni1)
            else ping_version rpc options proto vers (\<lambda>s. s OR bits) ni1))"

text \<open>What follows NFS version 4.\<close>

definition probe_v3_v2 :: "rpc_answers \<Rightarrow> u32 \<Rightarrow> proto \<Rightarrow> u32 \<Rightarrow> int \<Rightarrow> nfs_info \<Rightarrow> nfs_info" where
  "probe_v3_v2 rpc options proto version port ni =
     (let (fin, ni1) = (if flag version NFS3_SUPPORTED then probe_old rpc options proto port 3 NFS3_SUPPORTED ni else (False, ni))
      in if fin \<or> \<not> flag version NFS2_SUPPORTED then ni1
         else snd (probe_old rpc options proto port 2 NFS2_SUPPORTED ni1))"

definition probe_v4 :: "rpc_answers \<Rightarrow> u32 \<Rightarrow> proto \<Rightarrow> u32 \<Rightarrow> int \<Rightarrow> nfs_info \<Rightarrow> nfs_info" where
  "probe_v4 rpc options proto version port ni =
     (if \<not> flag version NFS4_SUPPORTED then probe_v3_v2 rpc options proto version port ni
      else if port = 0 \<and> rp_portmap rpc proto \<noteq> 0 then unreachable (rp_portmap rpc proto) ni
      else
        (let ni1 = (if port = 0 then ni\<lparr>ni_portmap := True\<rparr> else ni); status = rp_port rpc proto 4
         in if port = 0 \<and> status \<noteq> 0 then
              (let ni2 = unreachable_or_late status ni1
               in if status < 0 \<and> flag version NFS_VERS_MASK then probe_v3_v2 rpc options proto version port ni2 else ni2)
            else
              (case ping_version rpc options proto 4 (\<lambda>_. NFS4_SUPPORTED) ni1 of
                 (fin, ni2) \<Rightarrow>
                   if fin \<or> \<not> flag version NFS_VERS_MASK then ni2
                   else probe_v3_v2 rpc options proto version port ni2)))"

text \<open>The cost of a host, the weight of the user included; the arithmetic wraps around.\<close>

definition host_cost :: "host \<Rightarrow> nat \<Rightarrow> host" where
  "host_cost h time =
     (let cost = (if flag (ho_options h) MOUNT_FLAG_USE_WEIGHT_ONLY then 1 else of_nat time)
      in h\<lparr>ho_cost := (if ho_weight h \<noteq> 0 then cost * ucast (ho_weight h + 1) else cost)\<rparr>)"

definition get_nfs_info :: "rpc_answers \<Rightarrow> host \<Rightarrow> proto \<Rightarrow> u32 \<Rightarrow> int \<Rightarrow> u32 \<times> host" where
  "get_nfs_info rpc h proto version port =
     (let port1 = (if port < 0 then if flag version NFS4_SUPPORTED \<and> flag version NFS4_ONLY_REQUESTED then port else 0 else port);
          ni = probe_v4 rpc (ho_options h) proto version port1 \<lparr>ni_supported = 0, ni_taken = 0, ni_count = 0, ni_portmap = False\<rparr>
      in (ni_supported ni, if ni_count ni \<noteq> 0 then host_cost h (ni_taken ni div ni_count ni) else h))"

definition INET_ADDRSTRLEN :: nat where "INET_ADDRSTRLEN = 16"
definition INET6_ADDRSTRLEN :: nat where "INET6_ADDRSTRLEN = 46"

definition check_address_proto :: "host \<Rightarrow> u32 \<Rightarrow> bool" where
  "check_address_proto h version \<longleftrightarrow> \<not> (flag version (TCP6_REQUESTED OR UDP6_REQUESTED) \<and> ho_addr_len h = INET_ADDRSTRLEN)"

definition IS_ERR :: "u32 \<Rightarrow> bool" where
  "IS_ERR supported \<longleftrightarrow> flag 0x8000 supported"

definition ERR :: "u32 \<Rightarrow> u32" where
  "ERR supported = (if IS_ERR supported then NOT supported + 1 else supported)"

definition get_vers_and_cost :: "rpc_answers \<Rightarrow> host \<Rightarrow> u32 \<Rightarrow> int \<Rightarrow> bool \<times> host" where
  "get_vers_and_cost rpc h version port =
     (if \<not> check_address_proto h version then (False, h)
      else
        (let vers = (NFS_VERS_MASK OR NFS4_VERS_MASK OR NFS4_ONLY_REQUESTED) AND version;
             (stop, ret, h1) =
               (if flag version TCP_REQUESTED then
                  (case get_nfs_info rpc h IPPROTO_TCP vers port of
                     (supported, h1) \<Rightarrow>
                       if IS_ERR supported then (ERR supported = of_int EHOSTUNREACH \<or> ERR supported = of_int ETIMEDOUT, False, h1)
                       else if supported \<noteq> 0 then (False, True, h1\<lparr>ho_version := ho_version h1 OR supported\<rparr>)
                       else (False, False, h1))
                else (False, False, h))
         in if stop then (ret, h1)
            else if flag version UDP_REQUESTED then
              (case get_nfs_info rpc h1 IPPROTO_UDP vers port of
                 (supported, h2) \<Rightarrow>
                   if IS_ERR supported then (ret, h2)
                   else if supported \<noteq> 0 then (True, h2\<lparr>ho_version := ho_version h2 OR push_bit 8 supported\<rparr>)
                   else (ret, h2))
            else (ret, h1)))"

text \<open>
  \<open>get_supported_ver_and_cost\<close>: the version is one of the constants, shifted for UDP.
\<close>

definition version_number :: "u32 \<Rightarrow> nat option" where
  "version_number version =
     (if version = NFS2_SUPPORTED then Some 2 else if version = NFS3_SUPPORTED then Some 3
      else if version = NFS4_SUPPORTED then Some 4 else None)"

definition get_supported_ver_and_cost :: "rpc_answers \<Rightarrow> host \<Rightarrow> u32 \<Rightarrow> int \<Rightarrow> bool \<times> host" where
  "get_supported_ver_and_cost rpc h version port =
     (if \<not> check_address_proto h version then (False, h)
      else
        (let udp = flag version UDP_SELECTED_MASK; proto = (if udp then IPPROTO_UDP else IPPROTO_TCP)
         in case version_number (if udp then drop_bit 8 version else version) of
              None \<Rightarrow> (False, h)
            | Some vers \<Rightarrow>
                if \<not> port > 0 \<and> \<not> (vers = 4 \<and> port < 0) \<and> (rp_portmap rpc proto \<noteq> 0 \<or> rp_port rpc proto vers < 0)
                then (False, h)
                else
                  (let client = rp_client rpc proto vers;
                       status = (if client = - EHOSTUNREACH then 0 else if client = 0 then rp_ping rpc proto vers else client);
                       taken = (if client = 0 \<and> status > 0
                                then if flag (ho_options h) MOUNT_FLAG_RANDOM_SELECT then rp_random rpc proto vers else rp_time rpc proto vers
                                else 0)
                   in if status \<noteq> 0 then (True, host_cost h taken) else (False, h))))"


section \<open>Pruning\<close>

text \<open>
  The first probes: hosts of the closest proximity that answers. \<open>kept\<close> are the hosts from \<open>first\<close>
  up to \<open>this\<close>; while it is empty \<open>this\<close> is \<open>first\<close>, and a failure moves on to the next proximity.
  \<open>net\<close> gives the answers of each host.
\<close>

fun probe_loop :: "(host \<Rightarrow> rpc_answers) \<Rightarrow> u32 \<Rightarrow> int \<Rightarrow> u32 \<Rightarrow> host list \<Rightarrow> host list \<Rightarrow> host list \<times> host list" where
  "probe_loop net vers port proximity kept [] = (kept, [])"
| "probe_loop net vers port proximity kept (this # rest) =
     (if ho_proximity this \<noteq> proximity then (kept, this # rest)
      else if ho_name this = None then probe_loop net vers port proximity (kept @ [this]) rest
      else
        (case get_vers_and_cost (net this) this vers port of
           (True, this1) \<Rightarrow> probe_loop net vers port proximity (kept @ [this1]) rest
         | (False, _) \<Rightarrow>
             probe_loop net vers port (if kept = [] then (case rest of [] \<Rightarrow> proximity | n # _ \<Rightarrow> ho_proximity n) else proximity)
               kept rest))"

definition version_count :: "host list \<Rightarrow> u32 \<Rightarrow> nat" where
  "version_count hosts bits = length (filter (\<lambda>h. flag (ho_version h) bits) hosts)"

text \<open>The versions in the order of preference, those over UDP shifted.\<close>

definition version_choices :: "u32 list" where
  "version_choices =
     [NFS4_SUPPORTED, NFS3_SUPPORTED, NFS2_SUPPORTED,
      push_bit 8 NFS4_SUPPORTED, push_bit 8 NFS3_SUPPORTED, push_bit 8 NFS2_SUPPORTED]"

definition mymax :: "nat \<Rightarrow> nat \<Rightarrow> nat" where
  "mymax x y = (if x \<ge> y then x else y)"

definition mmax :: "nat \<Rightarrow> nat \<Rightarrow> nat \<Rightarrow> nat" where
  "mmax x y z = (if mymax x y = x then mymax x z else mymax y z)"

definition select_version :: "host list \<Rightarrow> u32" where
  "select_version hosts =
     (let n = version_count hosts;
          max_tcp_count = mmax (n NFS4_SUPPORTED) (n NFS3_SUPPORTED) (n NFS2_SUPPORTED);
          max_udp_count = mmax (n (push_bit 8 NFS4_SUPPORTED)) (n (push_bit 8 NFS3_SUPPORTED)) (n (push_bit 8 NFS2_SUPPORTED));
          max_count = mymax max_tcp_count max_udp_count
      in case find (\<lambda>v. max_count = n v) version_choices of None \<Rightarrow> 0 | Some v \<Rightarrow> v)"

text \<open>The probed hosts and the local ones that go to the new list.\<close>

fun take_selected :: "u32 \<Rightarrow> host list \<Rightarrow> host list \<Rightarrow> host list" where
  "take_selected selected [] new = new"
| "take_selected selected (this # rest) new =
     take_selected selected rest
       (if flag (ho_version this) selected \<or> ho_proximity this = PROXIMITY_LOCAL
        then add_host new (this\<lparr>ho_version := selected\<rparr>) else new)"

text \<open>The hosts further away; \<open>prev\<close> is the entry number of the last host that was added.\<close>

fun take_rest ::
  "(host \<Rightarrow> rpc_answers) \<Rightarrow> bool \<Rightarrow> u32 \<Rightarrow> int \<Rightarrow> int option \<Rightarrow> host list \<Rightarrow> host list \<Rightarrow> host list" where
  "take_rest net by_name selected port prev [] new = new"
| "take_rest net by_name selected port prev (this # rest) new =
     (if ho_name this = None then take_rest net by_name selected port prev rest (add_host new this)
      else if by_name \<and> prev = Some (ho_ent_num this) then take_rest net by_name selected port prev rest new
      else
        (case get_supported_ver_and_cost (net this) this selected port of
           (True, this1) \<Rightarrow>
             take_rest net by_name selected port (Some (ho_ent_num this)) rest (add_host new (this1\<lparr>ho_version := selected\<rparr>))
         | (False, _) \<Rightarrow> take_rest net by_name selected port prev rest new))"

text \<open>
  \<open>prune_host_list\<close>: whether it succeeded and the list. \<open>probe_single\<close>: a single host is probed as
  well; \<open>by_name\<close>: host names are used for mounts.
\<close>

definition prune_host_list ::
  "(host \<Rightarrow> rpc_answers) \<Rightarrow> bool \<Rightarrow> bool \<Rightarrow> host list \<Rightarrow> u32 \<Rightarrow> int \<Rightarrow> bool \<times> host list" where
  "prune_host_list net probe_single by_name hosts vers port =
     (if hosts = [] then (False, hosts)
      else
        (let locals = takeWhile (\<lambda>h. ho_proximity h = PROXIMITY_LOCAL) hosts;
             this = dropWhile (\<lambda>h. ho_proximity h = PROXIMITY_LOCAL) hosts
         in if this = [] \<or> \<not> probe_single \<and> tl this = [] then (True, hosts)
            else
              (case probe_loop net vers port (ho_proximity (hd this)) [] this of
                 (kept, rest) \<Rightarrow>
                   if kept = [] then (True, locals @ rest)
                   else
                     (let selected = select_version kept
                      in (True, take_rest net by_name selected port None rest (take_selected selected (locals @ kept) []))))))"

section \<open>Parsing locations\<close>

datatype family = AF_INET | AF_INET6 | AF_OTHER

text \<open>An address of a host: its proximity, and whether it counts for round robin.\<close>

record addrinfo =
  ai_family :: family
  ai_counts :: bool
  ai_proximity :: u32

text \<open>\<open>getaddrinfo\<close> for a numeric address and for a name; \<open>None\<close> when it fails.\<close>

record resolver =
  rs_numeric :: "string \<Rightarrow> addrinfo list option"
  rs_name :: "string \<Rightarrow> addrinfo list option"

datatype repl_fault = REPL_BAD_FREE | REPL_HANG

text \<open>The list of hosts, the next address and the allocations.\<close>

record repl_state =
  rl_hosts :: "host list"
  rl_brk :: addr
  rl_mem :: mem

definition add_new_host :: "string \<Rightarrow> int \<Rightarrow> u32 \<Rightarrow> addrinfo \<Rightarrow> nat \<Rightarrow> u32 \<Rightarrow> repl_state \<Rightarrow> bool \<times> repl_state" where
  "add_new_host name ent_num weight ai rr options st =
     (if ai_proximity ai = PROXIMITY_UNSUPPORTED then (True, st)
      else
        (let prx = (if ai_proximity ai \<noteq> PROXIMITY_LOCAL \<and> flag options (MOUNT_FLAG_USE_WEIGHT_ONLY OR MOUNT_FLAG_RANDOM_SELECT)
                    then PROXIMITY_SUBNET else ai_proximity ai)
         in if prx = PROXIMITY_ERROR \<or> ai_family ai = AF_OTHER then (False, st)
            else
              (case new_host (rl_brk st) name ent_num (if ai_family ai = AF_INET then INET_ADDRSTRLEN else INET6_ADDRSTRLEN)
                      prx weight options (rl_mem st) of
                 (None, m) \<Rightarrow> (False, st\<lparr>rl_mem := m\<rparr>)
               | (Some h, m) \<Rightarrow>
                   (True, st\<lparr>rl_hosts := add_host (rl_hosts st) (h\<lparr>ho_rr := rr\<rparr>), rl_brk := Suc (rl_brk st), rl_mem := m\<rparr>))))"

fun add_addrs :: "string \<Rightarrow> int \<Rightarrow> u32 \<Rightarrow> addrinfo list \<Rightarrow> nat \<Rightarrow> u32 \<Rightarrow> bool \<Rightarrow> repl_state \<Rightarrow> bool \<times> repl_state" where
  "add_addrs name ent_num weight [] rr options ret st = (ret, st)"
| "add_addrs name ent_num weight (ai # ais) rr options ret st =
     (case add_new_host name ent_num weight ai rr options st of
        (False, st1) \<Rightarrow> (False, st1)
      | (True, st1) \<Rightarrow> add_addrs name ent_num weight ais rr options True st1)"

text \<open>The name without the brackets of an IPv6 address; without a closing one it stays as it is.\<close>

definition strip_brackets :: "string \<Rightarrow> string" where
  "strip_brackets host =
     (if cstr_hd host = CHR ''['' \<and> List.last host = CHR '']'' then butlast (tl host) else host)"

definition round_robin :: "addrinfo list \<Rightarrow> nat" where
  "round_robin ais =
     (let rr = (\<lambda>f. length (filter (\<lambda>ai. ai_family ai = f \<and> ai_counts ai) ais))
      in if rr AF_INET > 1 \<or> rr AF_INET6 > 1 then 1 else 0)"

text \<open>
  \<open>add_host_addrs\<close>: when the name cannot be resolved, the pointer that is freed is the one moved
  behind the bracket.
\<close>

definition add_host_addrs ::
  "resolver \<Rightarrow> string \<Rightarrow> int \<Rightarrow> u32 \<Rightarrow> u32 \<Rightarrow> repl_state \<Rightarrow> repl_fault + bool \<times> repl_state" where
  "add_host_addrs rs host ent_num weight options st =
     (case malloc (rl_mem st) of
        (False, m) \<Rightarrow> Inr (False, st\<lparr>rl_mem := m\<rparr>)
      | (True, m) \<Rightarrow>
          (let name = strip_brackets host; st1 = st\<lparr>rl_mem := m\<rparr>
           in case rs_numeric rs name of
                Some ais \<Rightarrow> Inr (add_addrs host ent_num weight ais 0 options False st1)
              | None \<Rightarrow>
                  (case rs_name rs name of
                     None \<Rightarrow> if name \<noteq> host then Inl REPL_BAD_FREE else Inr (False, st1)
                   | Some ais \<Rightarrow> Inr (add_addrs host ent_num weight ais (round_robin ais) options False st1))))"

fun add_path :: "host list \<Rightarrow> string \<Rightarrow> mem \<Rightarrow> bool \<times> host list \<times> mem" where
  "add_path [] path m = (True, [], m)"
| "add_path (this # rest) path m =
     (if ho_path this = None then
        (case malloc m of
           (False, m1) \<Rightarrow> (False, this # rest, m1)
         | (True, m1) \<Rightarrow> (case add_path rest path m1 of (ok, rest1, m2) \<Rightarrow> (ok, this\<lparr>ho_path := Some path\<rparr> # rest1, m2)))
      else (case add_path rest path m of (ok, rest1, m1) \<Rightarrow> (ok, this # rest1, m1)))"

definition local_host :: "addr \<Rightarrow> string \<Rightarrow> host" where
  "local_host a path =
     \<lparr>ho_id = a, ho_name = None, ho_ent_num = 0, ho_addr_len = 0, ho_rr = 0, ho_path = Some path, ho_version = NFS_VERS_MASK,
      ho_options = 0, ho_proximity = PROXIMITY_LOCAL, ho_weight = 0, ho_cost = 0\<rparr>"

definition add_local_path :: "string \<Rightarrow> repl_state \<Rightarrow> bool \<times> repl_state" where
  "add_local_path path st =
     (case malloc (rl_mem st) of
        (False, m) \<Rightarrow> (False, st\<lparr>rl_mem := m\<rparr>)
      | (True, m) \<Rightarrow>
          (case malloc m of
             (False, m1) \<Rightarrow> (False, st\<lparr>rl_mem := m1\<rparr>)
           | (True, m1) \<Rightarrow>
               (True, st\<lparr>rl_hosts := add_host (rl_hosts st) (local_host (rl_brk st) path), rl_brk := Suc (rl_brk st), rl_mem := m1\<rparr>)))"


fun find_colon_slash :: "string \<Rightarrow> (string \<times> string) option" where
  "find_colon_slash [] = None"
| "find_colon_slash (c # s) =
     (if strncmp_eq (c # s) '':/'' 2 then Some ([], c # s)
      else (case find_colon_slash s of None \<Rightarrow> None | Some (pre, r) \<Rightarrow> Some (c # pre, r)))"

text \<open>\<open>seek_delim\<close>: what is in front of the delimiter and the string from there on.\<close>

definition no_delim :: "char \<Rightarrow> bool" where
  "no_delim c \<longleftrightarrow> c \<notin> set ''(, :'' \<and> c \<noteq> TAB"

definition seek_delim :: "string \<Rightarrow> (string \<times> string) option" where
  "seek_delim s =
     (let pre = takeWhile no_delim s; rest = dropWhile no_delim s
      in if rest \<noteq> [] \<and> hd rest \<noteq> CHR '':'' \<and> (pre = [] \<or> List.last pre \<noteq> BSLASH) then Some (pre, rest)
         else find_colon_slash s)"

text \<open>
  The path at the start of the string and what follows it: up to the last blank in front of the
  next \<open>:/\<close>. Without a blank the loop that goes back ends at the terminator written in front of the
  path, and the path itself comes next.
\<close>

definition split_path :: "string \<Rightarrow> string \<times> string" where
  "split_path s =
     (case find_colon_slash s of
        None \<Rightarrow> (s, [])
      | Some (a, _) \<Rightarrow>
          (let b = rev (dropWhile (\<lambda>c. c \<noteq> CHR '' '' \<and> c \<noteq> TAB) (rev a))
           in if b = [] then (s, s) else (butlast b, drop (length b) s)))"

text \<open>A weight in parentheses behind the name; \<open>None\<close> for a missing parenthesis.\<close>

definition host_weight :: "string \<Rightarrow> (int \<times> string) option" where
  "host_weight d =
     (if cstr_hd d = CHR ''('' then
        (case strchr (tl d) (CHR '')'') of
           None \<Rightarrow> None
         | Some r \<Rightarrow> Some (atoi (take (length (tl d) - length r) (tl d)), tl r))
      else Some (0, d))"

lemma find_colon_slash_append: "find_colon_slash s = Some (pre, r) \<Longrightarrow> s = pre @ r \<and> r \<noteq> []"
  by (induction s arbitrary: pre) (auto split: if_splits option.splits)

lemma seek_delim_append: "seek_delim s = Some (pre, r) \<Longrightarrow> s = pre @ r \<and> r \<noteq> []"
  using takeWhile_dropWhile_id [of no_delim s]
  by (auto simp del: takeWhile_dropWhile_id simp: seek_delim_def Let_def split: if_splits dest: find_colon_slash_append)

lemma host_weight_shorter: "host_weight d = Some (w, d1) \<Longrightarrow> length d1 \<le> length d"
  by (auto simp: host_weight_def split: if_splits option.splits dest!: strchr_Some_decomp) (cases d; auto)

lemma split_path_shorter: "length (snd (split_path s)) \<le> length s"
  by (auto simp: split_path_def Let_def split: option.split)

lemma blank_shorter: "length (dropWhile P p) \<le> length p"
  by (rule length_dropWhile_le)

text \<open>
  The loop of \<open>parse_location\<close>. The result is \<open>False\<close>, with all hosts freed, after a syntax error.
\<close>

function parse_loop ::
  "resolver \<Rightarrow> u32 \<Rightarrow> bool \<Rightarrow> int \<Rightarrow> string \<Rightarrow> repl_state \<Rightarrow> repl_fault + bool \<times> repl_state" where
  "parse_loop rs options none_yet ent_num p st =
     (if p = [] then Inr (True, st)
      else
        (case seek_delim (dropWhile (\<lambda>c. c = CHR '' '' \<or> c = TAB \<or> c = CHR '','') p) of
           None \<Rightarrow> Inr (False, st\<lparr>rl_hosts := []\<rparr>)
         | Some (name, d) \<Rightarrow>
             (case host_weight d of
                None \<Rightarrow> Inr (False, st\<lparr>rl_hosts := []\<rparr>)
              | Some (weight, d1) \<Rightarrow>
                  if cstr_hd d1 = CHR '':'' then
                    (case split_path (tl d1) of
                       (path, rest) \<Rightarrow>
                         if name = [] \<and> cstr_hd d \<noteq> CHR ''('' then
                           (case add_local_path path st of
                              (ok, st1) \<Rightarrow> parse_loop rs options none_yet (if ok then ent_num + 1 else ent_num) rest st1)
                         else
                           (case add_host_addrs rs name ent_num (word_of_int weight) options st of
                              Inl e \<Rightarrow> Inl e
                            | Inr (ok, st1) \<Rightarrow>
                                if \<not> ok \<and> none_yet then parse_loop rs options none_yet ent_num rest st1
                                else
                                  (case add_path (rl_hosts st1) path (rl_mem st1) of
                                     (False, _, m) \<Rightarrow> Inr (False, st1\<lparr>rl_hosts := [], rl_mem := m\<rparr>)
                                   | (True, hosts, m) \<Rightarrow>
                                       parse_loop rs options none_yet (ent_num + 1) rest (st1\<lparr>rl_hosts := hosts, rl_mem := m\<rparr>))))
                  else if d1 = [] then Inr (True, st)
                  else
                    (case add_host_addrs rs name ent_num (word_of_int weight) options st of
                       Inl e \<Rightarrow> Inl e
                     | Inr (False, st1) \<Rightarrow> parse_loop rs options none_yet ent_num (tl d1) st1
                     | Inr (True, st1) \<Rightarrow> parse_loop rs options False (ent_num + 1) (tl d1) st1))))"
  by pat_completeness auto
termination
proof -
  have less: "length d1 - Suc 0 < length p" if "seek_delim (dropWhile Q p) = Some (name, d)" "host_weight d = Some (w, d1)" for Q p name d w d1
  proof -
    have "length d \<le> length p" "d \<noteq> []" using seek_delim_append [OF that(1)] blank_shorter [of Q p] by (auto dest: arg_cong [of _ _ length])
    then show ?thesis using host_weight_shorter [OF that(2)] by (cases d1) auto
  qed
  have path: "length rest < length p" if "seek_delim (dropWhile Q p) = Some (name, d)" "host_weight d = Some (w, d1)"
    "split_path (tl d1) = (path, rest)" for Q p name d w d1 path rest
    using less [OF that(1,2)] split_path_shorter [of "tl d1"] that(3) by (auto dest: le_less_trans)
  show ?thesis
    by (relation "measure (\<lambda>(rs, options, none_yet, ent_num, p, st). length p)") (auto intro: less path [OF _ _ sym])
qed

declare parse_loop.simps [simp del]

definition parse_location :: "resolver \<Rightarrow> string option \<Rightarrow> u32 \<Rightarrow> repl_state \<Rightarrow> repl_fault + bool \<times> repl_state" where
  "parse_location rs location options st =
     (case location of
        None \<Rightarrow> Inr (False, st)
      | Some s \<Rightarrow>
          (case malloc (rl_mem st) of
             (False, m) \<Rightarrow> Inr (False, st\<lparr>rl_mem := m\<rparr>)
           | (True, m) \<Rightarrow> parse_loop rs options True 1 s (st\<lparr>rl_mem := m\<rparr>)))"

end
