(* ===== verification/Replicated_Props.thy ===== *)
theory Replicated_Props
  imports Replicated
begin

text \<open>
  Properties of the selection of servers: the order of the list, the choice of the version, who is
  probed, what a location stands for, and where the code misjudges a server.
\<close>

section \<open>The order of the list\<close>

definition before_eq :: "host \<Rightarrow> host \<Rightarrow> bool" where
  "before_eq a b \<longleftrightarrow> ho_proximity a < ho_proximity b \<or> ho_proximity a = ho_proximity b \<and> ho_cost a \<le> ho_cost b"

abbreviation host_order :: "host list \<Rightarrow> bool" where
  "host_order \<equiv> sorted_wrt before_eq"

lemma before_eq_trans: "before_eq a b \<Longrightarrow> before_eq b c \<Longrightarrow> before_eq a c"
  by (auto simp: before_eq_def)

lemma add_host_mset: "mset (add_host hosts h) = add_mset h (mset hosts)"
proof -
  let ?far = "dropWhile (closer h) hosts"
  have "mset hosts = mset (takeWhile (closer h) hosts) + (mset (takeWhile (cheaper h) ?far) + mset (dropWhile (cheaper h) ?far))"
    by (metis mset_append takeWhile_dropWhile_id)
  then show ?thesis by (simp add: add_host_def Let_def)
qed

lemma add_host_set [simp]: "set (add_host hosts h) = insert h (set hosts)"
  using arg_cong [OF add_host_mset, of set_mset] by simp

lemma sorted_dropWhile:
  assumes "sorted_wrt R xs" "x \<in> set (dropWhile P xs)"
  shows "dropWhile P xs \<noteq> [] \<and> \<not> P (hd (dropWhile P xs)) \<and> (x = hd (dropWhile P xs) \<or> R (hd (dropWhile P xs)) x)"
proof -
  obtain y ys where y: "dropWhile P xs = y # ys" using assms(2) by (cases "dropWhile P xs") auto
  moreover have "sorted_wrt R (y # ys)" using assms(1) y by (metis sorted_wrt_dropWhile)
  moreover have "\<not> P y" using y by (metis dropWhile_eq_Cons_conv)
  ultimately show ?thesis using assms(2) by auto
qed

lemma not_cheaper: "ho_proximity h \<le> ho_proximity y \<Longrightarrow> \<not> cheaper h y \<Longrightarrow> before_eq h y"
  by (auto simp: before_eq_def cheaper_def)

lemma not_closer: "\<not> closer h y \<Longrightarrow> x = y \<or> before_eq y x \<Longrightarrow> ho_proximity h \<le> ho_proximity x"
  by (auto simp: closer_def before_eq_def)

lemma add_host_order:
  assumes ord: "host_order hosts"
  shows "host_order (add_host hosts h)"
proof -
  let ?near = "takeWhile (closer h) hosts" and ?far = "dropWhile (closer h) hosts"
  let ?cheap = "takeWhile (cheaper h) ?far" and ?rest = "dropWhile (cheaper h) ?far"
  have split: "hosts = ?near @ ?cheap @ ?rest" by simp
  have this_ord: "host_order ?far" using ord by (metis append_take_drop_id dropWhile_eq_drop sorted_wrt_append)
  have near: "before_eq x h" if "x \<in> set ?near" for x using set_takeWhileD [OF that] by (auto simp: closer_def before_eq_def)
  have cheap: "before_eq x h" if "x \<in> set ?cheap" for x using set_takeWhileD [OF that] by (auto simp: cheaper_def before_eq_def)
  have far: "ho_proximity h \<le> ho_proximity x" if "x \<in> set ?far" for x
  proof -
    have "\<not> closer h (hd ?far)" "x = hd ?far \<or> before_eq (hd ?far) x" using sorted_dropWhile [OF ord that] by blast+
    then show ?thesis by (rule not_closer)
  qed
  have rest: "before_eq h x" if x: "x \<in> set ?rest" for x
  proof -
    have "x \<in> set ?far" using set_dropWhileD [OF x] .
    then have p: "ho_proximity h \<le> ho_proximity x" by (rule far)
    have y: "?rest \<noteq> []" "\<not> cheaper h (hd ?rest)" "x = hd ?rest \<or> before_eq (hd ?rest) x"
      using sorted_dropWhile [OF this_ord x] by blast+
    have "hd ?rest \<in> set ?far" using set_dropWhileD [OF hd_in_set [OF y(1)]] .
    then have "ho_proximity h \<le> ho_proximity (hd ?rest)" by (rule far)
    then have "before_eq h (hd ?rest)" using y(2) by (rule not_cheaper)
    then show ?thesis using y(3) before_eq_trans by blast
  qed
  have "host_order (?near @ ?cheap @ ?rest)" using ord split by simp
  then have "host_order ?near" "host_order ?cheap" "host_order ?rest"
    "\<forall>x \<in> set ?near. \<forall>y \<in> set ?cheap \<union> set ?rest. before_eq x y" "\<forall>x \<in> set ?cheap. \<forall>y \<in> set ?rest. before_eq x y"
    unfolding sorted_wrt_append set_append by blast+
  then show ?thesis unfolding add_host_def Let_def sorted_wrt_append set_append list.set sorted_wrt.simps
    using near cheap rest by blast
qed

lemma take_selected_order: "host_order new \<Longrightarrow> host_order (take_selected selected hosts new)"
  by (induction selected hosts new rule: take_selected.induct) (simp add: add_host_order)+

lemma take_rest_order: "host_order new \<Longrightarrow> host_order (take_rest net by_name selected port prev hosts new)"
  by (induction net by_name selected port prev hosts new rule: take_rest.induct)
     (auto simp: add_host_order split: prod.splits bool.splits)

section \<open>The choice of the version\<close>

lemma mymax_max [simp]: "mymax x y = max x y"
  by (simp add: mymax_def)

lemma mmax_max [simp]: "mmax x y z = max x (max y z)"
  by (auto simp: mmax_def max_def)

lemma select_version_best:
  "select_version hosts \<in> set version_choices \<and> (\<forall>v \<in> set version_choices. version_count hosts v \<le> version_count hosts (select_version hosts))"
proof -
  let ?n = "version_count hosts"
  define m where "m = max (max (?n NFS4_SUPPORTED) (max (?n NFS3_SUPPORTED) (?n NFS2_SUPPORTED)))
    (max (?n (push_bit 8 NFS4_SUPPORTED)) (max (?n (push_bit 8 NFS3_SUPPORTED)) (?n (push_bit 8 NFS2_SUPPORTED))))"
  have le: "\<forall>v \<in> set version_choices. ?n v \<le> m" by (auto simp: version_choices_def m_def)
  have "\<exists>v \<in> set version_choices. m = ?n v" by (simp add: version_choices_def m_def max_def)
  then obtain v where v: "find (\<lambda>v. m = ?n v) version_choices = Some v" by (metis (mono_tags, lifting) find_None_iff not_None_eq)
  then have "v \<in> set version_choices" "m = ?n v" by (auto simp: find_Some_iff)
  moreover have "select_version hosts = v" using v by (simp add: select_version_def Let_def m_def)
  ultimately show ?thesis using le by simp
qed


section \<open>Pruning\<close>

lemma host_cost_sel [simp]:
  "ho_id (host_cost h t) = ho_id h" "ho_name (host_cost h t) = ho_name h" "ho_proximity (host_cost h t) = ho_proximity h"
  "ho_version (host_cost h t) = ho_version h" "ho_ent_num (host_cost h t) = ho_ent_num h"
  by (simp_all add: host_cost_def Let_def)

lemma get_nfs_info_sel:
  "get_nfs_info rpc h proto version port = (s, h') \<Longrightarrow> ho_id h' = ho_id h \<and> ho_name h' = ho_name h \<and> ho_proximity h' = ho_proximity h"
  by (auto simp: get_nfs_info_def Let_def split: if_splits)

lemma get_vers_and_cost_sel:
  assumes "get_vers_and_cost rpc h version port = (b, h')"
  shows "ho_id h' = ho_id h \<and> ho_name h' = ho_name h \<and> ho_proximity h' = ho_proximity h"
  using assms by (auto simp: get_vers_and_cost_def Let_def split: if_splits prod.splits dest!: get_nfs_info_sel)

lemma get_supported_sel:
  assumes "get_supported_ver_and_cost rpc h version port = (b, h')"
  shows "ho_id h' = ho_id h \<and> ho_name h' = ho_name h \<and> ho_proximity h' = ho_proximity h"
  using assms by (auto simp: get_supported_ver_and_cost_def Let_def split: if_splits option.splits)

text \<open>
  The hosts that are left after the first probes: those in front that were passed over did not
  answer, the ones kept did and share one proximity.
\<close>

definition answers :: "(host \<Rightarrow> rpc_answers) \<Rightarrow> u32 \<Rightarrow> int \<Rightarrow> host \<Rightarrow> bool" where
  "answers net vers port h \<longleftrightarrow> ho_name h = None \<or> fst (get_vers_and_cost (net h) h vers port)"

definition probed :: "(host \<Rightarrow> rpc_answers) \<Rightarrow> u32 \<Rightarrow> int \<Rightarrow> host \<Rightarrow> host" where
  "probed net vers port h = (if ho_name h = None then h else snd (get_vers_and_cost (net h) h vers port))"

lemma probe_loop_step:
  "probe_loop net vers port prox kept (this # rest) =
     (if ho_proximity this \<noteq> prox then (kept, this # rest)
      else if answers net vers port this then probe_loop net vers port prox (kept @ [probed net vers port this]) rest
      else probe_loop net vers port (if kept = [] then (case rest of [] \<Rightarrow> prox | n # _ \<Rightarrow> ho_proximity n) else prox) kept rest)"
  by (cases "ho_name this = None"; cases "get_vers_and_cost (net this) this vers port"; cases "fst (get_vers_and_cost (net this) this vers port)")
     (auto simp: answers_def probed_def)

lemma probe_loop_more:
  assumes "kept \<noteq> []"
  shows "probe_loop net vers port prox kept hosts =
    (kept @ map (probed net vers port) (filter (answers net vers port) (takeWhile (\<lambda>h. ho_proximity h = prox) hosts)),
     dropWhile (\<lambda>h. ho_proximity h = prox) hosts)"
  using assms
proof (induction hosts arbitrary: kept)
  case (Cons this rest)
  then show ?case unfolding probe_loop_step by auto
qed simp

lemma probe_loop_first:
  "hosts \<noteq> [] \<Longrightarrow> prox = ho_proximity (hd hosts) \<Longrightarrow>
   (let up = dropWhile (\<lambda>h. \<not> answers net vers port h) hosts
    in probe_loop net vers port prox [] hosts =
      (if up = [] then ([], [])
       else (map (probed net vers port) (filter (answers net vers port) (takeWhile (\<lambda>h. ho_proximity h = ho_proximity (hd up)) up)),
             dropWhile (\<lambda>h. ho_proximity h = ho_proximity (hd up)) up)))"
proof (induction hosts arbitrary: prox)
  case (Cons this rest)
  show ?case
  proof (cases "answers net vers port this")
    case True
    then show ?thesis using Cons.prems(2) unfolding Let_def probe_loop_step by (simp add: probe_loop_more)
  next
    case False
    show ?thesis
    proof (cases rest)
      case Nil
      then show ?thesis using False Cons.prems(2) unfolding Let_def probe_loop_step by simp
    next
      case (Cons n r)
      then show ?thesis using False Cons.IH [of "ho_proximity n"] Cons.prems(2) unfolding Let_def probe_loop_step by simp
    qed
  qed
qed simp


lemma take_selected_set:
  "set (take_selected selected hosts new) =
     set new \<union> (\<lambda>h. h\<lparr>ho_version := selected\<rparr>) ` {h \<in> set hosts. flag (ho_version h) selected \<or> ho_proximity h = PROXIMITY_LOCAL}"
  by (induction selected hosts new rule: take_selected.induct) (auto simp: image_iff)

lemma take_rest_set:
  "set new \<subseteq> set (take_rest net by_name selected port prev hosts new)
   \<and> (\<forall>h \<in> set (take_rest net by_name selected port prev hosts new). h \<in> set new
       \<or> (ho_name h = None \<or> ho_version h = selected) \<and> (\<exists>g \<in> set hosts. ho_id g = ho_id h))"
proof (induction net by_name selected port prev hosts new rule: take_rest.induct)
  case (2 net by_name selected port prev this rest new)
  show ?case
  proof (cases "ho_name this = None \<or> by_name \<and> prev = Some (ho_ent_num this)")
    case True
    show ?thesis
    proof (cases "ho_name this = None")
      case True
      then show ?thesis using 2(1) by auto
    next
      case named: False
      then show ?thesis using 2(2) True by auto
    qed
  next
    case False
    obtain b this1 where g: "get_supported_ver_and_cost (net this) this selected port = (b, this1)" by fastforce
    have id: "ho_id this1 = ho_id this" using get_supported_sel [OF g] by simp
    show ?thesis
    proof (cases b)
      case True
      have IH: "set (add_host new (this1\<lparr>ho_version := selected\<rparr>)) \<subseteq> set (take_rest net by_name selected port (Some (ho_ent_num this)) rest (add_host new (this1\<lparr>ho_version := selected\<rparr>)))
          \<and> (\<forall>h \<in> set (take_rest net by_name selected port (Some (ho_ent_num this)) rest (add_host new (this1\<lparr>ho_version := selected\<rparr>))).
              h \<in> set (add_host new (this1\<lparr>ho_version := selected\<rparr>)) \<or> (ho_name h = None \<or> ho_version h = selected) \<and> (\<exists>g \<in> set rest. ho_id g = ho_id h))"
        using 2(3) False g True by auto
      have run: "take_rest net by_name selected port prev (this # rest) new =
          take_rest net by_name selected port (Some (ho_ent_num this)) rest (add_host new (this1\<lparr>ho_version := selected\<rparr>))"
        using False g True by auto
      show ?thesis unfolding run using IH id by auto
    next
      case nb: False
      then show ?thesis using 2(4) False g by auto
    qed
  qed
qed simp

text \<open>The hosts that are considered first, and those that answer at the closest proximity where one does.\<close>

definition remote_hosts :: "host list \<Rightarrow> host list" where
  "remote_hosts hosts = dropWhile (\<lambda>h. ho_proximity h = PROXIMITY_LOCAL) hosts"

definition responding :: "(host \<Rightarrow> rpc_answers) \<Rightarrow> u32 \<Rightarrow> int \<Rightarrow> host list \<Rightarrow> host list" where
  "responding net vers port hosts =
     (let up = dropWhile (\<lambda>h. \<not> answers net vers port h) (remote_hosts hosts)
      in map (probed net vers port) (filter (answers net vers port) (takeWhile (\<lambda>h. ho_proximity h = ho_proximity (hd up)) up)))"

lemma responding_Nil:
  "responding net vers port hosts = [] \<longleftrightarrow> (\<forall>h \<in> set (remote_hosts hosts). \<not> answers net vers port h)"
proof -
  define up where "up = dropWhile (\<lambda>h. \<not> answers net vers port h) (remote_hosts hosts)"
  have "up = [] \<longleftrightarrow> (\<forall>h \<in> set (remote_hosts hosts). \<not> answers net vers port h)" by (simp add: dropWhile_eq_Nil_conv up_def)
  moreover have "answers net vers port (hd up)" if "up \<noteq> []" using hd_dropWhile that unfolding up_def by blast
  ultimately show ?thesis unfolding responding_def Let_def up_def [symmetric] by (cases up) auto
qed



text \<open>A server that offers NFS version 3 and answers in the given time.\<close>

definition v3_server :: "nat \<Rightarrow> rpc_answers" where
  "v3_server t =
     \<lparr>rp_portmap = (\<lambda>_. 0), rp_port = (\<lambda>_ _. 0), rp_client = (\<lambda>_ _. 0), rp_ping = (\<lambda>_ v. if v = 3 then 1 else 0),
      rp_time = (\<lambda>_ _. t), rp_random = (\<lambda>_ _. 0)\<rparr>"

definition server :: "addr \<Rightarrow> string \<Rightarrow> host" where
  "server a name =
     \<lparr>ho_id = a, ho_name = Some name, ho_ent_num = 1, ho_addr_len = 16, ho_rr = 0, ho_path = Some ''/e'', ho_version = 0, ho_options = 0,
      ho_proximity = PROXIMITY_SUBNET, ho_weight = 0, ho_cost = 0\<rparr>"

lemmas probe_defs = get_vers_and_cost_def get_nfs_info_def probe_v4_def probe_v3_v2_def probe_old_def ping_version_def
  check_address_proto_def host_cost_def flag_def IS_ERR_def ERR_def unreachable_def unreachable_or_late_def error_status_def Let_def repl_consts repl_errors


section \<open>Misjudged servers\<close>

text \<open>
  a server further away that times out, or whose port refuses the connection, counts as a
  server of the selected version, and with the cost 0 it is put in front of all servers of its proximity.
\<close>

theorem silent_server_first:
  assumes "ho_weight h = 0" "\<not> flag (ho_options h) MOUNT_FLAG_USE_WEIGHT_ONLY"
    and "rp_portmap rpc IPPROTO_TCP = 0" "\<not> rp_port rpc IPPROTO_TCP 3 < 0"
    and "rp_client rpc IPPROTO_TCP 3 = 0 \<and> rp_ping rpc IPPROTO_TCP 3 = - ETIMEDOUT \<or> rp_client rpc IPPROTO_TCP 3 < 0 \<and> rp_client rpc IPPROTO_TCP 3 \<noteq> - EHOSTUNREACH"
    and "\<forall>x \<in> set new. ho_proximity h \<le> ho_proximity x"
  shows "get_supported_ver_and_cost rpc h NFS3_SUPPORTED 0 = (True, h\<lparr>ho_cost := 0\<rparr>)
    \<and> add_host new (h\<lparr>ho_cost := 0\<rparr>) = h\<lparr>ho_cost := 0\<rparr> # new"
proof
  show "get_supported_ver_and_cost rpc h NFS3_SUPPORTED 0 = (True, h\<lparr>ho_cost := 0\<rparr>)"
  proof -
    have fixed: "check_address_proto h NFS3_SUPPORTED" "\<not> flag NFS3_SUPPORTED UDP_SELECTED_MASK" "version_number NFS3_SUPPORTED = Some 3"
      by (simp_all add: check_address_proto_def flag_def version_number_def repl_consts)
    have cost: "host_cost h 0 = h\<lparr>ho_cost := 0\<rparr>" using assms(1,2) by (simp add: host_cost_def)
    from assms(5) show ?thesis
    proof
      assume "rp_client rpc IPPROTO_TCP 3 = 0 \<and> rp_ping rpc IPPROTO_TCP 3 = - ETIMEDOUT"
      then show ?thesis using assms(3,4) by (simp add: get_supported_ver_and_cost_def fixed cost Let_def repl_errors)
    next
      assume "rp_client rpc IPPROTO_TCP 3 < 0 \<and> rp_client rpc IPPROTO_TCP 3 \<noteq> - EHOSTUNREACH"
      then show ?thesis using assms(3,4) by (simp add: get_supported_ver_and_cost_def fixed cost Let_def)
    qed
  qed
  have "takeWhile (closer (h\<lparr>ho_cost := 0\<rparr>)) new = []" "dropWhile (closer (h\<lparr>ho_cost := 0\<rparr>)) new = new"
    using assms(6) by (cases new; simp add: closer_def)+
  then show "add_host new (h\<lparr>ho_cost := 0\<rparr>) = h\<lparr>ho_cost := 0\<rparr> # new"
    by (cases new) (simp_all add: add_host_def cheaper_def)
qed

theorem silent_server_first_witness:
  "get_supported_ver_and_cost ((v3_server 5)\<lparr>rp_ping := (\<lambda>_ _. - 110)\<rparr>) (server 0 ''a'') NFS3_SUPPORTED 0 = (True, server 0 ''a'')
   \<and> add_host [server 1 ''b''] (server 0 ''a'') = [server 0 ''a'', server 1 ''b'']"
  using silent_server_first [of "server 0 ''a''" "(v3_server 5)\<lparr>rp_ping := (\<lambda>_ _. - 110)\<rparr>" "[server 1 ''b'']"]
  by (simp add: server_def v3_server_def flag_def repl_errors)

text \<open>
  when the portmapper times out on the port of NFS version 4, the error stays in the mask of
  supported versions: a server that then answers for version 3 over TCP is taken for one that
  does not answer at all.
\<close>

theorem answering_server_dropped:
  assumes "rp_portmap rpc IPPROTO_TCP = 0" "rp_port rpc IPPROTO_TCP 4 = - ETIMEDOUT"
    and "rp_port rpc IPPROTO_TCP 3 = 0" "rp_client rpc IPPROTO_TCP 3 = 0" "rp_ping rpc IPPROTO_TCP 3 > 0"
  shows "\<not> fst (get_vers_and_cost rpc h (TCP_REQUESTED OR NFS3_SUPPORTED OR NFS4_SUPPORTED) 0)
    \<and> fst (get_vers_and_cost rpc h (TCP_REQUESTED OR NFS3_SUPPORTED) 0)"
  using assms by (auto simp: probe_defs)

theorem answering_server_dropped_witness:
  "\<not> fst (get_vers_and_cost ((v3_server 5)\<lparr>rp_port := (\<lambda>_ v. if v = 4 then - 110 else 0)\<rparr>) (server 0 ''a'')
        (TCP_REQUESTED OR NFS3_SUPPORTED OR NFS4_SUPPORTED) 0)"
  using answering_server_dropped [of "(v3_server 5)\<lparr>rp_port := (\<lambda>_ v. if v = 4 then - 110 else 0)\<rparr>" "server 0 ''a''"]
  by (simp add: v3_server_def repl_errors)

text \<open>
  a name in brackets that is no address and cannot be resolved is freed through the pointer
  behind the bracket, whatever the options and the hosts so far.
\<close>

theorem bracket_name_bad_free:
  assumes "rs_numeric rs n = None" "rs_name rs n = None" "CHR '','' \<notin> set n" "\<forall>c \<in> set n. no_delim c" "mem_ample (rl_mem st)"
  shows "parse_location rs (Some (''['' @ n @ '']:/'' @ p)) options st = Inl REPL_BAD_FREE"
proof -
  let ?name = "''['' @ n @ '']''" and ?st = "st\<lparr>rl_mem := malloc_rest (rl_mem st)\<rparr>"
  have nd: "\<forall>c \<in> set ?name. no_delim c" using assms(4) by (auto simp: no_delim_def TAB_def)
  have colon: "find_colon_slash (x @ '':/'' @ p) = Some (x, '':/'' @ p)" if "\<forall>c \<in> set x. c \<noteq> CHR '':''" for x
    using that by (induction x) (auto simp: strncmp_eq_def)
  have stop: "takeWhile no_delim ('':/'' @ p) = []" "dropWhile no_delim ('':/'' @ p) = '':/'' @ p" by (simp_all add: no_delim_def)
  have "takeWhile no_delim (?name @ '':/'' @ p) = ?name" "dropWhile no_delim (?name @ '':/'' @ p) = '':/'' @ p"
    using takeWhile_append2 [of ?name no_delim "'':/'' @ p"] dropWhile_append2 [of ?name no_delim "'':/'' @ p"] nd
    unfolding stop append_Nil2 by blast+
  then have seek: "seek_delim (?name @ '':/'' @ p) = Some (?name, '':/'' @ p)"
    unfolding seek_delim_def Let_def using colon [of ?name] nd unfolding no_delim_def by fastforce
  have skip: "dropWhile (\<lambda>c. c = CHR '' '' \<or> c = TAB \<or> c = CHR '','') (?name @ '':/'' @ p) = ?name @ '':/'' @ p" by (simp add: TAB_def)
  have strip: "strip_brackets ?name = n" by (simp add: strip_brackets_def)
  have add: "add_host_addrs rs ?name ent_num w options ?st = Inl REPL_BAD_FREE" for ent_num w
    using assms(1,2) mem_ample_malloc(1) [OF mem_ample_malloc(2) [OF assms(5)]] strip
    by (cases "malloc (malloc_rest (rl_mem st))") (auto simp: add_host_addrs_def)
  have w: "host_weight ('':/'' @ p) = Some (0, '':/'' @ p)" by (simp add: host_weight_def)
  obtain path rest where sp: "split_path (''/'' @ p) = (path, rest)" by fastforce
  have "parse_loop rs options True 1 (?name @ '':/'' @ p) ?st = Inl REPL_BAD_FREE"
    unfolding parse_loop.simps [of rs options True 1 "?name @ '':/'' @ p"] skip seek using w sp add by simp
  then show ?thesis using mem_ample_malloc(1) [OF assms(5)] by (cases "malloc (rl_mem st)") (simp add: parse_location_def)
qed

theorem bracket_name_bad_free_witness:
  "parse_location \<lparr>rs_numeric = (\<lambda>_. None), rs_name = (\<lambda>_. None)\<rparr> (Some ''[srv]:/e'') 0 \<lparr>rl_hosts = [], rl_brk = 0, rl_mem = []\<rparr> = Inl REPL_BAD_FREE"
  using bracket_name_bad_free [of "\<lparr>rs_numeric = (\<lambda>_. None), rs_name = (\<lambda>_. None)\<rparr>" "''srv''" "\<lparr>rl_hosts = [], rl_brk = 0, rl_mem = []\<rparr>" "''e''" 0]
  by (simp add: no_delim_def TAB_def)


section \<open>Locations\<close>

text \<open>A location with one server: its name, a weight and the path; several are separated by blanks.\<close>

type_synonym location = "string \<times> string option \<times> string"

definition weight_text :: "string option \<Rightarrow> string" where
  "weight_text w = (case w of None \<Rightarrow> [] | Some s \<Rightarrow> ''('' @ s @ '')'')"

fun location_text :: "location list \<Rightarrow> string" where
  "location_text [] = []"
| "location_text [(n, w, p)] = n @ weight_text w @ '':'' @ p"
| "location_text ((n, w, p) # l # ls) = n @ weight_text w @ '':'' @ p @ '' '' @ location_text (l # ls)"

definition word_part :: "char \<Rightarrow> bool" where
  "word_part c \<longleftrightarrow> c \<noteq> CHR '' '' \<and> c \<noteq> TAB \<and> c \<noteq> CHR '':''"

fun location_ok :: "resolver \<Rightarrow> location \<Rightarrow> bool" where
  "location_ok rs (n, w, p) \<longleftrightarrow>
     n \<noteq> [] \<and> (\<forall>c \<in> set n. no_delim c) \<and> List.last n \<noteq> BSLASH
     \<and> (\<forall>s. w = Some s \<longrightarrow> (\<forall>c \<in> set s. word_part c \<and> c \<noteq> CHR '')''))
     \<and> p \<noteq> [] \<and> hd p = CHR ''/'' \<and> CHR '':'' \<notin> set p
     \<and> rs_numeric rs (strip_brackets n) = None
     \<and> (\<exists>ai. rs_name rs (strip_brackets n) = Some [ai] \<and> ai_family ai \<noteq> AF_OTHER
          \<and> ai_proximity ai \<notin> {PROXIMITY_UNSUPPORTED, PROXIMITY_ERROR})"

definition location_host :: "resolver \<Rightarrow> location \<Rightarrow> int \<Rightarrow> addr \<Rightarrow> host" where
  "location_host rs l i a =
     (case l of (n, w, p) \<Rightarrow>
        (let ai = hd (the (rs_name rs (strip_brackets n)))
         in \<lparr>ho_id = a, ho_name = Some n, ho_ent_num = i,
             ho_addr_len = (if ai_family ai = AF_INET then INET_ADDRSTRLEN else INET6_ADDRSTRLEN), ho_rr = 0, ho_path = Some p,
             ho_version = 0, ho_options = 0, ho_proximity = ai_proximity ai,
             ho_weight = word_of_int (case w of None \<Rightarrow> 0 | Some s \<Rightarrow> atoi s), ho_cost = 0\<rparr>))"

fun location_hosts :: "resolver \<Rightarrow> location list \<Rightarrow> int \<Rightarrow> addr \<Rightarrow> host list \<Rightarrow> host list" where
  "location_hosts rs [] i a hosts = hosts"
| "location_hosts rs (l # ls) i a hosts = location_hosts rs ls (i + 1) (Suc a) (add_host hosts (location_host rs l i a))"

lemma find_colon: "CHR '':'' \<notin> set x \<Longrightarrow> find_colon_slash (x @ '':/'' @ r) = Some (x, '':/'' @ r)"
  by (induction x) (auto simp: strncmp_eq_def)

lemma find_no_colon: "CHR '':'' \<notin> set x \<Longrightarrow> find_colon_slash x = None"
  by (induction x) (auto simp: strncmp_eq_def)

lemma split_path_last: "CHR '':'' \<notin> set p \<Longrightarrow> split_path p = (p, [])"
  by (simp add: split_path_def find_no_colon)

lemma split_path_more:
  assumes "CHR '':'' \<notin> set p" "\<forall>c \<in> set x. word_part c"
  shows "split_path (p @ '' '' @ x @ '':/'' @ r) = (p, x @ '':/'' @ r)"
proof -
  let ?a = "p @ '' '' @ x" and ?P = "\<lambda>c. c \<noteq> CHR '' '' \<and> c \<noteq> TAB"
  have a: "CHR '':'' \<notin> set ?a" using assms by (auto simp: word_part_def)
  have "\<forall>c \<in> set (rev x). ?P c" using assms(2) by (simp add: word_part_def)
  then have "dropWhile ?P (rev x @ CHR '' '' # rev p) = dropWhile ?P (CHR '' '' # rev p)" by (intro dropWhile_append2) blast
  then have "dropWhile ?P (rev x @ CHR '' '' # rev p) = CHR '' '' # rev p" by simp
  then have b: "rev (dropWhile ?P (rev ?a)) = p @ '' ''" by simp
  have "find_colon_slash (p @ '' '' @ x @ '':/'' @ r) = Some (?a, '':/'' @ r)" using find_colon [OF a, of r] by simp
  then show ?thesis unfolding split_path_def Let_def using b by simp
qed

lemma add_path_done: "\<forall>h \<in> set hosts. ho_path h \<noteq> None \<Longrightarrow> add_path hosts path m = (True, hosts, m)"
  by (induction hosts) auto

lemma add_path_new:
  assumes "\<forall>h \<in> set (xs @ ys). ho_path h \<noteq> None" "ho_path h = None"
  shows "add_path (xs @ h # ys) path [] = (True, xs @ h\<lparr>ho_path := Some path\<rparr> # ys, [])"
  using assms by (induction xs) (auto simp: add_path_done)

lemma add_host_path:
  assumes "\<forall>x \<in> set hosts. ho_path x \<noteq> None" "ho_path h = None"
  shows "add_path (add_host hosts h) path [] = (True, add_host hosts (h\<lparr>ho_path := Some path\<rparr>), [])"
proof -
  have "closer (h\<lparr>ho_path := Some path\<rparr>) = closer h" "cheaper (h\<lparr>ho_path := Some path\<rparr>) = cheaper h"
    by (simp_all add: closer_def cheaper_def fun_eq_iff)
  moreover have "\<forall>x \<in> set ((takeWhile (closer h) hosts @ takeWhile (cheaper h) (dropWhile (closer h) hosts)) @ dropWhile (cheaper h) (dropWhile (closer h) hosts)).
      ho_path x \<noteq> None" using assms(1) by simp
  ultimately show ?thesis using add_path_new [OF _ assms(2)] unfolding add_host_def Let_def append_assoc by (metis append_assoc)
qed


lemma add_one_host:
  assumes ok: "location_ok rs (n, w, p)" and mem: "rl_mem st = []" and paths: "\<forall>h \<in> set (rl_hosts st). ho_path h \<noteq> None"
    and weight: "weight = (case w of None \<Rightarrow> 0 | Some s \<Rightarrow> atoi s)"
  obtains h st1 where "add_host_addrs rs n i (word_of_int weight) 0 st = Inr (True, st1)"
    "rl_mem st1 = []" "rl_brk st1 = Suc (rl_brk st)"
    "add_path (rl_hosts st1) p [] = (True, add_host (rl_hosts st) (location_host rs (n, w, p) i (rl_brk st)), [])"
proof -
  obtain ai where ai: "rs_name rs (strip_brackets n) = Some [ai]" "ai_family ai \<noteq> AF_OTHER" "ai_proximity ai \<noteq> PROXIMITY_UNSUPPORTED"
    "ai_proximity ai \<noteq> PROXIMITY_ERROR" and num: "rs_numeric rs (strip_brackets n) = None" using ok by auto
  let ?h = "(location_host rs (n, w, p) i (rl_brk st))\<lparr>ho_path := None\<rparr>"
  let ?st1 = "st\<lparr>rl_hosts := add_host (rl_hosts st) ?h, rl_brk := Suc (rl_brk st), rl_mem := []\<rparr>"
  have same: "st\<lparr>rl_mem := []\<rparr> = st" using mem by simp
  have rr: "round_robin [ai] = 0" by (simp add: round_robin_def Let_def)
  have "new_host (rl_brk st) n i (if ai_family ai = AF_INET then INET_ADDRSTRLEN else INET6_ADDRSTRLEN) (ai_proximity ai) (word_of_int weight) 0 [] = (Some ?h, [])"
    using ai(1) weight by (simp add: new_host_def location_host_def Let_def)
  moreover have "?h\<lparr>ho_rr := 0\<rparr> = ?h" by (simp add: location_host_def Let_def)
  ultimately have "add_new_host n i (word_of_int weight) ai 0 0 st = (True, ?st1)"
    using ai mem unfolding add_new_host_def Let_def by (simp add: flag_def)
  then have "add_host_addrs rs n i (word_of_int weight) 0 st = Inr (True, ?st1)"
    using num ai(1) mem rr by (simp add: add_host_addrs_def Let_def same)
  moreover have "?h\<lparr>ho_path := Some p\<rparr> = location_host rs (n, w, p) i (rl_brk st)" by (simp add: location_host_def Let_def)
  then have "add_path (rl_hosts ?st1) p [] = (True, add_host (rl_hosts st) (location_host rs (n, w, p) i (rl_brk st)), [])"
    using add_host_path [OF paths, of ?h p] by simp
  ultimately show thesis using that [of ?st1] by simp
qed

lemma seek_name:
  assumes "location_ok rs (n, w, p)"
  shows "seek_delim (dropWhile (\<lambda>c. c = CHR '' '' \<or> c = TAB \<or> c = CHR '','') (n @ weight_text w @ '':'' @ p @ r)) = Some (n, weight_text w @ '':'' @ p @ r)"
    "host_weight (weight_text w @ '':'' @ p @ r) = Some (case w of None \<Rightarrow> 0 | Some s \<Rightarrow> atoi s, '':'' @ p @ r)"
proof -
  let ?t = "weight_text w @ '':'' @ p @ r"
  obtain c n' where n: "n = c # n'" using assms by (cases n) auto
  have nd: "\<And>x. x \<in> set n \<Longrightarrow> no_delim x" and p: "hd p = CHR ''/''" "p \<noteq> []" and nl: "List.last n \<noteq> BSLASH" using assms by auto
  have skip: "dropWhile (\<lambda>c. c = CHR '' '' \<or> c = TAB \<or> c = CHR '','') (n @ ?t) = n @ ?t"
    using nd [of c] unfolding n no_delim_def by auto
  have tw: "takeWhile no_delim (n @ ?t) = n @ takeWhile no_delim ?t" "dropWhile no_delim (n @ ?t) = dropWhile no_delim ?t"
    using nd by (simp_all add: takeWhile_append2 dropWhile_append2)
  have stop: "takeWhile no_delim ?t = []" "dropWhile no_delim ?t = ?t"
    by (cases w; simp add: weight_text_def no_delim_def)+
  obtain p' where p': "p = CHR ''/'' # p'" using p by (cases p) auto
  have colon: "CHR '':'' \<notin> set n" using nd by (auto simp: no_delim_def)
  show "seek_delim (dropWhile (\<lambda>c. c = CHR '' '' \<or> c = TAB \<or> c = CHR '','') (n @ ?t)) = Some (n, ?t)"
  proof (cases w)
    case None
    then show ?thesis unfolding skip seek_delim_def Let_def tw stop using find_colon [OF colon, of "p' @ r"] p' by (simp add: weight_text_def)
  next
    case (Some s)
    then have "?t \<noteq> [] \<and> hd ?t \<noteq> CHR '':''" by (simp add: weight_text_def)
    then show ?thesis unfolding skip seek_delim_def Let_def tw stop using nl by simp
  qed
  show "host_weight ?t = Some (case w of None \<Rightarrow> 0 | Some s \<Rightarrow> atoi s, '':'' @ p @ r)"
  proof (cases w)
    case (Some s)
    then have "strchr (s @ CHR '')'' # CHR '':'' # p @ r) (CHR '')'') = Some (CHR '')'' # CHR '':'' # p @ r)"
      using assms by (intro strchr_append) auto
    then show ?thesis using Some by (simp add: host_weight_def weight_text_def)
  qed (simp add: host_weight_def weight_text_def)
qed

lemma location_text_start:
  assumes "location_ok rs (n, w, p)"
  shows "\<exists>x r. location_text ((n, w, p) # ls) = x @ '':/'' @ r \<and> (\<forall>c \<in> set x. word_part c)"
proof -
  obtain p' where p: "p = CHR ''/'' # p'" using assms by (cases p) auto
  have "\<forall>c \<in> set (n @ weight_text w). word_part c"
    using assms by (auto simp: no_delim_def word_part_def weight_text_def TAB_def split: option.splits)
  moreover obtain r where "location_text ((n, w, p) # ls) = (n @ weight_text w) @ '':'' @ p @ r" by (cases ls) auto
  ultimately show ?thesis unfolding p by (intro exI [of _ "n @ weight_text w"] exI [of _ "p' @ r"]) simp
qed

lemma parse_loop_locations:
  assumes "\<forall>l \<in> set ls. location_ok rs l" "rl_mem st = []" "\<forall>h \<in> set (rl_hosts st). ho_path h \<noteq> None"
  shows "\<exists>st'. parse_loop rs 0 True i (location_text ls) st = Inr (True, st') \<and> rl_hosts st' = location_hosts rs ls i (rl_brk st) (rl_hosts st)"
  using assms
proof (induction ls arbitrary: i st)
  case Nil
  then show ?case by (simp add: parse_loop.simps)
next
  case (Cons l ls)
  obtain n w p where l: "l = (n, w, p)" by (cases l) auto
  have ok: "location_ok rs (n, w, p)" using Cons.prems(1) l by simp
  obtain r where tx: "location_text ((n, w, p) # ls) = n @ weight_text w @ '':'' @ p @ r" and r: "r = (if ls = [] then [] else '' '' @ location_text ls)"
    by (cases ls) auto
  have sp: "split_path (p @ r) = (p, location_text ls)"
  proof (cases ls)
    case Nil
    then show ?thesis using split_path_last ok r by simp
  next
    case (Cons l' ls')
    obtain n' w' p' where l': "l' = (n', w', p')" by (cases l') auto
    obtain x q where x: "location_text ls = x @ '':/'' @ q" "\<forall>c \<in> set x. word_part c"
      using location_text_start [of rs n' w' p' ls'] Cons.prems(1) l' \<open>ls = l' # ls'\<close> by auto
    then show ?thesis using split_path_more [OF _ x(2), of p q] ok r \<open>ls = l' # ls'\<close> by simp
  qed
  obtain h st1 where add: "add_host_addrs rs n i (word_of_int (case w of None \<Rightarrow> 0 | Some s \<Rightarrow> atoi s)) 0 st = Inr (True, st1)"
    "rl_mem st1 = []" "rl_brk st1 = Suc (rl_brk st)"
    "add_path (rl_hosts st1) p [] = (True, add_host (rl_hosts st) (location_host rs (n, w, p) i (rl_brk st)), [])"
    using add_one_host [OF ok Cons.prems(2,3) refl] by metis
  let ?st = "st1\<lparr>rl_hosts := add_host (rl_hosts st) (location_host rs (n, w, p) i (rl_brk st)), rl_mem := []\<rparr>"
  have ne: "n @ weight_text w @ '':'' @ p @ r \<noteq> []" "n \<noteq> []" using ok by auto
  have step: "parse_loop rs 0 True i (location_text ((n, w, p) # ls)) st = parse_loop rs 0 True (i + 1) (location_text ls) ?st"
    unfolding tx parse_loop.simps [of rs 0 True i "n @ weight_text w @ '':'' @ p @ r"] seek_name(1) [OF ok, of r]
    using ne sp add seek_name(2) [OF ok, of r] by simp
  have "ho_path (location_host rs (n, w, p) i (rl_brk st)) \<noteq> None" by (simp add: location_host_def Let_def)
  then obtain st' where "parse_loop rs 0 True (i + 1) (location_text ls) ?st = Inr (True, st')"
    "rl_hosts st' = location_hosts rs ls (i + 1) (rl_brk ?st) (rl_hosts ?st)"
    using Cons.IH [of ?st "i + 1"] Cons.prems by auto
  then show ?case using step add(3) l by simp
qed



end
