(* ===== verification/Prune.thy ===== *)
theory Prune
  imports Lookup_File
begin

text \<open>
  Pruning the cache of a map after a read, from \<^verbatim>\<open>daemon/lookup.c\<close>: the path of an entry below
  the mount point, the search for a key in the caches of all sources, and the walk of
  \<open>lookup_prune_one_cache\<close>, which drops the entries that the read has not seen. A pointer to an
  entry is its address; a pass of the loop that uses the address of a freed entry is
  \<open>WILD_POINTER\<close>, and \<open>None\<close> stands for a walk that does not end. What is mounted where is an
  argument of the definitions (\<open>pe_real\<close>, \<open>pe_autofs\<close>: \<open>is_mounted\<close> with \<open>MNTS_REAL\<close> and
  \<open>MNTS_AUTOFS\<close>); the calls of \<open>rmdir_path\<close> are part of the result. The locks that the walk gives
  up and takes again are not modelled: the run is one without interference.
\<close>

section \<open>Paths of entries\<close>

definition make_browse_path :: "string \<Rightarrow> string \<Rightarrow> string option \<Rightarrow> mem \<Rightarrow> string option \<times> mem" where
  "make_browse_path root key pref m =
     (let k_start = (case pref of
                       None \<Rightarrow> Some key
                     | Some p \<Rightarrow>
                         if length p > length key then None
                         else if \<not> strncmp_eq key p (length p) then None
                         else Some (drop (length p) key))
      in case k_start of
           None \<Rightarrow> (None, m)
         | Some k \<Rightarrow>
             if strchr k (CHR ''/'') \<noteq> None then (None, m)
             else if length root + length k > KEY_MAX_LEN then (None, m)
             else
               (case malloc m of
                  (False, m1) \<Rightarrow> (None, m1)
                | (True, m1) \<Rightarrow> (Some (root @ ''/'' @ k), m1)))"

text \<open>The parts of the mount point that pruning uses.\<close>

record prune_point = mount_point +
  pp_path :: string
  pp_ghost :: bool
  pp_cache_all :: bool
  pp_positive_timeout :: time
  pp_dev :: u64

definition make_fullpath :: "prune_point \<Rightarrow> string \<Rightarrow> mem \<Rightarrow> string option \<times> mem" where
  "make_fullpath ap key m =
     (if cstr_hd key \<noteq> CHR ''/'' then make_browse_path (pp_path ap) key (mp_pref ap) m
      else if length key + 1 > KEY_MAX_LEN then (None, m)
      else
        (case malloc m of
           (False, m1) \<Rightarrow> (None, m1)
         | (True, m1) \<Rightarrow> (Some key, m1)))"

section \<open>Other sources\<close>

text \<open>
  \<open>lookup_source_valid_mapent\<close> with \<open>LKP_DISTINCT\<close>: the position of the first source that was read
  since the entry of the master map was updated and has the key, and the entry.
\<close>

fun lookup_source_valid_mapent :: "time \<Rightarrow> (time \<times> mapent_cache) list \<Rightarrow> string \<Rightarrow> (nat \<times> mapent) option" where
  "lookup_source_valid_mapent entry_age [] key = None"
| "lookup_source_valid_mapent entry_age ((age, mc) # maps) key =
     (let rest = map_option (\<lambda>(i, me). (Suc i, me)) (lookup_source_valid_mapent entry_age maps key)
      in if entry_age > age then rest
         else
           (case cache_lookup_distinct mc (Some key) of
              me # _ \<Rightarrow> Some (0, me)
            | [] \<Rightarrow> rest))"

text \<open>What a walk over the cache of source \<open>pe_own\<close> needs to know besides the cache.\<close>

record prune_env =
  pe_ap :: prune_point
  pe_entry_age :: time
  pe_maps :: "(time \<times> mapent_cache) list"
  pe_own :: nat
  pe_real :: "string \<Rightarrow> bool"
  pe_autofs :: "string \<Rightarrow> bool"

definition maps_with :: "prune_env \<Rightarrow> mapent_cache \<Rightarrow> (time \<times> mapent_cache) list" where
  "maps_with env mc = (pe_maps env)[pe_own env := (fst (pe_maps env ! pe_own env), mc)]"

section \<open>The walk\<close>

text \<open>\<open>cache_enumerate(mc, me)\<close> for the entry at an address.\<close>

definition advance :: "mapent_cache \<Rightarrow> addr \<Rightarrow> addr option" where
  "advance mc a = map_option me_id (found (cache_enumerate mc (deref mc a)))"

text \<open>An entry of an indirect map that is not pruned although it is old.\<close>

definition prune_skips :: "prune_point \<Rightarrow> time \<Rightarrow> mapent \<Rightarrow> bool" where
  "prune_skips ap age me \<longleftrightarrow>
     mp_indirect ap
     \<and> (cstr_hd (me_key me) = CHR ''/'' \<or> IS_MM_ROOT me
        \<or> \<not> (pp_ghost ap \<or> pp_cache_all ap) \<and> age - (me_age me + pp_positive_timeout ap) < 0)"

definition reset_status :: "mapent \<Rightarrow> mapent_cache \<Rightarrow> mapent_cache" where
  "reset_status me mc =
     (if me_mapent me \<noteq> None \<or> cache_lookup mc (Some ''*'') \<noteq> []
      then upd_entry (me_id me) (\<lambda>x. x\<lparr>me_status := 0\<rparr>) mc else mc)"

text \<open>
  The part between \<open>cache_writelock\<close> and \<open>cache_unlock\<close>: \<open>valid\<close> tells whether another source has the
  key. The second component is the call of \<open>rmdir_path\<close>, if there is one.
\<close>

definition prune_entry ::
  "prune_env \<Rightarrow> string \<Rightarrow> string \<Rightarrow> bool \<Rightarrow> mapent_cache \<Rightarrow> mapent_cache \<times> (string \<times> u64) list" where
  "prune_entry env key path valid mc =
     (case cache_lookup_distinct mc (Some key) of
        [] \<Rightarrow> (mc, [])
      | this # _ \<Rightarrow>
          if valid then (snd (cache_delete mc key), [])
          else if pe_autofs env path then (mc, [])
          else if me_ioctlfd this \<noteq> - 1 then (mc, [])
          else
            (let devid = (if mp_indirect (pe_ap env) then pp_dev (pe_ap env) else me_dev this)
             in case cache_delete mc key of
                  (status, mc1) \<Rightarrow>
                    (mc1, if status \<noteq> CHE_FAIL \<and> (\<not> mp_indirect (pe_ap env) \<or> pp_ghost (pe_ap env))
                          then [(path, devid)] else [])))"

text \<open>\<open>next_key = strdup(me->key)\<close> for the entry that follows.\<close>

definition dup_next_key :: "addr option \<Rightarrow> mapent_cache \<Rightarrow> string option \<times> mapent_cache" where
  "dup_next_key next mc =
     (case next of
        None \<Rightarrow> (None, mc)
      | Some n \<Rightarrow>
          (case malloc (mc_mem mc) of
             (False, m) \<Rightarrow> (None, mc\<lparr>mc_mem := m\<rparr>)
           | (True, m) \<Rightarrow> (map_option me_key (found (deref mc n)), mc\<lparr>mc_mem := m\<rparr>)))"

text \<open>One pass of the loop: the cache, the next entry and the directories removed.\<close>

definition prune_step ::
  "prune_env \<Rightarrow> time \<Rightarrow> mapent_cache \<Rightarrow> addr \<Rightarrow> fault + mapent_cache \<times> addr option \<times> (string \<times> u64) list" where
  "prune_step env age mc a =
     (case deref mc a of
        [] \<Rightarrow> Inl WILD_POINTER
      | me # _ \<Rightarrow>
          let go = (\<lambda>mc. Inr (mc, advance mc a, [])) in
          if me_age me \<ge> age then go (reset_status me mc)
          else if prune_skips (pe_ap env) age me then go mc
          else
            (case malloc (mc_mem mc) of
               (ok, m1) \<Rightarrow>
                 let mc1 = mc\<lparr>mc_mem := m1\<rparr> in
                 if \<not> ok \<or> strchr (me_key me) (CHR ''*'') \<noteq> None then go mc1
                 else
                   (case make_fullpath (pe_ap env) (me_key me) m1 of
                      (None, m2) \<Rightarrow> go (mc\<lparr>mc_mem := m2\<rparr>)
                    | (Some path, m2) \<Rightarrow>
                        let mc2 = mc\<lparr>mc_mem := m2\<rparr>;
                            (mc3, valid) =
                              (case lookup_source_valid_mapent (pe_entry_age env) (maps_with env mc2) (me_key me) of
                                 None \<Rightarrow> (mc2, False)
                               | Some (i, v) \<Rightarrow>
                                   if i = pe_own env then (upd_entry (me_id v) (\<lambda>x. x\<lparr>me_mapent := None\<rparr>) mc2, False)
                                   else (mc2, True))
                        in if \<not> valid \<and> pe_real env path then go mc3
                           else
                             (case dup_next_key (advance mc3 a) mc3 of
                                (next_key, mc4) \<Rightarrow>
                                  (case prune_entry env (me_key me) path valid mc4 of
                                     (mc5, dirs) \<Rightarrow>
                                       Inr (mc5,
                                            case next_key of
                                              None \<Rightarrow> advance mc3 a
                                            | Some k \<Rightarrow> map_option me_id (found (cache_lookup_distinct mc5 (Some k))),
                                            dirs))))))"

partial_function (option) prune_loop ::
  "prune_env \<Rightarrow> time \<Rightarrow> mapent_cache \<Rightarrow> addr option \<Rightarrow> (string \<times> u64) list \<Rightarrow> (fault + mapent_cache \<times> (string \<times> u64) list) option" where
  "prune_loop env age mc me dirs =
     (case me of
        None \<Rightarrow> Some (Inr (mc, dirs))
      | Some a \<Rightarrow>
          (case prune_step env age mc a of
             Inl e \<Rightarrow> Some (Inl e)
           | Inr (mc1, me1, ds) \<Rightarrow> prune_loop env age mc1 me1 (dirs @ ds)))"

definition lookup_prune_one_cache ::
  "prune_env \<Rightarrow> time \<Rightarrow> mapent_cache \<Rightarrow> (fault + mapent_cache \<times> (string \<times> u64) list) option" where
  "lookup_prune_one_cache env age mc =
     prune_loop env age mc (map_option me_id (found (cache_enumerate mc []))) []"

end
