(* ===== verification/Prune_Props.thy ===== *)
theory Prune_Props
  imports Prune
begin

text \<open>
  Pruning a cache. Where every key has one entry, the walk ends and each entry meets its fate:
  an entry of the last read stays, an old one is dropped unless something is mounted on it or
  it belongs to a multi-mount. Where a key has two entries (the maps of two sources that share
  a cache), the walk may go back to the first of them and never end.
\<close>

section \<open>Chains\<close>

lemma upd_chain_map_filter: "upd_chain a f c = List.map_filter (\<lambda>x. if me_id x = a then Some (f x) else Some x) c"
  by (induction c) (auto simp: map_filter_simps)

lemma filter_map_filter: "filter P c = List.map_filter (\<lambda>x. if P x then Some x else None) c"
  by (induction c) (auto simp: map_filter_simps)

lemma set_map_filter: "set (List.map_filter f c) = {y. \<exists>x \<in> set c. f x = Some y}"
  by (induction c) (auto simp: map_filter_simps split: option.splits)

lemma map_filter_append: "List.map_filter f (xs @ ys) = List.map_filter f xs @ List.map_filter f ys"
  by (simp add: List.map_filter_def)

lemma map_filter_concat: "concat (map (List.map_filter f) cs) = List.map_filter f (concat cs)"
  by (induction cs) (auto simp: map_filter_simps map_filter_append)

lemma map_filter_filter:
  "(\<And>x y. f x = Some y \<Longrightarrow> P y = P x) \<Longrightarrow> filter P (List.map_filter f c) = List.map_filter f (filter P c)"
  by (induction c) (auto simp: map_filter_simps split: option.splits)

lemma map_filter_comp:
  "List.map_filter g (List.map_filter f c) = List.map_filter (\<lambda>x. Option.bind (f x) g) c"
  by (induction c) (auto simp: map_filter_simps split: option.splits)

lemma map_filter_cong: "(\<And>x. x \<in> set c \<Longrightarrow> f x = g x) \<Longrightarrow> List.map_filter f c = List.map_filter g c"
  by (induction c) (auto simp: map_filter_simps split: option.split)

lemma map_filter_id: "(\<And>x. x \<in> set c \<Longrightarrow> f x = Some x) \<Longrightarrow> List.map_filter f c = c"
  by (induction c) (auto simp: map_filter_simps)

lemma distinct_mapped_filter:
  "distinct (map h c) \<Longrightarrow> (\<And>x y. f x = Some y \<Longrightarrow> h y = h x) \<Longrightarrow> distinct (map h (List.map_filter f c))"
proof (induction c)
  case (Cons x c)
  have "h ` set (List.map_filter f c) \<subseteq> h ` set c" using Cons.prems(2) by (fastforce simp: set_map_filter)
  then show ?case using Cons by (auto simp: map_filter_simps split: option.splits)
qed (simp add: map_filter_simps)

lemma delete_tail_filter:
  "\<forall>e \<in> set c. me_key e = key \<longrightarrow> \<not> IS_MM e \<Longrightarrow> \<exists>d. delete_tail key c = (True, filter (\<lambda>e. me_key e \<noteq> key) c, d)"
  by (induction c) auto

lemma delete_chain_filter:
  "\<forall>e \<in> set c. me_key e = key \<longrightarrow> \<not> IS_MM e \<Longrightarrow> \<exists>d. delete_chain key c = (True, filter (\<lambda>e. me_key e \<noteq> key) c, d)"
  by (cases c) (auto dest: delete_tail_filter)

section \<open>Addresses and the enumeration\<close>

lemma deref_in_append:
  "deref_in a (xs @ ys) = (if deref_in a xs = [] then deref_in a ys else deref_in a xs)"
  by (induction xs) (auto split: list.splits)

lemma deref_in_absent: "\<forall>c \<in> set cs. \<forall>e \<in> set c. me_id e \<noteq> a \<Longrightarrow> deref_in a cs = []"
  by (induction cs) (auto simp: chain_find_Nil_iff split: list.splits dest: chain_find_set chain_find_hd)

lemma deref_suffix:
  assumes ok: "cache_ok mc" and i: "i < length (mc_hash mc)" and c: "mc_hash mc ! i = pre @ e # r"
  shows "deref mc (me_id e) = e # r"
proof -
  let ?H = "mc_hash mc"
  have H: "?H = take i ?H @ (pre @ e # r) # drop (Suc i) ?H" using i c by (metis id_take_nth_drop)
  have "distinct (map me_id (concat ?H))" using ok by (auto simp: cache_ok_def entries_def)
  then have "me_id e \<notin> me_id ` set (concat (take i ?H) @ pre)" by (subst (asm) H) (simp add: image_Un)
  then have before: "\<forall>x \<in> set (concat (take i ?H) @ pre). me_id x \<noteq> me_id e" by (metis imageI)
  then have "deref_in (me_id e) (take i ?H) = []" by (intro deref_in_absent) auto
  moreover have "chain_find (\<lambda>x. me_id x = me_id e) (pre @ e # r) = e # r"
    using before by (simp add: chain_find_append chain_find_Nil_iff)
  ultimately show ?thesis unfolding deref_def by (subst H) (simp add: deref_in_append)
qed

lemma advance_primaries:
  assumes ok: "cache_ok mc" and p: "primaries mc = xs @ e # ys"
  shows "found (deref mc (me_id e)) = Some e" "advance mc (me_id e) = (case ys of [] \<Rightarrow> None | n # _ \<Rightarrow> Some (me_id n))"
proof -
  have "primaries mc ! length xs = e" "drop (Suc (length xs)) (primaries mc) = ys" using p by auto
  with enum_iter_at [OF ok, of "length xs"] p obtain r where at: "enum_at (mc_hash mc) (e # r) ys" by auto
  then obtain i pre where "i < length (mc_hash mc)" "mc_hash mc ! i = pre @ e # r" unfolding enum_at_def by blast
  then have d: "deref mc (me_id e) = e # r" using deref_suffix [OF ok] by blast
  then show "found (deref mc (me_id e)) = Some e" by (simp add: found_def)
  show "advance mc (me_id e) = (case ys of [] \<Rightarrow> None | n # _ \<Rightarrow> Some (me_id n))"
    using enum_at_next [OF ok at] by (auto simp: advance_def cache_enumerate_def d found_def split: list.splits)
qed

section \<open>The fate of an entry\<close>

text \<open>The path of a key when memory does not run out.\<close>

definition full_path :: "prune_point \<Rightarrow> string \<Rightarrow> string option" where
  "full_path ap key = fst (make_fullpath ap key [])"

lemma make_fullpath_ample:
  assumes "mem_ample m"
  obtains m' where "make_fullpath ap key m = (full_path ap key, m')" "mem_ample m'"
proof -
  obtain m1 where "malloc m = (True, m1)" "mem_ample m1" using mem_ampleE [OF assms] .
  then have "fst (make_fullpath ap key m) = full_path ap key" "mem_ample (snd (make_fullpath ap key m))"
    using assms by (auto simp: make_fullpath_def full_path_def make_browse_path_def Let_def split: option.splits)
  with that [of "snd (make_fullpath ap key m)"] show ?thesis by (metis prod.collapse)
qed

text \<open>A source that was read since the entry of the master map was updated; one that hides the pruned cache.\<close>

definition was_read :: "prune_env \<Rightarrow> nat \<Rightarrow> bool" where
  "was_read env j \<longleftrightarrow> pe_entry_age env \<le> fst (pe_maps env ! j)"

definition elsewhere :: "prune_env \<Rightarrow> string \<Rightarrow> bool" where
  "elsewhere env key \<longleftrightarrow>
     (\<exists>j < length (pe_maps env). j \<noteq> pe_own env \<and> was_read env j \<and> cached (snd (pe_maps env ! j)) key \<noteq> None
        \<and> (j < pe_own env \<or> \<not> was_read env (pe_own env)))"

definition gone_or_marked :: "prune_env \<Rightarrow> string \<Rightarrow> mapent \<Rightarrow> mapent option" where
  "gone_or_marked env path e =
     (if elsewhere env (me_key e) then if IS_MM e then Some e else None
      else if pe_real env path \<or> pe_autofs env path \<or> me_ioctlfd e \<noteq> - 1 \<or> IS_MM e
      then Some (if was_read env (pe_own env) then e\<lparr>me_mapent := None\<rparr> else e)
      else None)"

text \<open>What becomes of a primary entry; \<open>wild\<close> tells whether the cache has a wildcard.\<close>

definition fate :: "prune_env \<Rightarrow> time \<Rightarrow> bool \<Rightarrow> mapent \<Rightarrow> mapent option" where
  "fate env age wild e =
     (if me_age e \<ge> age then Some (if me_mapent e \<noteq> None \<or> wild then e\<lparr>me_status := 0\<rparr> else e)
      else if prune_skips (pe_ap env) age e \<or> CHR ''*'' \<in> set (me_key e) then Some e
      else case full_path (pe_ap env) (me_key e) of None \<Rightarrow> Some e | Some path \<Rightarrow> gone_or_marked env path e)"

text \<open>The directory removed with it.\<close>

definition gone_dir :: "prune_env \<Rightarrow> time \<Rightarrow> mapent \<Rightarrow> (string \<times> u64) list" where
  "gone_dir env age e =
     (if fate env age False e = None \<and> \<not> elsewhere env (me_key e) \<and> (\<not> mp_indirect (pe_ap env) \<or> pp_ghost (pe_ap env))
      then [(the (full_path (pe_ap env) (me_key e)), if mp_indirect (pe_ap env) then pp_dev (pe_ap env) else me_dev e)]
      else [])"

lemma fate_Some:
  assumes "fate env age wild e = Some x"
  shows "me_id x = me_id e" "me_key x = me_key e" "primary x = primary e"
  using assms by (auto simp: fate_def gone_or_marked_def primary_def IS_MM_def IS_MM_ROOT_def split: if_splits option.splits)

lemma fate_wild: "CHR ''*'' \<in> set (me_key e) \<Longrightarrow> fate env age wild e \<noteq> None"
  by (simp add: fate_def)

lemma valid_mapent_Some:
  "lookup_source_valid_mapent t maps key = Some (i, v) \<longleftrightarrow>
     i < length maps \<and> t \<le> fst (maps ! i) \<and> cached (snd (maps ! i)) key = Some v
     \<and> (\<forall>j < i. t \<le> fst (maps ! j) \<longrightarrow> cached (snd (maps ! j)) key = None)"
proof (induction t maps key arbitrary: i rule: lookup_source_valid_mapent.induct)
  case (2 t age mc maps key)
  show ?case
  proof (cases i)
    case 0
    then show ?thesis by (auto simp: Let_def cached_def found_def split: list.splits option.splits)
  next
    case (Suc i')
    have "lookup_source_valid_mapent t ((age, mc) # maps) key = Some (i, v) \<longleftrightarrow>
        (t \<le> age \<longrightarrow> cached mc key = None) \<and> lookup_source_valid_mapent t maps key = Some (i', v)"
      using Suc by (auto simp: Let_def cached_def found_def split: list.splits)
    with Suc show ?thesis using 2 [of i'] by (auto simp: less_Suc_eq_0_disj)
  qed
qed simp

lemma valid_mapent_None:
  "lookup_source_valid_mapent t maps key = None \<longleftrightarrow>
     (\<forall>j < length maps. t \<le> fst (maps ! j) \<longrightarrow> cached (snd (maps ! j)) key = None)"
proof (induction t maps key rule: lookup_source_valid_mapent.induct)
  case (2 t age mc maps key)
  have "lookup_source_valid_mapent t ((age, mc) # maps) key = None \<longleftrightarrow>
      (t \<le> age \<longrightarrow> cached mc key = None) \<and> lookup_source_valid_mapent t maps key = None"
    by (auto simp: Let_def cached_def found_def split: list.splits)
  then show ?case using 2 by (auto simp: less_Suc_eq_0_disj All_less_Suc2)
qed simp

section \<open>One pass\<close>

text \<open>A cache in which every key has one entry, and no allocation fails.\<close>

definition walk_ok :: "mapent_cache \<Rightarrow> bool" where
  "walk_ok mc \<longleftrightarrow> cache_ok mc \<and> mem_ample (mc_mem mc) \<and> distinct (map me_key (concat (mc_hash mc)))"

lemma walk_ok_mem: "walk_ok mc \<Longrightarrow> mem_ample m \<Longrightarrow> walk_ok (mc\<lparr>mc_mem := m\<rparr>)"
  by (simp add: walk_ok_def)

lemma concat_hash_bucket: "cache_ok mc \<Longrightarrow> x \<in> set (concat (mc_hash mc)) \<Longrightarrow> x \<in> set (bucket mc (me_key x))"
proof -
  assume ok: "cache_ok mc" and "x \<in> set (concat (mc_hash mc))"
  then obtain c where c: "c \<in> set (mc_hash mc)" "x \<in> set c" by auto
  then obtain i where i: "i < length (mc_hash mc)" "c = mc_hash mc ! i" unfolding in_set_conv_nth by blast
  then have "unat (hash (me_key x) (mc_size mc)) = i" using ok c(2) unfolding cache_ok_def bucket_ok_def by blast
  then show "x \<in> set (bucket mc (me_key x))" using c(2) i(2) by (simp add: bucket_def)
qed

lemma walk_unique:
  "walk_ok mc \<Longrightarrow> e \<in> set (concat (mc_hash mc)) \<Longrightarrow> c \<in> set (mc_hash mc) \<Longrightarrow> x \<in> set c \<Longrightarrow> me_id x = me_id e \<Longrightarrow> x = e"
  by (rule entry_unique [of mc]) (auto simp: walk_ok_def entries_def)

lemma walk_cached:
  assumes "walk_ok mc"
  shows "cached mc k = Some x \<longleftrightarrow> x \<in> set (concat (mc_hash mc)) \<and> me_key x = k"
proof
  assume "cached mc k = Some x"
  then show "x \<in> set (concat (mc_hash mc)) \<and> me_key x = k"
    using cached_Some(1,2) cache_ok_hash_index [of mc k] assms by (force simp: walk_ok_def bucket_def)
next
  assume x: "x \<in> set (concat (mc_hash mc)) \<and> me_key x = k"
  then have b: "x \<in> set (bucket mc k)" using concat_hash_bucket assms by (auto simp: walk_ok_def)
  then obtain y where y: "cached mc k = Some y" using cached_None_iff [of mc k] x by blast
  then have "y \<in> set (concat (mc_hash mc))" "me_key y = k"
    using cached_Some(1,2) cache_ok_hash_index [of mc k] assms by (force simp: walk_ok_def bucket_def)+
  then have "y = x" using x assms by (auto simp: walk_ok_def distinct_map dest: inj_onD)
  with y show "cached mc k = Some x" by simp
qed

text \<open>The entry at an address is replaced or taken away.\<close>

definition edited :: "mapent \<Rightarrow> mapent option \<Rightarrow> mapent_cache \<Rightarrow> mapent_cache \<Rightarrow> bool" where
  "edited e r mc mc' \<longleftrightarrow>
     walk_ok mc' \<and> mc_size mc' = mc_size mc
     \<and> mc_hash mc' = map (List.map_filter (\<lambda>x. if me_id x = me_id e then r else Some x)) (mc_hash mc)"

lemma edited_same: "walk_ok mc \<Longrightarrow> e \<in> set (concat (mc_hash mc)) \<Longrightarrow> mem_ample m \<Longrightarrow> edited e (Some e) mc (mc\<lparr>mc_mem := m\<rparr>)"
proof -
  assume w: "walk_ok mc" and e: "e \<in> set (concat (mc_hash mc))" and m: "mem_ample m"
  have "List.map_filter (\<lambda>x. if me_id x = me_id e then Some e else Some x) c = c" if "c \<in> set (mc_hash mc)" for c
    using walk_unique [OF w e that] by (intro map_filter_id) auto
  then show ?thesis using walk_ok_mem [OF w m] by (simp add: edited_def map_idI)
qed

lemma edited_upd:
  assumes w: "walk_ok mc" and e: "e \<in> set (concat (mc_hash mc))" and f: "\<And>x. same_identity (f x) x"
  shows "edited e (Some (f e)) mc (upd_entry (me_id e) f mc)"
proof -
  have ok: "cache_ok mc" using w by (simp add: walk_ok_def)
  have h: "mc_hash (upd_entry (me_id e) f mc) =
      map (List.map_filter (\<lambda>x. if me_id x = me_id e then Some (f e) else Some x)) (mc_hash mc)"
    unfolding upd_entry_def upd_chain_map_filter by (auto intro!: map_filter_cong dest: walk_unique [OF w e])
  have "cache_ok (upd_entry (me_id e) f mc)" using ok f by (intro upd_entry_ok) auto
  moreover have "distinct (map me_key (concat (mc_hash (upd_entry (me_id e) f mc))))"
    using w upd_chain_proj [of _ "me_id e" me_key f] f
    by (simp add: walk_ok_def upd_entry_def upd_chain_concat same_identity_def)
  ultimately show ?thesis using w h by (simp add: edited_def walk_ok_def upd_entry_sel)
qed

lemma walk_key_unique:
  "walk_ok mc \<Longrightarrow> e \<in> set (concat (mc_hash mc)) \<Longrightarrow> c \<in> set (mc_hash mc) \<Longrightarrow> x \<in> set c \<Longrightarrow> me_key x = me_key e \<Longrightarrow> x = e"
  unfolding walk_ok_def distinct_map by (meson UN_I inj_onD set_concat [THEN equalityD2, THEN subsetD])

lemma edited_delete:
  assumes w: "walk_ok mc" and e: "e \<in> set (concat (mc_hash mc))" and mm: "\<not> IS_MM e"
  shows "fst (cache_delete mc (me_key e)) = CHE_OK" "edited e None mc (snd (cache_delete mc (me_key e)))"
proof -
  let ?i = "unat (hash (me_key e) (mc_size mc))" and ?H = "mc_hash mc"
  have ok: "cache_ok mc" using w by (simp add: walk_ok_def)
  have i: "?i < length ?H" using cache_ok_hash_index [OF ok] .
  have only: "\<forall>x \<in> set (?H ! ?i). me_key x = me_key e \<longrightarrow> x = e" using walk_key_unique [OF w e nth_mem [OF i]] by blast
  then obtain d where d: "delete_chain (me_key e) (?H ! ?i) = (True, filter (\<lambda>x. me_key x \<noteq> me_key e) (?H ! ?i), d)"
    using delete_chain_filter [of "?H ! ?i" "me_key e"] mm by blast
  then show "fst (cache_delete mc (me_key e)) = CHE_OK" by (simp add: cache_delete_def Let_def)
  let ?g = "List.map_filter (\<lambda>x. if me_id x = me_id e then None else Some x)"
  have chain: "?g c = (if j = ?i then filter (\<lambda>x. me_key x \<noteq> me_key e) c else c)"
    if j: "j < length ?H" "c = ?H ! j" for c j
  proof -
    have c: "c \<in> set ?H" using j by simp
    have key: "me_key x = me_key e \<longleftrightarrow> me_id x = me_id e" if "x \<in> set c" for x
      using walk_unique [OF w e c that] walk_key_unique [OF w e c that] by auto
    have "unat (hash (me_key x) (mc_size mc)) = j" if "x \<in> set c" for x
      using ok j that unfolding cache_ok_def bucket_ok_def by blast
    then have out: "me_id x \<noteq> me_id e" if "x \<in> set c" "j \<noteq> ?i" for x
      using that key [OF that(1)] by metis
    show ?thesis using key out by (auto simp: filter_map_filter intro!: map_filter_cong map_filter_id)
  qed
  have "mc_hash (snd (cache_delete mc (me_key e))) = ?H[?i := filter (\<lambda>x. me_key x \<noteq> me_key e) (?H ! ?i)]"
    using d by (simp add: cache_delete_def Let_def)
  also have "\<dots> = map ?g ?H"
    using chain by (intro nth_equalityI) (auto simp: nth_list_update)
  finally have h: "mc_hash (snd (cache_delete mc (me_key e))) = map ?g ?H" .
  have "distinct (map me_key (concat (map ?g ?H)))"
    using w unfolding map_filter_concat by (intro distinct_mapped_filter) (auto simp: walk_ok_def split: if_splits)
  then show "edited e None mc (snd (cache_delete mc (me_key e)))"
    using w h cache_delete_ok [OF ok, of "me_key e"] d by (simp add: edited_def walk_ok_def) (simp add: cache_delete_def Let_def)
qed

lemma delete_tail_MM:
  "filter (\<lambda>x. me_key x = key) c = [e] \<Longrightarrow> IS_MM e \<Longrightarrow> delete_tail key c = (False, c, [])"
  by (induction c) (auto split: if_splits)

lemma delete_chain_MM:
  assumes "filter (\<lambda>x. me_key x = key) c = [e]" "IS_MM e"
  shows "delete_chain key c = (False, c, [])"
proof (cases c)
  case (Cons x c')
  show ?thesis
  proof (cases "me_key x = key")
    case True
    then have "filter (\<lambda>x. me_key x = key) c' = []" "x = e" using assms Cons by auto
    then have none: "\<forall>y \<in> set c'. me_key y \<noteq> key" by (simp add: filter_empty_conv)
    then obtain d where "delete_tail key c' = (True, c', d)" using delete_tail_filter [of c' key] by auto
    moreover have "d = []" using calculation delete_tail_removes [of key c'] none by (auto simp: removes_def)
    ultimately show ?thesis using Cons True \<open>x = e\<close> assms(2) by simp
  next
    case False
    then show ?thesis using assms Cons delete_tail_MM [of key c' e] by simp
  qed
qed (use assms in simp)

lemma filter_only: "distinct c \<Longrightarrow> \<forall>x \<in> set c. P x \<longleftrightarrow> x = e \<Longrightarrow> e \<in> set c \<Longrightarrow> filter P c = [e]"
proof (induction c)
  case (Cons x c)
  show ?case
  proof (cases "x = e")
    case True
    then have "\<forall>y \<in> set c. \<not> P y" using Cons.prems by auto
    then show ?thesis using True Cons.prems by (simp add: filter_empty_conv)
  next
    case False
    then show ?thesis using Cons by auto
  qed
qed simp

lemma walk_delete_MM:
  assumes w: "walk_ok mc" and e: "e \<in> set (concat (mc_hash mc))" and mm: "IS_MM e"
  shows "cache_delete mc (me_key e) = (CHE_FAIL, mc)"
proof -
  let ?i = "unat (hash (me_key e) (mc_size mc))" and ?H = "mc_hash mc"
  have i: "?i < length ?H" using w cache_ok_hash_index by (simp add: walk_ok_def)
  have mem: "e \<in> set (?H ! ?i)" using concat_hash_bucket [OF _ e] w by (simp add: walk_ok_def bucket_def)
  have "distinct (map me_key (concat ?H))" using w by (simp add: walk_ok_def)
  then have "distinct (?H ! ?i)" using nth_mem [OF i] by (simp add: distinct_concat_iff distinct_map)
  moreover have "\<forall>x \<in> set (?H ! ?i). me_key x = me_key e \<longleftrightarrow> x = e" using walk_key_unique [OF w e nth_mem [OF i]] by blast
  ultimately have "filter (\<lambda>x. me_key x = me_key e) (?H ! ?i) = [e]" using mem by (intro filter_only)
  then show ?thesis using delete_chain_MM [OF _ mm] by (simp add: cache_delete_def Let_def)
qed

lemma valid_own:
  assumes c: "cached mc key = Some e" and own: "pe_own env < length (pe_maps env)"
  shows "case lookup_source_valid_mapent (pe_entry_age env) (maps_with env mc) key of
      None \<Rightarrow> \<not> elsewhere env key \<and> \<not> was_read env (pe_own env)
    | Some (i, v) \<Rightarrow> if i = pe_own env then v = e \<and> \<not> elsewhere env key \<and> was_read env (pe_own env) else elsewhere env key"
proof -
  let ?t = "pe_entry_age env" and ?ms = "maps_with env mc" and ?own = "pe_own env"
  have own_at: "?ms ! ?own = (fst (pe_maps env ! ?own), mc)" and len: "length ?ms = length (pe_maps env)"
    and other: "j \<noteq> ?own \<Longrightarrow> ?ms ! j = pe_maps env ! j" for j
    using own by (simp_all add: maps_with_def)
  show ?thesis
  proof (cases "lookup_source_valid_mapent ?t ?ms key")
    case None
    then have none: "\<forall>j < length ?ms. ?t \<le> fst (?ms ! j) \<longrightarrow> cached (snd (?ms ! j)) key = None" by (simp add: valid_mapent_None)
    have "\<not> was_read env ?own" using none own own_at c len by (auto simp: was_read_def)
    moreover have "\<not> elsewhere env key" using none len other by (fastforce simp: elsewhere_def was_read_def)
    ultimately show ?thesis using None by simp
  next
    case (Some iv)
    obtain i v where iv: "iv = (i, v)" by (cases iv)
    have s: "i < length ?ms" "?t \<le> fst (?ms ! i)" "cached (snd (?ms ! i)) key = Some v"
      "\<forall>j < i. ?t \<le> fst (?ms ! j) \<longrightarrow> cached (snd (?ms ! j)) key = None"
      using Some iv valid_mapent_Some by auto
    show ?thesis
    proof (cases "i = ?own")
      case True
      have "\<not> elsewhere env key" using s(2,4) True own_at other by (fastforce simp: elsewhere_def was_read_def)
      then show ?thesis using Some iv True s(2,3) own_at c by (simp add: was_read_def)
    next
      case False
      have "i < ?own \<or> \<not> was_read env ?own" using s(4) own_at c False by (cases i ?own rule: linorder_cases) (auto simp: was_read_def)
      then show ?thesis using Some iv False s(1-3) other [OF False] len by (auto simp: elsewhere_def was_read_def)
    qed
  qed
qed

lemma edited_entries:
  assumes "edited e r mc mc'" and "\<And>x. r = Some x \<Longrightarrow> primary x = primary e" and "walk_ok mc" "e \<in> set (concat (mc_hash mc))"
  shows "concat (mc_hash mc') = List.map_filter (\<lambda>x. if me_id x = me_id e then r else Some x) (concat (mc_hash mc))"
    and "primaries mc = xs @ e # ys \<Longrightarrow> primaries mc' = xs @ (case r of None \<Rightarrow> [] | Some x \<Rightarrow> [x]) @ ys"
proof -
  show c: "concat (mc_hash mc') = List.map_filter (\<lambda>x. if me_id x = me_id e then r else Some x) (concat (mc_hash mc))"
    using assms(1) by (simp add: edited_def map_filter_concat)
  assume p: "primaries mc = xs @ e # ys"
  have "distinct (map me_id (concat (mc_hash mc)))" using assms(3) by (simp add: walk_ok_def cache_ok_def entries_def)
  then have "distinct (map me_id (primaries mc))" by (simp add: primaries_def distinct_map_filter)
  then have out: "\<forall>x \<in> set (xs @ ys). me_id x \<noteq> me_id e" using p by (auto simp: image_iff)
  have "primaries mc' = filter primary (List.map_filter (\<lambda>x. if me_id x = me_id e then r else Some x) (concat (mc_hash mc)))"
    using c by (simp add: primaries_def)
  also have "\<dots> = List.map_filter (\<lambda>x. if me_id x = me_id e then r else Some x) (filter primary (concat (mc_hash mc)))"
  proof -
    have eq: "List.map_filter (\<lambda>x. if me_id x = me_id e then r else Some x) (concat (mc_hash mc)) =
        List.map_filter (\<lambda>x. if x = e then r else Some x) (concat (mc_hash mc))"
      using walk_unique [OF assms(3,4)] by (intro map_filter_cong) auto
    have eq': "List.map_filter (\<lambda>x. if me_id x = me_id e then r else Some x) (filter primary (concat (mc_hash mc))) =
        List.map_filter (\<lambda>x. if x = e then r else Some x) (filter primary (concat (mc_hash mc)))"
      using walk_unique [OF assms(3,4)] by (intro map_filter_cong) auto
    show ?thesis unfolding eq eq' using assms(2) by (intro map_filter_filter) (auto split: if_splits)
  qed
  also have "\<dots> = List.map_filter (\<lambda>x. if me_id x = me_id e then r else Some x) (xs @ e # ys)"
    using p by (simp add: primaries_def)
  also have "\<dots> = xs @ (case r of None \<Rightarrow> [] | Some x \<Rightarrow> [x]) @ ys"
    using out by (simp add: map_filter_append map_filter_simps map_filter_id split: option.splits)
  finally show "primaries mc' = xs @ (case r of None \<Rightarrow> [] | Some x \<Rightarrow> [x]) @ ys" .
qed

abbreviation first_id :: "mapent list \<Rightarrow> addr option" where
  "first_id ys \<equiv> (case ys of [] \<Rightarrow> None | n # _ \<Rightarrow> Some (me_id n))"

lemma edited_trans:
  assumes "edited e (Some x) mc mc1" "edited x r mc1 mc2" "me_id x = me_id e"
  shows "edited e r mc mc2"
proof -
  have "(\<lambda>y. Option.bind (if me_id y = me_id e then Some x else Some y) (\<lambda>z. if me_id z = me_id x then r else Some z)) =
      (\<lambda>y. if me_id y = me_id e then r else Some y)" using assms(3) by auto
  then show ?thesis using assms(1,2) by (simp add: edited_def map_filter_comp)
qed

lemma primaries_mem: "primaries mc = xs @ e # ys \<Longrightarrow> e \<in> set (concat (mc_hash mc)) \<and> primary e"
proof -
  assume "primaries mc = xs @ e # ys"
  then have "e \<in> set (primaries mc)" by simp
  then show ?thesis by (simp add: primaries_def)
qed

lemma edited_advance:
  assumes w: "walk_ok mc" and p: "primaries mc = xs @ e # ys" and ed: "edited e (Some x) mc mc1"
    and x: "me_id x = me_id e" "primary x = primary e"
  shows "primaries mc1 = xs @ x # ys" "advance mc1 (me_id e) = first_id ys"
proof -
  show p1: "primaries mc1 = xs @ x # ys"
    using edited_entries(2) [OF ed _ w _ p] primaries_mem [OF p] x(2) by simp
  have "cache_ok mc1" using ed by (simp add: edited_def walk_ok_def)
  from advance_primaries(2) [OF this p1] show "advance mc1 (me_id e) = first_id ys" using x(1) by simp
qed

lemma cache_lookup_wild: "cache_lookup mc (Some ''*'') \<noteq> [] \<longleftrightarrow> cached mc ''*'' \<noteq> None"
  by (auto simp: cache_lookup_def cached_def found_def cache_lookup_distinct_def split: list.splits)

text \<open>The locked part: the entry goes, or stays as it is.\<close>

lemma prune_entry_walk:
  fixes env :: prune_env and path :: string and valid :: bool
  assumes w: "walk_ok mc" and e: "e \<in> set (concat (mc_hash mc))"
  defines "gone \<equiv> \<not> IS_MM e \<and> (valid \<or> \<not> pe_autofs env path \<and> me_ioctlfd e = - 1)"
  shows "\<exists>mc'. prune_entry env (me_key e) path valid mc =
      (mc', if gone \<and> \<not> valid \<and> (\<not> mp_indirect (pe_ap env) \<or> pp_ghost (pe_ap env))
            then [(path, if mp_indirect (pe_ap env) then pp_dev (pe_ap env) else me_dev e)] else [])
    \<and> edited e (if gone then None else Some e) mc mc'"
proof -
  have "cached mc (me_key e) = Some e" using walk_cached [OF w] e by simp
  then obtain r where l: "cache_lookup_distinct mc (Some (me_key e)) = e # r" by (auto simp: cached_lookup(2))
  have same: "edited e (Some e) mc mc" using edited_same [OF w e, of "mc_mem mc"] w by (simp add: walk_ok_def)
  show ?thesis
  proof (cases "IS_MM e")
    case True
    then show ?thesis using walk_delete_MM [OF w e True] l same by (auto simp: prune_entry_def gone_def Let_def)
  next
    case False
    obtain mc' where d: "cache_delete mc (me_key e) = (CHE_OK, mc')" and ed: "edited e None mc mc'"
      using edited_delete [OF w e False] by (cases "cache_delete mc (me_key e)") auto
    show ?thesis using False l same d ed by (auto simp: prune_entry_def gone_def Let_def)
  qed
qed

text \<open>The pass over an old entry whose path is known.\<close>

definition prune_old :: "prune_env \<Rightarrow> mapent \<Rightarrow> string \<Rightarrow> mapent_cache \<Rightarrow> mapent_cache \<times> addr option \<times> (string \<times> u64) list" where
  "prune_old env me path mc2 =
     (let (mc3, valid) =
            (case lookup_source_valid_mapent (pe_entry_age env) (maps_with env mc2) (me_key me) of
               None \<Rightarrow> (mc2, False)
             | Some (i, v) \<Rightarrow>
                 if i = pe_own env then (upd_entry (me_id v) (\<lambda>x. x\<lparr>me_mapent := None\<rparr>) mc2, False)
                 else (mc2, True))
      in if \<not> valid \<and> pe_real env path then (mc3, advance mc3 (me_id me), [])
         else
           (case dup_next_key (advance mc3 (me_id me)) mc3 of
              (next_key, mc4) \<Rightarrow>
                (case prune_entry env (me_key me) path valid mc4 of
                   (mc5, dirs) \<Rightarrow>
                     (mc5,
                      case next_key of
                        None \<Rightarrow> advance mc3 (me_id me)
                      | Some k \<Rightarrow> map_option me_id (found (cache_lookup_distinct mc5 (Some k))),
                      dirs))))"

lemma prune_step_unfold:
  assumes "deref mc a = me # r" "me_id me = a"
  shows "prune_step env age mc a =
     (let go = (\<lambda>mc. Inr (mc, advance mc a, [])) in
      if me_age me \<ge> age then go (reset_status me mc)
      else if prune_skips (pe_ap env) age me then go mc
      else
        (case malloc (mc_mem mc) of
           (ok, m1) \<Rightarrow>
             if \<not> ok \<or> strchr (me_key me) (CHR ''*'') \<noteq> None then go (mc\<lparr>mc_mem := m1\<rparr>)
             else
               (case make_fullpath (pe_ap env) (me_key me) m1 of
                  (None, m2) \<Rightarrow> go (mc\<lparr>mc_mem := m2\<rparr>)
                | (Some path, m2) \<Rightarrow> Inr (prune_old env me path (mc\<lparr>mc_mem := m2\<rparr>)))))"
  unfolding prune_step_def prune_old_def using assms
  by (simp add: Let_def split: prod.split option.split if_split)

text \<open>The entry marked negative when the pruned cache itself was searched first.\<close>

definition marked :: "prune_env \<Rightarrow> mapent \<Rightarrow> mapent" where
  "marked env e = (if \<not> elsewhere env (me_key e) \<and> was_read env (pe_own env) then e\<lparr>me_mapent := None\<rparr> else e)"

lemma marked_sel [simp]:
  "me_id (marked env e) = me_id e" "me_key (marked env e) = me_key e" "primary (marked env e) = primary e"
  "IS_MM (marked env e) = IS_MM e" "me_ioctlfd (marked env e) = me_ioctlfd e" "me_dev (marked env e) = me_dev e"
  "me_age (marked env e) = me_age e" "prune_skips ap age (marked env e) = prune_skips ap age e"
  by (simp_all add: marked_def primary_def IS_MM_def IS_MM_ROOT_def prune_skips_def)

lemma prune_old_walk:
  fixes path :: string
  assumes w: "walk_ok mc" and p: "primaries mc = xs @ e # ys" and own: "pe_own env < length (pe_maps env)"
  defines "gone \<equiv> gone_or_marked env path e = None"
  shows "\<exists>mc'. prune_old env e path mc =
      (mc', first_id ys,
       if gone \<and> \<not> elsewhere env (me_key e) \<and> (\<not> mp_indirect (pe_ap env) \<or> pp_ghost (pe_ap env))
       then [(path, if mp_indirect (pe_ap env) then pp_dev (pe_ap env) else me_dev e)] else [])
    \<and> edited e (gone_or_marked env path e) mc mc'"
proof -
  let ?e3 = "marked env e" and ?valid = "elsewhere env (me_key e)"
  have e: "e \<in> set (concat (mc_hash mc))" using primaries_mem [OF p] by simp
  have c: "cached mc (me_key e) = Some e" using walk_cached [OF w] e by simp
  have same: "edited e (Some e) mc mc" using edited_same [OF w e, of "mc_mem mc"] w by (simp add: walk_ok_def)
  have upd: "edited e (Some (e\<lparr>me_mapent := None\<rparr>)) mc (upd_entry (me_id e) (\<lambda>x. x\<lparr>me_mapent := None\<rparr>) mc)"
    by (rule edited_upd [OF w e]) simp
  define mc3 where "mc3 = (if \<not> ?valid \<and> was_read env (pe_own env) then upd_entry (me_id e) (\<lambda>x. x\<lparr>me_mapent := None\<rparr>) mc else mc)"
  have v: "(case lookup_source_valid_mapent (pe_entry_age env) (maps_with env mc) (me_key e) of
               None \<Rightarrow> (mc, False)
             | Some (i, v) \<Rightarrow>
                 if i = pe_own env then (upd_entry (me_id v) (\<lambda>x. x\<lparr>me_mapent := None\<rparr>) mc, False)
                 else (mc, True)) = (mc3, ?valid)"
    using valid_own [OF c own] by (auto simp: mc3_def split: option.splits if_splits)
  have ed3: "edited e (Some ?e3) mc mc3" using same upd by (simp add: mc3_def marked_def)
  note adv = edited_advance [OF w p ed3 marked_sel(1,3)]
  show ?thesis
  proof (cases "\<not> ?valid \<and> pe_real env path")
    case True
    then show ?thesis using ed3 adv(2) by (auto simp: prune_old_def v gone_def gone_or_marked_def marked_def)
  next
    case False
    have w3: "walk_ok mc3" using ed3 by (simp add: edited_def)
    obtain m where m: "malloc (mc_mem mc3) = (True, m)" "mem_ample m"
      using mem_ampleE [of "mc_mem mc3"] w3 unfolding walk_ok_def by blast
    define mc4 where "mc4 = (if ys = [] then mc3 else mc3\<lparr>mc_mem := m\<rparr>)"
    have e3: "?e3 \<in> set (concat (mc_hash mc3))" using primaries_mem [OF adv(1)] by simp
    have dup: "dup_next_key (advance mc3 (me_id e)) mc3 = (case ys of [] \<Rightarrow> None | n # _ \<Rightarrow> Some (me_key n), mc4)"
    proof (cases ys)
      case (Cons n ys')
      have "found (deref mc3 (me_id n)) = Some n"
        using advance_primaries(1) [of mc3 "xs @ [?e3]" n ys'] w3 adv(1) Cons by (simp add: walk_ok_def)
      then show ?thesis using adv(2) Cons m by (simp add: dup_next_key_def mc4_def)
    qed (use adv(2) in \<open>simp add: dup_next_key_def mc4_def\<close>)
    have w4: "walk_ok mc4" and h4: "mc_hash mc4 = mc_hash mc3" using w3 m by (simp_all add: mc4_def walk_ok_mem)
    have ed4: "edited e (Some ?e3) mc mc4" using ed3 w4 by (simp add: edited_def mc4_def)
    obtain mc5 where pe: "prune_entry env (me_key e) path ?valid mc4 =
        (mc5, if gone \<and> \<not> ?valid \<and> (\<not> mp_indirect (pe_ap env) \<or> pp_ghost (pe_ap env))
              then [(path, if mp_indirect (pe_ap env) then pp_dev (pe_ap env) else me_dev e)] else [])"
      and ed5: "edited ?e3 (if gone then None else Some ?e3) mc4 mc5"
      using prune_entry_walk [OF w4, where e = ?e3 and valid = ?valid and env = env and path = path] e3 h4 False
      by (auto simp: gone_def gone_or_marked_def split: if_splits)
    have r: "gone_or_marked env path e = (if gone then None else Some ?e3)"
      by (auto simp: gone_def gone_or_marked_def marked_def)
    have ed: "edited e (gone_or_marked env path e) mc mc5" using edited_trans [OF ed4 ed5] r by simp
    have "map_option me_id (found (cache_lookup_distinct mc5 (Some (me_key n)))) = Some (me_id n)" if "ys = n # ys'" for n ys'
    proof -
      have "primaries mc5 = xs @ (case gone_or_marked env path e of None \<Rightarrow> [] | Some x \<Rightarrow> [x]) @ ys"
        by (rule edited_entries(2) [OF ed _ w e p]) (use r in \<open>auto split: if_splits\<close>)
      then have "n \<in> set (concat (mc_hash mc5))"
        using primaries_mem [of mc5 "xs @ (case gone_or_marked env path e of None \<Rightarrow> [] | Some x \<Rightarrow> [x])" n ys'] that by simp
      then have "cached mc5 (me_key n) = Some n" using walk_cached [of mc5 "me_key n" n] ed by (simp add: edited_def)
      then show ?thesis by (simp add: cached_def)
    qed
    then have "(case (case ys of [] \<Rightarrow> None | n # _ \<Rightarrow> Some (me_key n)) of None \<Rightarrow> advance mc3 (me_id e)
        | Some k \<Rightarrow> map_option me_id (found (cache_lookup_distinct mc5 (Some k)))) = first_id ys"
      using adv(2) by (cases ys) simp_all
    then show ?thesis unfolding prune_old_def v Let_def prod.case if_not_P [OF False] dup pe using ed by blast
  qed
qed

lemma prune_step_walk:
  assumes w: "walk_ok mc" and p: "primaries mc = xs @ e # ys" and own: "pe_own env < length (pe_maps env)"
  defines "wild \<equiv> cached mc ''*'' \<noteq> None"
  shows "\<exists>mc'. prune_step env age mc (me_id e) = Inr (mc', first_id ys, gone_dir env age e) \<and> edited e (fate env age wild e) mc mc'"
proof -
  have ok: "cache_ok mc" and mem: "mem_ample (mc_mem mc)" using w by (simp_all add: walk_ok_def)
  have e: "e \<in> set (concat (mc_hash mc))" using primaries_mem [OF p] by simp
  obtain r where d: "deref mc (me_id e) = e # r"
    using advance_primaries(1) [OF ok p] by (cases "deref mc (me_id e)") (auto simp: found_def)
  note step = prune_step_unfold [OF d refl, of env age]
  have go: "\<exists>mc'. (Inr (mc1, advance mc1 (me_id e), []) :: fault + _) = Inr (mc', first_id ys, gone_dir env age e)
      \<and> edited e (fate env age wild e) mc mc'"
    if "edited e (Some x) mc mc1" "fate env age wild e = Some x" "fate env age False e \<noteq> None" for x mc1
    using that edited_advance(2) [OF w p that(1) fate_Some(1,3) [OF that(2)]] by (simp add: gone_dir_def)
  obtain m1 where m1: "malloc (mc_mem mc) = (True, m1)" "mem_ample m1" using mem_ampleE [OF mem] .
  obtain m2 where m2: "make_fullpath (pe_ap env) (me_key e) m1 = (full_path (pe_ap env) (me_key e), m2)" "mem_ample m2"
    using make_fullpath_ample [OF m1(2)] .
  consider (fresh) "me_age e \<ge> age" | (skip) "\<not> me_age e \<ge> age" "prune_skips (pe_ap env) age e"
    | (star) "\<not> me_age e \<ge> age" "\<not> prune_skips (pe_ap env) age e" "CHR ''*'' \<in> set (me_key e)"
    | (long) "\<not> me_age e \<ge> age" "\<not> prune_skips (pe_ap env) age e" "CHR ''*'' \<notin> set (me_key e)" "full_path (pe_ap env) (me_key e) = None"
    | (old) path where "\<not> me_age e \<ge> age" "\<not> prune_skips (pe_ap env) age e" "CHR ''*'' \<notin> set (me_key e)" "full_path (pe_ap env) (me_key e) = Some path"
    by fastforce
  then show ?thesis
  proof cases
    case fresh
    have "edited e (Some (if me_mapent e \<noteq> None \<or> wild then e\<lparr>me_status := 0\<rparr> else e)) mc (reset_status e mc)"
      using edited_upd [OF w e, of "\<lambda>x. x\<lparr>me_status := 0\<rparr>"] edited_same [OF w e mem] cache_lookup_wild [of mc]
      by (auto simp: reset_status_def wild_def)
    then show ?thesis using go fresh step by (simp add: Let_def fate_def)
  next
    case skip
    then show ?thesis using go [of e mc] edited_same [OF w e mem] step by (simp add: Let_def fate_def)
  next
    case star
    then have "strchr (me_key e) (CHR ''*'') \<noteq> None" by (simp add: strchr_None_iff)
    then show ?thesis using star go [of e "mc\<lparr>mc_mem := m1\<rparr>"] edited_same [OF w e m1(2)] step m1 by (simp add: Let_def fate_def)
  next
    case long
    then have "strchr (me_key e) (CHR ''*'') = None" by (simp add: strchr_None_iff)
    then show ?thesis using long go [of e "mc\<lparr>mc_mem := m2\<rparr>"] edited_same [OF w e m2(2)] step m1 m2 by (simp add: Let_def fate_def)
  next
    case old
    let ?mc = "mc\<lparr>mc_mem := m2\<rparr>"
    have "strchr (me_key e) (CHR ''*'') = None" using old by (simp add: strchr_None_iff)
    then have s: "prune_step env age mc (me_id e) = Inr (prune_old env e path ?mc)" using old step m1 m2 by (simp add: Let_def)
    have f: "fate env age b e = gone_or_marked env path e" for b using old by (simp add: fate_def)
    have "primaries ?mc = xs @ e # ys" using p by (simp add: primaries_def)
    from prune_old_walk [OF walk_ok_mem [OF w m2(2)] this own, where path = path] obtain mc' where
      "prune_old env e path ?mc = (mc', first_id ys, gone_dir env age e)" "edited e (gone_or_marked env path e) ?mc mc'"
      using old by (auto simp: gone_dir_def f)
    then show ?thesis using s f by (auto simp: edited_def)
  qed
qed

section \<open>The walk\<close>

lemma edited_wild:
  assumes w: "walk_ok mc" and e: "e \<in> set (concat (mc_hash mc))" and ed: "edited e (fate env age wild e) mc mc'"
  shows "cached mc' ''*'' \<noteq> None \<longleftrightarrow> cached mc ''*'' \<noteq> None"
proof -
  have w': "walk_ok mc'" using ed by (simp add: edited_def)
  have has: "cached mc0 ''*'' \<noteq> None \<longleftrightarrow> (\<exists>x \<in> set (concat (mc_hash mc0)). me_key x = ''*'')" if "walk_ok mc0" for mc0
    using walk_cached [OF that, of "''*''"] by blast
  have h: "set (concat (mc_hash mc')) = {y. \<exists>x \<in> set (concat (mc_hash mc)). (if me_id x = me_id e then fate env age wild e else Some x) = Some y}"
    using ed by (simp only: edited_def map_filter_concat set_map_filter)
  have "(\<exists>y \<in> set (concat (mc_hash mc')). me_key y = ''*'') \<longleftrightarrow> (\<exists>x \<in> set (concat (mc_hash mc)). me_key x = ''*'')"
  proof
    assume "\<exists>y \<in> set (concat (mc_hash mc')). me_key y = ''*''"
    then obtain x y where "x \<in> set (concat (mc_hash mc))" "(if me_id x = me_id e then fate env age wild e else Some x) = Some y" "me_key y = ''*''"
      unfolding h by blast
    then have "x \<in> set (concat (mc_hash mc)) \<and> me_key x = ''*'' \<or> me_key e = ''*''"
      using fate_Some(2) [of env age wild e y] by (simp split: if_splits)
    then show "\<exists>x \<in> set (concat (mc_hash mc)). me_key x = ''*''" using e by blast
  next
    assume "\<exists>x \<in> set (concat (mc_hash mc)). me_key x = ''*''"
    then obtain x where x: "x \<in> set (concat (mc_hash mc))" "me_key x = ''*''" by blast
    show "\<exists>y \<in> set (concat (mc_hash mc')). me_key y = ''*''"
    proof (cases "me_id x = me_id e")
      case True
      then have "x = e" using x(1) walk_unique [OF w e] by auto
      then obtain y where "fate env age wild e = Some y" "me_key y = ''*''" using fate_wild [of e env age wild] fate_Some(2) x(2) by fastforce
      then show ?thesis unfolding h using x(1) True by auto
    next
      case False
      then have "x \<in> set (concat (mc_hash mc'))" unfolding h using x(1) by (intro CollectI bexI [of _ x]) auto
      then show ?thesis using x(2) by blast
    qed
  qed
  then show ?thesis using has [OF w] has [OF w'] by simp
qed

lemma prune_loop_walk:
  assumes "walk_ok mc" "primaries mc = xs @ ys" "pe_own env < length (pe_maps env)" "wild \<longleftrightarrow> cached mc ''*'' \<noteq> None"
  shows "\<exists>mc'. prune_loop env age mc (first_id ys) dirs = Some (Inr (mc', dirs @ concat (map (gone_dir env age) ys)))
    \<and> walk_ok mc'
    \<and> mc_hash mc' = map (List.map_filter (\<lambda>x. if me_id x \<in> me_id ` set ys then fate env age wild x else Some x)) (mc_hash mc)"
  using assms
proof (induction ys arbitrary: mc xs dirs)
  case Nil
  then show ?case by (subst prune_loop.simps) (simp add: map_filter_id map_idI)
next
  case (Cons e ys)
  note w = Cons.prems(1) and p = Cons.prems(2)
  have e: "e \<in> set (concat (mc_hash mc))" using primaries_mem [OF p] by simp
  obtain mc1 where step: "prune_step env age mc (me_id e) = Inr (mc1, first_id ys, gone_dir env age e)"
    and ed: "edited e (fate env age wild e) mc mc1"
    using prune_step_walk [OF w p Cons.prems(3), of age] Cons.prems(4) by auto
  have p1: "primaries mc1 = (xs @ (case fate env age wild e of None \<Rightarrow> [] | Some x \<Rightarrow> [x])) @ ys"
    using edited_entries(2) [OF ed _ w e p] fate_Some(3) by simp
  have w1: "walk_ok mc1" using ed by (simp add: edited_def)
  have "wild \<longleftrightarrow> cached mc1 ''*'' \<noteq> None" using edited_wild [OF w e ed] Cons.prems(4) by simp
  from Cons.IH [OF w1 p1 Cons.prems(3) this, of "dirs @ gone_dir env age e"] obtain mc' where
    loop: "prune_loop env age mc1 (first_id ys) (dirs @ gone_dir env age e) = Some (Inr (mc', dirs @ concat (map (gone_dir env age) (e # ys))))"
    and w': "walk_ok mc'"
    and h': "mc_hash mc' = map (List.map_filter (\<lambda>x. if me_id x \<in> me_id ` set ys then fate env age wild x else Some x)) (mc_hash mc1)"
    by auto
  have "distinct (map me_id (concat (mc_hash mc)))" using w by (simp add: walk_ok_def cache_ok_def entries_def)
  then have "distinct (map me_id (primaries mc))" by (simp add: primaries_def distinct_map_filter)
  then have out: "me_id e \<notin> me_id ` set ys" using p by simp
  have comp: "List.map_filter (\<lambda>x. if me_id x \<in> me_id ` set ys then fate env age wild x else Some x)
      (List.map_filter (\<lambda>x. if me_id x = me_id e then fate env age wild e else Some x) c) =
      List.map_filter (\<lambda>x. if me_id x \<in> me_id ` set (e # ys) then fate env age wild x else Some x) c"
    if "c \<in> set (mc_hash mc)" for c
    unfolding map_filter_comp
  proof (rule map_filter_cong)
    fix x assume x: "x \<in> set c"
    show "Option.bind (if me_id x = me_id e then fate env age wild e else Some x)
        (\<lambda>x. if me_id x \<in> me_id ` set ys then fate env age wild x else Some x) =
        (if me_id x \<in> me_id ` set (e # ys) then fate env age wild x else Some x)"
    proof (cases "me_id x = me_id e")
      case True
      then have "x = e" using walk_unique [OF w e that x] by simp
      then show ?thesis
      proof (cases "fate env age wild e")
        case (Some y)
        then have "me_id y \<notin> me_id ` set ys" using out fate_Some(1) by simp
        then show ?thesis using Some \<open>x = e\<close> by simp
      qed (use \<open>x = e\<close> in simp)
    qed simp
  qed
  have h1: "mc_hash mc1 = map (List.map_filter (\<lambda>x. if me_id x = me_id e then fate env age wild e else Some x)) (mc_hash mc)"
    using ed by (simp only: edited_def)
  have "mc_hash mc' = map (List.map_filter (\<lambda>x. if me_id x \<in> me_id ` set (e # ys) then fate env age wild x else Some x)) (mc_hash mc)"
    unfolding h' h1 map_map comp_def by (rule map_cong [OF refl]) (rule comp)
  moreover have "prune_loop env age mc (first_id (e # ys)) dirs = Some (Inr (mc', dirs @ concat (map (gone_dir env age) (e # ys))))"
    using loop step by (subst prune_loop.simps) simp
  ultimately show ?case using w' by blast
qed


definition sample_prune :: "bool \<Rightarrow> (string \<Rightarrow> bool) \<Rightarrow> mapent_cache \<Rightarrow> prune_env" where
  "sample_prune indirect autofs mc =
     \<lparr>pe_ap = \<lparr>mp_indirect = indirect, mp_remount = False, mp_pref = None, mp_negative_timeout = 60, pp_path = ''/home'', pp_ghost = True,
               pp_cache_all = False, pp_positive_timeout = 120, pp_dev = 1\<rparr>,
      pe_entry_age = 3, pe_maps = [(9, mc)], pe_own = 0, pe_real = (\<lambda>_. False), pe_autofs = autofs\<rparr>"


section \<open>A walk that does not end\<close>

text \<open>
  The first two entries of the walk have the same key and are old; something of autofs is mounted
  on their path, so that they are not deleted.
\<close>

definition stuck :: "prune_env \<Rightarrow> time \<Rightarrow> mapent_cache \<Rightarrow> mapent \<Rightarrow> bool" where
  "stuck env age mc e \<longleftrightarrow>
     cache_ok mc \<and> mc_mem mc = [] \<and> pe_own env < length (pe_maps env)
     \<and> (\<exists>n ys. primaries mc = e # n # ys \<and> me_key n = me_key e) \<and> cached mc (me_key e) = Some e
     \<and> me_age e < age \<and> \<not> prune_skips (pe_ap env) age e \<and> CHR ''*'' \<notin> set (me_key e)
     \<and> (\<exists>path. full_path (pe_ap env) (me_key e) = Some path \<and> \<not> pe_real env path \<and> pe_autofs env path)
     \<and> \<not> elsewhere env (me_key e)"

lemma primaries_upd_entry:
  assumes "\<And>x. primary (f x) = primary x"
  shows "primaries (upd_entry a f mc) = upd_chain a f (primaries mc)"
proof -
  have "filter primary (upd_chain a f c) = upd_chain a f (filter primary c)" for c using assms by (induction c) auto
  then show ?thesis by (simp add: primaries_def upd_entry_def upd_chain_concat)
qed

lemma stuck_step:
  assumes "stuck env age mc e"
  shows "\<exists>mc'. prune_step env age mc (me_id e) = Inr (mc', Some (me_id (marked env e)), []) \<and> stuck env age mc' (marked env e)"
proof -
  let ?e3 = "marked env e" and ?f = "\<lambda>x :: mapent. x\<lparr>me_mapent := None\<rparr>"
  obtain n ys path where ok: "cache_ok mc" and mem: "mc_mem mc = []" and own: "pe_own env < length (pe_maps env)"
    and p: "primaries mc = [] @ e # n # ys" and key: "me_key n = me_key e" and c: "cached mc (me_key e) = Some e"
    and old: "\<not> me_age e \<ge> age" "\<not> prune_skips (pe_ap env) age e" "CHR ''*'' \<notin> set (me_key e)"
    and path: "full_path (pe_ap env) (me_key e) = Some path" "\<not> pe_real env path" "pe_autofs env path"
    and other: "\<not> elsewhere env (me_key e)"
    using assms unfolding stuck_def by auto
  define mc3 where "mc3 = (if was_read env (pe_own env) then upd_entry (me_id e) ?f mc else mc)"
  have "distinct (map me_id (concat (mc_hash mc)))" using ok by (simp add: cache_ok_def entries_def)
  then have "distinct (map me_id (primaries mc))" by (simp add: primaries_def distinct_map_filter)
  then have ids: "me_id n \<noteq> me_id e" "\<forall>y \<in> set ys. me_id y \<noteq> me_id e" using p by (auto simp: image_iff)
  have ys: "upd_chain (me_id e) ?f ys = ys" using ids(2) by (induction ys) auto
  have p3: "primaries mc3 = [] @ ?e3 # n # ys"
    using p ids(1) ys other primaries_upd_entry [of ?f "me_id e" mc]
    by (auto simp: mc3_def marked_def primary_def IS_MM_def IS_MM_ROOT_def)
  have ok3: "cache_ok mc3" using ok by (auto simp: mc3_def intro!: upd_entry_ok)
  have c3: "cached mc3 (me_key e) = Some ?e3"
    using cached_upd_entry [OF ok, of ?f "me_id e" "me_key e"] c other by (auto simp: mc3_def marked_def)
  have mem3: "mc_mem mc3 = []" using mem by (simp add: mc3_def upd_entry_sel)
  have v: "(case lookup_source_valid_mapent (pe_entry_age env) (maps_with env mc) (me_key e) of
               None \<Rightarrow> (mc, False)
             | Some (i, v) \<Rightarrow>
                 if i = pe_own env then (upd_entry (me_id v) ?f mc, False) else (mc, True)) = (mc3, False)"
    using valid_own [OF c own] other by (auto simp: mc3_def split: option.splits if_splits)
  have adv: "advance mc3 (me_id e) = Some (me_id n)" using advance_primaries(2) [OF ok3 p3] by simp
  have "found (deref mc3 (me_id n)) = Some n" using advance_primaries(1) [OF ok3, of "[?e3]" n ys] p3 by simp
  then have dup: "dup_next_key (advance mc3 (me_id e)) mc3 = (Some (me_key e), mc3)"
    using adv key mem3 by (simp add: dup_next_key_def)
  have entry: "prune_entry env (me_key e) path False mc3 = (mc3, [])" using path(3) by (simp add: prune_entry_def split: list.split)
  have nxt: "map_option me_id (found (cache_lookup_distinct mc3 (Some (me_key e)))) = Some (me_id ?e3)"
    using c3 by (simp add: cached_def)
  have "prune_old env e path mc = (mc3, Some (me_id ?e3), [])"
    unfolding prune_old_def v Let_def prod.case dup entry using path(2) nxt by simp
  moreover obtain r where d: "deref mc (me_id e) = e # r"
    using advance_primaries(1) [OF ok p] by (cases "deref mc (me_id e)") (auto simp: found_def)
  moreover have "make_fullpath (pe_ap env) (me_key e) [] = (Some path, [])"
    using path(1) by (auto simp: full_path_def make_fullpath_def make_browse_path_def Let_def split: option.splits if_splits)
  moreover have same: "mc\<lparr>mc_mem := []\<rparr> = mc" using mem by simp
  ultimately have "prune_step env age mc (me_id e) = Inr (mc3, Some (me_id ?e3), [])"
    using prune_step_unfold [OF d refl, of env age] old mem by (simp add: same Let_def strchr_None_iff)
  moreover have "stuck env age mc3 ?e3"
    using ok3 mem3 own p3 key c3 old path other by (auto simp: stuck_def)
  ultimately show ?thesis by blast
qed

lemma prune_loop_stuck:
  assumes "stuck env age mc e"
  shows "prune_loop env age mc (Some (me_id e)) dirs = None"
proof (rule ccontr)
  assume "prune_loop env age mc (Some (me_id e)) dirs \<noteq> None"
  then obtain r where r: "prune_loop env age mc (Some (me_id e)) dirs = Some r" by blast
  let ?P = "\<lambda>env age mc me (dirs :: (string \<times> u64) list) (r :: fault + mapent_cache \<times> (string \<times> u64) list).
    (\<exists>e. stuck env age mc e \<and> me = Some (me_id e)) \<longrightarrow> False"
  have "?P env age mc (Some (me_id e)) dirs r"
  proof (rule prune_loop.raw_induct [where P = ?P, OF _ r])
    fix f env age mc me dirs r
    assume IH: "\<And>env age mc me dirs r. f env age mc me dirs = Some r \<Longrightarrow> ?P env age mc me dirs r"
      and eq: "(case me of None \<Rightarrow> Some (Inr (mc, dirs))
          | Some a \<Rightarrow> (case prune_step env age mc a of Inl e \<Rightarrow> Some (Inl e)
              | Inr (mc1, me1, ds) \<Rightarrow> f env age mc1 me1 (dirs @ ds))) = Some r"
    show "?P env age mc me dirs r"
    proof
      assume "\<exists>e. stuck env age mc e \<and> me = Some (me_id e)"
      then obtain e where e: "stuck env age mc e" "me = Some (me_id e)" by blast
      from stuck_step [OF e(1)] obtain mc' where s: "prune_step env age mc (me_id e) = Inr (mc', Some (me_id (marked env e)), [])"
        "stuck env age mc' (marked env e)" by blast
      have "f env age mc' (Some (me_id (marked env e))) (dirs @ []) = Some r" using eq e(2) s(1) by simp
      from IH [OF this] s(2) show False by blast
    qed
  qed
  then show False using assms by blast
qed

text \<open>
  C31: when the first two entries of the walk are old, have the same key (as those of two sources that
  share the cache) and cannot be deleted because their path is an autofs mount, the search for the
  key of the next entry leads back to the first one: pruning does not end.
\<close>

theorem prune_never_ends:
  assumes "cache_ok mc" "mc_mem mc = []" "pe_own env < length (pe_maps env)" "primaries mc = e # n # ys" "me_key n = me_key e"
    and "cached mc (me_key e) = Some e" "me_age e < age" "\<not> prune_skips (pe_ap env) age e" "CHR ''*'' \<notin> set (me_key e)"
    and "full_path (pe_ap env) (me_key e) = Some path" "\<not> pe_real env path" "pe_autofs env path" "\<not> elsewhere env (me_key e)"
  shows "lookup_prune_one_cache env age mc = None"
proof -
  have "map_option me_id (found (cache_enumerate mc [])) = Some (me_id e)"
    using enum_iter_at [OF assms(1), of 0] assms(4) by (auto simp: found_def)
  moreover have "stuck env age mc e" using assms by (auto simp: stuck_def)
  ultimately show ?thesis unfolding lookup_prune_one_cache_def using prune_loop_stuck by (simp only:)
qed

theorem prune_never_ends_witness:
  "lookup_prune_one_cache (sample_prune False (\<lambda>p. p = ''/net'') (one_chain [])) 7 (one_chain [sample_entry 0 ''/net'', sample_entry 1 ''/net'']) = None"
proof -
  let ?es = "[sample_entry 0 ''/net'', sample_entry 1 ''/net'']"
  have ok: "cache_ok (one_chain ?es)" by (simp add: one_chain_ok)
  have p: "primaries (one_chain ?es) = ?es" by (simp add: primaries_def primary_def IS_MM_def)
  show ?thesis
    by (rule prune_never_ends [OF ok _ _ p, where path = "''/net''"])
       (simp_all add: sample_prune_def cached_find prune_skips_def full_path_def make_fullpath_def KEY_MAX_LEN_def elsewhere_def)
qed

end
