(* ===== verification/Nsswitch.thy ===== *)
theory Nsswitch
  imports Lookup_File Defaults
begin

text \<open>
  The name service switch, \<^verbatim>\<open>lib/nsswitch.c\<close>: the actions of a source and what they make of the
  status of a lookup. The parser of the file, which \<^verbatim>\<open>bison\<close> and \<^verbatim>\<open>flex\<close> generate, calls
  \<open>add_source\<close> and \<open>set_action\<close>. A status outside the array of actions is \<open>None\<close>.
\<close>

section \<open>Sources and their actions\<close>

datatype nsswitch_action = NSS_ACTION_UNKNOWN | NSS_ACTION_CONTINUE | NSS_ACTION_RETURN

record nss_action =
  na_action :: nsswitch_action
  na_negated :: bool

record nss_source =
  ns_source :: string
  ns_action :: "nss_action list"

definition NSS_STATUS_MAX :: nat where "NSS_STATUS_MAX = 4"

definition nss_index :: "nss_status \<Rightarrow> nat option" where
  "nss_index status =
     (case status of
        NSS_STATUS_SUCCESS \<Rightarrow> Some 0 | NSS_STATUS_NOTFOUND \<Rightarrow> Some 1 | NSS_STATUS_UNAVAIL \<Rightarrow> Some 2
      | NSS_STATUS_TRYAGAIN \<Rightarrow> Some 3 | NSS_STATUS_UNKNOWN \<Rightarrow> None | NSS_STATUS_COMPLETED \<Rightarrow> None)"

definition set_action :: "nss_action list \<Rightarrow> string \<Rightarrow> string \<Rightarrow> bool \<Rightarrow> bool \<times> nss_action list" where
  "set_action act status action negated =
     (case (if strcase_eq action ''continue'' then Some NSS_ACTION_CONTINUE
            else if strcase_eq action ''return'' then Some NSS_ACTION_RETURN else None) of
        None \<Rightarrow> (False, act)
      | Some a \<Rightarrow>
          (case (if strcase_eq status ''SUCCESS'' then Some 0
                 else if strcase_eq status ''NOTFOUND'' then Some 1
                 else if strcase_eq status ''UNAVAIL'' then Some 2
                 else if strcase_eq status ''TRYAGAIN'' then Some 3 else None) of
             None \<Rightarrow> (False, act)
           | Some i \<Rightarrow> (True, act[i := \<lparr>na_action = a, na_negated = negated\<rparr>])))"

text \<open>The loop over the negated actions: the value it returns, if it does.\<close>

fun negated_loop :: "nss_action list \<Rightarrow> nat \<Rightarrow> nat \<Rightarrow> int option" where
  "negated_loop [] status result = None"
| "negated_loop (a # as) status result =
     (if na_action a = NSS_ACTION_UNKNOWN then negated_loop as (Suc status) result
      else if na_negated a \<and> result \<noteq> status \<and> na_action a = NSS_ACTION_RETURN then Some (if result = 0 then 1 else 0)
      else negated_loop as (Suc status) result)"

definition check_nss_result :: "nss_source \<Rightarrow> nss_status \<Rightarrow> int option" where
  "check_nss_result this result =
     (case nss_index result of
        None \<Rightarrow> None
      | Some i \<Rightarrow>
          Some (case negated_loop (ns_action this) 0 i of
                  Some r \<Rightarrow> r
                | None \<Rightarrow>
                    (let a = ns_action this ! i
                     in if i = 0 then if na_action a = NSS_ACTION_CONTINUE then - 1 else 1
                        else if na_action a = NSS_ACTION_RETURN then 0 else - 1)))"

definition add_source :: "nss_source list \<Rightarrow> string \<Rightarrow> mem \<Rightarrow> nss_source list option \<times> mem" where
  "add_source head source m =
     (case malloc m of
        (False, m1) \<Rightarrow> (None, m1)
      | (True, m1) \<Rightarrow>
          (case malloc m1 of
             (False, m2) \<Rightarrow> (None, m2)
           | (True, m2) \<Rightarrow>
               (Some (head @ [\<lparr>ns_source = source,
                               ns_action = replicate NSS_STATUS_MAX \<lparr>na_action = NSS_ACTION_UNKNOWN, na_negated = False\<rparr>\<rparr>]), m2)))"

section \<open>What the actions mean\<close>

definition source_ok :: "nss_source \<Rightarrow> bool" where
  "source_ok s \<longleftrightarrow> length (ns_action s) = NSS_STATUS_MAX"

lemma set_action_length [simp]: "length (snd (set_action act status action negated)) = length act"
  by (simp add: set_action_def split: option.split)

lemma negated_loop_None:
  "(\<forall>a \<in> set as. \<not> na_negated a) \<Longrightarrow> negated_loop as k i = None"
  by (induction as arbitrary: k) auto

text \<open>
  without negated actions a source ends the search with a success unless success is to continue,
  with a failure only where the status is to return, and hands over to the next source otherwise;
  a status that has no action, which is what the callers leave out, is outside the array.
\<close>

theorem check_nss_result_plain:
  assumes "source_ok s" "\<forall>a \<in> set (ns_action s). \<not> na_negated a" "nss_index result = Some i"
  shows "check_nss_result s result =
    Some (if result = NSS_STATUS_SUCCESS then if na_action (ns_action s ! i) = NSS_ACTION_CONTINUE then - 1 else 1
          else if na_action (ns_action s ! i) = NSS_ACTION_RETURN then 0 else - 1)"
  using assms negated_loop_None [OF assms(2), of 0 i]
  by (auto simp: check_nss_result_def nss_index_def Let_def split: nss_status.splits)

definition bare_source :: "string \<Rightarrow> nss_source" where
  "bare_source s = \<lparr>ns_source = s, ns_action = replicate 4 \<lparr>na_action = NSS_ACTION_UNKNOWN, na_negated = False\<rparr>\<rparr>"

theorem check_nss_result_plain_witness:
  "check_nss_result (bare_source ''files'') NSS_STATUS_SUCCESS = Some 1
   \<and> check_nss_result (bare_source ''files'') NSS_STATUS_NOTFOUND = Some (- 1)"
  using check_nss_result_plain [of "bare_source ''files''" NSS_STATUS_SUCCESS 0] check_nss_result_plain [of "bare_source ''files''" NSS_STATUS_NOTFOUND 1]
  by (simp add: source_ok_def bare_source_def NSS_STATUS_MAX_def nss_index_def)

lemma negated_loop_return:
  assumes "j < length as" "as ! j = \<lparr>na_action = NSS_ACTION_RETURN, na_negated = True\<rparr>" "i \<noteq> k + j"
  shows "negated_loop as k i = Some (if i = 0 then 1 else 0)"
  using assms
proof (induction as arbitrary: j k)
  case (Cons a as)
  show ?case
  proof (cases j)
    case 0
    then show ?thesis using Cons.prems by auto
  next
    case (Suc j')
    then have "negated_loop as (Suc k) i = Some (if i = 0 then 1 else 0)" using Cons.IH [of j' "Suc k"] Cons.prems by auto
    then show ?thesis by simp
  qed
qed simp

text \<open>
  C32: with \<open>[!STATUS=return]\<close> for a status that is not success the search ends whatever the result is,
  also for the excluded status itself: the negation is not looked at a second time.
\<close>

theorem negated_return_always:
  assumes "source_ok s" "nss_index status = Some j" "0 < j" "nss_index result = Some i"
    and "ns_action s ! j = \<lparr>na_action = NSS_ACTION_RETURN, na_negated = True\<rparr>"
  shows "check_nss_result s result \<in> {Some 0, Some 1}"
proof (cases "negated_loop (ns_action s) 0 i")
  case (Some r)
  have "r \<in> {0, 1}" if "negated_loop as k i = Some r" for as k using that by (induction as arbitrary: k) (auto split: if_splits)
  then show ?thesis using Some assms(4) by (auto simp: check_nss_result_def)
next
  case None
  have "j < length (ns_action s)" using assms(1,2) by (auto simp: source_ok_def NSS_STATUS_MAX_def nss_index_def split: nss_status.splits)
  with None have "i = j" using negated_loop_return [of j "ns_action s" i 0] assms(5) by fastforce
  then show ?thesis using None assms(3-5) by (simp add: check_nss_result_def)
qed

theorem negated_return_always_witness:
  "check_nss_result ((bare_source ''nis'')\<lparr>ns_action := snd (set_action (ns_action (bare_source ''nis'')) ''NOTFOUND'' ''return'' True)\<rparr>)
      NSS_STATUS_NOTFOUND \<in> {Some 0, Some 1}"
  by (rule negated_return_always [where status = NSS_STATUS_NOTFOUND and j = 1 and i = 1])
     (simp_all add: source_ok_def bare_source_def NSS_STATUS_MAX_def nss_index_def set_action_def strcase_eq_def lower_def tolower_def)

end
