(* ===== verification/Sources.thy ===== *)
theory Sources
  imports Nsswitch Args
begin

text \<open>
  The map sources of a master map entry, \<^verbatim>\<open>daemon/master.c\<close>: the list of sources that the lines
  of the master map name for a mount point, each with its cache, and below a source the
  instances that the name service switch gives rise to, which share the cache of the source.
  A pointer to a source is its address (\<open>ms_id\<close>).
\<close>

section \<open>Data\<close>

record source_body =
  ms_id :: addr
  ms_ref :: nat
  ms_amd :: bool
  ms_type :: "string option"
  ms_format :: "string option"
  ms_name :: "string option"
  ms_exp_timeout :: time
  ms_age :: time
  ms_master_line :: nat
  ms_stale :: bool
  ms_recurse :: bool
  ms_depth :: nat
  ms_lookup :: bool
  ms_argv :: argv

datatype msource = Msource (ms_body: source_body) (ms_instance: "msource list")

definition on_body :: "(source_body \<Rightarrow> source_body) \<Rightarrow> msource \<Rightarrow> msource" where
  "on_body f s = Msource (f (ms_body s)) (ms_instance s)"

lemma on_body_sel [simp]:
  "ms_body (on_body f s) = f (ms_body s)" "ms_instance (on_body f s) = ms_instance s"
  by (simp_all add: on_body_def)

text \<open>The sources of an entry of the master map with their caches.\<close>

record master_mapent =
  mm_path :: string
  mm_age :: time
  mm_maps :: "(msource \<times> mapent_cache) list"
  mm_brk :: addr
  mm_mem :: mem

text \<open>The pointers of a vector that could not be copied are freed although they were never set.\<close>

datatype source_fault = SOURCE_WILD_FREE

section \<open>Adding and finding sources\<close>

definition compare_source_type_and_format :: "source_body \<Rightarrow> string option \<Rightarrow> string option \<Rightarrow> bool" where
  "compare_source_type_and_format src type format \<longleftrightarrow>
     (case type of Some t \<Rightarrow> (case ms_type src of None \<Rightarrow> False | Some u \<Rightarrow> u = t) | None \<Rightarrow> ms_type src = None)
     \<and> (case format of Some t \<Rightarrow> (case ms_format src of None \<Rightarrow> False | Some u \<Rightarrow> u = t) | None \<Rightarrow> ms_format src = None)"

definition same_source :: "string option \<Rightarrow> string option \<Rightarrow> argv \<Rightarrow> source_body \<Rightarrow> bool" where
  "same_source type format argv src \<longleftrightarrow>
     compare_source_type_and_format src type format \<and> compare_argv (ms_argv src) argv"

definition master_find_map_source :: "master_mapent \<Rightarrow> string option \<Rightarrow> string option \<Rightarrow> argv \<Rightarrow> msource option" where
  "master_find_map_source entry type format argv =
     find (\<lambda>s. same_source type format argv (ms_body s)) (map fst (mm_maps entry))"

text \<open>\<open>strdup\<close> of a string that may be \<open>NULL\<close>: whether it succeeded.\<close>

definition dup_opt :: "string option \<Rightarrow> mem \<Rightarrow> bool \<times> mem" where
  "dup_opt s m = (case s of None \<Rightarrow> (True, m) | Some _ \<Rightarrow> malloc m)"

definition first_arg :: "argv \<Rightarrow> string option" where
  "first_arg argv = (case argv of [] \<Rightarrow> None | a # _ \<Rightarrow> a)"

text \<open>
  What \<open>master_add_map_source\<close> and \<open>master_add_source_instance\<close> do first: the new source, unless an
  allocation fails. A failure to copy the name is not noticed.
\<close>

definition new_source ::
  "addr \<Rightarrow> nat \<Rightarrow> string option \<Rightarrow> string option \<Rightarrow> time \<Rightarrow> time \<Rightarrow> argv \<Rightarrow> string option \<Rightarrow> mem
     \<Rightarrow> (source_fault + source_body option) \<times> mem" where
  "new_source a ref type format timeout age argv name m =
     (case malloc m of
        (False, m1) \<Rightarrow> (Inr None, m1)
      | (True, m1) \<Rightarrow>
          (case dup_opt type m1 of
             (False, m2) \<Rightarrow> (Inr None, m2)
           | (True, m2) \<Rightarrow>
               (case dup_opt format m2 of
                  (False, m3) \<Rightarrow> (Inr None, m3)
                | (True, m3) \<Rightarrow>
                    (case copy_argv argv m3 of
                       (Inl ARGV_NULL, m4) \<Rightarrow> (Inr None, m4)
                     | (Inl ARGV_WILD_FREE, m4) \<Rightarrow> (Inl SOURCE_WILD_FREE, m4)
                     | (Inr tmpargv, m4) \<Rightarrow>
                         (case dup_opt name m4 of
                            (ok, m5) \<Rightarrow>
                              (Inr (Some \<lparr>ms_id = a, ms_ref = ref, ms_amd = (format = Some ''amd''), ms_type = type, ms_format = format,
                                          ms_name = (if ok then name else None), ms_exp_timeout = timeout, ms_age = age,
                                          ms_master_line = 0, ms_stale = True, ms_recurse = False, ms_depth = 0, ms_lookup = False,
                                          ms_argv = tmpargv\<rparr>), m5))))))"

text \<open>
  \<open>master_add_map_source\<close>: the address of the source, or \<open>NULL\<close>; \<open>sz\<close> is the size of a cache's hash
  table and \<open>ap\<close> the mount point.
\<close>

definition link_source ::
  "u32 \<Rightarrow> addr \<Rightarrow> master_mapent \<Rightarrow> source_body \<Rightarrow> addr option \<times> master_mapent" where
  "link_source sz ap entry source =
     (case cache_init sz ap (ms_id source) (mm_mem entry) of
        (None, m) \<Rightarrow> (None, entry\<lparr>mm_mem := m\<rparr>)
      | (Some mc, m) \<Rightarrow>
          (Some (ms_id source),
           entry\<lparr>mm_mem := m, mm_brk := Suc (ms_id source), mm_maps := mm_maps entry @ [(Msource source [], mc)]\<rparr>))"

definition master_add_map_source ::
  "u32 \<Rightarrow> addr \<Rightarrow> master_mapent \<Rightarrow> string option \<Rightarrow> string option \<Rightarrow> time \<Rightarrow> argv
     \<Rightarrow> (source_fault + addr option) \<times> master_mapent" where
  "master_add_map_source sz ap entry type format age argv =
     (case new_source (mm_brk entry) 1 type format 0 age argv (first_arg argv) (mm_mem entry) of
        (Inl e, m) \<Rightarrow> (Inl e, entry\<lparr>mm_mem := m\<rparr>)
      | (Inr None, m) \<Rightarrow> (Inr None, entry\<lparr>mm_mem := m\<rparr>)
      | (Inr (Some source), m) \<Rightarrow>
          let entry1 = entry\<lparr>mm_mem := m\<rparr> in
          if mm_maps entry = [] then (case link_source sz ap entry1 source of (r, entry2) \<Rightarrow> (Inr r, entry2))
          else
            (case master_find_map_source entry type format (ms_argv source) of
               Some this \<Rightarrow>
                 (Inr (Some (ms_id (ms_body this))),
                  entry1\<lparr>mm_maps := map (\<lambda>(s, mc). (if ms_id (ms_body s) = ms_id (ms_body this)
                                                       then on_body (\<lambda>b. b\<lparr>ms_age := age\<rparr>) s else s, mc)) (mm_maps entry)\<rparr>)
             | None \<Rightarrow> (case link_source sz ap entry1 source of (r, entry2) \<Rightarrow> (Inr r, entry2))))"

section \<open>Instances\<close>

definition master_find_source_instance :: "msource \<Rightarrow> string option \<Rightarrow> string option \<Rightarrow> argv option \<Rightarrow> msource option" where
  "master_find_source_instance source type format argv =
     find (\<lambda>s. compare_source_type_and_format (ms_body s) type format
               \<and> (case argv of None \<Rightarrow> True | Some v \<Rightarrow> compare_argv (ms_argv (ms_body s)) v)) (ms_instance source)"

text \<open>The instance that was found or added, and the source with it.\<close>

definition master_add_source_instance ::
  "addr \<Rightarrow> msource \<Rightarrow> string option \<Rightarrow> string option \<Rightarrow> time \<Rightarrow> argv \<Rightarrow> mem
     \<Rightarrow> (source_fault + msource option \<times> msource) \<times> mem" where
  "master_add_source_instance a source type format age argv m =
     (case master_find_source_instance source type format (Some argv) of
        Some inst \<Rightarrow> (Inr (Some inst, source), m)
      | None \<Rightarrow>
          (case new_source a 0 type format (ms_exp_timeout (ms_body source)) age argv (ms_name (ms_body source)) m of
             (Inl e, m1) \<Rightarrow> (Inl e, m1)
           | (Inr None, m1) \<Rightarrow> (Inr (None, source), m1)
           | (Inr (Some new), m1) \<Rightarrow>
               (Inr (Some (Msource new []), Msource (ms_body source) (Msource new [] # ms_instance source)), m1)))"

fun check_stale_instances :: "msource \<Rightarrow> bool" where
  "check_stale_instances (Msource b is) = list_ex (\<lambda>i. ms_stale (ms_body i) \<or> check_stale_instances i) is"

fun clear_stale_instances :: "msource \<Rightarrow> msource" where
  "clear_stale_instances (Msource b is) =
     Msource b (map (\<lambda>i. on_body (\<lambda>b. b\<lparr>ms_stale := False\<rparr>) (clear_stale_instances i)) is)"

section \<open>Sources that are out of date\<close>

text \<open>\<open>send_map_update_request\<close>: whether a read of the maps is queued, and the sources.\<close>

fun send_map_update_request :: "(msource \<times> mapent_cache) list \<Rightarrow> bool \<times> (msource \<times> mapent_cache) list" where
  "send_map_update_request [] = (False, [])"
| "send_map_update_request ((src, mc) # maps) =
     (let src1 = (if check_stale_instances src then on_body (\<lambda>b. b\<lparr>ms_stale := True\<rparr>) src else src)
      in if ms_stale (ms_body src1) then (True, (src1, mc) # maps)
         else case send_map_update_request maps of (need, maps1) \<Rightarrow> (need, (src1, mc) # maps1))"

text \<open>\<open>check_update_map_sources\<close>: whether a read of the maps is queued, and the sources that are left.\<close>

fun update_sources :: "time \<Rightarrow> bool \<Rightarrow> (msource \<times> mapent_cache) list \<Rightarrow> bool \<times> (msource \<times> mapent_cache) list" where
  "update_sources entry_age readall [] = (False, [])"
| "update_sources entry_age readall ((source, mc) # maps) =
     (let source1 = (if readall then on_body (\<lambda>b. b\<lparr>ms_stale := True\<rparr>) source else source);
          (stale, maps1) = update_sources entry_age readall maps
      in if entry_age > ms_age (ms_body source1) then
           if cache_lookup_first mc = [] then (stale, maps1)
           else (True, (on_body (\<lambda>b. b\<lparr>ms_stale := True\<rparr>) source1, mc) # maps1)
         else (stale, (source1, mc) # maps1))"

definition check_update_map_sources :: "master_mapent \<Rightarrow> bool \<Rightarrow> bool \<times> master_mapent" where
  "check_update_map_sources entry readall =
     (case update_sources (mm_age entry) readall (mm_maps entry) of
        (stale, maps) \<Rightarrow> (readall \<or> stale, entry\<lparr>mm_maps := maps\<rparr>))"

section \<open>Entries of the master map\<close>

definition master_find_mapent :: "master_mapent list \<Rightarrow> string \<Rightarrow> master_mapent option" where
  "master_find_mapent mounts path = find (\<lambda>e. mm_path e = path) mounts"

definition first_amd :: "master_mapent \<Rightarrow> bool" where
  "first_amd entry = (case mm_maps entry of [] \<Rightarrow> False | (s, _) # _ \<Rightarrow> ms_amd (ms_body s))"

text \<open>\<open>master_partial_match_amd_mapent\<close>: 1 for the entry itself, -1 for a conflict, 0 for none.\<close>

fun master_partial_match_amd_mapent :: "master_mapent list \<Rightarrow> string \<Rightarrow> int" where
  "master_partial_match_amd_mapent [] path = 0"
| "master_partial_match_amd_mapent (entry # mounts) path =
     (let entry_len = length (mm_path entry); path_len = length path; cmp_len = min entry_len path_len
      in if \<not> strncmp_eq (mm_path entry) path cmp_len then master_partial_match_amd_mapent mounts path
         else if entry_len = path_len then if first_amd entry then 1 else - 1
         else if entry_len > path_len \<and> cstr_at (mm_path entry) path_len = Some (CHR ''/'') then - 1
         else if entry_len < path_len \<and> cstr_at path entry_len = Some (CHR ''/'') then - 1
         else master_partial_match_amd_mapent mounts path)"

end
