(* ===== verification/Sources_Props.thy ===== *)
theory Sources_Props
  imports Sources
begin

text \<open>
  The sources of a mount point: in every reachable state no two of them have the same type, format
  and arguments, they have different addresses and their caches are in order; a source that was
  added is found again; a source that left the master map goes once its cache is empty.
\<close>

section \<open>Comparing sources\<close>

definition source_sig :: "source_body \<Rightarrow> string option \<times> string option \<times> argv" where
  "source_sig b = (ms_type b, ms_format b, ms_argv b)"

lemma compare_source_eq: "compare_source_type_and_format b type format \<longleftrightarrow> ms_type b = type \<and> ms_format b = format"
  by (auto simp: compare_source_type_and_format_def split: option.splits)

lemma same_source_sig: "same_source type format argv b \<longleftrightarrow> source_sig b = (type, format, argv)"
  by (auto simp: same_source_def compare_source_eq compare_argv_iff source_sig_def)

lemma dup_args_Inr: "dup_args as m = (Inr v, m') \<Longrightarrow> v = as"
  by (induction as m arbitrary: v m' rule: dup_args.induct) (auto split: sum.splits prod.splits bool.splits)

lemma copy_argv_Inr: "copy_argv as m = (Inr v, m') \<Longrightarrow> v = as"
  by (auto simp: copy_argv_def split: prod.splits bool.splits sum.splits dest: dup_args_Inr)

lemma new_source_Some:
  assumes "new_source a ref type format timeout age argv name m = (Inr (Some b), m')"
  shows "source_sig b = (type, format, argv)" "ms_id b = a" "ms_age b = age" "ms_stale b"
  using assms
  by (auto simp: new_source_def source_sig_def split: prod.splits bool.splits sum.splits argv_error.splits dest: copy_argv_Inr)

section \<open>The invariant\<close>

definition body_list :: "(msource \<times> mapent_cache) list \<Rightarrow> source_body list" where
  "body_list maps = map (\<lambda>(s, mc). ms_body s) maps"

lemma body_list_simps [simp]:
  "body_list [] = []" "body_list ((s, mc) # maps) = ms_body s # body_list maps" "body_list (xs @ ys) = body_list xs @ body_list ys"
  by (simp_all add: body_list_def)

abbreviation bodies :: "master_mapent \<Rightarrow> source_body list" where
  "bodies entry \<equiv> body_list (mm_maps entry)"

definition sources_ok :: "master_mapent \<Rightarrow> bool" where
  "sources_ok entry \<longleftrightarrow>
     distinct (map source_sig (bodies entry)) \<and> distinct (map ms_id (bodies entry))
     \<and> (\<forall>b \<in> set (bodies entry). ms_id b < mm_brk entry) \<and> (\<forall>(s, mc) \<in> set (mm_maps entry). cache_ok mc)"

lemma sources_ok_mem [simp]: "sources_ok (entry\<lparr>mm_mem := m\<rparr>) = sources_ok entry"
  by (simp add: sources_ok_def)

lemma link_source_ok:
  assumes ok: "sources_ok entry" and sz: "sz \<noteq> 0" and b: "source_sig b \<notin> source_sig ` set (bodies entry)" "ms_id b = mm_brk entry"
    and r: "link_source sz ap entry b = (r, entry')"
  shows "sources_ok entry' \<and> (r = None \<and> mm_maps entry' = mm_maps entry \<or> r = Some (ms_id b) \<and> (\<exists>mc. mm_maps entry' = mm_maps entry @ [(Msource b [], mc)]))"
proof (cases "cache_init sz ap (ms_id b) (mm_mem entry)")
  case (Pair mco m)
  show ?thesis
  proof (cases mco)
    case None
    then show ?thesis using r Pair ok by (auto simp: link_source_def)
  next
    case (Some mc)
    have "cache_ok mc" using Pair Some empty_cache_ok [OF sz] by (auto simp: cache_init_def cache_alloc_def Let_def split: prod.splits if_splits)
    moreover have "ms_id b \<notin> ms_id ` set (bodies entry)" using ok b(2) by (force simp: sources_ok_def)
    ultimately show ?thesis using r Pair Some ok b
      by (auto simp: link_source_def sources_ok_def less_SucI)
  qed
qed

lemma find_SomeD: "find P xs = Some x \<Longrightarrow> P x \<and> x \<in> set xs"
  by (auto simp: find_Some_iff)

lemma body_listI: "s \<in> set (map fst maps) \<Longrightarrow> ms_body s \<in> set (body_list maps)"
  by (force simp: body_list_def)

lemma find_source_id:
  "master_find_map_source entry type format argv = Some s \<Longrightarrow>
     ms_body s \<in> set (bodies entry) \<and> source_sig (ms_body s) = (type, format, argv)"
proof -
  assume "master_find_map_source entry type format argv = Some s"
  from find_SomeD [OF this [unfolded master_find_map_source_def]] show ?thesis using body_listI same_source_sig by simp
qed

lemma find_source_None:
  "master_find_map_source entry type format argv = None \<Longrightarrow> (type, format, argv) \<notin> source_sig ` set (bodies entry)"
  by (force simp: master_find_map_source_def find_None_iff same_source_sig body_list_def)

lemma set_age_bodies:
  "body_list (map (\<lambda>(s, mc). (if ms_id (ms_body s) = a then on_body (\<lambda>b. b\<lparr>ms_age := age\<rparr>) s else s, mc)) maps) =
     map (\<lambda>b. if ms_id b = a then b\<lparr>ms_age := age\<rparr> else b) (body_list maps)"
  by (auto simp: body_list_def)

lemma source_sig_upd [simp]:
  "source_sig (b\<lparr>ms_age := t\<rparr>) = source_sig b" "source_sig (b\<lparr>ms_stale := x\<rparr>) = source_sig b"
  by (simp_all add: source_sig_def)

lemma map_update_keeps:
  assumes "\<And>b. source_sig (f b) = source_sig b" "\<And>b. ms_id (f b) = ms_id b"
  shows "map source_sig (map f bs) = map source_sig bs" "map ms_id (map f bs) = map ms_id bs"
  using assms by simp_all

text \<open>The source that \<open>master_add_map_source\<close> returns is the one of that type, format and arguments.\<close>

lemma add_map_source_cases:
  assumes ok: "sources_ok entry" and sz: "sz \<noteq> 0"
    and add: "master_add_map_source sz ap entry type format age argv = (res, entry')"
  shows "sources_ok entry'
    \<and> (case res of
          Inr (Some a) \<Rightarrow> (\<exists>b \<in> set (bodies entry'). ms_id b = a \<and> source_sig b = (type, format, argv) \<and> ms_age b = age)
            \<and> (\<forall>b. source_sig b \<noteq> (type, format, argv) \<longrightarrow> b \<in> set (bodies entry') \<longleftrightarrow> b \<in> set (bodies entry))
        | _ \<Rightarrow> mm_maps entry' = mm_maps entry)"
proof -
  obtain r m where new: "new_source (mm_brk entry) 1 type format 0 age argv (first_arg argv) (mm_mem entry) = (r, m)" by fastforce
  show ?thesis
  proof (cases r)
    case (Inl e)
    then show ?thesis using add new ok by (auto simp: master_add_map_source_def)
  next
    case (Inr bo)
    show ?thesis
    proof (cases bo)
      case None
      then show ?thesis using add new ok Inr by (auto simp: master_add_map_source_def)
    next
      case (Some b)
      note b = new_source_Some [OF new [unfolded Inr Some]]
      let ?e1 = "entry\<lparr>mm_mem := m\<rparr>"
      have linked: ?thesis if l: "link_source sz ap ?e1 b = (x, entry')" "res = Inr x" "source_sig b \<notin> source_sig ` set (bodies entry)" for x
      proof -
        have "sources_ok entry' \<and> (x = None \<and> mm_maps entry' = mm_maps entry \<or> x = Some (ms_id b) \<and> (\<exists>mc. mm_maps entry' = mm_maps entry @ [(Msource b [], mc)]))"
          using link_source_ok [of ?e1 sz b ap x entry'] ok sz l b(2) by simp
        then show ?thesis using l(2) b by auto
      qed
      show ?thesis
      proof (cases "master_find_map_source entry type format (ms_argv b)")
        case None
        then have none: "source_sig b \<notin> source_sig ` set (bodies entry)" using find_source_None b(1) by (auto simp: source_sig_def)
        obtain x e2 where l: "link_source sz ap ?e1 b = (x, e2)" by fastforce
        then have "res = Inr x \<and> entry' = e2" using add new Inr Some None by (auto simp: master_add_map_source_def Let_def split: if_splits)
        then show ?thesis using linked [of x] l none by simp
      next
        case (Some s0)
        have th: "ms_body s0 \<in> set (bodies entry)" "source_sig (ms_body s0) = (type, format, argv)"
          using find_source_id [OF Some] b(1) by (auto simp: source_sig_def)
        from th(1) have ne: "mm_maps entry \<noteq> []" by auto
        let ?f = "\<lambda>x. if ms_id x = ms_id (ms_body s0) then x\<lparr>ms_age := age\<rparr> else x"
        have res: "res = Inr (Some (ms_id (ms_body s0)))" and e': "bodies entry' = map ?f (bodies entry)" "mm_brk entry' = mm_brk entry"
          "snd ` set (mm_maps entry') = snd ` set (mm_maps entry)"
          using add new Inr \<open>bo = Some b\<close> Some ne by (auto simp: master_add_map_source_def set_age_bodies image_iff) force+
        have "map source_sig (bodies entry') = map source_sig (bodies entry)" "map ms_id (bodies entry') = map ms_id (bodies entry)"
          unfolding e'(1) by (rule map_update_keeps; simp)+
        moreover have "\<forall>x \<in> set (bodies entry'). ms_id x < mm_brk entry" using ok e'(1) by (auto simp: sources_ok_def)
        moreover have "\<forall>(s, mc) \<in> set (mm_maps entry'). cache_ok mc" using ok e'(3) by (force simp: sources_ok_def)
        ultimately have "sources_ok entry'" using ok e'(2) by (simp add: sources_ok_def)
        moreover have "x = ms_body s0" if "x \<in> set (bodies entry)" "ms_id x = ms_id (ms_body s0)" for x
          using ok th(1) that by (auto simp: sources_ok_def distinct_map dest: inj_onD)
        then have "\<forall>x. source_sig x \<noteq> (type, format, argv) \<longrightarrow> x \<in> set (bodies entry') \<longleftrightarrow> x \<in> set (bodies entry)"
          using th(2) unfolding e'(1) by (auto simp: image_iff split: if_splits) (metis source_sig_upd(1))+
        moreover have "\<exists>x \<in> set (bodies entry'). ms_id x = ms_id (ms_body s0) \<and> source_sig x = (type, format, argv) \<and> ms_age x = age"
          using imageI [OF th(1), of ?f] th(2) unfolding e'(1) by (intro bexI [of _ "?f (ms_body s0)"]) simp_all
        ultimately show ?thesis using res by simp
      qed
    qed
  qed
qed

lemma update_sources_list:
  "update_sources t readall maps =
     (list_ex (\<lambda>(s, mc). t > ms_age (ms_body s) \<and> cache_lookup_first mc \<noteq> []) maps,
      map (\<lambda>(s, mc). (if readall \<or> t > ms_age (ms_body s) then on_body (\<lambda>b. b\<lparr>ms_stale := True\<rparr>) s else s, mc))
        (filter (\<lambda>(s, mc). \<not> (t > ms_age (ms_body s) \<and> cache_lookup_first mc = [])) maps))"
  by (induction t readall maps rule: update_sources.induct) (auto simp: Let_def on_body_def split: if_splits)

lemma stale_bodies:
  "body_list (map (\<lambda>(s, mc). (if P s mc then on_body (\<lambda>b. b\<lparr>ms_stale := True\<rparr>) s else s, mc)) maps) =
     map (\<lambda>(s, mc). if P s mc then (ms_body s)\<lparr>ms_stale := True\<rparr> else ms_body s) maps"
  by (auto simp: body_list_def)

text \<open>Sources may be left out and their \<open>stale\<close> flags changed.\<close>

lemma sources_ok_subset:
  assumes ok: "sources_ok entry"
    and maps: "maps = map (\<lambda>(s, mc). (if P s mc then on_body (\<lambda>b. b\<lparr>ms_stale := True\<rparr>) s else s, mc)) (filter Q (mm_maps entry))"
  shows "sources_ok (entry\<lparr>mm_maps := maps\<rparr>)"
proof -
  have key: "map g (body_list maps) = map g (body_list (filter Q (mm_maps entry)))"
    if "\<And>b x. g (b\<lparr>ms_stale := x\<rparr>) = g b" for g :: "source_body \<Rightarrow> 'b"
    unfolding maps stale_bodies using that by (auto simp: body_list_def)
  have fil: "distinct (map g (body_list (filter Q (mm_maps entry))))" if "distinct (map g (bodies entry))" for g :: "source_body \<Rightarrow> 'b"
    using that by (simp add: body_list_def comp_def distinct_map_filter split_beta)
  have "ms_id ` set (body_list maps) = ms_id ` set (body_list (filter Q (mm_maps entry)))"
    using arg_cong [OF key [of ms_id], of set] by simp
  moreover have "set (body_list (filter Q (mm_maps entry))) \<subseteq> set (bodies entry)" by (auto simp: body_list_def)
  ultimately have "ms_id ` set (body_list maps) \<subseteq> ms_id ` set (bodies entry)" by blast
  then have "\<forall>b \<in> set (body_list maps). ms_id b < mm_brk entry" using ok unfolding sources_ok_def by fastforce
  moreover have "\<forall>(s, mc) \<in> set maps. cache_ok mc" using ok by (auto simp: maps sources_ok_def)
  ultimately show ?thesis using ok fil [of source_sig] fil [of ms_id] key [of source_sig] key [of ms_id] by (simp add: sources_ok_def)
qed

lemma update_sources_ok:
  "sources_ok entry \<Longrightarrow> sources_ok (snd (check_update_map_sources entry readall))"
  unfolding check_update_map_sources_def update_sources_list prod.case snd_conv
  by (rule sources_ok_subset [where P = "\<lambda>s mc. readall \<or> mm_age entry > ms_age (ms_body s)"]) simp_all

lemma send_request_ok: "sources_ok entry \<Longrightarrow> sources_ok (entry\<lparr>mm_maps := snd (send_map_update_request (mm_maps entry))\<rparr>)"
proof -
  assume ok: "sources_ok entry"
  have key: "map g (body_list (snd (send_map_update_request maps))) = map g (body_list maps)"
    if "\<And>b x. g (b\<lparr>ms_stale := x\<rparr>) = g b" for g :: "source_body \<Rightarrow> 'b" and maps
    using that by (induction maps rule: send_map_update_request.induct) (auto simp: Let_def split: prod.splits)
  have mcs: "map snd (snd (send_map_update_request maps)) = map snd maps" for maps
    by (induction maps rule: send_map_update_request.induct) (auto simp: Let_def split: prod.splits)
  have "ms_id ` set (body_list (snd (send_map_update_request (mm_maps entry)))) = ms_id ` set (bodies entry)"
    using arg_cong [OF key [of ms_id "mm_maps entry"], of set] by simp
  moreover have "\<forall>a \<in> ms_id ` set (bodies entry). a < mm_brk entry" using ok by (simp add: sources_ok_def)
  ultimately have "\<forall>a \<in> ms_id ` set (body_list (snd (send_map_update_request (mm_maps entry)))). a < mm_brk entry" by simp
  then have "\<forall>b \<in> set (body_list (snd (send_map_update_request (mm_maps entry)))). ms_id b < mm_brk entry" by simp
  moreover have "\<forall>(s, mc) \<in> set (snd (send_map_update_request (mm_maps entry))). cache_ok mc"
  proof -
    have "\<forall>mc \<in> set (map snd (mm_maps entry)). cache_ok mc" using ok by (auto simp: sources_ok_def)
    then have "\<forall>mc \<in> set (map snd (snd (send_map_update_request (mm_maps entry)))). cache_ok mc" by (simp only: mcs)
    then show ?thesis by auto
  qed
  ultimately show ?thesis using ok key [of source_sig "mm_maps entry"] key [of ms_id "mm_maps entry"] by (simp add: sources_ok_def)
qed

section \<open>Reachable states\<close>

datatype source_op = OpAddSource "string option" "string option" time argv | OpUpdateSources bool | OpRequest | OpMasterAge time

inductive source_step :: "u32 \<Rightarrow> addr \<Rightarrow> master_mapent \<Rightarrow> source_op \<Rightarrow> master_mapent \<Rightarrow> bool" for sz ap where
  "master_add_map_source sz ap entry type format age argv = (res, entry') \<Longrightarrow>
     source_step sz ap entry (OpAddSource type format age argv) entry'"
| "source_step sz ap entry (OpUpdateSources readall) (snd (check_update_map_sources entry readall))"
| "source_step sz ap entry OpRequest (entry\<lparr>mm_maps := snd (send_map_update_request (mm_maps entry))\<rparr>)"
| "source_step sz ap entry (OpMasterAge age) (entry\<lparr>mm_age := age\<rparr>)"

inductive_cases source_stepE: "source_step sz ap entry op entry'"

abbreviation fresh_entry :: "master_mapent \<Rightarrow> bool" where
  "fresh_entry entry \<equiv> mm_maps entry = []"

interpretation source_sys: transition_system fresh_entry "source_step sz ap" "\<lambda>entry. sz \<noteq> 0 \<longrightarrow> sources_ok entry" for sz ap
proof
  fix entry :: master_mapent
  assume "fresh_entry entry"
  then show "sz \<noteq> 0 \<longrightarrow> sources_ok entry" by (simp add: sources_ok_def)
next
  fix s e t
  assume "sz \<noteq> 0 \<longrightarrow> sources_ok s" "source_step sz ap s e t"
  then show "sz \<noteq> 0 \<longrightarrow> sources_ok t"
    by (auto elim!: source_stepE simp: update_sources_ok send_request_ok dest: add_map_source_cases) (simp add: sources_ok_def)
qed


definition blank_entry :: "string \<Rightarrow> master_mapent" where
  "blank_entry path = \<lparr>mm_path = path, mm_age = 0, mm_maps = [], mm_brk = 0, mm_mem = []\<rparr>"


section \<open>Adding and updating\<close>

lemma dup_opt_ample: "mem_ample m \<Longrightarrow> \<exists>m'. dup_opt s m = (True, m') \<and> mem_ample m'"
  by (cases s) (auto simp: dup_opt_def elim: mem_ampleE)

lemma new_source_ample:
  assumes "mem_ample m"
  shows "\<exists>b m'. new_source a ref type format timeout age argv name m = (Inr (Some b), m') \<and> mem_ample m'"
proof -
  obtain m1 where m1: "malloc m = (True, m1)" "mem_ample m1" using mem_ampleE [OF assms] .
  obtain m2 where m2: "dup_opt type m1 = (True, m2)" "mem_ample m2" using dup_opt_ample [OF m1(2)] by blast
  obtain m3 where m3: "dup_opt format m2 = (True, m3)" "mem_ample m3" using dup_opt_ample [OF m2(2)] by blast
  obtain n where n: "malloc m3 = (True, n)" "mem_ample n" using mem_ampleE [OF m3(2)] .
  obtain m4 where "dup_args argv n = (Inr argv, m4)" "mem_ample m4" using dup_args_ample [OF n(2)] by blast
  with n have m4: "copy_argv argv m3 = (Inr argv, m4)" "mem_ample m4" by (simp_all add: copy_argv_def)
  obtain m5 where "dup_opt name m4 = (True, m5)" "mem_ample m5" using dup_opt_ample [OF m4(2)] by blast
  then show ?thesis using m1 m2 m3 m4 by (simp add: new_source_def)
qed

lemma cache_init_ample: "mem_ample m \<Longrightarrow> \<exists>mc m'. cache_init sz ap a m = (Some mc, m')"
proof -
  assume "mem_ample m"
  then obtain m1 where m1: "malloc m = (True, m1)" "mem_ample m1" using mem_ampleE by blast
  then obtain m2 where m2: "malloc m1 = (True, m2)" "mem_ample m2" using mem_ampleE by blast
  then obtain m3 where m3: "malloc m2 = (True, m3)" using mem_ampleE by blast
  show ?thesis using m1 m2 m3 by (simp add: cache_init_def cache_alloc_def)
qed

text \<open>
  adding a source for a line of the master map succeeds while there is memory; the source is found
  again under its type, format and arguments, with the time of the read, and the sources with
  another type, format or other arguments are as before.
\<close>

theorem add_map_source_found:
  assumes "sources_ok entry" "sz \<noteq> 0" "mem_ample (mm_mem entry)"
  shows "\<exists>a entry' s. master_add_map_source sz ap entry type format age argv = (Inr (Some a), entry') \<and> sources_ok entry'
    \<and> master_find_map_source entry' type format argv = Some s \<and> ms_id (ms_body s) = a \<and> ms_age (ms_body s) = age
    \<and> (\<forall>b. source_sig b \<noteq> (type, format, argv) \<longrightarrow> b \<in> set (bodies entry') \<longleftrightarrow> b \<in> set (bodies entry))"
proof -
  obtain res entry' where add: "master_add_map_source sz ap entry type format age argv = (res, entry')" by fastforce
  obtain b m where new: "new_source (mm_brk entry) 1 type format 0 age argv (first_arg argv) (mm_mem entry) = (Inr (Some b), m)" and m: "mem_ample m"
    using new_source_ample [OF assms(3)] by blast
  obtain mc m' where init: "cache_init sz ap (ms_id b) m = (Some mc, m')" using cache_init_ample [OF m] by blast
  have "\<exists>a. res = Inr (Some a)" using add new init by (auto simp: master_add_map_source_def link_source_def Let_def split: if_splits option.splits)
  then obtain a where a: "res = Inr (Some a)" by blast
  note c = add_map_source_cases [OF assms(1,2) add, unfolded a, simplified]
  obtain x where x: "x \<in> set (bodies entry')" "ms_id x = a" "source_sig x = (type, format, argv)" "ms_age x = age" using c by blast
  have "master_find_map_source entry' type format argv \<noteq> None" using find_source_None [of entry' type format argv] x(1,3) by force
  then obtain s where s: "master_find_map_source entry' type format argv = Some s" by blast
  have "inj_on source_sig (set (bodies entry'))" using c unfolding sources_ok_def distinct_map by blast
  then have "ms_body s = x" using find_source_id [OF s] x(1,3) by (simp add: inj_on_def)
  then show ?thesis using add a s x c by auto
qed

theorem add_map_source_found_witness:
  "\<exists>a entry' s. master_add_map_source 7 0 (blank_entry ''/home'') (Some ''file'') None 3 [Some ''/etc/auto.home''] = (Inr (Some a), entry')
    \<and> master_find_map_source entry' (Some ''file'') None [Some ''/etc/auto.home''] = Some s \<and> ms_age (ms_body s) = 3"
  using add_map_source_found [of "blank_entry ''/home''" 7 0 "Some ''file''" None 3 "[Some ''/etc/auto.home'']"]
  by (auto simp: sources_ok_def blank_entry_def)

text \<open>
  an update of the sources after the master map was read takes away exactly the sources that the
  read has not seen and whose cache has no entry left; those it has not seen but still have entries
  become stale, as do all sources when everything is to be read; a read of the maps is queued exactly then.
\<close>

theorem check_update_sources_correct:
  assumes "check_update_map_sources entry readall = (queued, entry')"
  defines "gone \<equiv> \<lambda>s. ms_age (ms_body s) < mm_age entry"
  shows "map (\<lambda>(s, mc). (ms_id (ms_body s), mc)) (mm_maps entry') =
      map (\<lambda>(s, mc). (ms_id (ms_body s), mc)) (filter (\<lambda>(s, mc). \<not> (gone s \<and> cache_lookup_first mc = [])) (mm_maps entry))
    \<and> (\<forall>(s', mc) \<in> set (mm_maps entry'). \<exists>s. (s, mc) \<in> set (mm_maps entry)
          \<and> s' = (if readall \<or> gone s then on_body (\<lambda>b. b\<lparr>ms_stale := True\<rparr>) s else s))
    \<and> (queued \<longleftrightarrow> readall \<or> (\<exists>(s, mc) \<in> set (mm_maps entry'). gone s))"
proof -
  have e: "mm_maps entry' = map (\<lambda>(s, mc). (if readall \<or> gone s then on_body (\<lambda>b. b\<lparr>ms_stale := True\<rparr>) s else s, mc))
        (filter (\<lambda>(s, mc). \<not> (gone s \<and> cache_lookup_first mc = [])) (mm_maps entry))"
    and q: "queued \<longleftrightarrow> readall \<or> (\<exists>(s, mc) \<in> set (mm_maps entry). gone s \<and> cache_lookup_first mc \<noteq> [])"
    using assms(1) by (auto simp: check_update_map_sources_def update_sources_list gone_def list_ex_iff)
  show ?thesis
  proof (intro conjI)
    show "queued \<longleftrightarrow> readall \<or> (\<exists>(s, mc) \<in> set (mm_maps entry'). gone s)"
      unfolding q e by (auto simp: gone_def)
  qed (auto simp: e)
qed

theorem check_update_sources_correct_witness:
  "\<exists>entry'. check_update_map_sources (blank_entry ''/home'') True = (True, entry') \<and> mm_maps entry' = []"
  using check_update_sources_correct [of "blank_entry ''/home''" True "fst (check_update_map_sources (blank_entry ''/home'') True)" "snd (check_update_map_sources (blank_entry ''/home'') True)"]
  by (cases "check_update_map_sources (blank_entry ''/home'') True") (auto simp: blank_entry_def)

end
