(* ===== verification/Spec2Isabelle.thy ===== *)
theory Spec2Isabelle
  imports Cache_Props Macros State_Props Args Parse_Props Quoting Config_File Lookup_File_Props Parse_Sun_Props Mnts_Props Mount_Table_Props Offsets Parse_Mount_Props Base64 Replicated_Props Prune_Props Sources_Props
begin

text \<open>
  A verification development for autofs, the Linux automounter daemon.

  \<^bold>\<open>The program.\<close> The daemon watches mount points; a lookup module finds the entry of a name in a
  map, a parse module expands and splits the entry, a mount module mounts it, and idle mounts
  are expired. The parts modelled here and how they meet:

  \<^item> Lookup modules fill the \<^emph>\<open>map entry cache\<close> of each map and prune it by age
    (\<^verbatim>\<open>lib/cache.c\<close>; theories \<open>Hash\<close>, \<open>Cache\<close>, \<open>Cache_Lemmas\<close>, \<open>Cache_Props\<close>). The record
    \<open>mapent_cache\<close> is \<^verbatim>\<open>struct mapent_cache\<close>: an array of chains, the inode index, the entries with
    an identity (\<open>me_id\<close>) in place of their address. Walks that return a pointer into a chain
    return the chain from there on. A step that the C code does not finish or that uses a
    dangling pointer is \<open>None\<close>. Pruning (\<^verbatim>\<open>lookup_prune_one_cache\<close> of \<^verbatim>\<open>daemon/lookup.c\<close>; theories
    \<open>Prune\<close>, \<open>Prune_Props\<close>) walks over a cache by addresses and compares it with the caches of the
    other sources.
  \<^item> The \<^emph>\<open>map sources\<close> of a mount point and their instances (\<^verbatim>\<open>daemon/master.c\<close>; theories \<open>Sources\<close>,
    \<open>Sources_Props\<close>) own the caches; the \<^emph>\<open>name service switch\<close> (\<^verbatim>\<open>lib/nsswitch.c\<close>; theory \<open>Nsswitch\<close>)
    decides after which source a lookup ends.
  \<^item> The lookup module for \<^emph>\<open>map files\<close> (\<^verbatim>\<open>modules/lookup_file.c\<close>; theories \<open>Map_File\<close>, the character
    automaton of the reader, \<open>Lookup_File\<close> and \<open>Lookup_File_Props\<close>) reads a map into the cache, looks up
    keys and wildcards and hands the entry of a request to a parser.
  \<^item> The \<^emph>\<open>sun map parser\<close> (\<^verbatim>\<open>modules/parse_sun.c\<close>; theories \<open>Parse_Sun\<close>, \<open>Parse_Sun_Props\<close>, \<open>Parse_Mount\<close>,
    \<open>Parse_Mount_Props\<close>) expands an entry, gathers options, takes multi-mounts apart into offsets and
    arrives at the call of a mount module.
  \<^item> \<^emph>\<open>Server selection\<close> (\<^verbatim>\<open>modules/replicated.c\<close>; theories \<open>Replicated\<close>, \<open>Replicated_Props\<close>) turns a location
    into an ordered list of hosts and probes them; the answers of the network are arguments.
  \<^item> \<^emph>\<open>Mounts\<close> (\<^verbatim>\<open>lib/mounts.c\<close>; theories \<open>Mount_Tree\<close>, the generic tree behind the locale
    \<open>tree_order\<close>, \<open>Mnts\<close> and \<open>Mnts_Props\<close>, the table of mounts and its reference counts, \<open>Mount_Table\<close> and
    \<open>Mount_Table_Props\<close>, the kernel's mount table, \<open>Offsets\<close>, the trees of offsets inside map entries).
  \<^item> \<open>Base64\<close>: the coder of \<^verbatim>\<open>modules/base64.c\<close> for the credentials of the LDAP module.
  \<^item> Map parsers substitute \<^emph>\<open>macros\<close> and take strings apart (\<^verbatim>\<open>lib/macros.c\<close>, parts of
    \<^verbatim>\<open>lib/mounts.c\<close>, \<^verbatim>\<open>lib/parse_subs.c\<close>, \<^verbatim>\<open>lib/args.c\<close>, \<^verbatim>\<open>lib/cat_path.c\<close>; theories \<open>Macros\<close>,
    \<open>Parse_Subs\<close>, \<open>Parse_Props\<close>, \<open>Quoting\<close>, \<open>Args\<close>).
  \<^item> The \<^emph>\<open>alarm queue\<close> (\<^verbatim>\<open>lib/alarm.c\<close>; theory \<open>Alarm\<close>) tells the \<^emph>\<open>state queue\<close>
    (\<^verbatim>\<open>daemon/state.c\<close>; theories \<open>State\<close>, \<open>State_Lemmas\<close>, \<open>State_Props\<close>) to expire a mount point;
    signals reach it through \<^verbatim>\<open>master_notify_state_change\<close> of \<^verbatim>\<open>daemon/master.c\<close>. Both are transition
    systems: one step per critical section of a thread.
  \<^item> The \<^emph>\<open>configuration\<close> (\<^verbatim>\<open>lib/defaults.c\<close>; theories \<open>Defaults\<close>, \<open>Defaults_Props\<close>,
    \<open>Config_File\<close>) supplies the numbers and names the other parts use.

  \<^bold>\<open>Conventions.\<close> \<open>Prelude\<close> holds the C vocabulary: a \<open>string\<close> is the text in front of the
  terminating NUL (\<open>cstring\<close> says that there is no NUL in it); allocation is an oracle (\<open>mem\<close>, a
  list of outcomes consumed by \<open>malloc\<close>, success once it is used up), so that every failure path
  of the code is a branch of the model; machine integers are words or \<open>int\<close> with the truncation
  written out. \<open>transition_system\<close> is the locale through which the invariants of the cache, the
  alarm thread, the daemon, the mounts, the map sources and the configuration are proved; \<open>Interfaces\<close> has the contracts of a
  store that is filled from a map and of a table of named values, with their interpretations in
  \<open>Cache_Props\<close> and \<open>Macros\<close>.

  \<^bold>\<open>What is shown.\<close> For the cache: the invariant of every reachable state, that enumeration visits
  each primary entry once, lookup after update and delete, reading a whole map as an update of an
  abstract map, the inode index, offsets, negative entries. For the state queue: at most one task
  and one worker per mount point, a waiting task is started by the handler's next pass, signals
  queue a shutdown, the state after an expire run. For the alarms: the order of the queue, that
  exactly the due alarms fire. For the string routines: merging of options against a reference
  definition, the counted space of macro expansion suffices, quoting round trips, clean paths. For
  the configuration: the table's invariant, update and lookup, the meaning of a file as a list of
  settings, defaults and truncation of numbers. For map files: what lines the reader sees, that a read
  stores the map's entries, that a request parses the right one. For the sources: no two are the
  same, a source that was added is found, the updates after a read of the master map; for pruning:
  what becomes of every entry, and that the walk ends where keys are unique. For the sun parser:
  entries are split into what they were made of, macros are replaced as in a reference definition
  and fit their buffer, a plain entry gives one call of a mount module with its options, the cache
  stays well formed. For mounts: the invariant of the mount table, the order of the expire list,
  complete walks over offset trees, the round trip of the mount table's lines. For server selection:
  order and version of the pruned list, the round trip of locations. Theorems of kind \<open>error\<close> state where the code
  writes outside a buffer, loses an entry or does not end.

  \<^bold>\<open>Fuel and bounds.\<close> Loops are structural or have termination proofs; the loops that may not
  end in C (\<open>cache_lookup_key_next\<close>, walks over a cyclic list) are \<open>partial_function\<close>s or option
  valued with \<open>None\<close> for divergence, and the theorems say when the value is \<open>Some\<close> (\<open>prune_loop\<close>: when
  every key has one entry; \<open>prune_never_ends\<close> shows a run without end otherwise).

  \<^bold>\<open>Not modelled.\<close> The kernel interface, process creation, the network (RPC, LDAP, NIS, SSS,
  resolver), logging output, freeing of memory and locking primitives as such: they are system
  calls or libraries outside the repository. The dispatch to lookup modules opened with \<^verbatim>\<open>dlopen\<close>
  (\<^verbatim>\<open>lookup_nss_read_map\<close>, \<^verbatim>\<open>lookup_nss_mount\<close>), the amd map parser and the yacc grammars are not
  modelled either. Runs of \<open>Prune\<close> are those of one thread. The manifest lists every part with its
  reason.
\<close>

end
